(* ===== verification/Prelude.thy ===== *)
theory Prelude
  imports Main "HOL-Library.Word" "HOL-Library.Monad_Syntax" "HOL-Library.Multiset"
begin

text \<open>
  Shared vocabulary of the development: the C types of the simulator, the two effects every
  component uses, and the generic lemmas on lists, options and words.

  \<^item> Undefined behaviour of C (a null or dangling dereference, an index out of bounds, the use
    of an uninitialised value, signed overflow) is the value \<open>None\<close>; a routine that
    behaves returns \<open>Some\<close> of its return code and of the state it leaves.  Error codes such as
    \<open>- 1\<close> are ordinary results inside the \<open>Some\<close>.
  \<^item> State is passed explicitly.  An output parameter \<open>T *p\<close> is a value that goes in
    and comes out.
\<close>

unbundle bit_operations_syntax

section \<open>C types\<close>

text \<open>\<open>addr_t\<close> and \<open>arg_t\<close> are \<open>uint64_t\<close> in the MM64 configuration
  that \<open>os-cfg.h\<close> selects; \<open>BYTE\<close> is \<open>char\<close>, signed on the platforms the
  simulator is built for.  A C \<open>int\<close> whose wrap or sign matters is a \<open>32 word\<close>
  read with \<open>sint\<close>; plain return codes are of type \<open>int\<close>.\<close>

type_synonym u32 = "32 word"
type_synonym u64 = "64 word"
type_synonym cint = "32 word"
type_synonym addr_t = "64 word"
type_synonym arg_t = "64 word"
type_synonym byte = "8 word"
type_synonym pcb_ptr = nat
type_synonym mm_ptr = nat

section \<open>Collections of the development\<close>

named_theorems macro_defs \<open>definitions of the C macros\<close>
named_theorems pte_simps \<open>bit fields of a page table entry\<close>
named_theorems frame_simps \<open>fields an operation leaves unchanged\<close>

section \<open>C arrays and arithmetic\<close>

text \<open>Reading and writing an array element, with the bounds made explicit.\<close>

definition arr_get :: "'a list \<Rightarrow> nat \<Rightarrow> 'a option" where
  "arr_get xs i = (if i < length xs then Some (xs ! i) else None)"

definition arr_set :: "'a list \<Rightarrow> nat \<Rightarrow> 'a \<Rightarrow> 'a list option" where
  "arr_set xs i v = (if i < length xs then Some (xs[i := v]) else None)"

text \<open>A C expression of type \<open>int\<close>: its value, if it is representable.\<close>

definition c_int :: "int \<Rightarrow> int option" where
  "c_int i = (if - (2 ^ 31) \<le> i \<and> i < 2 ^ 31 then Some i else None)"

definition DIV_ROUND_UP :: "u64 \<Rightarrow> u64 \<Rightarrow> u64" where
  "DIV_ROUND_UP n d = (n + d - 1) div d"

section \<open>Lemmas\<close>

lemma arr_get_Some [simp]: "arr_get xs i = Some x \<longleftrightarrow> i < length xs \<and> x = xs ! i"
  by (auto simp: arr_get_def)

lemma arr_get_in [simp]: "i < length xs \<Longrightarrow> arr_get xs i = Some (xs ! i)"
  by (simp add: arr_get_def)

lemma arr_set_Some [simp]: "arr_set xs i v = Some ys \<longleftrightarrow> i < length xs \<and> ys = xs[i := v]"
  by (auto simp: arr_set_def)

lemma arr_set_in [simp]: "i < length xs \<Longrightarrow> arr_set xs i v = Some (xs[i := v])"
  by (simp add: arr_set_def)

lemma arr_get_out: "length xs \<le> i \<Longrightarrow> arr_get xs i = None"
  by (simp add: arr_get_def)

lemma arr_set_out: "length xs \<le> i \<Longrightarrow> arr_set xs i v = None"
  by (simp add: arr_set_def)

lemma c_int_Some [simp]: "c_int i = Some j \<longleftrightarrow> i = j \<and> - (2 ^ 31) \<le> i \<and> i < 2 ^ 31"
  by (auto simp: c_int_def)

lemma c_int_in [simp]: "- (2 ^ 31) \<le> i \<Longrightarrow> i < 2 ^ 31 \<Longrightarrow> c_int i = Some i"
  by simp

lemma unat_lt_2p64: "unat (x :: u64) < 2 ^ 64"
  using unsigned_less [of x] by simp

lemma take_list_update_last:
  "n < length xs \<Longrightarrow> take (Suc n) (xs[n := v]) = take n xs @ [v]"
  by (simp add: take_Suc_conv_app_nth)

text \<open>Small values survive the conversions between the C types.\<close>

lemma unat_ucast_lt: "unat (x :: u64) < 2 ^ 32 \<Longrightarrow> unat (ucast x :: cint) = unat x"
  by (simp add: unsigned_ucast_eq take_bit_nat_eq_self)

lemma sint_small: "unat (x :: cint) < 2 ^ 31 \<Longrightarrow> sint x = int (unat x)"
proof -
  assume "unat x < 2 ^ 31"
  then have "int (unat x) < 2 ^ 31" by (metis of_nat_less_iff of_nat_numeral of_nat_power)
  moreover have "- (2 ^ 31) \<le> int (unat x)" by (rule order_trans [of _ 0]) simp_all
  ultimately show ?thesis
    unfolding sint_uint uint_nat by (intro signed_take_bit_int_eq_self) (simp_all only: len_bit0 len_num1 flip: numeral_eq_Suc, simp_all)
qed

text \<open>Peeling the first index off a range that a loop scans.\<close>

lemma all_from_Suc: "(\<forall>i. k \<le> i \<longrightarrow> P i) \<longleftrightarrow> P k \<and> (\<forall>i. Suc k \<le> i \<longrightarrow> P i)"
  by (auto simp: Suc_le_eq nat_less_le)

lemma ex_from_Suc: "(\<exists>i. k \<le> i \<and> P i) \<longleftrightarrow> P k \<or> (\<exists>i. Suc k \<le> i \<and> P i)"
  by (auto simp: Suc_le_eq nat_less_le)

text \<open>Removing the first occurrence of an element, the list view of unlinking a node.\<close>

lemma mset_remove1_add: "x \<in> set xs \<Longrightarrow> add_mset x (mset (remove1 x xs)) = mset xs"
  by simp

end
