(* ===== verification/Pte.thy ===== *)
theory Pte
  imports Prelude
begin

text \<open>
  The bit-level layer: the macros of \<open>include/bitops.h\<close>, \<open>include/mm.h\<close> and
  \<open>include/mm64.h\<close>, the layout of a page table entry, \<open>init_pte\<close>, and the
  decomposition of an address into five directory indices (\<open>src/src/mm64.c\<close>).

  A mask is a C \<open>unsigned int\<close>, so it is a \<open>32 word\<close> here and is widened with zeros
  where it meets a 64-bit entry; in particular \<open>CLRBIT\<close> and \<open>SETVAL\<close> also clear the
  upper half of the entry.
\<close>

section \<open>Macros\<close>

definition BITS_PER_LONG :: nat where [macro_defs]: "BITS_PER_LONG = 32"

definition BIT :: "nat \<Rightarrow> u32" where
  "BIT nr = push_bit nr 1"

definition BIT_ULL :: "nat \<Rightarrow> u64" where
  "BIT_ULL nr = push_bit nr 1"

definition GENMASK :: "nat \<Rightarrow> nat \<Rightarrow> u32" where
  "GENMASK h l = push_bit l (NOT 0) AND drop_bit (BITS_PER_LONG - h - 1) (NOT 0)"

definition GENMASK64 :: "nat \<Rightarrow> nat \<Rightarrow> u64" where
  "GENMASK64 h l = push_bit l (NOT 0) AND drop_bit (64 - h - 1) (NOT 0)"

definition SETBIT :: "u64 \<Rightarrow> u32 \<Rightarrow> u64" where
  "SETBIT v m = v OR ucast m"

definition CLRBIT :: "u64 \<Rightarrow> u32 \<Rightarrow> u64" where
  "CLRBIT v m = v AND ucast (NOT m)"

definition SETVAL :: "u64 \<Rightarrow> u64 \<Rightarrow> u32 \<Rightarrow> nat \<Rightarrow> u64" where
  "SETVAL v val m offst = (v AND ucast (NOT m)) OR (push_bit offst val AND ucast m)"

definition GETVAL :: "u32 \<Rightarrow> u32 \<Rightarrow> nat \<Rightarrow> u32" where
  "GETVAL v m offst = drop_bit offst (v AND m)"

text \<open>Page geometry.\<close>

definition PAGING_PAGESZ :: nat where [macro_defs]: "PAGING_PAGESZ = 256"
definition PAGING64_PAGESZ :: nat where [macro_defs]: "PAGING64_PAGESZ = 4096"
definition PAGING64_ADDR_PT_SHIFT :: nat where [macro_defs]: "PAGING64_ADDR_PT_SHIFT = 12"
definition PAGING64_DIR_ENTRIES :: nat where [macro_defs]: "PAGING64_DIR_ENTRIES = 512"

definition PAGING64_PAGE_ALIGNSZ :: "u64 \<Rightarrow> u64" where
  "PAGING64_PAGE_ALIGNSZ sz = DIV_ROUND_UP sz (of_nat PAGING64_PAGESZ) * of_nat PAGING64_PAGESZ"

text \<open>Fields of a page table entry.\<close>

definition PAGING_PTE_PRESENT_MASK :: u32 where [macro_defs]: "PAGING_PTE_PRESENT_MASK = BIT 31"
definition PAGING_PTE_SWAPPED_MASK :: u32 where [macro_defs]: "PAGING_PTE_SWAPPED_MASK = BIT 30"
definition PAGING_PTE_DIRTY_MASK :: u32 where [macro_defs]: "PAGING_PTE_DIRTY_MASK = BIT 28"
definition PAGING_PTE_FPN_MASK :: u32 where [macro_defs]: "PAGING_PTE_FPN_MASK = GENMASK 12 0"
definition PAGING_PTE_SWPTYP_MASK :: u32 where [macro_defs]: "PAGING_PTE_SWPTYP_MASK = GENMASK 4 0"
definition PAGING_PTE_SWPOFF_MASK :: u32 where [macro_defs]: "PAGING_PTE_SWPOFF_MASK = GENMASK 25 5"

definition PAGING_PAGE_PRESENT :: "u32 \<Rightarrow> bool" where
  "PAGING_PAGE_PRESENT pte \<longleftrightarrow> pte AND PAGING_PTE_PRESENT_MASK \<noteq> 0"

definition PAGING_PAGE_SWAPPED :: "u32 \<Rightarrow> bool" where
  "PAGING_PAGE_SWAPPED pte \<longleftrightarrow> pte AND PAGING_PTE_SWAPPED_MASK \<noteq> 0"

definition PAGING_FPN :: "u32 \<Rightarrow> u32" where
  "PAGING_FPN pte = GETVAL pte PAGING_PTE_FPN_MASK 0"

definition PAGING_SWP :: "u32 \<Rightarrow> u32" where
  "PAGING_SWP pte = drop_bit 5 (pte AND PAGING_PTE_SWPOFF_MASK)"

definition PAGING_PTE_SET_PRESENT :: "u64 \<Rightarrow> u64" where
  "PAGING_PTE_SET_PRESENT pte = SETBIT pte PAGING_PTE_PRESENT_MASK"

section \<open>Updates of an entry\<close>

text \<open>The statements of \<open>pte_set_fpn\<close> and of \<open>pte_set_swap\<close> that change the
  entry once it has been found.\<close>

definition pte_online :: "u64 \<Rightarrow> addr_t \<Rightarrow> u64" where
  "pte_online pte fpn =
     (let pte = SETBIT pte PAGING_PTE_PRESENT_MASK;
          pte = CLRBIT pte PAGING_PTE_SWAPPED_MASK
      in SETVAL pte fpn PAGING_PTE_FPN_MASK 0)"

definition pte_swapped :: "u64 \<Rightarrow> cint \<Rightarrow> addr_t \<Rightarrow> u64" where
  "pte_swapped pte swptyp swpoff =
     (let pte = CLRBIT pte PAGING_PTE_PRESENT_MASK;
          pte = SETBIT pte PAGING_PTE_SWAPPED_MASK;
          pte = SETVAL pte (scast swptyp) PAGING_PTE_SWPTYP_MASK 0
      in SETVAL pte swpoff PAGING_PTE_SWPOFF_MASK 5)"

definition init_pte :: "u64 \<Rightarrow> bool \<Rightarrow> addr_t \<Rightarrow> bool \<Rightarrow> bool \<Rightarrow> cint \<Rightarrow> addr_t \<Rightarrow> int \<times> u64" where
  "init_pte pte pre fpn drt swp swptyp swpoff =
     (0,
      if pre then
        (if \<not> swp then
           (let pte = SETBIT pte PAGING_PTE_PRESENT_MASK;
                pte = CLRBIT pte PAGING_PTE_SWAPPED_MASK;
                pte = CLRBIT pte PAGING_PTE_DIRTY_MASK;
                pte = SETVAL pte fpn PAGING_PTE_FPN_MASK 0
            in if drt then SETBIT pte PAGING_PTE_DIRTY_MASK
               else CLRBIT pte PAGING_PTE_DIRTY_MASK)
         else
           (let pte = CLRBIT pte PAGING_PTE_PRESENT_MASK;
                pte = SETBIT pte PAGING_PTE_SWAPPED_MASK;
                pte = CLRBIT pte PAGING_PTE_DIRTY_MASK;
                pte = SETVAL pte (scast swptyp) PAGING_PTE_SWPTYP_MASK 0;
                pte = SETVAL pte swpoff PAGING_PTE_SWPOFF_MASK 5
            in if drt then SETBIT pte PAGING_PTE_DIRTY_MASK
               else CLRBIT pte PAGING_PTE_DIRTY_MASK))
      else pte)"

section \<open>Directory indices\<close>

text \<open>\<open>get_pd_from_address\<close> has five output parameters and fails, without writing them,
  when the top seven bits of the address are neither all zero nor all one.\<close>

record pd_idx =
  ix_pgd :: addr_t
  ix_p4d :: addr_t
  ix_pud :: addr_t
  ix_pmd :: addr_t
  ix_pt :: addr_t

definition PAGING64_ADDR_PGD_MASK :: u64 where [macro_defs]: "PAGING64_ADDR_PGD_MASK = GENMASK64 56 48"
definition PAGING64_ADDR_P4D_MASK :: u64 where [macro_defs]: "PAGING64_ADDR_P4D_MASK = GENMASK64 47 39"
definition PAGING64_ADDR_PUD_MASK :: u64 where [macro_defs]: "PAGING64_ADDR_PUD_MASK = GENMASK64 38 30"
definition PAGING64_ADDR_PMD_MASK :: u64 where [macro_defs]: "PAGING64_ADDR_PMD_MASK = GENMASK64 29 21"
definition PAGING64_ADDR_PT_MASK :: u64 where [macro_defs]: "PAGING64_ADDR_PT_MASK = GENMASK64 20 12"

definition get_pd_from_address :: "addr_t \<Rightarrow> pd_idx option" where
  "get_pd_from_address addr =
     (let top_bits = drop_bit 57 addr
      in if top_bits \<noteq> 0 \<and> top_bits \<noteq> 0x7f then None
         else Some \<lparr>ix_pgd = drop_bit 48 (addr AND PAGING64_ADDR_PGD_MASK),
                    ix_p4d = drop_bit 39 (addr AND PAGING64_ADDR_P4D_MASK),
                    ix_pud = drop_bit 30 (addr AND PAGING64_ADDR_PUD_MASK),
                    ix_pmd = drop_bit 21 (addr AND PAGING64_ADDR_PMD_MASK),
                    ix_pt = drop_bit 12 (addr AND PAGING64_ADDR_PT_MASK)\<rparr>)"

definition get_pd_from_pagenum :: "addr_t \<Rightarrow> pd_idx option" where
  "get_pd_from_pagenum pgn = get_pd_from_address (push_bit PAGING64_ADDR_PT_SHIFT pgn)"

section \<open>Bits of the macros\<close>

lemma bit_BIT [pte_simps]: "bit (BIT n) k \<longleftrightarrow> k = n \<and> n < 32"
  by (auto simp: BIT_def bit_simps)

lemma bit_GENMASK [pte_simps]: "h < 32 \<Longrightarrow> bit (GENMASK h l) k \<longleftrightarrow> l \<le> k \<and> k \<le> h"
  by (auto simp: GENMASK_def BITS_PER_LONG_def bit_simps)

lemma bit_GENMASK64: "h < 64 \<Longrightarrow> bit (GENMASK64 h l) k \<longleftrightarrow> l \<le> k \<and> k \<le> h"
  by (auto simp: GENMASK64_def bit_simps)

lemma bit_SETBIT [pte_simps]: "bit (SETBIT v m) k \<longleftrightarrow> bit v k \<or> bit m k"
  by (auto simp: SETBIT_def bit_simps dest: bit_imp_le_length)

lemma bit_CLRBIT [pte_simps]: "bit (CLRBIT v m) k \<longleftrightarrow> bit v k \<and> k < 32 \<and> \<not> bit m k"
  by (auto simp: CLRBIT_def bit_simps dest: bit_imp_le_length)

lemma bit_SETVAL [pte_simps]:
  "bit (SETVAL v x m s) k \<longleftrightarrow> k < 32 \<and> (if bit m k then s \<le> k \<and> bit x (k - s) else bit v k)"
  by (auto simp: SETVAL_def bit_simps dest: bit_imp_le_length)

lemma bit_GETVAL [pte_simps]: "bit (GETVAL v m s) k \<longleftrightarrow> bit v (s + k) \<and> bit m (s + k)"
  by (auto simp: GETVAL_def bit_simps dest: bit_imp_le_length)

lemma and_BIT_nonzero: "n < 32 \<Longrightarrow> (v AND BIT n \<noteq> 0) = bit v n"
  by (auto simp: bit_eq_iff [of "v AND BIT n"] bit_simps pte_simps dest: bit_imp_le_length)

lemma present_bit [pte_simps]: "PAGING_PAGE_PRESENT p \<longleftrightarrow> bit p 31"
  by (simp add: PAGING_PAGE_PRESENT_def PAGING_PTE_PRESENT_MASK_def and_BIT_nonzero)

lemma swapped_bit [pte_simps]: "PAGING_PAGE_SWAPPED p \<longleftrightarrow> bit p 30"
  by (simp add: PAGING_PAGE_SWAPPED_def PAGING_PTE_SWAPPED_MASK_def and_BIT_nonzero)

lemma bit_FPN [pte_simps]: "bit (PAGING_FPN p) k \<longleftrightarrow> k \<le> 12 \<and> bit p k"
  by (auto simp: PAGING_FPN_def PAGING_PTE_FPN_MASK_def pte_simps)

lemma bit_SWP [pte_simps]: "bit (PAGING_SWP p) k \<longleftrightarrow> k \<le> 20 \<and> bit p (k + 5)"
  by (auto simp: PAGING_SWP_def PAGING_PTE_SWPOFF_MASK_def bit_simps pte_simps add.commute
      dest: bit_imp_le_length)

lemma bit_ucast_32 [pte_simps]: "bit (ucast (w :: u64) :: u32) k \<longleftrightarrow> k < 32 \<and> bit w k"
  by (simp add: bit_simps)

lemma bit_pte_online:
  "bit (pte_online pte fpn) k \<longleftrightarrow>
     k < 32 \<and> (k = 31 \<or> k \<noteq> 30 \<and> (if k \<le> 12 then bit fpn k else bit pte k))"
  by (auto simp: pte_online_def Let_def pte_simps macro_defs)

lemma bit_pte_swapped:
  "bit (pte_swapped pte swptyp swpoff) k \<longleftrightarrow>
     k < 32 \<and> (k = 30 \<or> k \<noteq> 31 \<and>
       (if k < 5 then bit swptyp k else if k \<le> 25 then bit swpoff (k - 5) else bit pte k))"
  by (auto simp: pte_swapped_def Let_def pte_simps macro_defs bit_simps)

section \<open>Reading back an entry\<close>

lemma online_present: "PAGING_PAGE_PRESENT (ucast (pte_online pte fpn))"
  by (simp add: pte_simps bit_pte_online)

lemma online_not_swapped: "\<not> PAGING_PAGE_SWAPPED (ucast (pte_online pte fpn))"
  by (simp add: pte_simps bit_pte_online)

lemma online_fpn: "PAGING_FPN (ucast (pte_online pte fpn)) = ucast (take_bit 13 fpn)"
  by (rule bit_eqI) (auto simp: pte_simps bit_pte_online bit_simps)

lemma swapped_not_present: "\<not> PAGING_PAGE_PRESENT (ucast (pte_swapped pte swptyp swpoff))"
  by (simp add: pte_simps bit_pte_swapped)

lemma swapped_swapped: "PAGING_PAGE_SWAPPED (ucast (pte_swapped pte swptyp swpoff))"
  by (simp add: pte_simps bit_pte_swapped)

lemma swapped_swp: "PAGING_SWP (ucast (pte_swapped pte swptyp swpoff)) = ucast (take_bit 21 swpoff)"
  by (rule bit_eqI) (auto simp: pte_simps bit_pte_swapped bit_simps)

text \<open>A value that fits its field is read back unchanged.\<close>

lemma take_bit_small: "unat (x :: u64) < 2 ^ n \<Longrightarrow> take_bit n x = x"
  by (metis take_bit_nat_eq_self unsigned_take_bit_eq unsigned_word_eqI)

lemma ucast_up_down: "unat (x :: u64) < 2 ^ 32 \<Longrightarrow> ucast (ucast x :: u32) = x"
proof -
  assume "unat x < 2 ^ 32"
  then have "take_bit 32 x = x" by (rule take_bit_small)
  then have "\<not> bit x k" if "32 \<le> k" for k using that by (metis bit_take_bit_iff not_le)
  then show ?thesis by (intro bit_word_eqI) (auto simp: bit_simps, meson not_le)
qed

lemma unat_take_bit_13: "unat (ucast (take_bit 13 (x :: u64)) :: u32) = unat x mod 2 ^ 13"
  by (simp only: unsigned_ucast_eq unsigned_take_bit_eq) (simp add: take_bit_eq_mod mod_mod_cancel)

section \<open>Bits of the directory indices\<close>

lemma get_pd_bits:
  assumes "get_pd_from_pagenum pgn = Some ix"
  shows "bit (ix_pgd ix) k \<longleftrightarrow> k \<le> 8 \<and> bit pgn (36 + k)"
    and "bit (ix_p4d ix) k \<longleftrightarrow> k \<le> 8 \<and> bit pgn (27 + k)"
    and "bit (ix_pud ix) k \<longleftrightarrow> k \<le> 8 \<and> bit pgn (18 + k)"
    and "bit (ix_pmd ix) k \<longleftrightarrow> k \<le> 8 \<and> bit pgn (9 + k)"
    and "bit (ix_pt ix) k \<longleftrightarrow> k \<le> 8 \<and> bit pgn k"
proof -
  have ix: "ix = \<lparr>ix_pgd = drop_bit 48 (push_bit 12 pgn AND GENMASK64 56 48),
                ix_p4d = drop_bit 39 (push_bit 12 pgn AND GENMASK64 47 39),
                ix_pud = drop_bit 30 (push_bit 12 pgn AND GENMASK64 38 30),
                ix_pmd = drop_bit 21 (push_bit 12 pgn AND GENMASK64 29 21),
                ix_pt = drop_bit 12 (push_bit 12 pgn AND GENMASK64 20 12)\<rparr>"
    using assms
    by (simp add: get_pd_from_pagenum_def get_pd_from_address_def Let_def macro_defs
        split: if_splits)
  show "bit (ix_pgd ix) k \<longleftrightarrow> k \<le> 8 \<and> bit pgn (36 + k)"
    and "bit (ix_p4d ix) k \<longleftrightarrow> k \<le> 8 \<and> bit pgn (27 + k)"
    and "bit (ix_pud ix) k \<longleftrightarrow> k \<le> 8 \<and> bit pgn (18 + k)"
    and "bit (ix_pmd ix) k \<longleftrightarrow> k \<le> 8 \<and> bit pgn (9 + k)"
    and "bit (ix_pt ix) k \<longleftrightarrow> k \<le> 8 \<and> bit pgn k"
    by (auto simp: ix bit_simps bit_GENMASK64)
qed

text \<open>Each index is below 512, the number of entries of a table.\<close>

lemma small_bits: "(\<And>k. bit (x :: u64) k \<Longrightarrow> k \<le> 8) \<Longrightarrow> unat x < 512"
proof -
  assume *: "\<And>k. bit x k \<Longrightarrow> k \<le> 8"
  have "take_bit 9 x = x"
    by (rule bit_eqI) (auto simp: bit_simps dest: *)
  then have "unat x = take_bit 9 (unat x)"
    by (metis unsigned_take_bit_eq)
  then show ?thesis
    using take_bit_nat_less_exp [of 9 "unat x"] by simp
qed

lemma get_pd_bounds:
  assumes "get_pd_from_pagenum pgn = Some ix"
  shows "unat (ix_pgd ix) < 512" "unat (ix_p4d ix) < 512" "unat (ix_pud ix) < 512"
    "unat (ix_pmd ix) < 512" "unat (ix_pt ix) < 512"
  using get_pd_bits [OF assms] by (auto intro!: small_bits)

text \<open>The page number the five indices stand for.\<close>

definition pgn_of_idx :: "pd_idx \<Rightarrow> addr_t" where
  "pgn_of_idx ix =
     push_bit 36 (ix_pgd ix) OR push_bit 27 (ix_p4d ix) OR push_bit 18 (ix_pud ix)
     OR push_bit 9 (ix_pmd ix) OR ix_pt ix"

lemma pgn_of_get_pd:
  assumes "get_pd_from_pagenum pgn = Some ix"
  shows "pgn_of_idx ix = take_bit 45 pgn"
proof (rule bit_word_eqI)
  fix k
  assume "k < LENGTH(64)"
  consider "k < 9" | "9 \<le> k" "k < 18" | "18 \<le> k" "k < 27" | "27 \<le> k" "k < 36" | "36 \<le> k" "k < 45" | "45 \<le> k"
    by linarith
  then show "bit (pgn_of_idx ix) k = bit (take_bit 45 pgn) k"
    using \<open>k < LENGTH(64)\<close>
    by cases (auto simp: pgn_of_idx_def bit_simps get_pd_bits [OF assms])
qed

lemma get_pd_from_pagenum_low:
  "unat pgn < 2 ^ 45 \<Longrightarrow> \<exists>ix. get_pd_from_pagenum pgn = Some ix"
proof -
  assume "unat pgn < 2 ^ 45"
  then have low: "take_bit 45 pgn = pgn" by (rule take_bit_small)
  have "drop_bit 57 (push_bit 12 pgn) = 0"
  proof (rule bit_word_eqI)
    fix k
    show "bit (drop_bit 57 (push_bit 12 pgn)) k = bit (0 :: u64) k"
      by (subst low [symmetric]) (auto simp: bit_simps)
  qed
  then show ?thesis
    by (simp add: get_pd_from_pagenum_def get_pd_from_address_def macro_defs)
qed

lemma get_pd_inj:
  assumes "get_pd_from_pagenum p = Some ix" and "get_pd_from_pagenum q = Some ix"
    and "unat p < 2 ^ 45" and "unat q < 2 ^ 45"
  shows "p = q"
  using assms pgn_of_get_pd take_bit_small by metis

section \<open>Properties\<close>

text \<open>Whatever the entry held before, after \<open>pte_set_fpn\<close>'s update it is present, not
  swapped, and reads back the frame number; numbers of more than 13 bits are cut.\<close>

theorem pte_online_roundtrip:
  "PAGING_PAGE_PRESENT (ucast (pte_online pte fpn)) \<and> \<not> PAGING_PAGE_SWAPPED (ucast (pte_online pte fpn))
   \<and> unat (PAGING_FPN (ucast (pte_online pte fpn))) = unat fpn mod 2 ^ 13"
  by (simp add: online_present online_not_swapped online_fpn unat_take_bit_13)

text \<open>After \<open>pte_set_swap\<close>'s update the entry is swapped, not present, and reads back the
  swap offset; offsets of more than 21 bits are cut.\<close>

theorem pte_swapped_roundtrip:
  "\<not> PAGING_PAGE_PRESENT (ucast (pte_swapped pte t off)) \<and> PAGING_PAGE_SWAPPED (ucast (pte_swapped pte t off))
   \<and> PAGING_SWP (ucast (pte_swapped pte t off)) = ucast (take_bit 21 off)"
  by (simp add: swapped_not_present swapped_swapped swapped_swp)

text \<open>Splitting a page number into directory indices keeps every index inside its table of 512
  entries, succeeds on every number below \<open>2 ^ 45\<close>, and gives different numbers different
  indices; the indices determine the number.\<close>

theorem directory_indices:
  assumes "unat pgn < 2 ^ 45"
  shows "\<exists>ix. get_pd_from_pagenum pgn = Some ix
    \<and> (\<forall>i \<in> {ix_pgd ix, ix_p4d ix, ix_pud ix, ix_pmd ix, ix_pt ix}. unat i < PAGING64_DIR_ENTRIES)
    \<and> pgn_of_idx ix = pgn
    \<and> (\<forall>q. unat q < 2 ^ 45 \<longrightarrow> get_pd_from_pagenum q = Some ix \<longrightarrow> q = pgn)"
proof -
  obtain ix where ix: "get_pd_from_pagenum pgn = Some ix"
    using get_pd_from_pagenum_low assms by (metis not_None_eq)
  have "pgn_of_idx ix = pgn" using pgn_of_get_pd [OF ix] take_bit_small [OF assms] by simp
  then show ?thesis
    using ix get_pd_bounds [OF ix] get_pd_inj [OF _ ix _ assms]
    by (intro exI [of _ ix]) (simp add: macro_defs)
qed

theorem directory_indices_witness:
  "\<exists>ix. get_pd_from_pagenum 0x123456 = Some ix \<and> pgn_of_idx ix = 0x123456"
  using directory_indices [of "0x123456"] by auto

end
