(* ===== verification/Memphy.thy ===== *)
theory Memphy
  imports Pte
begin

text \<open>
  The physical memory devices of \<open>src/src/mm-memphy.c\<close>: a byte store with a capacity,
  a random or sequential access flag, and the two singly linked lists of free and used frames.
  A list of \<open>framephy_struct\<close> nodes is the list of their frame numbers.  A device argument
  is \<open>None\<close> for a null pointer.  The interface the memory manager relies on is the locale
  \<open>frame_pool\<close>, interpreted as \<open>fp\<close>.
\<close>

section \<open>Data and operations\<close>

record memphy_struct =
  storage :: "byte list"
  maxsz :: int
  rdmflg :: bool
  cursor :: int
  free_fp_list :: "addr_t list"
  used_fp_list :: "addr_t list"

text \<open>The loop of \<open>MEMPHY_mv_csr\<close>.\<close>

function mv_csr_loop :: "int \<Rightarrow> addr_t \<Rightarrow> int \<Rightarrow> int \<Rightarrow> int" where
  "mv_csr_loop numstep offset mx cur =
     (if numstep < uint offset \<and> numstep < mx
      then mv_csr_loop (numstep + 1) offset mx ((cur + 1) mod mx) else cur)"
  by pat_completeness auto
termination
  by (relation "measure (\<lambda>(numstep, offset, mx, cur). nat (mx - numstep))") auto

declare mv_csr_loop.simps [simp del]

definition MEMPHY_mv_csr :: "memphy_struct \<Rightarrow> addr_t \<Rightarrow> memphy_struct" where
  "MEMPHY_mv_csr mp offset = mp\<lparr>cursor := mv_csr_loop 0 offset (maxsz mp) 0\<rparr>"

definition MEMPHY_seq_read ::
  "memphy_struct option \<Rightarrow> addr_t \<Rightarrow> byte \<Rightarrow> (int \<times> memphy_struct option \<times> byte) option" where
  "MEMPHY_seq_read mp addr val =
     (case mp of
        None \<Rightarrow> Some (- 1, None, val)
      | Some m \<Rightarrow>
          if \<not> rdmflg m then Some (- 1, Some m, val)
          else do {
            let m = MEMPHY_mv_csr m addr;
            v \<leftarrow> arr_get (storage m) (unat addr);
            Some (0, Some m, v)
          })"

definition MEMPHY_read ::
  "memphy_struct option \<Rightarrow> addr_t \<Rightarrow> byte \<Rightarrow> (int \<times> memphy_struct option \<times> byte) option" where
  "MEMPHY_read mp addr val =
     (case mp of
        None \<Rightarrow> Some (- 1, None, val)
      | Some m \<Rightarrow>
          if rdmflg m then do {
            v \<leftarrow> arr_get (storage m) (unat addr);
            Some (0, Some m, v)
          }
          else MEMPHY_seq_read (Some m) addr val)"

definition MEMPHY_seq_write ::
  "memphy_struct option \<Rightarrow> addr_t \<Rightarrow> byte \<Rightarrow> (int \<times> memphy_struct option) option" where
  "MEMPHY_seq_write mp addr val =
     (case mp of
        None \<Rightarrow> Some (- 1, None)
      | Some m \<Rightarrow>
          if \<not> rdmflg m then Some (- 1, Some m)
          else do {
            let m = MEMPHY_mv_csr m addr;
            st \<leftarrow> arr_set (storage m) (unat addr) val;
            Some (0, Some (m\<lparr>storage := st\<rparr>))
          })"

definition MEMPHY_write ::
  "memphy_struct option \<Rightarrow> addr_t \<Rightarrow> byte \<Rightarrow> (int \<times> memphy_struct option) option" where
  "MEMPHY_write mp addr data =
     (case mp of
        None \<Rightarrow> Some (- 1, None)
      | Some m \<Rightarrow>
          if rdmflg m then do {
            st \<leftarrow> arr_set (storage m) (unat addr) data;
            Some (0, Some (m\<lparr>storage := st\<rparr>))
          }
          else MEMPHY_seq_write (Some m) addr data)"

text \<open>The loop of \<open>MEMPHY_format\<close> that appends frames \<open>iter\<close> to
  \<open>numfp - 1\<close> to the list built so far.\<close>

function format_loop :: "nat \<Rightarrow> nat \<Rightarrow> addr_t list \<Rightarrow> addr_t list" where
  "format_loop iter numfp acc =
     (if iter < numfp then format_loop (iter + 1) numfp (acc @ [of_nat iter]) else acc)"
  by pat_completeness auto
termination
  by (relation "measure (\<lambda>(iter, numfp, acc). numfp - iter)") auto

declare format_loop.simps [simp del]

definition MEMPHY_format :: "memphy_struct \<Rightarrow> nat \<Rightarrow> int \<times> memphy_struct" where
  "MEMPHY_format mp pagesz =
     (let numfp = (if 0 \<le> maxsz mp then maxsz mp div int pagesz else - (- maxsz mp div int pagesz))
      in if numfp \<le> 0 then (- 1, mp)
         else (0, mp\<lparr>free_fp_list := format_loop 1 (nat numfp) [0], used_fp_list := []\<rparr>))"

definition MEMPHY_get_freefp ::
  "memphy_struct option \<Rightarrow> addr_t \<Rightarrow> int \<times> memphy_struct option \<times> addr_t" where
  "MEMPHY_get_freefp mp retfpn =
     (case mp of
        None \<Rightarrow> (- 1, None, retfpn)
      | Some m \<Rightarrow>
          (case free_fp_list m of
             [] \<Rightarrow> (- 1, Some m, retfpn)
           | fp # rest \<Rightarrow>
               (0, Some (m\<lparr>free_fp_list := rest, used_fp_list := fp # used_fp_list m\<rparr>), fp)))"

text \<open>Walking \<open>used_fp_list\<close> with \<open>prev\<close> and \<open>curr\<close> and unlinking
  \<open>curr\<close>: the list without the first node whose number is \<open>f\<close>.\<close>

fun unlink_fp :: "addr_t list \<Rightarrow> addr_t \<Rightarrow> addr_t list option" where
  "unlink_fp [] f = None"
| "unlink_fp (nd # rest) f =
     (if nd \<noteq> f then map_option (Cons nd) (unlink_fp rest f) else Some rest)"

text \<open>The comparison \<open>curr->fpn != (int)fpn\<close> truncates the argument to an \<open>int\<close> and
  widens it back with its sign.\<close>

definition MEMPHY_put_freefp :: "memphy_struct option \<Rightarrow> addr_t \<Rightarrow> int \<times> memphy_struct option" where
  "MEMPHY_put_freefp mp fpn =
     (case mp of
        None \<Rightarrow> (- 1, None)
      | Some m \<Rightarrow>
          (let f = scast (ucast fpn :: cint)
           in case unlink_fp (used_fp_list m) f of
                None \<Rightarrow> (- 1, Some m)
              | Some used \<Rightarrow>
                  (0, Some (m\<lparr>used_fp_list := used, free_fp_list := f # free_fp_list m\<rparr>))))"

text \<open>\<open>init_memphy\<close> on a structure whose contents are arbitrary, as the stack
  variables of \<open>main\<close> are.\<close>

definition init_memphy :: "memphy_struct \<Rightarrow> addr_t \<Rightarrow> bool \<Rightarrow> int \<times> memphy_struct" where
  "init_memphy mp max_size randomflg =
     (let mp = mp\<lparr>storage := replicate (unat max_size) 0, maxsz := sint (ucast max_size :: cint)\<rparr>;
          mp = snd (MEMPHY_format mp PAGING_PAGESZ);
          mp = mp\<lparr>rdmflg := randomflg\<rparr>;
          mp = (if \<not> rdmflg mp then mp\<lparr>cursor := 0\<rparr> else mp)
      in (0, mp))"

section \<open>The interface of a frame allocator\<close>

locale frame_pool =
  fixes invar :: "'s \<Rightarrow> bool"
    and free :: "'s \<Rightarrow> 'f list"
    and used :: "'s \<Rightarrow> 'f list"
    and get :: "'s \<Rightarrow> ('f \<times> 's) option"
    and put :: "'s \<Rightarrow> 'f \<Rightarrow> 's option"
  assumes get_None: "get s = None \<longleftrightarrow> free s = []"
    and get_Some: "get s = Some (f, s') \<Longrightarrow> free s = f # free s' \<and> used s' = f # used s"
    and put_None: "invar s \<Longrightarrow> f \<notin> set (used s) \<Longrightarrow> f \<in> set (free s) \<Longrightarrow> put s f = None"
    and put_Some: "invar s \<Longrightarrow> f \<in> set (used s) \<Longrightarrow>
      \<exists>s'. put s f = Some s' \<and> free s' = f # free s \<and> used s' = remove1 f (used s)"
    and invar_get: "invar s \<Longrightarrow> get s = Some (f, s') \<Longrightarrow> invar s'"
    and invar_put: "invar s \<Longrightarrow> put s f = Some s' \<Longrightarrow> invar s'"
begin

definition all_frames :: "'s \<Rightarrow> 'f multiset" where
  "all_frames s = mset (free s) + mset (used s)"

lemma get_conserves: "get s = Some (f, s') \<Longrightarrow> all_frames s' = all_frames s"
  by (auto simp: all_frames_def dest: get_Some)

lemma put_conserves:
  assumes "invar s" and "f \<in> set (used s)" and "put s f = Some s'"
  shows "all_frames s' = all_frames s"
  using put_Some [OF assms(1,2)] assms(2,3) by (auto simp: all_frames_def)

text \<open>Returning the frame just taken restores the pool.\<close>

lemma put_get:
  assumes "invar s" and "get s = Some (f, s')"
  shows "\<exists>s''. put s' f = Some s'' \<and> free s'' = free s \<and> used s'' = used s"
  using put_Some [OF invar_get [OF assms], of f] get_Some [OF assms(2)] by auto

text \<open>Taking frames one by one, and giving a list of them back.\<close>

fun get_n :: "nat \<Rightarrow> 's \<Rightarrow> 'f list \<times> 's" where
  "get_n 0 s = ([], s)"
| "get_n (Suc n) s =
     (case get s of None \<Rightarrow> ([], s)
      | Some (f, s') \<Rightarrow> (case get_n n s' of (fs, s'') \<Rightarrow> (f # fs, s'')))"

fun put_all :: "'s \<Rightarrow> 'f list \<Rightarrow> 's" where
  "put_all s [] = s"
| "put_all s (f # fs) = put_all (case put s f of None \<Rightarrow> s | Some s' \<Rightarrow> s') fs"

lemma get_n_spec:
  "get_n n s = (fs, s') \<Longrightarrow>
     fs = take n (free s) \<and> free s' = drop n (free s) \<and> used s' = rev fs @ used s"
proof (induction n arbitrary: s fs s')
  case 0
  then show ?case by simp
next
  case (Suc n)
  show ?case
  proof (cases "get s")
    case None
    then show ?thesis using Suc.prems get_None [of s] by simp
  next
    case (Some p)
    obtain f t where p: "p = (f, t)" by (cases p)
    obtain gs t' where g: "get_n n t = (gs, t')" by (cases "get_n n t")
    have "gs = take n (free t) \<and> free t' = drop n (free t) \<and> used t' = rev gs @ used t"
      using Suc.IH g by blast
    then show ?thesis
      using Suc.prems Some p g get_Some [of s f t] by auto
  qed
qed

lemma get_n_invar: "invar s \<Longrightarrow> invar (snd (get_n n s))"
  by (induction n arbitrary: s) (auto split: option.splits prod.splits dest: invar_get, metis invar_get snd_conv)

lemma put_all_spec:
  "invar s \<Longrightarrow> mset fs \<subseteq># mset (used s) \<Longrightarrow>
     invar (put_all s fs) \<and> free (put_all s fs) = rev fs @ free s
     \<and> mset (used (put_all s fs)) = mset (used s) - mset fs"
proof (induction fs arbitrary: s)
  case Nil
  then show ?case by simp
next
  case (Cons f fs)
  have f: "f \<in> set (used s)"
    using Cons.prems(2) by (metis insert_subset_eq_iff mset.simps(2) set_mset_mset)
  obtain t where t: "put s f = Some t" "free t = f # free s" "used t = remove1 f (used s)"
    using put_Some [OF Cons.prems(1) f] by blast
  have "mset fs \<subseteq># mset (used t)"
    using Cons.prems(2) t(3) by (simp add: insert_subset_eq_iff)
  then have "invar (put_all t fs) \<and> free (put_all t fs) = rev fs @ free t
      \<and> mset (used (put_all t fs)) = mset (used t) - mset fs"
    using Cons.IH invar_put [OF Cons.prems(1) t(1)] by blast
  then show ?case using t by simp
qed

text \<open>Rolling an allocation back: no frame is lost and none changes hands.\<close>

lemma rollback_spec:
  assumes "invar s" and "get_n n s = (fs, s')"
  shows "mset (free (put_all s' fs)) = mset (free s)" and "mset (used (put_all s' fs)) = mset (used s)"
    and "invar (put_all s' fs)"
proof -
  have inv: "invar s'" using get_n_invar [OF assms(1), of n] assms(2) by simp
  note g = get_n_spec [OF assms(2)]
  have "mset fs \<subseteq># mset (used s')" using g by simp
  note p = put_all_spec [OF inv this]
  have "mset (take n (free s)) + mset (drop n (free s)) = mset (free s)"
    by (metis append_take_drop_id mset_append)
  then show "mset (free (put_all s' fs)) = mset (free s)"
    using p g by (simp add: mset_rev)
  show "mset (used (put_all s' fs)) = mset (used s)" using p g by simp
  show "invar (put_all s' fs)" using p by simp
qed

end

section \<open>The device implements the interface\<close>

text \<open>The allocator calls with their out parameters and return codes folded into options.\<close>

definition fp_get :: "memphy_struct \<Rightarrow> (addr_t \<times> memphy_struct) option" where
  "fp_get m = (case MEMPHY_get_freefp (Some m) 0 of
     (r, m', f) \<Rightarrow> if r = 0 then map_option (Pair f) m' else None)"

definition fp_put :: "memphy_struct \<Rightarrow> addr_t \<Rightarrow> memphy_struct option" where
  "fp_put m f = (case MEMPHY_put_freefp (Some m) f of (r, m') \<Rightarrow> if r = 0 then m' else None)"

text \<open>Frame numbers survive the truncation to \<open>int\<close> when they are non-negative
  as one.\<close>

definition frame_valid :: "addr_t \<Rightarrow> bool" where
  "frame_valid f \<longleftrightarrow> unat f < 2 ^ 31"

definition pool_ok :: "memphy_struct \<Rightarrow> bool" where
  "pool_ok m \<longleftrightarrow> list_all frame_valid (free_fp_list m) \<and> list_all frame_valid (used_fp_list m)"

lemma frame_valid_trunc: "frame_valid f \<Longrightarrow> scast (ucast f :: cint) = f"
proof -
  assume "frame_valid f"
  then have small: "take_bit 31 f = f" by (intro take_bit_small) (simp add: frame_valid_def)
  have high: "\<not> bit f k" if "31 \<le> k" for k
    using that by (subst small [symmetric]) (simp add: bit_simps)
  show ?thesis
  proof (rule bit_word_eqI)
    fix k
    show "bit (scast (ucast f :: cint) :: u64) k = bit f k"
      by (cases "k < 31") (auto simp: bit_simps high min_def)
  qed
qed

lemma unlink_fp_absent: "f \<notin> set xs \<Longrightarrow> unlink_fp xs f = None"
  by (induction xs) auto

lemma unlink_fp_present: "f \<in> set xs \<Longrightarrow> unlink_fp xs f = Some (remove1 f xs)"
  by (induction xs) auto

lemma fp_get_eq:
  "fp_get m = (case free_fp_list m of [] \<Rightarrow> None
     | f # rest \<Rightarrow> Some (f, m\<lparr>free_fp_list := rest, used_fp_list := f # used_fp_list m\<rparr>))"
  by (simp add: fp_get_def MEMPHY_get_freefp_def split: list.split)

lemma fp_put_eq:
  "frame_valid f \<Longrightarrow>
   fp_put m f = (if f \<in> set (used_fp_list m)
     then Some (m\<lparr>used_fp_list := remove1 f (used_fp_list m), free_fp_list := f # free_fp_list m\<rparr>)
     else None)"
  by (simp add: fp_put_def MEMPHY_put_freefp_def frame_valid_trunc unlink_fp_absent unlink_fp_present)

lemma pool_ok_used: "pool_ok m \<Longrightarrow> f \<in> set (used_fp_list m) \<Longrightarrow> frame_valid f"
  by (auto simp: pool_ok_def list_all_iff)

lemma pool_ok_free: "pool_ok m \<Longrightarrow> f \<in> set (free_fp_list m) \<Longrightarrow> frame_valid f"
  by (auto simp: pool_ok_def list_all_iff)

lemma fp_put_valid: "fp_put m f = Some m' \<Longrightarrow> pool_ok m \<Longrightarrow> pool_ok m'"
  by (auto simp: fp_put_def MEMPHY_put_freefp_def pool_ok_def list_all_iff Let_def
      split: option.splits if_splits)
    (metis notin_set_remove1 option.distinct(1) option.inject unlink_fp_absent unlink_fp_present)+

interpretation fp: frame_pool pool_ok free_fp_list used_fp_list fp_get fp_put
proof (unfold_locales, goal_cases)
  case (1 s) then show ?case by (simp add: fp_get_eq split: list.split)
next
  case (2 s f s') then show ?case by (auto simp: fp_get_eq split: list.splits)
next
  case (3 s f) then show ?case by (simp add: fp_put_eq pool_ok_free)
next
  case (4 s f) then show ?case by (simp add: fp_put_eq pool_ok_used)
next
  case (5 s f s') then show ?case by (auto simp: fp_get_eq pool_ok_def split: list.splits)
next
  case (6 s f s') then show ?case by (rule fp_put_valid [rotated])
qed

section \<open>Lemmas on the device\<close>

lemma format_loop_eq: "format_loop i n acc = acc @ map of_nat [i..<n]"
proof (induction i n acc rule: format_loop.induct)
  case (1 i n acc)
  then show ?case by (subst format_loop.simps) (auto simp: upt_conv_Cons)
qed

lemma format_frames: "0 < n \<Longrightarrow> format_loop (Suc 0) n [0] = map of_nat [0..<n]"
  by (simp add: format_loop_eq upt_conv_Cons)

text \<open>The fields of a device that \<open>init_memphy\<close> has set up.\<close>

lemma init_memphy_fields:
  assumes "256 \<le> unat sz" and "unat sz < 2 ^ 31"
  shows "free_fp_list (snd (init_memphy m sz True)) = map of_nat [0..<unat sz div 256]"
    and "storage (snd (init_memphy m sz True)) = replicate (unat sz) 0"
    and "used_fp_list (snd (init_memphy m sz True)) = []" and "rdmflg (snd (init_memphy m sz True))"
proof -
  define n where "n = unat sz div 256"
  have n: "0 < n" using assms by (simp add: n_def)
  have mx: "sint (ucast sz :: cint) = int (unat sz)"
    using assms(2) sint_small [of "ucast sz"] unat_ucast_lt [of sz] by simp
  have "nat (int (unat sz) div 256) = n" by (simp add: n_def nat_div_distrib)
  moreover have "0 < int (unat sz) div 256"
    using n unfolding n_def by (metis of_nat_0_less_iff of_nat_numeral zdiv_int)
  ultimately show "free_fp_list (snd (init_memphy m sz True)) = map of_nat [0..<unat sz div 256]"
    and "storage (snd (init_memphy m sz True)) = replicate (unat sz) 0"
    and "used_fp_list (snd (init_memphy m sz True)) = []" and "rdmflg (snd (init_memphy m sz True))"
    using n by (simp_all add: init_memphy_def MEMPHY_format_def Let_def mx format_frames macro_defs n_def)
qed

lemma mv_csr_loop_eq:
  "0 \<le> n \<Longrightarrow> n \<le> uint off \<Longrightarrow> n \<le> mx \<Longrightarrow> 0 < mx \<Longrightarrow>
   mv_csr_loop n off mx (n mod mx) = min (uint off) mx mod mx"
proof (induction n off mx "n mod mx" rule: mv_csr_loop.induct)
  case (1 n off mx)
  show ?case
  proof (cases "n < uint off \<and> n < mx")
    case True
    have step: "((n mod mx) + 1) mod mx = (n + 1) mod mx" by (simp add: mod_add_left_eq)
    show ?thesis
      using "1.hyps" [OF True] True "1.prems"
      by (subst mv_csr_loop.simps) (simp add: step)
  next
    case False
    then show ?thesis using "1.prems" by (subst mv_csr_loop.simps) (auto simp: min_def)
  qed
qed

lemmas memphy_io_defs = MEMPHY_read_def MEMPHY_write_def MEMPHY_seq_read_def MEMPHY_seq_write_def

lemma MEMPHY_read_ram:
  "rdmflg m \<Longrightarrow> unat a < length (storage m) \<Longrightarrow>
   MEMPHY_read (Some m) a v = Some (0, Some m, storage m ! unat a)"
  by (simp add: MEMPHY_read_def)

lemma MEMPHY_write_ram:
  "rdmflg m \<Longrightarrow> unat a < length (storage m) \<Longrightarrow>
   MEMPHY_write (Some m) a v = Some (0, Some (m\<lparr>storage := (storage m)[unat a := v]\<rparr>))"
  by (simp add: MEMPHY_write_def)

lemma MEMPHY_read_out:
  "rdmflg m \<Longrightarrow> length (storage m) \<le> unat a \<Longrightarrow> MEMPHY_read (Some m) a v = None"
  by (simp add: MEMPHY_read_def arr_get_out)

lemma MEMPHY_write_out:
  "rdmflg m \<Longrightarrow> length (storage m) \<le> unat a \<Longrightarrow> MEMPHY_write (Some m) a v = None"
  by (simp add: MEMPHY_write_def arr_set_out)

lemma MEMPHY_write_frame:
  "MEMPHY_write (Some m) a v = Some (r, Some m') \<Longrightarrow>
     maxsz m' = maxsz m \<and> rdmflg m' = rdmflg m \<and> cursor m' = cursor m
     \<and> free_fp_list m' = free_fp_list m \<and> used_fp_list m' = used_fp_list m
     \<and> length (storage m') = length (storage m)"
  by (auto simp: memphy_io_defs split: if_splits bind_splits)

section \<open>Properties\<close>

text \<open>A random access device of eight bytes with three free frames, for the examples below.\<close>

definition ex_dev :: memphy_struct where
  "ex_dev = \<lparr>storage = replicate 8 0, maxsz = 8, rdmflg = True, cursor = 0,
     free_fp_list = [0, 1, 2], used_fp_list = []\<rparr>"

text \<open>On a random access device a write inside the storage is read back at its address, every
  other byte and the frame lists stay as they were, and an access outside the storage is out of
  bounds in C.\<close>

theorem memphy_write_read:
  assumes "rdmflg m" and "m' = m\<lparr>storage := (storage m)[unat a := v]\<rparr>"
  shows "MEMPHY_write (Some m) a v = (if unat a < length (storage m) then Some (0, Some m') else None)
    \<and> MEMPHY_read (Some m') b d =
      (if unat b < length (storage m)
       then Some (0, Some m', if b = a then v else storage m ! unat b) else None)"
proof
  show "MEMPHY_write (Some m) a v = (if unat a < length (storage m) then Some (0, Some m') else None)"
    using assms by (simp add: MEMPHY_write_ram MEMPHY_write_out)
  have "storage m' ! unat b = (if b = a then v else storage m ! unat b)" if "unat b < length (storage m)"
    using that assms(2) by (cases "b = a") (simp_all add: nth_list_update word_unat_eq_iff)
  then show "MEMPHY_read (Some m') b d =
      (if unat b < length (storage m)
       then Some (0, Some m', if b = a then v else storage m ! unat b) else None)"
    using assms by (simp add: MEMPHY_read_def arr_get_def)
qed

theorem memphy_write_read_witness:
  "MEMPHY_read (Some (ex_dev\<lparr>storage := (storage ex_dev)[3 := 9]\<rparr>)) 3 0
   = Some (0, Some (ex_dev\<lparr>storage := (storage ex_dev)[3 := 9]\<rparr>), 9)"
  using memphy_write_read [of ex_dev "ex_dev\<lparr>storage := (storage ex_dev)[3 := 9]\<rparr>" 3 9 3 0]
  by (simp add: ex_dev_def)

text \<open>A sequential device can be neither read nor written: both routines hand it to the
  sequential variant, which refuses every device that is not random access.\<close>

theorem sequential_device_unusable:
  assumes "\<not> rdmflg m"
  shows "MEMPHY_read (Some m) a v = Some (- 1, Some m, v) \<and> MEMPHY_write (Some m) a v = Some (- 1, Some m)"
  using assms by (simp add: memphy_io_defs)

theorem sequential_device_unusable_witness:
  "MEMPHY_read (Some (ex_dev\<lparr>rdmflg := False\<rparr>)) 3 0 = Some (- 1, Some (ex_dev\<lparr>rdmflg := False\<rparr>), 0)"
  using sequential_device_unusable [of "ex_dev\<lparr>rdmflg := False\<rparr>" 3 0] by simp

text \<open>Formatting puts every frame of the device on the free list exactly once, in order, and
  empties the used list.\<close>

theorem format_all_frames:
  assumes "0 < pagesz" and "int pagesz \<le> maxsz m" and "maxsz m < 2 ^ 31"
  shows "fst (MEMPHY_format m pagesz) = 0
    \<and> free_fp_list (snd (MEMPHY_format m pagesz)) = map of_nat [0..<nat (maxsz m div int pagesz)]
    \<and> distinct (free_fp_list (snd (MEMPHY_format m pagesz)))
    \<and> used_fp_list (snd (MEMPHY_format m pagesz)) = [] \<and> pool_ok (snd (MEMPHY_format m pagesz))"
proof -
  define n where "n = nat (maxsz m div int pagesz)"
  have pos: "0 < maxsz m div int pagesz" using assms by (simp add: pos_imp_zdiv_pos_iff)
  have "maxsz m div int pagesz \<le> maxsz m"
    using zdiv_mono2 [of "maxsz m" 1 "int pagesz"] assms by simp
  then have n: "0 < n" "n < 2 ^ 31" using pos assms(3) by (simp_all add: n_def)
  have fmt: "MEMPHY_format m pagesz = (0, m\<lparr>free_fp_list := map of_nat [0..<n], used_fp_list := []\<rparr>)"
    using pos assms n(1) by (simp add: MEMPHY_format_def format_frames flip: n_def)
  have u: "unat (of_nat k :: addr_t) = k" if "k < n" for k
    using that n(2) by (simp add: unat_of_nat)
  have "inj_on (of_nat :: nat \<Rightarrow> addr_t) {0..<n}" by (rule inj_onI) (metis atLeastLessThan_iff u)
  then have "distinct (map (of_nat :: nat \<Rightarrow> addr_t) [0..<n])" by (simp add: distinct_map)
  then show ?thesis
    using fmt u n by (auto simp: pool_ok_def frame_valid_def list_all_iff n_def)
qed

theorem format_all_frames_witness:
  "free_fp_list (snd (MEMPHY_format ex_dev 4)) = [0, 1]"
  using format_all_frames [of 4 ex_dev] by (simp add: ex_dev_def upt_rec)

text \<open>C36: Every device that \<open>init_memphy\<close> sets up has a free frame that does not lie inside its
  storage: the frames are counted in pages of 256 bytes, while the memory manager uses pages of 4096
  bytes.\<close>

theorem init_memphy_frames_too_many:
  assumes "256 \<le> unat sz" and "unat sz < 2 ^ 31"
  shows "\<exists>f \<in> set (free_fp_list (snd (init_memphy m sz True))).
    length (storage (snd (init_memphy m sz True))) < (unat f + 1) * PAGING64_PAGESZ"
proof -
  define n where "n = unat sz div 256"
  have n: "0 < n" "n \<le> unat sz" "unat sz < (n + 1) * 256" using assms by (auto simp: n_def)
  have free: "free_fp_list (snd (init_memphy m sz True)) = map of_nat [0..<n]"
    and len: "length (storage (snd (init_memphy m sz True))) = unat sz"
    using init_memphy_fields [OF assms, of m] by (simp_all add: n_def)
  have "unat (of_nat (n - 1) :: addr_t) = n - 1"
    using n(2) assms(2) by (simp add: unat_of_nat)
  then have "unat sz < (unat (of_nat (n - 1) :: addr_t) + 1) * PAGING64_PAGESZ"
    using n by (simp add: macro_defs)
  moreover have "(of_nat (n - 1) :: addr_t) \<in> set (free_fp_list (snd (init_memphy m sz True)))"
    unfolding free set_map by (rule imageI) (use n(1) in simp)
  ultimately show ?thesis using len by (metis)
qed

theorem init_memphy_frames_too_many_witness:
  "\<exists>f \<in> set (free_fp_list (snd (init_memphy ex_dev 0x1000 True))).
    length (storage (snd (init_memphy ex_dev 0x1000 True))) < (unat f + 1) * PAGING64_PAGESZ"
  by (rule init_memphy_frames_too_many) simp_all

text \<open>Taking a frame fails exactly when none is free, and otherwise moves the first free frame
  to the used list; giving that frame back restores the device, and giving back a frame that is not
  in use is refused without a change.\<close>

theorem freefp_roundtrip:
  assumes "pool_ok m" and "frame_valid g"
  shows "(case free_fp_list m of
      [] \<Rightarrow> MEMPHY_get_freefp (Some m) r = (- 1, Some m, r)
    | f # fs \<Rightarrow> (\<exists>m'. MEMPHY_get_freefp (Some m) r = (0, Some m', f) \<and> free_fp_list m' = fs
        \<and> used_fp_list m' = f # used_fp_list m \<and> pool_ok m' \<and> MEMPHY_put_freefp (Some m') f = (0, Some m)))
    \<and> (g \<notin> set (used_fp_list m) \<longrightarrow> MEMPHY_put_freefp (Some m) g = (- 1, Some m))"
  using assms
  by (auto simp: MEMPHY_get_freefp_def MEMPHY_put_freefp_def pool_ok_def frame_valid_trunc unlink_fp_absent
      split: list.split)

theorem freefp_roundtrip_witness:
  "\<exists>m'. MEMPHY_get_freefp (Some ex_dev) 9 = (0, Some m', 0) \<and> MEMPHY_put_freefp (Some m') 0 = (0, Some ex_dev)"
  using freefp_roundtrip [of ex_dev 5 9] by (auto simp: ex_dev_def pool_ok_def frame_valid_def)

end
