(* ===== verification/Kernel.thy ===== *)
theory Kernel
  imports Memphy
begin

text \<open>
  The data shared by the memory manager, the system calls and the processor: the structures of
  \<open>include/os-mm.h\<close> and \<open>include/common.h\<close>, and the \<open>world\<close> they live in.

  Process control blocks and memory descriptors are heap objects reached through pointers
  (\<open>pcb_ptr\<close>, \<open>mm_ptr\<close>).  Linked lists owned by one object are HOL lists, head
  first.  The single kernel structure \<open>os\<close> of \<open>os.c\<close> is a component of the world, so
  the field \<open>krnl\<close> of a process only records whether it points there.  The number
  \<open>w_hostmem\<close> is how many more calls of the host's \<open>malloc\<close> or \<open>calloc\<close>
  succeed: a small number exercises every allocation failure the code handles or forgets.
\<close>

section \<open>Structures\<close>

record vm_rg_struct =
  rg_vmaid :: cint
  rg_start :: addr_t
  rg_end :: addr_t

record vm_area_struct =
  vm_id :: u64
  vm_start :: addr_t
  vm_end :: addr_t
  vm_sbrk :: addr_t
  vm_freerg_list :: "vm_rg_struct list"

record kcache_pool_struct =
  kc_size :: cint
  kc_align :: cint
  kc_storage :: addr_t

text \<open>The five levels of page tables.  An upper-level entry is null or points to a table that no
  other entry points to, so a table is a map to the tables below it; a page table maps an
  index to an entry.\<close>

type_synonym pt_tbl = "addr_t \<Rightarrow> u64"
type_synonym pmd_tbl = "addr_t \<Rightarrow> pt_tbl option"
type_synonym pud_tbl = "addr_t \<Rightarrow> pmd_tbl option"
type_synonym p4d_tbl = "addr_t \<Rightarrow> pud_tbl option"
type_synonym pgd_tbl = "addr_t \<Rightarrow> p4d_tbl option"

record pgtbl_stats =
  pgtbl_walks :: u64
  pgtbl_level_reads :: u64
  pgtbl_level_writes :: u64
  pgtbl_tables_allocated :: u64
  pgtbl_storage_bytes :: u64

record mm_struct =
  mm_pgd :: "pgd_tbl option"
  mm_mmap :: "vm_area_struct list"
  mm_symrgtbl :: "vm_rg_struct list"
  mm_fifo_pgn :: "addr_t list"
  mm_kcpooltbl :: "kcache_pool_struct list option"
  mm_stats :: pgtbl_stats

definition PAGING_MAX_SYMTBL_SZ :: nat where [macro_defs]: "PAGING_MAX_SYMTBL_SZ = 30"
definition PAGING_MAX_KCACHE_POOLS :: nat where [macro_defs]: "PAGING_MAX_KCACHE_POOLS = 100"
definition PID_MAX :: nat where [macro_defs]: "PID_MAX = 255"

datatype ins_opcode_t =
  CALC | ALLOC | FREE | READ | WRITE | KMALLOC | KMEM_CACHE_CREATE | KMEM_CACHE_ALLOC
  | COPY_FROM_USER | COPY_TO_USER | SYSCALL

record inst_t =
  opcode :: ins_opcode_t
  arg_0 :: arg_t
  arg_1 :: arg_t
  arg_2 :: arg_t
  arg_3 :: arg_t

record pcb_t =
  p_pid :: u32
  p_priority :: u32
  p_code :: "inst_t list"
  p_regs :: "addr_t list"
  p_pc :: u32
  p_prio :: u32
  p_krnl :: bool
  p_bp :: u32
  p_mm :: "mm_ptr option"

record krnl_t =
  k_ready_queue :: bool
  k_mlq_ready_queue :: bool
  k_running_list :: bool
  k_proc_table :: "pcb_ptr option list"
  k_mm :: "mm_ptr option"
  k_mram :: "memphy_struct option"
  k_active_mswp :: "memphy_struct option"

record world =
  w_mms :: "mm_ptr \<Rightarrow> mm_struct option"
  w_pcbs :: "pcb_ptr \<Rightarrow> pcb_t option"
  w_os :: krnl_t
  w_hostmem :: nat

section \<open>Accessors\<close>

text \<open>One call of the host allocator: whether it succeeded, and the world after it.\<close>

definition host_alloc :: "world \<Rightarrow> bool \<times> world" where
  "host_alloc w = (0 < w_hostmem w, w\<lparr>w_hostmem := w_hostmem w - 1\<rparr>)"

definition set_mm :: "world \<Rightarrow> mm_ptr \<Rightarrow> mm_struct \<Rightarrow> world" where
  "set_mm w mp m = w\<lparr>w_mms := (w_mms w)(mp \<mapsto> m)\<rparr>"

definition set_mram :: "world \<Rightarrow> memphy_struct option \<Rightarrow> world" where
  "set_mram w d = w\<lparr>w_os := (w_os w)\<lparr>k_mram := d\<rparr>\<rparr>"

definition set_mswp :: "world \<Rightarrow> memphy_struct option \<Rightarrow> world" where
  "set_mswp w d = w\<lparr>w_os := (w_os w)\<lparr>k_active_mswp := d\<rparr>\<rparr>"

abbreviation mram :: "world \<Rightarrow> memphy_struct option" where
  "mram w \<equiv> k_mram (w_os w)"

abbreviation mswp :: "world \<Rightarrow> memphy_struct option" where
  "mswp w \<equiv> k_active_mswp (w_os w)"

lemma set_mm_sel [simp]:
  "w_mms (set_mm w mp m) = (w_mms w)(mp \<mapsto> m)" "w_pcbs (set_mm w mp m) = w_pcbs w"
  "w_os (set_mm w mp m) = w_os w" "w_hostmem (set_mm w mp m) = w_hostmem w"
  by (simp_all add: set_mm_def)

lemma set_mram_sel [simp]:
  "w_mms (set_mram w d) = w_mms w" "w_pcbs (set_mram w d) = w_pcbs w"
  "w_os (set_mram w d) = (w_os w)\<lparr>k_mram := d\<rparr>" "w_hostmem (set_mram w d) = w_hostmem w"
  by (simp_all add: set_mram_def)

lemma set_mswp_sel [simp]:
  "w_mms (set_mswp w d) = w_mms w" "w_pcbs (set_mswp w d) = w_pcbs w"
  "w_os (set_mswp w d) = (w_os w)\<lparr>k_active_mswp := d\<rparr>" "w_hostmem (set_mswp w d) = w_hostmem w"
  by (simp_all add: set_mswp_def)

lemma host_alloc_sel [simp]:
  "w_mms (snd (host_alloc w)) = w_mms w" "w_pcbs (snd (host_alloc w)) = w_pcbs w"
  "w_os (snd (host_alloc w)) = w_os w" "w_hostmem (snd (host_alloc w)) = w_hostmem w - 1"
  "fst (host_alloc w) \<longleftrightarrow> 0 < w_hostmem w"
  by (simp_all add: host_alloc_def)

end
