(* ===== verification/PageTable.thy ===== *)
theory PageTable
  imports Kernel
begin

text \<open>
  The page table of \<open>src/src/mm64.c\<close>: \<open>alloc_pgtbl_level\<close>, the five-level walk
  \<open>get_pte_ptr\<close> with its statistics, and the entry accessors \<open>pte_get_entry\<close>,
  \<open>pte_set_entry\<close>, \<open>pte_set_fpn\<close>, \<open>pte_set_swap\<close> and
  \<open>vmap_pgd_memset\<close>.

  What a client sees of a table is the total map \<open>pt_view\<close> from directory indices to
  entries, zero where no table exists.  The locale \<open>entry_store\<close> states the contract;
  the interpretation \<open>pt\<close> shows that walking and storing implement it.
\<close>

section \<open>The walk\<close>

definition PGTBL_TABLE_BYTES :: u64 where
  "PGTBL_TABLE_BYTES = of_nat PAGING64_DIR_ENTRIES * 8"

text \<open>The walk reads and writes the statistics of the descriptor and consumes host memory.\<close>

type_synonym walk_st = "pgtbl_stats \<times> nat"

definition read_level :: "walk_st \<Rightarrow> walk_st" where
  "read_level st = (fst st\<lparr>pgtbl_level_reads := pgtbl_level_reads (fst st) + 1\<rparr>, snd st)"

definition write_level :: "walk_st \<Rightarrow> walk_st" where
  "write_level st = (fst st\<lparr>pgtbl_level_writes := pgtbl_level_writes (fst st) + 1\<rparr>, snd st)"

definition alloc_pgtbl_level :: "walk_st \<Rightarrow> bool \<times> walk_st" where
  "alloc_pgtbl_level st =
     (if 0 < snd st
      then (True,
            fst st\<lparr>pgtbl_tables_allocated := pgtbl_tables_allocated (fst st) + 1,
                   pgtbl_storage_bytes := pgtbl_storage_bytes (fst st) + PGTBL_TABLE_BYTES\<rparr>,
            snd st - 1)
      else (False, st))"

text \<open>One of the four inner levels: read the entry, allocate the next table when it is
  missing and allocation is allowed, and go on in that table with \<open>k\<close>.  \<open>new\<close> is
  the zeroed table.\<close>

definition walk_level ::
  "bool \<Rightarrow> 't \<Rightarrow> ('t \<Rightarrow> walk_st \<Rightarrow> bool \<times> 't \<times> walk_st) \<Rightarrow>
   addr_t \<Rightarrow> (addr_t \<Rightarrow> 't option) \<Rightarrow> walk_st \<Rightarrow> bool \<times> (addr_t \<Rightarrow> 't option) \<times> walk_st" where
  "walk_level is_alloc new k i tbl st =
     (let st = read_level st
      in case tbl i of
           Some t \<Rightarrow> (case k t st of (ok, t', st') \<Rightarrow> (ok, tbl(i \<mapsto> t'), st'))
         | None \<Rightarrow>
             if \<not> is_alloc then (False, tbl, st)
             else (case alloc_pgtbl_level st of
                     (got, st) \<Rightarrow>
                       let st = write_level st
                       in if \<not> got then (False, tbl, st)
                          else (case k new st of (ok, t', st') \<Rightarrow> (ok, tbl(i \<mapsto> t'), st'))))"

definition walk_pgd :: "bool \<Rightarrow> pd_idx \<Rightarrow> pgd_tbl \<Rightarrow> walk_st \<Rightarrow> bool \<times> pgd_tbl \<times> walk_st" where
  "walk_pgd is_alloc ix =
     walk_level is_alloc (\<lambda>_. None)
       (walk_level is_alloc (\<lambda>_. None)
         (walk_level is_alloc (\<lambda>_. None)
           (walk_level is_alloc (\<lambda>_. 0)
             (\<lambda>pt st. (True, pt, read_level st))
             (ix_pmd ix))
           (ix_pud ix))
         (ix_p4d ix))
       (ix_pgd ix)"

text \<open>A pointer to an entry names the descriptor and the five indices.  An address whose
  indices \<open>get_pd_from_pagenum\<close> left unset is used uninitialised: \<open>None\<close>.\<close>

type_synonym pte_ptr = "mm_ptr \<times> pd_idx"

definition get_pte_ptr ::
  "pcb_t option \<Rightarrow> addr_t \<Rightarrow> bool \<Rightarrow> world \<Rightarrow> (pte_ptr option \<times> world) option" where
  "get_pte_ptr caller pgn is_alloc w =
     (case caller of
        None \<Rightarrow> Some (None, w)
      | Some c \<Rightarrow>
          (case p_mm c of
             None \<Rightarrow> Some (None, w)
           | Some mp \<Rightarrow> do {
               m \<leftarrow> w_mms w mp;
               (case mm_pgd m of
                  None \<Rightarrow> Some (None, w)
                | Some pgd \<Rightarrow> do {
                    ix \<leftarrow> get_pd_from_pagenum pgn;
                    let s = (mm_stats m)\<lparr>pgtbl_walks := pgtbl_walks (mm_stats m) + 1\<rparr>;
                    let (ok, pgd', s', h') = walk_pgd is_alloc ix pgd (s, w_hostmem w);
                    let w' = set_mm w mp (m\<lparr>mm_pgd := Some pgd', mm_stats := s'\<rparr>)\<lparr>w_hostmem := h'\<rparr>;
                    Some (if ok then Some (mp, ix) else None, w')
                  })
             }))"

section \<open>Dereferencing an entry\<close>

definition pt_lookup :: "pgd_tbl \<Rightarrow> pd_idx \<Rightarrow> u64 option" where
  "pt_lookup pgd ix = do {
     p4d \<leftarrow> pgd (ix_pgd ix);
     pud \<leftarrow> p4d (ix_p4d ix);
     pmd \<leftarrow> pud (ix_pud ix);
     pt \<leftarrow> pmd (ix_pmd ix);
     Some (pt (ix_pt ix))
   }"

definition pt_store :: "pgd_tbl \<Rightarrow> pd_idx \<Rightarrow> u64 \<Rightarrow> pgd_tbl option" where
  "pt_store pgd ix v = do {
     p4d \<leftarrow> pgd (ix_pgd ix);
     pud \<leftarrow> p4d (ix_p4d ix);
     pmd \<leftarrow> pud (ix_pud ix);
     pt \<leftarrow> pmd (ix_pmd ix);
     Some (pgd(ix_pgd ix \<mapsto> p4d(ix_p4d ix \<mapsto> pud(ix_pud ix \<mapsto>
       pmd(ix_pmd ix \<mapsto> pt(ix_pt ix := v))))))
   }"

definition pte_load :: "world \<Rightarrow> pte_ptr \<Rightarrow> u64 option" where
  "pte_load w p = do {
     m \<leftarrow> w_mms w (fst p);
     pgd \<leftarrow> mm_pgd m;
     pt_lookup pgd (snd p)
   }"

text \<open>\<open>*pte = v\<close>.\<close>

definition pte_write :: "world \<Rightarrow> pte_ptr \<Rightarrow> u64 \<Rightarrow> world option" where
  "pte_write w p v = do {
     m \<leftarrow> w_mms w (fst p);
     pgd \<leftarrow> mm_pgd m;
     pgd' \<leftarrow> pt_store pgd (snd p) v;
     Some (set_mm w (fst p) (m\<lparr>mm_pgd := Some pgd'\<rparr>))
   }"

text \<open>\<open>caller->mm->pgtbl_level_writes++\<close>.\<close>

definition count_write :: "world \<Rightarrow> mm_ptr \<Rightarrow> world option" where
  "count_write w mp = do {
     m \<leftarrow> w_mms w mp;
     let s = mm_stats m;
     Some (set_mm w mp (m\<lparr>mm_stats := s\<lparr>pgtbl_level_writes := pgtbl_level_writes s + 1\<rparr>\<rparr>))
   }"

section \<open>Entry accessors\<close>

definition pte_get_entry :: "pcb_t option \<Rightarrow> addr_t \<Rightarrow> world \<Rightarrow> (u32 \<times> world) option" where
  "pte_get_entry caller pgn w =
     (case caller of
        None \<Rightarrow> Some (0, w)
      | Some c \<Rightarrow>
          if \<not> p_krnl c then Some (0, w)
          else do {
            (p, w) \<leftarrow> get_pte_ptr caller pgn False w;
            (case p of
               None \<Rightarrow> Some (0, w)
             | Some p \<Rightarrow> do { v \<leftarrow> pte_load w p; Some (ucast v, w) })
          })"

definition pte_set_entry :: "pcb_t option \<Rightarrow> addr_t \<Rightarrow> u32 \<Rightarrow> world \<Rightarrow> (int \<times> world) option" where
  "pte_set_entry caller pgn pte_val w =
     (case caller of
        None \<Rightarrow> Some (- 1, w)
      | Some c \<Rightarrow>
          if \<not> p_krnl c then Some (- 1, w)
          else do {
            (p, w) \<leftarrow> get_pte_ptr caller pgn True w;
            (case p of
               None \<Rightarrow> Some (- 1, w)
             | Some p \<Rightarrow> do {
                 w \<leftarrow> pte_write w p (ucast pte_val);
                 w \<leftarrow> count_write w (fst p);
                 Some (0, w) })
          })"

definition pte_set_fpn :: "pcb_t option \<Rightarrow> addr_t \<Rightarrow> addr_t \<Rightarrow> world \<Rightarrow> (int \<times> world) option" where
  "pte_set_fpn caller pgn fpn w =
     (case caller of
        None \<Rightarrow> Some (- 1, w)
      | Some c \<Rightarrow>
          if \<not> p_krnl c then Some (- 1, w)
          else do {
            (p, w) \<leftarrow> get_pte_ptr caller pgn True w;
            (case p of
               None \<Rightarrow> Some (- 1, w)
             | Some p \<Rightarrow> do {
                 v \<leftarrow> pte_load w p;
                 w \<leftarrow> pte_write w p (pte_online v fpn);
                 w \<leftarrow> count_write w (fst p);
                 Some (0, w) })
          })"

definition pte_set_swap ::
  "pcb_t option \<Rightarrow> addr_t \<Rightarrow> cint \<Rightarrow> addr_t \<Rightarrow> world \<Rightarrow> (int \<times> world) option" where
  "pte_set_swap caller pgn swptyp swpoff w =
     (case caller of
        None \<Rightarrow> Some (- 1, w)
      | Some c \<Rightarrow>
          if \<not> p_krnl c then Some (- 1, w)
          else do {
            (p, w) \<leftarrow> get_pte_ptr caller pgn True w;
            (case p of
               None \<Rightarrow> Some (- 1, w)
             | Some p \<Rightarrow> do {
                 v \<leftarrow> pte_load w p;
                 w \<leftarrow> pte_write w p (pte_swapped v swptyp swpoff);
                 w \<leftarrow> count_write w (fst p);
                 Some (0, w) })
          })"

text \<open>The loop of \<open>vmap_pgd_memset\<close>, for the number of pages left.\<close>

fun memset_loop :: "pcb_t option \<Rightarrow> addr_t \<Rightarrow> nat \<Rightarrow> world \<Rightarrow> (int \<times> world) option" where
  "memset_loop caller addr 0 w = Some (0, w)"
| "memset_loop caller addr (Suc n) w = do {
     let pgn = drop_bit PAGING64_ADDR_PT_SHIFT addr;
     (p, w) \<leftarrow> get_pte_ptr caller pgn True w;
     (case p of
        None \<Rightarrow> Some (- 1, w)
      | Some p \<Rightarrow> do {
          w \<leftarrow> pte_write w p 0xdeadbeef;
          w \<leftarrow> count_write w (fst p);
          memset_loop caller (addr + of_nat PAGING64_PAGESZ) n w })
   }"

definition vmap_pgd_memset :: "pcb_t option \<Rightarrow> addr_t \<Rightarrow> cint \<Rightarrow> world \<Rightarrow> (int \<times> world) option" where
  "vmap_pgd_memset caller addr pgnum w =
     (case caller of
        None \<Rightarrow> Some (- 1, w)
      | Some c \<Rightarrow>
          if \<not> p_krnl c then Some (- 1, w)
          else memset_loop caller addr (nat (sint pgnum)) w)"

section \<open>The abstract view\<close>

definition entry_val :: "u64 option \<Rightarrow> u64" where
  "entry_val e = (case e of None \<Rightarrow> 0 | Some v \<Rightarrow> v)"

definition pt_view :: "pgd_tbl \<Rightarrow> pd_idx \<Rightarrow> u64" where
  "pt_view pgd ix = entry_val (pt_lookup pgd ix)"

definition pte_view :: "world \<Rightarrow> mm_ptr \<Rightarrow> pd_idx \<Rightarrow> u64" where
  "pte_view w mp ix = (case w_mms w mp of None \<Rightarrow> 0
     | Some m \<Rightarrow> (case mm_pgd m of None \<Rightarrow> 0 | Some pgd \<Rightarrow> pt_view pgd ix))"

lemma entry_val_simps [simp]: "entry_val None = 0" "entry_val (Some v) = v"
  by (simp_all add: entry_val_def)

section \<open>The contract of an entry store\<close>

text \<open>A store of entries under keys: a key is ready once the tables that lead to it exist, and
  storing under a ready key changes the view at that key only.\<close>

locale entry_store =
  fixes view :: "'s \<Rightarrow> 'k \<Rightarrow> 'v"
    and ready :: "'s \<Rightarrow> 'k \<Rightarrow> bool"
    and store :: "'s \<Rightarrow> 'k \<Rightarrow> 'v \<Rightarrow> 's option"
  assumes store_ready: "ready s k \<longleftrightarrow> (\<exists>s'. store s k v = Some s')"
    and view_store: "store s k v = Some s' \<Longrightarrow> view s' = (view s)(k := v)"
    and ready_store: "store s k v = Some s' \<Longrightarrow> ready s' = ready s"
begin

lemma store_same: "store s k v = Some s' \<Longrightarrow> view s' k = v"
  by (simp add: view_store)

lemma store_other: "store s k v = Some s' \<Longrightarrow> j \<noteq> k \<Longrightarrow> view s' j = view s j"
  by (simp add: view_store)

lemma store_commute:
  assumes "store s k v = Some s1" and "store s1 j u = Some s2"
    and "store s j u = Some t1" and "store t1 k v = Some t2" and "j \<noteq> k"
  shows "view s2 = view t2"
  using assms(5) view_store [OF assms(1)] view_store [OF assms(2)] view_store [OF assms(3)]
    view_store [OF assms(4)] by auto

lemma store_not_ready: "\<not> ready s k \<Longrightarrow> store s k v = None"
  using store_ready [of s k v] by (cases "store s k v") auto

end

lemma pd_idx_eq_iff:
  "(i :: pd_idx) = j \<longleftrightarrow> ix_pgd i = ix_pgd j \<and> ix_p4d i = ix_p4d j \<and> ix_pud i = ix_pud j
     \<and> ix_pmd i = ix_pmd j \<and> ix_pt i = ix_pt j"
  by auto

lemma pt_lookup_store:
  assumes "pt_store pgd ix v = Some pgd'"
  shows "pt_lookup pgd' j = (if j = ix then Some v else pt_lookup pgd j)"
proof -
  obtain p4d pud pmd pt where t: "pgd (ix_pgd ix) = Some p4d" "p4d (ix_p4d ix) = Some pud"
      "pud (ix_pud ix) = Some pmd" "pmd (ix_pmd ix) = Some pt"
    and pgd': "pgd' = pgd(ix_pgd ix \<mapsto> p4d(ix_p4d ix \<mapsto> pud(ix_pud ix \<mapsto>
       pmd(ix_pmd ix \<mapsto> pt(ix_pt ix := v)))))"
    using assms by (auto simp: pt_store_def bind_eq_Some_conv)
  show ?thesis
    by (cases "ix_pgd j = ix_pgd ix"; cases "ix_p4d j = ix_p4d ix"; cases "ix_pud j = ix_pud ix";
        cases "ix_pmd j = ix_pmd ix"; simp add: pt_lookup_def pgd' t pd_idx_eq_iff)
qed

lemma pt_store_iff: "(\<exists>pgd'. pt_store pgd ix v = Some pgd') \<longleftrightarrow> pt_lookup pgd ix \<noteq> None"
  by (auto simp: pt_store_def pt_lookup_def split: bind_splits)

interpretation pt: entry_store pt_view "\<lambda>pgd ix. pt_lookup pgd ix \<noteq> None" pt_store
proof (unfold_locales, goal_cases)
  case (1 s k v) then show ?case by (simp only: pt_store_iff)
next
  case (2 s k v s') then show ?case by (auto simp: pt_view_def pt_lookup_store)
next
  case (3 s k v s') then show ?case
    using pt_store_iff [of s k v] by (auto simp: pt_lookup_store)
qed

section \<open>The walk keeps the view\<close>

text \<open>What a walk below a table guarantees, for the table's lookup function \<open>l\<close>, the path
  \<open>j0\<close> it follows and at most \<open>d\<close> allocations.\<close>

definition stats_ok :: "pgtbl_stats \<Rightarrow> bool" where
  "stats_ok s \<longleftrightarrow> pgtbl_storage_bytes s = pgtbl_tables_allocated s * PGTBL_TABLE_BYTES"

definition walk_ok ::
  "bool \<Rightarrow> ('t \<Rightarrow> 'j \<Rightarrow> u64 option) \<Rightarrow> 'j \<Rightarrow> nat \<Rightarrow> ('t \<Rightarrow> walk_st \<Rightarrow> bool \<times> 't \<times> walk_st) \<Rightarrow> bool" where
  "walk_ok is_alloc l j0 d k \<longleftrightarrow>
     (\<forall>t st ok t' st'. k t st = (ok, t', st') \<longrightarrow>
        (\<forall>j. entry_val (l t' j) = entry_val (l t j))
      \<and> (ok \<longleftrightarrow> l t' j0 \<noteq> None)
      \<and> snd st' \<le> snd st \<and> snd st \<le> snd st' + d
      \<and> (is_alloc \<and> d \<le> snd st \<longrightarrow> ok)
      \<and> (\<not> is_alloc \<longrightarrow> t' = t \<and> snd st' = snd st)
      \<and> (stats_ok (fst st) \<longrightarrow> stats_ok (fst st')))"

definition sub_lookup :: "('t \<Rightarrow> 'j \<Rightarrow> u64 option) \<Rightarrow> (addr_t \<Rightarrow> 't option) \<Rightarrow> addr_t \<times> 'j \<Rightarrow> u64 option" where
  "sub_lookup l tbl p = (case tbl (fst p) of None \<Rightarrow> None | Some t \<Rightarrow> l t (snd p))"

lemma walk_ok_leaf: "walk_ok is_alloc (\<lambda>pt j. Some (pt j)) j0 0 (\<lambda>pt st. (True, pt, read_level st))"
  by (auto simp: walk_ok_def read_level_def stats_ok_def)

lemma level_stats [simp]:
  "stats_ok (fst (read_level st)) = stats_ok (fst st)" "snd (read_level st) = snd st"
  "stats_ok (fst (write_level st)) = stats_ok (fst st)" "snd (write_level st) = snd st"
  by (auto simp: read_level_def write_level_def stats_ok_def)

lemma alloc_pgtbl_level_spec:
  "alloc_pgtbl_level st = (got, st') \<Longrightarrow>
     (got \<longleftrightarrow> 0 < snd st) \<and> snd st' = snd st - 1 \<and> (stats_ok (fst st) \<longrightarrow> stats_ok (fst st'))"
  by (auto simp: alloc_pgtbl_level_def stats_ok_def algebra_simps split: if_splits)

lemma walk_ok_level:
  assumes k: "walk_ok is_alloc l j0 d k" and new: "\<And>j. entry_val (l new j) = 0"
  shows "walk_ok is_alloc (sub_lookup l) (i0, j0) (Suc d) (walk_level is_alloc new k i0)"
  unfolding walk_ok_def
proof (intro allI impI)
  fix tbl st ok tbl' st'
  assume run: "walk_level is_alloc new k i0 tbl st = (ok, tbl', st')"
  have k': "k t s = (ok, t', st') \<Longrightarrow> (\<forall>j. entry_val (l t' j) = entry_val (l t j))
      \<and> (ok \<longleftrightarrow> l t' j0 \<noteq> None) \<and> snd st' \<le> snd s \<and> snd s \<le> snd st' + d
      \<and> (is_alloc \<and> d \<le> snd s \<longrightarrow> ok) \<and> (\<not> is_alloc \<longrightarrow> t' = t \<and> snd st' = snd s)
      \<and> (stats_ok (fst s) \<longrightarrow> stats_ok (fst st'))" for t s t'
    using k unfolding walk_ok_def by blast
  show "(\<forall>j. entry_val (sub_lookup l tbl' j) = entry_val (sub_lookup l tbl j))
      \<and> (ok \<longleftrightarrow> sub_lookup l tbl' (i0, j0) \<noteq> None)
      \<and> snd st' \<le> snd st \<and> snd st \<le> snd st' + Suc d
      \<and> (is_alloc \<and> Suc d \<le> snd st \<longrightarrow> ok)
      \<and> (\<not> is_alloc \<longrightarrow> tbl' = tbl \<and> snd st' = snd st)
      \<and> (stats_ok (fst st) \<longrightarrow> stats_ok (fst st'))"
  proof (cases "tbl i0")
    case (Some t)
    then obtain t' where t': "k t (read_level st) = (ok, t', st')" and tbl': "tbl' = tbl(i0 \<mapsto> t')"
      using run by (auto simp: walk_level_def Let_def split: prod.splits)
    show ?thesis
      using k' [OF t'] Some tbl' by (auto simp: sub_lookup_def map_upd_triv)
  next
    case None
    note none = None
    show ?thesis
    proof (cases is_alloc)
      case False
      then show ?thesis
        using run None by (auto simp: walk_level_def Let_def sub_lookup_def)
    next
      case True
      obtain got s1 where al: "alloc_pgtbl_level (read_level st) = (got, s1)"
        by (cases "alloc_pgtbl_level (read_level st)")
      note al' = alloc_pgtbl_level_spec [OF al]
      show ?thesis
      proof (cases got)
        case False
        then show ?thesis
          using run None True al al'
          by (auto simp: walk_level_def Let_def sub_lookup_def)
      next
        case got: True
        then obtain t' where t': "k new (write_level s1) = (ok, t', st')" and tbl': "tbl' = tbl(i0 \<mapsto> t')"
          using run None True al by (auto simp: walk_level_def Let_def split: prod.splits)
        show ?thesis
          using k' [OF t'] none tbl' al' got True
          by (auto simp: sub_lookup_def new)
      qed
    qed
  qed
qed

lemma pt_lookup_nested:
  "pt_lookup pgd ix =
     sub_lookup (sub_lookup (sub_lookup (sub_lookup (\<lambda>pt j. Some (pt j))))) pgd
       (ix_pgd ix, ix_p4d ix, ix_pud ix, ix_pmd ix, ix_pt ix)"
  by (auto simp: pt_lookup_def sub_lookup_def split: option.splits bind_splits)

lemma walk_pgd_ok:
  "walk_ok is_alloc pt_lookup ix 4 (walk_pgd is_alloc ix)"
proof -
  have "walk_ok is_alloc (sub_lookup (sub_lookup (sub_lookup (sub_lookup (\<lambda>pt j. Some (pt j))))))
      (ix_pgd ix, ix_p4d ix, ix_pud ix, ix_pmd ix, ix_pt ix) (Suc (Suc (Suc (Suc 0))))
      (walk_pgd is_alloc ix)"
    unfolding walk_pgd_def
    by (intro walk_ok_level walk_ok_leaf) (auto simp: sub_lookup_def)
  moreover have "Suc (Suc (Suc (Suc 0))) = 4" by simp
  ultimately show ?thesis
    unfolding walk_ok_def pt_lookup_nested by metis
qed

section \<open>Entry accessors on the view\<close>

text \<open>A caller whose descriptor is set up, and worlds that differ only in the page table of
  one descriptor and in the host memory left.\<close>

definition caller_ok :: "pcb_t \<Rightarrow> mm_ptr \<Rightarrow> world \<Rightarrow> bool" where
  "caller_ok c mp w \<longleftrightarrow> p_krnl c \<and> p_mm c = Some mp
     \<and> (\<exists>m. w_mms w mp = Some m \<and> mm_pgd m \<noteq> None)"

definition pt_changed :: "mm_ptr \<Rightarrow> world \<Rightarrow> world \<Rightarrow> bool" where
  "pt_changed mp w w' \<longleftrightarrow>
     (\<exists>m pgd' s' h'. w_mms w mp = Some m \<and> mm_pgd m \<noteq> None
        \<and> (stats_ok (mm_stats m) \<longrightarrow> stats_ok s')
        \<and> w' = (set_mm w mp (m\<lparr>mm_pgd := Some pgd', mm_stats := s'\<rparr>))\<lparr>w_hostmem := h'\<rparr>)"

lemma pt_changed_trans: "pt_changed mp w1 w2 \<Longrightarrow> pt_changed mp w2 w3 \<Longrightarrow> pt_changed mp w1 w3"
  unfolding pt_changed_def set_mm_def by fastforce

lemma pt_changed_frame:
  assumes "pt_changed mp w w'"
  shows "w_os w' = w_os w" and "w_pcbs w' = w_pcbs w"
    and "q \<noteq> mp \<Longrightarrow> w_mms w' q = w_mms w q"
    and "q \<noteq> mp \<Longrightarrow> pte_view w' q = pte_view w q"
    and "caller_ok c q w' = caller_ok c q w"
  using assms by (auto simp: pt_changed_def caller_ok_def pte_view_def split: if_splits)

lemma pt_changed_mm:
  assumes "pt_changed mp w w'" and "w_mms w mp = Some m"
  obtains m' where "w_mms w' mp = Some m'" and "mm_mmap m' = mm_mmap m"
    and "mm_symrgtbl m' = mm_symrgtbl m" and "mm_fifo_pgn m' = mm_fifo_pgn m"
    and "mm_kcpooltbl m' = mm_kcpooltbl m" and "mm_pgd m' \<noteq> None"
    and "stats_ok (mm_stats m) \<longrightarrow> stats_ok (mm_stats m')"
  using assms by (auto simp: pt_changed_def)

lemma get_pte_ptr_walk:
  assumes "caller_ok c mp w" and ix: "get_pd_from_pagenum pgn = Some ix"
  obtains p w' where "get_pte_ptr (Some c) pgn is_alloc w = Some (p, w')"
    and "pt_changed mp w w'" and "pte_view w' mp = pte_view w mp"
    and "p = None \<or> p = Some (mp, ix) \<and> pte_load w' (mp, ix) = Some (pte_view w mp ix)"
    and "p = None \<Longrightarrow> \<not> is_alloc \<Longrightarrow> pte_view w mp ix = 0"
    and "is_alloc \<Longrightarrow> 4 \<le> w_hostmem w \<Longrightarrow> p \<noteq> None"
    and "w_hostmem w' \<le> w_hostmem w" and "w_hostmem w \<le> w_hostmem w' + 4"
    and "\<not> is_alloc \<Longrightarrow> w_hostmem w' = w_hostmem w"
proof -
  obtain m pgd where m: "p_mm c = Some mp" "w_mms w mp = Some m" "mm_pgd m = Some pgd"
    using assms(1) by (auto simp: caller_ok_def)
  define s where "s = (mm_stats m)\<lparr>pgtbl_walks := pgtbl_walks (mm_stats m) + 1\<rparr>"
  obtain ok pgd' s' h' where walk: "walk_pgd is_alloc ix pgd (s, w_hostmem w) = (ok, pgd', s', h')"
    by (metis prod_cases4)
  have wk: "\<forall>j. entry_val (pt_lookup pgd' j) = entry_val (pt_lookup pgd j)"
    "ok \<longleftrightarrow> pt_lookup pgd' ix \<noteq> None" "h' \<le> w_hostmem w" "w_hostmem w \<le> h' + 4"
    "is_alloc \<and> 4 \<le> w_hostmem w \<longrightarrow> ok" "\<not> is_alloc \<longrightarrow> pgd' = pgd \<and> h' = w_hostmem w"
    "stats_ok s \<longrightarrow> stats_ok s'"
    using walk_pgd_ok [of is_alloc ix] walk unfolding walk_ok_def by fastforce+
  define w' where "w' = set_mm w mp (m\<lparr>mm_pgd := Some pgd', mm_stats := s'\<rparr>)\<lparr>w_hostmem := h'\<rparr>"
  define p where "p = (if ok then Some (mp, ix) else None)"
  have run: "get_pte_ptr (Some c) pgn is_alloc w = Some (p, w')"
    by (simp add: get_pte_ptr_def m ix walk Let_def p_def w'_def flip: s_def)
  have "stats_ok s = stats_ok (mm_stats m)" by (simp add: s_def stats_ok_def)
  then have ch: "pt_changed mp w w'"
    unfolding pt_changed_def w'_def using m wk(7) by blast
  have view: "pte_view w' mp = pte_view w mp"
    using wk(1) m by (auto simp: pte_view_def w'_def pt_view_def)
  show thesis
  proof (rule that [OF run ch view])
    show "p = None \<or> p = Some (mp, ix) \<and> pte_load w' (mp, ix) = Some (pte_view w mp ix)"
      using wk(1,2) m by (auto simp: p_def pte_load_def w'_def pte_view_def pt_view_def) (metis entry_val_simps(2))
  qed (use wk m in \<open>auto simp: p_def w'_def pte_view_def pt_view_def split: if_splits\<close>)
qed

text \<open>The three setters change one entry by a function of its old value.\<close>

definition pte_modify :: "(u64 \<Rightarrow> u64) \<Rightarrow> pcb_t option \<Rightarrow> addr_t \<Rightarrow> world \<Rightarrow> (int \<times> world) option" where
  "pte_modify f caller pgn w = do {
     (p, w) \<leftarrow> get_pte_ptr caller pgn True w;
     (case p of
        None \<Rightarrow> Some (- 1, w)
      | Some p \<Rightarrow> do {
          v \<leftarrow> pte_load w p;
          w \<leftarrow> pte_write w p (f v);
          w \<leftarrow> count_write w (fst p);
          Some (0, w) })
   }"

lemma pte_set_fpn_modify:
  "p_krnl c \<Longrightarrow> pte_set_fpn (Some c) pgn fpn w = pte_modify (\<lambda>v. pte_online v fpn) (Some c) pgn w"
  by (simp add: pte_set_fpn_def pte_modify_def)

lemma pte_set_swap_modify:
  "p_krnl c \<Longrightarrow> pte_set_swap (Some c) pgn t off w = pte_modify (\<lambda>v. pte_swapped v t off) (Some c) pgn w"
  by (simp add: pte_set_swap_def pte_modify_def)

lemma pte_write_spec:
  assumes "pte_load w (mp, ix) = Some v"
  obtains w' w'' where "pte_write w (mp, ix) u = Some w'" and "count_write w' mp = Some w''"
    and "pt_changed mp w w''" and "pte_view w'' mp = (pte_view w mp)(ix := u)"
    and "w_hostmem w'' = w_hostmem w"
proof -
  obtain m pgd where m: "w_mms w mp = Some m" "mm_pgd m = Some pgd" "pt_lookup pgd ix = Some v"
    using assms by (auto simp: pte_load_def bind_eq_Some_conv)
  obtain pgd' where pgd': "pt_store pgd ix u = Some pgd'"
    using pt_store_iff [of pgd ix u] m(3) by auto
  define w' where "w' = set_mm w mp (m\<lparr>mm_pgd := Some pgd'\<rparr>)"
  define w'' where "w'' = set_mm w mp (m\<lparr>mm_pgd := Some pgd',
    mm_stats := (mm_stats m)\<lparr>pgtbl_level_writes := pgtbl_level_writes (mm_stats m) + 1\<rparr>\<rparr>)"
  show thesis
  proof (rule that)
    show "pte_write w (mp, ix) u = Some w'"
      by (simp add: pte_write_def m pgd' w'_def)
    show "count_write w' mp = Some w''"
      by (simp add: count_write_def w'_def w''_def set_mm_def Let_def)
    show "pt_changed mp w w''"
      unfolding pt_changed_def
      by (rule exI [of _ m], rule exI [of _ pgd'],
          rule exI [of _ "(mm_stats m)\<lparr>pgtbl_level_writes := pgtbl_level_writes (mm_stats m) + 1\<rparr>"],
          rule exI [of _ "w_hostmem w"])
        (simp add: m w''_def stats_ok_def set_mm_def)
    show "pte_view w'' mp = (pte_view w mp)(ix := u)"
      using pt.view_store [OF pgd'] m by (auto simp: pte_view_def w''_def)
  qed (simp add: w''_def)
qed

lemma pte_modify_spec:
  assumes "caller_ok c mp w" and "get_pd_from_pagenum pgn = Some ix"
  obtains r w' where "pte_modify f (Some c) pgn w = Some (r, w')"
    and "pt_changed mp w w'"
    and "r = 0 \<and> pte_view w' mp = (pte_view w mp)(ix := f (pte_view w mp ix))
       \<or> r = - 1 \<and> pte_view w' mp = pte_view w mp"
    and "4 \<le> w_hostmem w \<Longrightarrow> r = 0"
    and "w_hostmem w' \<le> w_hostmem w" and "w_hostmem w \<le> w_hostmem w' + 4"
proof -
  obtain p w1 where g: "get_pte_ptr (Some c) pgn True w = Some (p, w1)"
    and ch1: "pt_changed mp w w1" and v1: "pte_view w1 mp = pte_view w mp"
    and p: "p = None \<or> p = Some (mp, ix) \<and> pte_load w1 (mp, ix) = Some (pte_view w mp ix)"
    and suff: "4 \<le> w_hostmem w \<Longrightarrow> p \<noteq> None"
    and h: "w_hostmem w1 \<le> w_hostmem w" "w_hostmem w \<le> w_hostmem w1 + 4"
    using get_pte_ptr_walk [OF assms, of True] by blast
  show thesis
  proof (cases p)
    case None
    then show ?thesis
      by (intro that [of "- 1" w1]) (use g ch1 v1 suff h in \<open>auto simp: pte_modify_def\<close>)
  next
    case (Some p')
    with p have p': "p = Some (mp, ix)" and ld: "pte_load w1 (mp, ix) = Some (pte_view w mp ix)"
      by auto
    obtain w2 w3 where "pte_write w1 (mp, ix) (f (pte_view w mp ix)) = Some w2"
      and "count_write w2 mp = Some w3" and "pt_changed mp w1 w3"
      and "pte_view w3 mp = (pte_view w1 mp)(ix := f (pte_view w mp ix))"
      and "w_hostmem w3 = w_hostmem w1"
      using pte_write_spec [OF ld] by blast
    then show ?thesis
      by (intro that [of 0 w3])
        (use g p' ld v1 h pt_changed_trans [OF ch1] in \<open>auto simp: pte_modify_def\<close>)
  qed
qed

lemma pte_get_entry_spec:
  assumes "caller_ok c mp w" and "get_pd_from_pagenum pgn = Some ix"
  obtains w' where "pte_get_entry (Some c) pgn w = Some (ucast (pte_view w mp ix), w')"
    and "pt_changed mp w w'" and "pte_view w' mp = pte_view w mp" and "w_hostmem w' = w_hostmem w"
proof -
  obtain p w1 where g: "get_pte_ptr (Some c) pgn False w = Some (p, w1)"
    and rest: "pt_changed mp w w1" "pte_view w1 mp = pte_view w mp"
      "p = None \<or> p = Some (mp, ix) \<and> pte_load w1 (mp, ix) = Some (pte_view w mp ix)"
      "p = None \<Longrightarrow> pte_view w mp ix = 0" "w_hostmem w1 = w_hostmem w"
    by (rule get_pte_ptr_walk [OF assms, of False]) (erule that; simp)
  have k: "p_krnl c" using assms(1) by (simp add: caller_ok_def)
  have "pte_get_entry (Some c) pgn w = Some (ucast (pte_view w mp ix), w1)"
    using g k rest(3,4) by (cases p) (auto simp: pte_get_entry_def)
  then show ?thesis using rest(1,2,5) by (rule that)
qed

section \<open>Pages by number\<close>

text \<open>The entry of a page number below \<open>2 ^ 45\<close>, the numbers the five indices tell
  apart.\<close>

definition page_limit :: nat where
  "page_limit = 2 ^ 45"

definition page_ix :: "nat \<Rightarrow> pd_idx" where
  "page_ix p = the (get_pd_from_pagenum (of_nat p))"

definition vpage :: "world \<Rightarrow> mm_ptr \<Rightarrow> nat \<Rightarrow> u64" where
  "vpage w mp p = (if p < page_limit then pte_view w mp (page_ix p) else 0)"

lemma unat_page: "p < page_limit \<Longrightarrow> unat (of_nat p :: u64) = p"
  by (simp add: page_limit_def unat_of_nat)

lemma page_ix_get: "p < page_limit \<Longrightarrow> get_pd_from_pagenum (of_nat p) = Some (page_ix p)"
  using get_pd_from_pagenum_low [of "of_nat p"] unat_page [of p]
  by (auto simp: page_ix_def page_limit_def)

lemma page_ix_inj: "p < page_limit \<Longrightarrow> q < page_limit \<Longrightarrow> page_ix p = page_ix q \<longleftrightarrow> p = q"
  using get_pd_inj [of "of_nat p" "page_ix p" "of_nat q"] page_ix_get [of p] page_ix_get [of q]
    unat_page [of p] unat_page [of q]
  by (metis page_limit_def)

lemma vpage_eq: "pte_view w' mp = pte_view w mp \<Longrightarrow> vpage w' mp = vpage w mp"
  by (simp add: vpage_def fun_eq_iff)

lemma vpage_upd:
  "p < page_limit \<Longrightarrow> pte_view w' mp = (pte_view w mp)(page_ix p := v) \<Longrightarrow>
   vpage w' mp = (vpage w mp)(p := v)"
  by (auto simp: vpage_def fun_eq_iff page_ix_inj)

lemma vpage_other: "pt_changed mp w w' \<Longrightarrow> q \<noteq> mp \<Longrightarrow> vpage w' q = vpage w q"
  by (simp add: vpage_def fun_eq_iff pt_changed_frame(4))

lemma pte_modify_page:
  assumes "caller_ok c mp w" and "p < page_limit"
  obtains r w' where "pte_modify f (Some c) (of_nat p) w = Some (r, w')"
    and "pt_changed mp w w'"
    and "r = 0 \<and> vpage w' mp = (vpage w mp)(p := f (vpage w mp p))
       \<or> r = - 1 \<and> vpage w' mp = vpage w mp"
    and "4 \<le> w_hostmem w \<Longrightarrow> r = 0"
    and "w_hostmem w' \<le> w_hostmem w" and "w_hostmem w \<le> w_hostmem w' + 4"
proof (rule pte_modify_spec [OF assms(1) page_ix_get [OF assms(2)], of f], rule that)
  fix r w'
  assume "r = 0 \<and> pte_view w' mp = (pte_view w mp)(page_ix p := f (pte_view w mp (page_ix p)))
       \<or> r = - 1 \<and> pte_view w' mp = pte_view w mp"
  moreover have "pte_view w mp (page_ix p) = vpage w mp p" using assms(2) by (simp add: vpage_def)
  ultimately show "r = 0 \<and> vpage w' mp = (vpage w mp)(p := f (vpage w mp p))
       \<or> r = - 1 \<and> vpage w' mp = vpage w mp"
    using vpage_upd [OF assms(2)] vpage_eq by metis
qed

lemma pte_set_fpn_page:
  assumes "caller_ok c mp w" and "p < page_limit"
  obtains r w' where "pte_set_fpn (Some c) (of_nat p) fpn w = Some (r, w')"
    and "pt_changed mp w w'"
    and "r = 0 \<and> vpage w' mp = (vpage w mp)(p := pte_online (vpage w mp p) fpn)
       \<or> r = - 1 \<and> vpage w' mp = vpage w mp"
    and "4 \<le> w_hostmem w \<Longrightarrow> r = 0"
    and "w_hostmem w' \<le> w_hostmem w" and "w_hostmem w \<le> w_hostmem w' + 4"
proof -
  have k: "p_krnl c" using assms(1) by (simp add: caller_ok_def)
  show thesis
    by (rule pte_modify_page [OF assms, of "\<lambda>v. pte_online v fpn"])
      (rule that [unfolded pte_set_fpn_modify [OF k]])
qed

lemma pte_set_swap_page:
  assumes "caller_ok c mp w" and "p < page_limit"
  obtains r w' where "pte_set_swap (Some c) (of_nat p) t off w = Some (r, w')"
    and "pt_changed mp w w'"
    and "r = 0 \<and> vpage w' mp = (vpage w mp)(p := pte_swapped (vpage w mp p) t off)
       \<or> r = - 1 \<and> vpage w' mp = vpage w mp"
    and "4 \<le> w_hostmem w \<Longrightarrow> r = 0"
    and "w_hostmem w' \<le> w_hostmem w" and "w_hostmem w \<le> w_hostmem w' + 4"
proof -
  have k: "p_krnl c" using assms(1) by (simp add: caller_ok_def)
  show thesis
    by (rule pte_modify_page [OF assms, of "\<lambda>v. pte_swapped v t off"])
      (rule that [unfolded pte_set_swap_modify [OF k]])
qed

lemma pte_get_entry_page:
  assumes "caller_ok c mp w" and "p < page_limit"
  obtains w' where "pte_get_entry (Some c) (of_nat p) w = Some (ucast (vpage w mp p), w')"
    and "pt_changed mp w w'" and "vpage w' mp = vpage w mp" and "w_hostmem w' = w_hostmem w"
proof -
  have pv: "pte_view w mp (page_ix p) = vpage w mp p" using assms(2) by (simp add: vpage_def)
  show thesis
    by (rule pte_get_entry_spec [OF assms(1) page_ix_get [OF assms(2)]])
      (erule that [unfolded pv [symmetric]]; auto intro: vpage_eq)
qed

section \<open>Properties\<close>

text \<open>A descriptor with an empty page directory, a caller and a world, for the examples below.\<close>

definition ex_mm0 :: mm_struct where
  "ex_mm0 = \<lparr>mm_pgd = Some (\<lambda>_. None), mm_mmap = [], mm_symrgtbl = [], mm_fifo_pgn = [], mm_kcpooltbl = None,
     mm_stats = \<lparr>pgtbl_walks = 0, pgtbl_level_reads = 0, pgtbl_level_writes = 0,
       pgtbl_tables_allocated = 1, pgtbl_storage_bytes = PGTBL_TABLE_BYTES\<rparr>\<rparr>"

definition ex_caller :: pcb_t where
  "ex_caller = \<lparr>p_pid = 1, p_priority = 0, p_code = [], p_regs = replicate 10 0, p_pc = 0, p_prio = 0,
     p_krnl = True, p_bp = 0, p_mm = Some 0\<rparr>"

definition ex_vm :: "mm_struct \<Rightarrow> memphy_struct \<Rightarrow> memphy_struct \<Rightarrow> world" where
  "ex_vm m ram swp = \<lparr>w_mms = (\<lambda>_. None)(0 \<mapsto> m), w_pcbs = (\<lambda>_. None)(7 \<mapsto> ex_caller),
     w_os = \<lparr>k_ready_queue = False, k_mlq_ready_queue = False, k_running_list = False,
       k_proc_table = (replicate PID_MAX None)[1 := Some 7], k_mm = None, k_mram = Some ram,
       k_active_mswp = Some swp\<rparr>,
     w_hostmem = 100\<rparr>"

definition ex_w :: world where
  "ex_w = ex_vm ex_mm0 ex_dev ex_dev"

lemma ex_caller_ok: "mm_pgd m \<noteq> None \<Longrightarrow> caller_ok ex_caller 0 (ex_vm m ram swp)"
  by (simp add: caller_ok_def ex_caller_def ex_vm_def)

lemma ex_w_ok: "caller_ok ex_caller 0 ex_w" "w_mms ex_w 0 = Some ex_mm0" "w_hostmem ex_w = 100"
  by (simp_all add: ex_w_def ex_caller_ok ex_mm0_def) (simp_all add: ex_vm_def)

text \<open>C10: The five-level table behaves as a map from page numbers to entries: after
  \<open>pte_set_fpn\<close> a look-up of that page finds the updated entry and a look-up of any other page
  finds what was there before; when a table cannot be allocated the routine reports \<open>- 1\<close> and
  no entry changes.  With memory for the four inner tables it succeeds.\<close>

theorem page_table_is_a_map:
  assumes "caller_ok c mp w" and "p < page_limit" and "q < page_limit"
    and "pte_set_fpn (Some c) (of_nat p) fpn w = Some (r, w')"
  shows "(r = 0 \<or> r = - 1) \<and> (4 \<le> w_hostmem w \<longrightarrow> r = 0)
    \<and> (\<exists>w''. pte_get_entry (Some c) (of_nat q) w'
        = Some (ucast (if q = p \<and> r = 0 then pte_online (vpage w mp p) fpn else vpage w mp q), w''))"
proof -
  have run: "pt_changed mp w w'"
    "r = 0 \<and> vpage w' mp = (vpage w mp)(p := pte_online (vpage w mp p) fpn) \<or> r = - 1 \<and> vpage w' mp = vpage w mp"
    "4 \<le> w_hostmem w \<Longrightarrow> r = 0"
    by (rule pte_set_fpn_page [OF assms(1,2), of fpn]; use assms(4) in force)+
  have ok: "caller_ok c mp w'" using assms(1) pt_changed_frame(5) [OF run(1)] by simp
  obtain w'' where "pte_get_entry (Some c) (of_nat q) w' = Some (ucast (vpage w' mp q), w'')"
    using pte_get_entry_page [OF ok assms(3)] by blast
  then show ?thesis using run by auto
qed

theorem page_table_is_a_map_witness:
  "\<exists>r w' w''. pte_set_fpn (Some ex_caller) (of_nat 9) 5 ex_w = Some (r, w')
    \<and> pte_get_entry (Some ex_caller) (of_nat 9) w' = Some (ucast (pte_online (vpage ex_w 0 9) 5), w'')"
proof -
  have lim: "9 < page_limit" by (simp add: page_limit_def)
  obtain r w' where s: "pte_set_fpn (Some ex_caller) (of_nat 9) 5 ex_w = Some (r, w')"
    using pte_set_fpn_page [OF ex_w_ok(1) lim] by blast
  show ?thesis using page_table_is_a_map [OF ex_w_ok(1) lim lim s] s ex_w_ok(3) by auto
qed

text \<open>A look-up does not change the tables: it allocates nothing, and of the descriptor it
  changes only the access counters.\<close>

theorem lookup_changes_counters_only:
  assumes "caller_ok c mp w" and "w_mms w mp = Some m" and "p < page_limit"
  shows "\<exists>s. pte_get_entry (Some c) (of_nat p) w = Some (ucast (vpage w mp p), set_mm w mp (m\<lparr>mm_stats := s\<rparr>))"
proof -
  obtain pgd where m: "p_krnl c" "p_mm c = Some mp" "mm_pgd m = Some pgd"
    using assms(1,2) by (auto simp: caller_ok_def)
  let ?s = "(mm_stats m)\<lparr>pgtbl_walks := pgtbl_walks (mm_stats m) + 1\<rparr>"
  obtain ok pgd' s' h' where walk: "walk_pgd False (page_ix p) pgd (?s, w_hostmem w) = (ok, pgd', s', h')"
    by (metis prod_cases4)
  then have "pgd' = pgd \<and> h' = w_hostmem w"
    using walk_pgd_ok [of False "page_ix p"] unfolding walk_ok_def by fastforce
  then have "\<exists>pt. get_pte_ptr (Some c) (of_nat p) False w
      = Some (pt, set_mm w mp (m\<lparr>mm_pgd := Some pgd, mm_stats := s'\<rparr>))"
    using m assms(2) walk page_ix_get [OF assms(3)]
    by (simp add: get_pte_ptr_def Let_def set_mm_def)
  moreover have "m\<lparr>mm_pgd := Some pgd, mm_stats := s'\<rparr> = m\<lparr>mm_stats := s'\<rparr>"
    using m(3) by (cases m) simp
  ultimately have "\<exists>pt. get_pte_ptr (Some c) (of_nat p) False w = Some (pt, set_mm w mp (m\<lparr>mm_stats := s'\<rparr>))"
    by metis
  moreover obtain w1 where e: "pte_get_entry (Some c) (of_nat p) w = Some (ucast (vpage w mp p), w1)"
    using pte_get_entry_page [OF assms(1,3)] by blast
  ultimately have "w1 = set_mm w mp (m\<lparr>mm_stats := s'\<rparr>)"
    using m(1) by (auto simp: pte_get_entry_def split: option.splits bind_splits)
  then show ?thesis using e by blast
qed

theorem lookup_changes_counters_only_witness:
  "\<exists>s. pte_get_entry (Some ex_caller) (of_nat 9) ex_w
     = Some (ucast (vpage ex_w 0 9), set_mm ex_w 0 (ex_mm0\<lparr>mm_stats := s\<rparr>))"
  by (rule lookup_changes_counters_only [OF ex_w_ok(1,2)]) (simp add: page_limit_def)

text \<open>The statistics of a descriptor account for its page tables: the bytes of table storage are
  the number of allocated tables times the size of a table, before and after every entry
  update.\<close>

theorem table_storage_accounted:
  assumes "caller_ok c mp w" and "w_mms w mp = Some m" and "p < page_limit"
    and "pgtbl_storage_bytes (mm_stats m) = pgtbl_tables_allocated (mm_stats m) * PGTBL_TABLE_BYTES"
    and "pte_set_fpn (Some c) (of_nat p) fpn w = Some (r, w') \<or> pte_set_swap (Some c) (of_nat p) t off w = Some (r, w')"
  shows "\<exists>m'. w_mms w' mp = Some m'
    \<and> pgtbl_storage_bytes (mm_stats m') = pgtbl_tables_allocated (mm_stats m') * PGTBL_TABLE_BYTES"
proof -
  have ch: "pt_changed mp w w'"
    using assms(5) by (rule disjE)
      (rule pte_set_fpn_page [OF assms(1,3), of fpn] pte_set_swap_page [OF assms(1,3), of t off]; force)+
  have "stats_ok (mm_stats m)" using assms(4) by (simp add: stats_ok_def)
  then show ?thesis using pt_changed_mm [OF ch assms(2)] by (auto simp: stats_ok_def)
qed

theorem table_storage_accounted_witness:
  "\<exists>r w' m'. pte_set_fpn (Some ex_caller) (of_nat 9) 5 ex_w = Some (r, w') \<and> w_mms w' 0 = Some m'
    \<and> pgtbl_storage_bytes (mm_stats m') = pgtbl_tables_allocated (mm_stats m') * PGTBL_TABLE_BYTES"
proof -
  have lim: "9 < page_limit" by (simp add: page_limit_def)
  obtain r w' where s: "pte_set_fpn (Some ex_caller) (of_nat 9) 5 ex_w = Some (r, w')"
    using pte_set_fpn_page [OF ex_w_ok(1) lim] by blast
  have "\<exists>m'. w_mms w' 0 = Some m'
      \<and> pgtbl_storage_bytes (mm_stats m') = pgtbl_tables_allocated (mm_stats m') * PGTBL_TABLE_BYTES"
    by (rule table_storage_accounted [OF ex_w_ok(1,2) lim _ disjI1 [OF s]]) (simp add: ex_mm0_def)
  then show ?thesis using s by blast
qed

end
