(* ===== verification/Mm64.thy ===== *)
theory Mm64
  imports PageTable
begin

text \<open>
  The rest of \<open>src/src/mm64.c\<close>: allocating frames for a range of pages with rollback,
  mapping them, copying a page between devices, and setting up a memory descriptor.

  \<open>alloc_pages_range\<close>, \<open>vmap_page_range\<close> and \<open>vm_map_ram\<close> return
  \<open>addr_t\<close>, an unsigned type: their error codes are large words, and a comparison
  \<open>< 0\<close> of such a result is kept as the (always false) comparison of words it is.
\<close>

section \<open>Region and page lists\<close>

definition init_vm_rg :: "addr_t \<Rightarrow> addr_t \<Rightarrow> cint \<Rightarrow> world \<Rightarrow> vm_rg_struct option \<times> world" where
  "init_vm_rg rs re vmaid w =
     (case host_alloc w of
        (got, w) \<Rightarrow>
          (if got then Some \<lparr>rg_vmaid = vmaid, rg_start = rs, rg_end = re\<rparr> else None, w))"

definition enlist_vm_rg_node :: "vm_rg_struct list \<Rightarrow> vm_rg_struct \<Rightarrow> vm_rg_struct list" where
  "enlist_vm_rg_node rglist rgnode = rgnode # rglist"

text \<open>\<open>enlist_pgn_node(&mm->fifo_pgn, pgn)\<close>.  The node is allocated and written without a
  check, so a failed allocation is a null dereference.\<close>

definition enlist_pgn_node :: "mm_ptr \<Rightarrow> addr_t \<Rightarrow> world \<Rightarrow> world option" where
  "enlist_pgn_node mp pgn w = do {
     let (got, w) = host_alloc w;
     if got then do {
       m \<leftarrow> w_mms w mp;
       Some (set_mm w mp (m\<lparr>mm_fifo_pgn := pgn # mm_fifo_pgn m\<rparr>))
     } else None
   }"

section \<open>Mapping a range\<close>

text \<open>The mapping loop, at page \<open>pgit\<close> with \<open>n\<close> pages left: the error flag, the
  final \<open>pgit\<close> and the world.  The product \<open>pgit * PAGING64_PAGESZ\<close> is an
  \<open>int\<close>.\<close>

fun vmap_loop ::
  "pcb_t \<Rightarrow> addr_t \<Rightarrow> nat \<Rightarrow> nat \<Rightarrow> addr_t list \<Rightarrow> world \<Rightarrow> (int \<times> nat \<times> world) option" where
  "vmap_loop c addr pgit 0 frames w = Some (0, pgit, w)"
| "vmap_loop c addr pgit (Suc n) frames w = do {
     off \<leftarrow> c_int (int pgit * int PAGING64_PAGESZ);
     let pgn = drop_bit PAGING64_ADDR_PT_SHIFT (addr + of_int off);
     (case frames of
        [] \<Rightarrow> Some (0, pgit, w)
      | fpn # rest \<Rightarrow> do {
          (r, w) \<leftarrow> pte_set_fpn (Some c) pgn fpn w;
          if r \<noteq> 0 then Some (- 1, pgit, w)
          else do {
            w \<leftarrow> (case p_mm c of None \<Rightarrow> Some w | Some mp \<Rightarrow> enlist_pgn_node mp pgn w);
            vmap_loop c addr (pgit + 1) n rest w
          }
        })
   }"

definition vmap_page_range ::
  "pcb_t option \<Rightarrow> addr_t \<Rightarrow> cint \<Rightarrow> addr_t list \<Rightarrow> vm_rg_struct option \<Rightarrow> world \<Rightarrow>
   (addr_t \<times> vm_rg_struct option \<times> world) option" where
  "vmap_page_range caller addr pgnum frames ret_rg w =
     (case caller of
        None \<Rightarrow> Some (- 1, ret_rg, w)
      | Some c \<Rightarrow>
          if p_mm c = None then Some (- 1, ret_rg, w)
          else do {
            let ret_rg = map_option (\<lambda>rg. rg\<lparr>rg_start := addr\<rparr>) ret_rg;
            (map_err, pgit, w) \<leftarrow> vmap_loop c addr 0 (nat (sint pgnum)) frames w;
            off \<leftarrow> c_int (int pgit * int PAGING64_PAGESZ);
            let ret_rg = map_option (\<lambda>rg. rg\<lparr>rg_end := addr + of_int off\<rparr>) ret_rg;
            Some (of_int map_err, ret_rg, w)
          })"

section \<open>Allocating frames\<close>

text \<open>The allocation loop for \<open>n\<close> more pages: whether it succeeded, the frames collected
  so far in the order of the list, and the world.\<close>

fun alloc_loop :: "nat \<Rightarrow> addr_t list \<Rightarrow> world \<Rightarrow> bool \<times> addr_t list \<times> world" where
  "alloc_loop 0 frm_lst w = (True, frm_lst, w)"
| "alloc_loop (Suc n) frm_lst w =
     (case MEMPHY_get_freefp (mram w) 0 of
        (r, dev, fpn) \<Rightarrow>
          if r = 0 then
            (case host_alloc (set_mram w dev) of
               (got, w) \<Rightarrow>
                 if \<not> got then (False, frm_lst, set_mram w (snd (MEMPHY_put_freefp (mram w) fpn)))
                 else alloc_loop n (frm_lst @ [fpn]) w)
          else (False, frm_lst, w))"

fun put_frames :: "addr_t list \<Rightarrow> world \<Rightarrow> world" where
  "put_frames [] w = w"
| "put_frames (f # fs) w = put_frames fs (set_mram w (snd (MEMPHY_put_freefp (mram w) f)))"

definition alloc_pages_range ::
  "pcb_t option \<Rightarrow> cint \<Rightarrow> addr_t list \<Rightarrow> world \<Rightarrow> addr_t \<times> addr_t list \<times> world" where
  "alloc_pages_range caller req_pgnum frm_lst w =
     (case caller of
        None \<Rightarrow> (- 1, frm_lst, w)
      | Some c \<Rightarrow>
          if \<not> p_krnl c \<or> mram w = None then (- 1, frm_lst, w)
          else (case alloc_loop (nat (sint req_pgnum)) frm_lst w of
                  (alloc_success, frm_lst, w) \<Rightarrow>
                    if \<not> alloc_success then (- 3000, [], put_frames frm_lst w)
                    else (0, frm_lst, w)))"

definition vm_map_ram ::
  "pcb_t option \<Rightarrow> addr_t \<Rightarrow> addr_t \<Rightarrow> addr_t \<Rightarrow> cint \<Rightarrow> vm_rg_struct option \<Rightarrow> world \<Rightarrow>
   (addr_t \<times> vm_rg_struct option \<times> world) option" where
  "vm_map_ram caller astart aend mapstart incpgnum ret_rg w =
     (case caller of
        None \<Rightarrow> Some (- 1, ret_rg, w)
      | Some c \<Rightarrow>
          if \<not> p_krnl c \<or> mram w = None then Some (- 1, ret_rg, w)
          else
            (case alloc_pages_range caller incpgnum [] w of
               (r, frm_lst, w) \<Rightarrow>
                 let ret_alloc = sint (ucast r :: cint)
                 in if ret_alloc < 0 \<and> ret_alloc \<noteq> - 3000 then Some (- 1, ret_rg, w)
                    else if ret_alloc = - 3000 then Some (- 1, ret_rg, w)
                    else do {
                      (r', ret_rg, w) \<leftarrow> vmap_page_range caller mapstart incpgnum frm_lst ret_rg w;
                      let ret_alloc = (if r' < 0 then - 1 else ret_alloc);
                      let w = (if ret_alloc < 0 then put_frames frm_lst w else w);
                      Some (if ret_alloc < 0 then - 1 else 0, ret_rg, w)
                    }))"

section \<open>Copying a page between devices\<close>

text \<open>The byte is read into an uninitialised variable; if the read fails, an indeterminate
  value is written.\<close>

function cp_loop ::
  "memphy_struct option \<Rightarrow> addr_t \<Rightarrow> memphy_struct option \<Rightarrow> addr_t \<Rightarrow> nat \<Rightarrow>
   (memphy_struct option \<times> memphy_struct option) option" where
  "cp_loop mpsrc srcfpn mpdst dstfpn cellidx =
     (if cellidx < PAGING64_PAGESZ then do {
        let addrsrc = srcfpn * of_nat PAGING64_PAGESZ + of_nat cellidx;
        let addrdst = dstfpn * of_nat PAGING64_PAGESZ + of_nat cellidx;
        (r, mpsrc, data) \<leftarrow> MEMPHY_read mpsrc addrsrc 0;
        if r \<noteq> 0 then None
        else do {
          (r, mpdst) \<leftarrow> MEMPHY_write mpdst addrdst data;
          cp_loop mpsrc srcfpn mpdst dstfpn (cellidx + 1)
        }
      } else Some (mpsrc, mpdst))"
  by pat_completeness auto
termination
  by (relation "measure (\<lambda>(s, sf, d, df, i). PAGING64_PAGESZ - i)") auto

declare cp_loop.simps [simp del]

definition swap_cp_page ::
  "memphy_struct option \<Rightarrow> addr_t \<Rightarrow> memphy_struct option \<Rightarrow> addr_t \<Rightarrow>
   (int \<times> memphy_struct option \<times> memphy_struct option) option" where
  "swap_cp_page mpsrc srcfpn mpdst dstfpn = do {
     (s, d) \<leftarrow> cp_loop mpsrc srcfpn mpdst dstfpn 0;
     Some (0, s, d)
   }"

section \<open>Setting up a descriptor\<close>

definition blank_vm_rg :: "vm_rg_struct \<Rightarrow> vm_rg_struct" where
  "blank_vm_rg rg = rg\<lparr>rg_start := 0, rg_end := 0\<rparr>"

text \<open>\<open>init_mm\<close> on the descriptor at \<open>mp\<close>, whose contents are arbitrary.\<close>

definition init_mm :: "mm_ptr option \<Rightarrow> pcb_t option \<Rightarrow> world \<Rightarrow> (int \<times> world) option" where
  "init_mm mp caller w =
     (case (mp, caller) of
        (Some mp, Some c) \<Rightarrow>
          if \<not> p_krnl c then Some (- 1, w)
          else do {
            m \<leftarrow> w_mms w mp;
            let (got, w) = host_alloc w;
            if \<not> got then Some (- 1, w)
            else do {
              let (got, w) = host_alloc w;
              if \<not> got then Some (- 1, set_mm w mp (m\<lparr>mm_pgd := None\<rparr>))
              else do {
                let m = m\<lparr>mm_pgd := Some (\<lambda>_. None),
                  mm_stats := \<lparr>pgtbl_walks = 0, pgtbl_level_reads = 0, pgtbl_level_writes = 0,
                    pgtbl_tables_allocated = 1, pgtbl_storage_bytes = PGTBL_TABLE_BYTES\<rparr>,
                  mm_symrgtbl := map blank_vm_rg (mm_symrgtbl m)\<rparr>;
                let (first_rg, w) = init_vm_rg 0 0 0 w;
                (case first_rg of
                   None \<Rightarrow> Some (- 1, set_mm w mp m)
                 | Some rg \<Rightarrow>
                     Some (0, set_mm w mp (m\<lparr>
                       mm_mmap := [\<lparr>vm_id = 0, vm_start = 0, vm_end = 0, vm_sbrk = 0,
                                    vm_freerg_list = enlist_vm_rg_node [] rg\<rparr>],
                       mm_fifo_pgn := [], mm_kcpooltbl := None\<rparr>)))
              }
            }
          }
      | _ \<Rightarrow> Some (- 1, w))"

section \<open>Copying: the bytes of a frame\<close>

text \<open>A frame that lies inside the device, and the bytes it holds.\<close>

definition frame_fits :: "memphy_struct \<Rightarrow> addr_t \<Rightarrow> bool" where
  "frame_fits m f \<longleftrightarrow> frame_valid f \<and> (unat f + 1) * PAGING64_PAGESZ \<le> length (storage m)"

definition frame_byte :: "memphy_struct \<Rightarrow> addr_t \<Rightarrow> nat \<Rightarrow> byte" where
  "frame_byte m f i = storage m ! (unat f * PAGING64_PAGESZ + i)"

lemma unat_frame_addr:
  assumes "frame_valid f" and "i < PAGING64_PAGESZ"
  shows "unat (f * of_nat PAGING64_PAGESZ + of_nat i) = unat f * PAGING64_PAGESZ + i"
proof -
  have b: "unat f * 4096 + i < 2 ^ 64"
    using assms by (simp add: frame_valid_def macro_defs)
  have "f * of_nat PAGING64_PAGESZ + of_nat i = of_nat (unat f * 4096 + i)"
    by (simp add: macro_defs)
  then show ?thesis
    using b by (simp only: unat_of_nat) (simp add: macro_defs)
qed

lemma cp_loop_spec:
  assumes "rdmflg s" and "rdmflg d" and "frame_fits s sf" and "frame_fits d df"
    and "i \<le> PAGING64_PAGESZ"
  shows "\<exists>d'. cp_loop (Some s) sf (Some d) df i = Some (Some s, Some (d\<lparr>storage := d'\<rparr>))
      \<and> length d' = length (storage d)
      \<and> (\<forall>k < length d'. d' ! k =
           (if unat df * PAGING64_PAGESZ + i \<le> k \<and> k < (unat df + 1) * PAGING64_PAGESZ
            then frame_byte s sf (k - unat df * PAGING64_PAGESZ) else storage d ! k))"
  using assms
proof (induction "PAGING64_PAGESZ - i" arbitrary: i d)
  case 0
  then show ?case
    by (subst cp_loop.simps) (auto intro!: exI [of _ "storage d"])
next
  case (Suc n)
  have i: "i < PAGING64_PAGESZ" using Suc.hyps(2) by simp
  have sv: "frame_valid sf" and dv: "frame_valid df"
    using Suc.prems(3,4) by (auto simp: frame_fits_def)
  define sa where "sa = unat sf * PAGING64_PAGESZ + i"
  define da where "da = unat df * PAGING64_PAGESZ + i"
  have lt: "sa < length (storage s)" "da < length (storage d)"
    using Suc.prems(3,4) i by (auto simp: frame_fits_def sa_def da_def)
  have rd: "MEMPHY_read (Some s) (sf * of_nat PAGING64_PAGESZ + of_nat i) 0 = Some (0, Some s, frame_byte s sf i)"
    using Suc.prems(1) lt(1) unat_frame_addr [OF sv i]
    by (simp add: MEMPHY_read_ram frame_byte_def sa_def)
  define e where "e = d\<lparr>storage := (storage d)[da := frame_byte s sf i]\<rparr>"
  have wr: "MEMPHY_write (Some d) (df * of_nat PAGING64_PAGESZ + of_nat i) (frame_byte s sf i) = Some (0, Some e)"
    using Suc.prems(2) lt(2) unat_frame_addr [OF dv i]
    by (simp add: MEMPHY_write_ram e_def da_def)
  have "\<exists>d'. cp_loop (Some s) sf (Some e) df (i + 1) = Some (Some s, Some (e\<lparr>storage := d'\<rparr>))
      \<and> length d' = length (storage e)
      \<and> (\<forall>k < length d'. d' ! k =
           (if unat df * PAGING64_PAGESZ + (i + 1) \<le> k \<and> k < (unat df + 1) * PAGING64_PAGESZ
            then frame_byte s sf (k - unat df * PAGING64_PAGESZ) else storage e ! k))"
    using Suc.hyps i Suc.prems by (intro Suc.hyps(1)) (auto simp: e_def frame_fits_def)
  then obtain d' where d': "cp_loop (Some s) sf (Some e) df (i + 1) = Some (Some s, Some (d\<lparr>storage := d'\<rparr>))"
      "length d' = length (storage d)"
      "\<forall>k < length d'. d' ! k =
           (if unat df * PAGING64_PAGESZ + (i + 1) \<le> k \<and> k < (unat df + 1) * PAGING64_PAGESZ
            then frame_byte s sf (k - unat df * PAGING64_PAGESZ) else storage e ! k)"
    by (auto simp: e_def)
  have "cp_loop (Some s) sf (Some d) df i = Some (Some s, Some (d\<lparr>storage := d'\<rparr>))"
    using i rd wr d'(1) by (subst cp_loop.simps) simp
  moreover have "d' ! k =
           (if unat df * PAGING64_PAGESZ + i \<le> k \<and> k < (unat df + 1) * PAGING64_PAGESZ
            then frame_byte s sf (k - unat df * PAGING64_PAGESZ) else storage d ! k)"
    if k: "k < length d'" for k
  proof (cases "k = da")
    case True
    then have "k - unat df * PAGING64_PAGESZ = i" by (simp add: da_def)
    then show ?thesis
      using k True d'(2,3) lt(2) i by (simp add: e_def) (simp add: da_def)
  next
    case False
    then have "(unat df * PAGING64_PAGESZ + (i + 1) \<le> k) = (unat df * PAGING64_PAGESZ + i \<le> k)"
      by (auto simp: da_def)
    then show ?thesis using k False d'(3) by (simp add: e_def)
  qed
  ultimately show ?case using d'(2) by blast
qed

text \<open>Two different frames do not share a byte.\<close>

lemma frames_disjoint:
  assumes "unat f \<noteq> unat g" and "i < PAGING64_PAGESZ"
  shows "\<not> (unat g * PAGING64_PAGESZ \<le> unat f * PAGING64_PAGESZ + i
           \<and> unat f * PAGING64_PAGESZ + i < (unat g + 1) * PAGING64_PAGESZ)"
proof (cases "unat f < unat g")
  case True
  then have "(unat f + 1) * PAGING64_PAGESZ \<le> unat g * PAGING64_PAGESZ"
    by (intro mult_le_mono1) simp
  then show ?thesis using assms(2) by simp
next
  case False
  then have "(unat g + 1) * PAGING64_PAGESZ \<le> unat f * PAGING64_PAGESZ"
    using assms(1) by (intro mult_le_mono1) simp
  then show ?thesis by simp
qed

lemma swap_cp_page_spec:
  assumes "rdmflg s" and "rdmflg d" and "frame_fits s sf" and "frame_fits d df"
  obtains st where "swap_cp_page (Some s) sf (Some d) df = Some (0, Some s, Some (d\<lparr>storage := st\<rparr>))"
    and "length st = length (storage d)"
    and "\<And>i. i < PAGING64_PAGESZ \<Longrightarrow> frame_byte (d\<lparr>storage := st\<rparr>) df i = frame_byte s sf i"
    and "\<And>g i. g \<noteq> df \<Longrightarrow> frame_fits d g \<Longrightarrow> i < PAGING64_PAGESZ \<Longrightarrow>
           frame_byte (d\<lparr>storage := st\<rparr>) g i = frame_byte d g i"
proof -
  obtain st where st: "cp_loop (Some s) sf (Some d) df 0 = Some (Some s, Some (d\<lparr>storage := st\<rparr>))"
      "length st = length (storage d)"
      "\<forall>k < length st. st ! k =
           (if unat df * PAGING64_PAGESZ + 0 \<le> k \<and> k < (unat df + 1) * PAGING64_PAGESZ
            then frame_byte s sf (k - unat df * PAGING64_PAGESZ) else storage d ! k)"
    using cp_loop_spec [OF assms, of 0] by auto
  show thesis
  proof (rule that [of st])
    show "swap_cp_page (Some s) sf (Some d) df = Some (0, Some s, Some (d\<lparr>storage := st\<rparr>))"
      using st(1) by (simp add: swap_cp_page_def)
    show "frame_byte (d\<lparr>storage := st\<rparr>) df i = frame_byte s sf i" if "i < PAGING64_PAGESZ" for i
      using st(2,3) that assms(4) by (simp add: frame_byte_def frame_fits_def)
    show "frame_byte (d\<lparr>storage := st\<rparr>) g i = frame_byte d g i"
      if g: "g \<noteq> df" "frame_fits d g" and i: "i < PAGING64_PAGESZ" for g i
    proof -
      have "unat g \<noteq> unat df" using g(1) word_unat_eq_iff by metis
      then have "\<not> (unat df * PAGING64_PAGESZ + 0 \<le> unat g * PAGING64_PAGESZ + i
           \<and> unat g * PAGING64_PAGESZ + i < (unat df + 1) * PAGING64_PAGESZ)"
        using frames_disjoint [of g df i] i by simp
      moreover have "unat g * PAGING64_PAGESZ + i < length st"
        using g(2) i st(2) by (simp add: frame_fits_def)
      ultimately show ?thesis using st(3) by (auto simp: frame_byte_def)
    qed
  qed (rule st(2))
qed

section \<open>Allocation through the frame pool\<close>

definition dev_with :: "world \<Rightarrow> memphy_struct \<Rightarrow> nat \<Rightarrow> world" where
  "dev_with w d h = (set_mram w (Some d))\<lparr>w_hostmem := h\<rparr>"

lemma dev_with_sel [simp]:
  "w_mms (dev_with w d h) = w_mms w" "w_pcbs (dev_with w d h) = w_pcbs w"
  "w_os (dev_with w d h) = (w_os w)\<lparr>k_mram := Some d\<rparr>" "w_hostmem (dev_with w d h) = h"
  by (simp_all add: dev_with_def)

lemma dev_with_dev_with [simp]: "dev_with (dev_with w d h) d' h' = dev_with w d' h'"
  by (simp add: dev_with_def set_mram_def)

lemma dev_with_id: "mram w = Some d \<Longrightarrow> dev_with w d (w_hostmem w) = w"
  by (simp add: dev_with_def set_mram_def)

lemma get_freefp_pool:
  "MEMPHY_get_freefp (Some d) 0 =
     (case fp_get d of None \<Rightarrow> (- 1, Some d, 0) | Some (f, d') \<Rightarrow> (0, Some d', f))"
  by (simp add: fp_get_eq MEMPHY_get_freefp_def split: list.split)

lemma put_freefp_pool:
  "MEMPHY_put_freefp (Some d) f =
     (case fp_put d f of None \<Rightarrow> (- 1, Some d) | Some d' \<Rightarrow> (0, Some d'))"
  by (simp add: fp_put_def MEMPHY_put_freefp_def Let_def split: option.split)

lemma put_get_undo: "pool_ok d \<Longrightarrow> fp_get d = Some (f, d') \<Longrightarrow> fp_put d' f = Some d"
  by (auto simp: fp_get_eq fp_put_eq pool_ok_def split: list.splits)

lemma alloc_loop_pool:
  assumes "mram w = Some d" and "pool_ok d"
  shows "\<exists>k h fs d'. k \<le> n \<and> fp.get_n k d = (fs, d') \<and> length fs = k
     \<and> w_hostmem w \<le> h + n \<and> h \<le> w_hostmem w
     \<and> alloc_loop n frm w = (k = n, frm @ fs, dev_with w d' h)
     \<and> (n \<le> w_hostmem w \<and> n \<le> length (free_fp_list d) \<longrightarrow> k = n)"
  using assms
proof (induction n arbitrary: w d frm)
  case 0
  then show ?case
    by (intro exI [of _ 0] exI [of _ "w_hostmem w"] exI [of _ "[]"] exI [of _ d]) (simp add: dev_with_id)
next
  case (Suc n)
  show ?case
  proof (cases "fp_get d")
    case None
    then have "free_fp_list d = []" by (simp add: fp.get_None)
    then show ?thesis
      using Suc.prems None
      by (intro exI [of _ 0] exI [of _ "w_hostmem w"] exI [of _ "[]"] exI [of _ d])
        (simp add: get_freefp_pool dev_with_id)
  next
    case (Some p)
    obtain f d1 where p: "p = (f, d1)" by (cases p)
    have g: "fp_get d = Some (f, d1)" using Some p by simp
    have ok1: "pool_ok d1" using fp.invar_get [OF Suc.prems(2) g] .
    have fr: "free_fp_list d = f # free_fp_list d1" using fp.get_Some [OF g] by simp
    show ?thesis
    proof (cases "w_hostmem w = 0")
      case True
      have "alloc_loop (Suc n) frm w = (False, frm, dev_with w d 0)"
        using Suc.prems g True put_get_undo [OF Suc.prems(2) g]
        by (simp add: get_freefp_pool put_freefp_pool host_alloc_def dev_with_def set_mram_def)
      then show ?thesis
        using True by (intro exI [of _ 0] exI [of _ 0] exI [of _ "[]"] exI [of _ d]) simp
    next
      case False
      define w1 where "w1 = dev_with w d1 (w_hostmem w - 1)"
      have step: "alloc_loop (Suc n) frm w = alloc_loop n (frm @ [f]) w1"
        using Suc.prems g False
        by (simp add: get_freefp_pool host_alloc_def dev_with_def set_mram_def w1_def)
      have "\<exists>k h fs d'. k \<le> n \<and> fp.get_n k d1 = (fs, d') \<and> length fs = k
         \<and> w_hostmem w1 \<le> h + n \<and> h \<le> w_hostmem w1
         \<and> alloc_loop n (frm @ [f]) w1 = (k = n, (frm @ [f]) @ fs, dev_with w1 d' h)
         \<and> (n \<le> w_hostmem w1 \<and> n \<le> length (free_fp_list d1) \<longrightarrow> k = n)"
        by (rule Suc.IH) (simp_all add: w1_def ok1)
      then obtain k h fs d' where k: "k \<le> n" "fp.get_n k d1 = (fs, d')" "length fs = k"
        "w_hostmem w1 \<le> h + n" "h \<le> w_hostmem w1"
        "alloc_loop n (frm @ [f]) w1 = (k = n, (frm @ [f]) @ fs, dev_with w1 d' h)"
        "n \<le> w_hostmem w1 \<and> n \<le> length (free_fp_list d1) \<longrightarrow> k = n"
        by blast
      then show ?thesis
        using step g False fr
        by (intro exI [of _ "Suc k"] exI [of _ h] exI [of _ "f # fs"] exI [of _ d'])
          (auto simp: w1_def)
    qed
  qed
qed

lemma put_frames_pool:
  "mram w = Some d \<Longrightarrow> put_frames fs w = set_mram w (Some (fp.put_all d fs))"
proof (induction fs arbitrary: w d)
  case Nil
  then show ?case by (simp add: set_mram_def)
next
  case (Cons f fs)
  define d1 where "d1 = (case fp_put d f of None \<Rightarrow> d | Some d' \<Rightarrow> d')"
  have "snd (MEMPHY_put_freefp (mram w) f) = Some d1"
    using Cons.prems by (simp add: put_freefp_pool d1_def split: option.split)
  then have "put_frames (f # fs) w = put_frames fs (set_mram w (Some d1))"
    by simp
  also have "\<dots> = set_mram (set_mram w (Some d1)) (Some (fp.put_all d1 fs))"
    by (rule Cons.IH) simp
  finally show ?case by (simp add: d1_def set_mram_def)
qed

text \<open>Taking and giving back frames leaves the storage of the device alone.\<close>

lemma get_n_storage: "fp.get_n n d = (fs, d') \<Longrightarrow> storage d' = storage d \<and> rdmflg d' = rdmflg d"
proof (induction n arbitrary: d fs)
  case (Suc n)
  show ?case
  proof (cases "fp_get d")
    case None
    then show ?thesis using Suc.prems by simp
  next
    case (Some r)
    obtain f d1 gs where g: "r = (f, d1)" "fp.get_n n d1 = (gs, d')"
      using Suc.prems Some by (cases r) (auto split: prod.splits)
    have "storage d1 = storage d \<and> rdmflg d1 = rdmflg d" using Some g(1) by (auto simp: fp_get_eq split: list.splits)
    then show ?thesis using Suc.IH [OF g(2)] by simp
  qed
qed simp

lemma put_all_storage: "storage (fp.put_all d fs) = storage d \<and> rdmflg (fp.put_all d fs) = rdmflg d"
proof (induction fs arbitrary: d)
  case (Cons f fs)
  define d1 where "d1 = (case fp_put d f of None \<Rightarrow> d | Some d' \<Rightarrow> d')"
  have "storage d1 = storage d \<and> rdmflg d1 = rdmflg d"
    by (auto simp: d1_def fp_put_def MEMPHY_put_freefp_def Let_def split: option.splits if_splits)
  then show ?case using Cons.IH [of d1] by (simp add: d1_def)
qed simp

text \<open>The outcome of \<open>alloc_pages_range\<close> on an empty list: all the frames, or a
  device that holds the same frames as before.\<close>

lemma alloc_pages_range_cases:
  assumes "p_krnl c" and "mram w = Some d" and "pool_ok d"
  obtains (granted) fs d' h where "alloc_pages_range (Some c) n [] w = (0, fs, dev_with w d' h)"
      and "fp.get_n (nat (sint n)) d = (fs, d')" and "length fs = nat (sint n)"
      and "h \<le> w_hostmem w" and "w_hostmem w \<le> h + nat (sint n)"
  | (rollback) d' h where "alloc_pages_range (Some c) n [] w = (- 3000, [], dev_with w d' h)"
      and "pool_ok d'" and "mset (free_fp_list d') = mset (free_fp_list d)"
      and "mset (used_fp_list d') = mset (used_fp_list d)"
      and "h \<le> w_hostmem w"
      and "length (free_fp_list d) < nat (sint n) \<or> w_hostmem w < nat (sint n)"
      and "w_hostmem w \<le> h + nat (sint n)" and "storage d' = storage d" and "rdmflg d' = rdmflg d"
proof -
  define N where "N = nat (sint n)"
  obtain k h fs d' where k: "k \<le> N" "fp.get_n k d = (fs, d')" "length fs = k"
      "w_hostmem w \<le> h + N" "h \<le> w_hostmem w"
      "alloc_loop N [] w = (k = N, fs, dev_with w d' h)"
      "N \<le> w_hostmem w \<and> N \<le> length (free_fp_list d) \<longrightarrow> k = N"
    using alloc_loop_pool [OF assms(2,3), of N "[]"] by auto
  show thesis
  proof (cases "k = N")
    case True
    show ?thesis
      by (rule granted [of fs d' h]) (use True k assms in \<open>simp_all add: alloc_pages_range_def N_def\<close>)
  next
    case False
    note rb = fp.rollback_spec [OF assms(3) k(2)]
    have pf: "put_frames fs (dev_with w d' h) = dev_with w (fp.put_all d' fs) h"
      by (subst put_frames_pool [of _ d']) (simp_all add: dev_with_def set_mram_def)
    have run: "alloc_pages_range (Some c) n [] w = (- 3000, [], dev_with w (fp.put_all d' fs) h)"
      using False k(6) assms pf by (simp add: alloc_pages_range_def N_def)
    have "length (free_fp_list d) < nat (sint n) \<or> w_hostmem w < nat (sint n)"
      using False k(7) by (auto simp: N_def)
    from rollback [OF run rb(3) rb(1) rb(2) k(5) this] k(4) get_n_storage [OF k(2)] put_all_storage [of d' fs]
    show ?thesis by (simp add: N_def)
  qed
qed

section \<open>Mapping, page by page\<close>

text \<open>Worlds that differ only in the page table and the page list of one descriptor, and in the
  host memory left.\<close>

definition fifo :: "world \<Rightarrow> mm_ptr \<Rightarrow> addr_t list" where
  "fifo w mp = (case w_mms w mp of None \<Rightarrow> [] | Some m \<Rightarrow> mm_fifo_pgn m)"

definition vm_changed :: "mm_ptr \<Rightarrow> world \<Rightarrow> world \<Rightarrow> bool" where
  "vm_changed mp w w' \<longleftrightarrow>
     (\<exists>m m' h'. w_mms w mp = Some m \<and> mm_pgd m \<noteq> None \<and> mm_pgd m' \<noteq> None
        \<and> mm_mmap m' = mm_mmap m \<and> mm_symrgtbl m' = mm_symrgtbl m \<and> mm_kcpooltbl m' = mm_kcpooltbl m
        \<and> (stats_ok (mm_stats m) \<longrightarrow> stats_ok (mm_stats m'))
        \<and> w' = (set_mm w mp m')\<lparr>w_hostmem := h'\<rparr>)"

lemma vm_changed_refl: "caller_ok c mp w \<Longrightarrow> vm_changed mp w w"
proof -
  assume "caller_ok c mp w"
  then obtain m where m: "w_mms w mp = Some m" "mm_pgd m \<noteq> None" by (auto simp: caller_ok_def)
  show ?thesis
    unfolding vm_changed_def
    by (rule exI [of _ m], rule exI [of _ m], rule exI [of _ "w_hostmem w"])
      (use m in \<open>simp add: set_mm_def map_upd_triv\<close>)
qed

lemma vm_changed_trans: "vm_changed mp w1 w2 \<Longrightarrow> vm_changed mp w2 w3 \<Longrightarrow> vm_changed mp w1 w3"
  unfolding vm_changed_def set_mm_def by fastforce

lemma pt_vm_changed:
  assumes "pt_changed mp w w'"
  shows "vm_changed mp w w'" and "fifo w' q = fifo w q"
proof -
  obtain m pgd' s' h' where *: "w_mms w mp = Some m" "mm_pgd m \<noteq> None"
      "stats_ok (mm_stats m) \<longrightarrow> stats_ok s'"
      "w' = (set_mm w mp (m\<lparr>mm_pgd := Some pgd', mm_stats := s'\<rparr>))\<lparr>w_hostmem := h'\<rparr>"
    using assms unfolding pt_changed_def by blast
  show "vm_changed mp w w'"
    unfolding vm_changed_def
    by (rule exI [of _ m], rule exI [of _ "m\<lparr>mm_pgd := Some pgd', mm_stats := s'\<rparr>"],
        rule exI [of _ h']) (use * in simp)
  show "fifo w' q = fifo w q" using * by (simp add: fifo_def)
qed

lemma vm_changed_frame:
  assumes "vm_changed mp w w'"
  shows "w_os w' = w_os w" and "w_pcbs w' = w_pcbs w"
    and "q \<noteq> mp \<Longrightarrow> w_mms w' q = w_mms w q"
    and "q \<noteq> mp \<Longrightarrow> vpage w' q = vpage w q"
    and "q \<noteq> mp \<Longrightarrow> fifo w' q = fifo w q"
    and "caller_ok c q w' = caller_ok c q w"
  using assms
  by (auto simp: vm_changed_def caller_ok_def vpage_def pte_view_def fifo_def fun_eq_iff split: if_splits)

lemma vm_changed_mm:
  assumes "vm_changed mp w w'" and "w_mms w mp = Some m"
  obtains m' where "w_mms w' mp = Some m'" and "mm_mmap m' = mm_mmap m"
    and "mm_symrgtbl m' = mm_symrgtbl m" and "mm_kcpooltbl m' = mm_kcpooltbl m"
    and "mm_pgd m' \<noteq> None" and "stats_ok (mm_stats m) \<longrightarrow> stats_ok (mm_stats m')"
  using assms by (auto simp: vm_changed_def)

lemma enlist_pgn_node_spec:
  assumes "caller_ok c mp w" and "enlist_pgn_node mp pgn w = Some w'"
  shows "vm_changed mp w w'" and "vpage w' mp = vpage w mp"
    and "fifo w' mp = pgn # fifo w mp" and "w_hostmem w' = w_hostmem w - 1"
proof -
  obtain m where m: "w_mms w mp = Some m" "mm_pgd m \<noteq> None"
    using assms(1) by (auto simp: caller_ok_def)
  have w': "w' = (set_mm w mp (m\<lparr>mm_fifo_pgn := pgn # mm_fifo_pgn m\<rparr>))\<lparr>w_hostmem := w_hostmem w - 1\<rparr>"
    using assms(2) m by (auto simp: enlist_pgn_node_def host_alloc_def set_mm_def split: if_splits)
  show "vm_changed mp w w'"
    unfolding vm_changed_def
    by (rule exI [of _ m], rule exI [of _ "m\<lparr>mm_fifo_pgn := pgn # mm_fifo_pgn m\<rparr>"],
        rule exI [of _ "w_hostmem w - 1"]) (use m w' in simp)
  show "vpage w' mp = vpage w mp" using m by (simp add: w' vpage_def pte_view_def fun_eq_iff)
  show "fifo w' mp = pgn # fifo w mp" using m by (simp add: w' fifo_def)
  show "w_hostmem w' = w_hostmem w - 1" by (simp add: w')
qed

lemma enlist_pgn_node_some:
  assumes "caller_ok c mp w" and "0 < w_hostmem w"
  shows "enlist_pgn_node mp pgn w \<noteq> None"
  using assms by (auto simp: enlist_pgn_node_def host_alloc_def caller_ok_def)

lemma page_of_addr:
  assumes "p < page_limit"
  shows "drop_bit PAGING64_ADDR_PT_SHIFT (of_nat (p * PAGING64_PAGESZ) :: u64) = of_nat p"
proof -
  have "unat (of_nat (p * 4096) :: u64) = p * 4096"
    using assms by (simp only: unat_of_nat) (simp add: page_limit_def)
  moreover have "p * 4096 < 2 ^ 64" using assms by (simp add: page_limit_def)
  ultimately have "unat (drop_bit 12 (of_nat (p * 4096) :: u64)) = p"
    by (simp only: unsigned_drop_bit_eq) (simp add: drop_bit_eq_div take_bit_nat_eq_self)
  then show ?thesis
    using unat_page [OF assms]
    by (metis PAGING64_ADDR_PT_SHIFT_def PAGING64_PAGESZ_def word_unat_eq_iff)
qed

definition map_pages :: "(nat \<Rightarrow> u64) \<Rightarrow> nat \<Rightarrow> addr_t list \<Rightarrow> nat \<Rightarrow> u64" where
  "map_pages v p0 fs p =
     (if p0 \<le> p \<and> p < p0 + length fs then pte_online (v p) (fs ! (p - p0)) else v p)"

lemma map_pages_Nil [simp]: "map_pages v p0 [] = v"
  by (auto simp: map_pages_def fun_eq_iff)

lemma map_pages_Cons:
  "map_pages v p0 (f # fs) = map_pages (v(p0 := pte_online (v p0) f)) (p0 + 1) fs"
  by (auto simp: map_pages_def fun_eq_iff nth_Cons split: nat.splits) (metis Suc_diff_Suc diff_Suc_1 le_neq_implies_less)

lemma vmap_loop_spec:
  assumes "caller_ok c mp w" and "p0 + pgit + n \<le> page_limit"
    and "vmap_loop c (of_nat (p0 * PAGING64_PAGESZ)) pgit n fs w = Some (e, k, w')"
  shows "\<exists>j \<le> n. j \<le> length fs \<and> k = pgit + j \<and> (e = 0 \<longrightarrow> j = min n (length fs))
     \<and> vm_changed mp w w'
     \<and> vpage w' mp = map_pages (vpage w mp) (p0 + pgit) (take j fs)
     \<and> fifo w' mp = rev (map of_nat [p0 + pgit..<p0 + pgit + j]) @ fifo w mp"
  using assms
proof (induction n arbitrary: pgit fs w)
  case 0
  then show ?case using vm_changed_refl [OF "0.prems"(1)] by auto
next
  case (Suc n)
  have mmc: "p_mm c = Some mp" using Suc.prems(1) by (simp add: caller_ok_def)
  obtain off where off: "c_int (int pgit * int PAGING64_PAGESZ) = Some off"
    using Suc.prems(3) by (cases "c_int (int pgit * int PAGING64_PAGESZ)") auto
  define pgn where "pgn = drop_bit PAGING64_ADDR_PT_SHIFT (of_nat (p0 * PAGING64_PAGESZ) + of_int off :: u64)"
  have addr: "of_nat (p0 * PAGING64_PAGESZ) + of_int off = (of_nat ((p0 + pgit) * PAGING64_PAGESZ) :: u64)"
    using off by (auto simp: algebra_simps)
  have pl: "p0 + pgit < page_limit" using Suc.prems(2) by simp
  have pgn: "pgn = of_nat (p0 + pgit)"
    unfolding pgn_def addr using page_of_addr [OF pl] .
  show ?case
  proof (cases fs)
    case Nil
    then have "e = 0 \<and> k = pgit \<and> w' = w" using Suc.prems(3) off by simp
    then show ?thesis using Nil vm_changed_refl [OF Suc.prems(1)] by auto
  next
    case (Cons f rest)
    obtain r w1 where s: "pte_set_fpn (Some c) (of_nat (p0 + pgit)) f w = Some (r, w1)"
      and ch: "pt_changed mp w w1"
      and v: "r = 0 \<and> vpage w1 mp = (vpage w mp)(p0 + pgit := pte_online (vpage w mp (p0 + pgit)) f)
         \<or> r = - 1 \<and> vpage w1 mp = vpage w mp"
      using pte_set_fpn_page [OF Suc.prems(1) pl] by metis
    note ch' = pt_vm_changed [OF ch]
    show ?thesis
    proof (cases "r = 0")
      case False
      then have "e = - 1 \<and> k = pgit \<and> w' = w1"
        using Suc.prems(3) off Cons s pgn by (simp add: pgn_def)
      then show ?thesis using False v ch' by auto
    next
      case True
      have cok1: "caller_ok c mp w1" using Suc.prems(1) pt_changed_frame(5) [OF ch] by simp
      obtain w2 where w2: "enlist_pgn_node mp (of_nat (p0 + pgit)) w1 = Some w2"
        and rec: "vmap_loop c (of_nat (p0 * PAGING64_PAGESZ)) (pgit + 1) n rest w2 = Some (e, k, w')"
        using Suc.prems(3) off Cons s pgn True mmc
        by (cases "enlist_pgn_node mp (of_nat (p0 + pgit)) w1") (simp_all add: pgn_def)
      note en = enlist_pgn_node_spec [OF cok1 w2]
      have cok2: "caller_ok c mp w2" using cok1 vm_changed_frame(6) [OF en(1)] by simp
      obtain j where j: "j \<le> n" "j \<le> length rest" "k = pgit + 1 + j"
        "e = 0 \<longrightarrow> j = min n (length rest)" "vm_changed mp w2 w'"
        "vpage w' mp = map_pages (vpage w2 mp) (p0 + (pgit + 1)) (take j rest)"
        "fifo w' mp = rev (map of_nat [p0 + (pgit + 1)..<p0 + (pgit + 1) + j]) @ fifo w2 mp"
        using Suc.IH [OF cok2 _ rec] Suc.prems(2) by auto
      have "vm_changed mp w w'"
        using vm_changed_trans [OF vm_changed_trans [OF ch'(1) en(1)] j(5)] .
      moreover have "vpage w' mp = map_pages (vpage w mp) (p0 + pgit) (take (Suc j) fs)"
        using j(6) en(2) v True Cons by (simp add: map_pages_Cons)
      moreover have "fifo w' mp = rev (map of_nat [p0 + pgit..<p0 + pgit + Suc j]) @ fifo w mp"
      proof -
        have "[p0 + pgit..<p0 + pgit + Suc j] = (p0 + pgit) # [p0 + (pgit + 1)..<p0 + (pgit + 1) + j]"
          by (simp add: upt_conv_Cons del: upt_Suc)
        then show ?thesis using j(7) en(3) ch'(2) by simp
      qed
      ultimately show ?thesis
        using j(1-4) Cons by (intro exI [of _ "Suc j"]) auto
    qed
  qed
qed

text \<open>With enough host memory and frames the loop maps every page.\<close>

lemma vmap_loop_total:
  assumes "caller_ok c mp w" and "p0 + pgit + n \<le> page_limit" and "(pgit + n) * PAGING64_PAGESZ < 2 ^ 31"
    and "5 * n \<le> w_hostmem w" and "n \<le> length fs"
  shows "\<exists>w'. vmap_loop c (of_nat (p0 * PAGING64_PAGESZ)) pgit n fs w = Some (0, pgit + n, w')
    \<and> w_hostmem w \<le> w_hostmem w' + 5 * n"
  using assms
proof (induction n arbitrary: pgit fs w)
  case 0
  then show ?case by simp
next
  case (Suc n)
  have mmc: "p_mm c = Some mp" using Suc.prems(1) by (simp add: caller_ok_def)
  obtain f rest where fs: "fs = f # rest" "n \<le> length rest"
    using Suc.prems(5) by (cases fs) auto
  have "pgit * PAGING64_PAGESZ < 2 ^ 31"
    using Suc.prems(3) by (simp add: algebra_simps)
  then have "int pgit * int PAGING64_PAGESZ < 2 ^ 31" by (simp add: macro_defs)
  then have off: "c_int (int pgit * int PAGING64_PAGESZ) = Some (int pgit * int PAGING64_PAGESZ)"
    by (simp add: macro_defs)
  have addr: "of_nat (p0 * PAGING64_PAGESZ) + of_int (int pgit * int PAGING64_PAGESZ)
      = (of_nat ((p0 + pgit) * PAGING64_PAGESZ) :: u64)"
    by (simp add: algebra_simps)
  have pl: "p0 + pgit < page_limit" using Suc.prems(2) by simp
  obtain w1 where s: "pte_set_fpn (Some c) (of_nat (p0 + pgit)) f w = Some (0, w1)"
    and ch: "pt_changed mp w w1" and h: "w_hostmem w \<le> w_hostmem w1 + 4"
    using pte_set_fpn_page [OF Suc.prems(1) pl] Suc.prems(4)
    by (metis add_leD1 mult_Suc_right numeral_Bit0 numeral_Bit1 le_trans nat_le_iff_add)
  have cok1: "caller_ok c mp w1" using Suc.prems(1) pt_changed_frame(5) [OF ch] by simp
  obtain w2 where w2: "enlist_pgn_node mp (of_nat (p0 + pgit)) w1 = Some w2"
    using enlist_pgn_node_some [OF cok1, of "of_nat (p0 + pgit)"] h Suc.prems(4) by fastforce
  note en = enlist_pgn_node_spec [OF cok1 w2]
  have cok2: "caller_ok c mp w2" using cok1 vm_changed_frame(6) [OF en(1)] by simp
  have "5 * n \<le> w_hostmem w2" using en(4) h Suc.prems(4) by simp
  then obtain w' where "vmap_loop c (of_nat (p0 * PAGING64_PAGESZ)) (pgit + 1) n rest w2
      = Some (0, pgit + 1 + n, w')" and "w_hostmem w2 \<le> w_hostmem w' + 5 * n"
    using Suc.IH [OF cok2, of "pgit + 1" rest] Suc.prems(2,3) fs(2) by auto
  then show ?case
    using off addr page_of_addr [OF pl] s w2 mmc fs(1) h en(4) by simp
qed

section \<open>Mapping a range of fresh frames\<close>

lemma vm_changed_dev: "vm_changed mp (dev_with w d h) w' \<Longrightarrow> mram w' = Some d"
  using vm_changed_frame(1) by force

lemma dev_with_same [simp]:
  "vpage (dev_with w d h) mp = vpage w mp" "fifo (dev_with w d h) mp = fifo w mp"
  "caller_ok c mp (dev_with w d h) = caller_ok c mp w"
  by (simp_all add: vpage_def pte_view_def fun_eq_iff fifo_def caller_ok_def)

lemma vm_map_ram_success:
  assumes ok: "caller_ok c mp w" and d: "mram w = Some d" "pool_ok d"
    and n: "sint n = int N" "N \<le> length (free_fp_list d)" "6 * N \<le> w_hostmem w"
    and lim: "p0 + N \<le> page_limit" "N * PAGING64_PAGESZ < 2 ^ 31"
  obtains w' d' rg' where
    "vm_map_ram (Some c) a b (of_nat (p0 * PAGING64_PAGESZ)) n rg w = Some (0, rg', w')"
    and "vpage w' mp = map_pages (vpage w mp) p0 (take N (free_fp_list d))"
    and "fifo w' mp = rev (map of_nat [p0..<p0 + N]) @ fifo w mp"
    and "mram w' = Some d'" and "fp.get_n N d = (take N (free_fp_list d), d')"
    and "\<And>q. q \<noteq> mp \<Longrightarrow> vpage w' q = vpage w q"
    and "w_hostmem w \<le> w_hostmem w' + 6 * N" and "caller_ok c mp w'"
    and "\<And>q. q \<noteq> mp \<Longrightarrow> fifo w' q = fifo w q" and "mswp w' = mswp w"
proof -
  have k: "p_krnl c" "p_mm c = Some mp" using ok by (auto simp: caller_ok_def)
  from k(1) d show thesis
  proof (cases rule: alloc_pages_range_cases [of c w d n])
    case (granted fs d' h)
    have fs: "fs = take N (free_fp_list d)" "length fs = N"
      using fp.get_n_spec [OF granted(2)] granted(3) n(1) by simp_all
    let ?w1 = "dev_with w d' h"
    have ok1: "caller_ok c mp ?w1" using ok by simp
    have "5 * N \<le> w_hostmem ?w1" using granted(5) n by simp
    then obtain w' where run: "vmap_loop c (of_nat (p0 * PAGING64_PAGESZ)) 0 N fs ?w1 = Some (0, N, w')"
      and h1: "h \<le> w_hostmem w' + 5 * N"
      using vmap_loop_total [OF ok1, of p0 0 N fs] lim fs(2) by auto
    obtain j where j: "j = N" "vm_changed mp ?w1 w'" "vpage w' mp = map_pages (vpage ?w1 mp) p0 (take j fs)"
      "fifo w' mp = rev (map of_nat [p0..<p0 + j]) @ fifo ?w1 mp"
      using vmap_loop_spec [OF ok1 _ run] lim(1) fs(2) by auto
    have "c_int (int N * int PAGING64_PAGESZ) = Some (int N * int PAGING64_PAGESZ)"
      using lim(2) by (simp add: macro_defs)
    then obtain rg' where "vmap_page_range (Some c) (of_nat (p0 * PAGING64_PAGESZ)) n fs rg ?w1 = Some (0, rg', w')"
      using run k n(1) by (simp add: vmap_page_range_def)
    then have m: "vm_map_ram (Some c) a b (of_nat (p0 * PAGING64_PAGESZ)) n rg w = Some (0, rg', w')"
      using granted(1) k d(1) by (simp add: vm_map_ram_def)
    show ?thesis
    proof (rule that [OF m])
      show "mram w' = Some d'" by (rule vm_changed_dev [OF j(2)])
      show "fp.get_n N d = (take N (free_fp_list d), d')" using granted(2) n(1) fs(1) by simp
      show "vpage w' q = vpage w q" if "q \<noteq> mp" for q
        using vm_changed_frame(4) [OF j(2) that] by simp
      show "w_hostmem w \<le> w_hostmem w' + 6 * N" using h1 granted(5) n(1) by simp
      show "caller_ok c mp w'" using vm_changed_frame(6) [OF j(2)] ok1 by simp
      show "fifo w' q = fifo w q" if "q \<noteq> mp" for q using vm_changed_frame(5) [OF j(2) that] by simp
      show "mswp w' = mswp w" using vm_changed_frame(1) [OF j(2)] by simp
    qed (use j fs in simp_all)
  next
    case (rollback d' h)
    then show ?thesis using n by simp
  qed
qed

section \<open>Properties\<close>

text \<open>C17: Allocating frames for a range is all or nothing: either the first \<open>n\<close> free frames are
  handed out in order, or the call reports \<open>- 3000\<close> and every frame it had taken is back on the
  free list; it fails only for want of frames or of host memory.\<close>

theorem alloc_pages_all_or_nothing:
  assumes "p_krnl c" and "mram w = Some d" and "pool_ok d" and "N = nat (sint n)"
  shows "(\<exists>d' h. alloc_pages_range (Some c) n [] w = (0, take N (free_fp_list d), dev_with w d' h)
      \<and> N \<le> length (free_fp_list d) \<and> free_fp_list d' = drop N (free_fp_list d)
      \<and> used_fp_list d' = rev (take N (free_fp_list d)) @ used_fp_list d)
    \<or> (\<exists>d' h. alloc_pages_range (Some c) n [] w = (- 3000, [], dev_with w d' h)
      \<and> mset (free_fp_list d') = mset (free_fp_list d) \<and> mset (used_fp_list d') = mset (used_fp_list d)
      \<and> (length (free_fp_list d) < N \<or> w_hostmem w < N))"
  using assms(1-3)
proof (cases rule: alloc_pages_range_cases [of c w d n])
  case (granted fs d' h)
  then show ?thesis
    using fp.get_n_spec [OF granted(2)] assms(4)
    by (intro disjI1 exI [of _ d'] exI [of _ h]) (auto simp: min_def split: if_splits)
next
  case (rollback d' h)
  then show ?thesis using assms(4) by (intro disjI2 exI [of _ d'] exI [of _ h]) simp
qed

theorem alloc_pages_all_or_nothing_witness:
  "\<exists>d' h. alloc_pages_range (Some ex_caller) 5 [] ex_w = (- 3000, [], dev_with ex_w d' h)
     \<and> mset (free_fp_list d') = mset [0, 1, 2]"
proof -
  have "p_krnl ex_caller" "mram ex_w = Some ex_dev" "pool_ok ex_dev"
    by (simp_all add: ex_caller_def ex_w_def ex_vm_def ex_dev_def pool_ok_def frame_valid_def)
  from alloc_pages_all_or_nothing [OF this refl, of 5] show ?thesis
    by (auto simp: ex_dev_def)
qed

text \<open>C19: Copying a page between two random access devices reproduces exactly the 4096 bytes of the
  source frame in the destination frame; the source and every other frame of the destination are
  untouched.\<close>

theorem swap_copies_one_page:
  assumes "rdmflg s" and "rdmflg d" and "frame_fits s sf" and "frame_fits d df"
  shows "\<exists>st. swap_cp_page (Some s) sf (Some d) df = Some (0, Some s, Some (d\<lparr>storage := st\<rparr>))
    \<and> length st = length (storage d)
    \<and> (\<forall>i < PAGING64_PAGESZ. frame_byte (d\<lparr>storage := st\<rparr>) df i = frame_byte s sf i)
    \<and> (\<forall>g. g \<noteq> df \<longrightarrow> frame_fits d g \<longrightarrow>
        (\<forall>i < PAGING64_PAGESZ. frame_byte (d\<lparr>storage := st\<rparr>) g i = frame_byte d g i))"
  using swap_cp_page_spec [OF assms] by metis

theorem swap_copies_one_page_witness:
  "\<exists>st. swap_cp_page (Some (ex_dev\<lparr>storage := replicate 4096 1\<rparr>)) 0 (Some (ex_dev\<lparr>storage := replicate 8192 0\<rparr>)) 1
     = Some (0, Some (ex_dev\<lparr>storage := replicate 4096 1\<rparr>), Some (ex_dev\<lparr>storage := st\<rparr>)) \<and> length st = 8192"
  using swap_copies_one_page [of "ex_dev\<lparr>storage := replicate 4096 1\<rparr>" "ex_dev\<lparr>storage := replicate 8192 0\<rparr>" 0 1]
  by (auto simp: ex_dev_def frame_fits_def frame_valid_def macro_defs)

text \<open>C18: With enough free frames and host memory, \<open>vm_map_ram\<close> maps each page of the range to a
  frame of its own, the first frames of the free list in order, puts the pages on the replacement
  list with the last one in front, and leaves every other page of every process as it was.\<close>

theorem vm_map_ram_maps_range:
  assumes "caller_ok c mp w" and "mram w = Some d" and "pool_ok d"
    and "sint n = int N" and "N \<le> length (free_fp_list d)" and "6 * N \<le> w_hostmem w"
    and "p0 + N \<le> page_limit" and "N * PAGING64_PAGESZ < 2 ^ 31"
  shows "\<exists>w' rg' d'. vm_map_ram (Some c) a b (of_nat (p0 * PAGING64_PAGESZ)) n rg w = Some (0, rg', w')
    \<and> (\<forall>p. vpage w' mp p = (if p0 \<le> p \<and> p < p0 + N
          then pte_online (vpage w mp p) (free_fp_list d ! (p - p0)) else vpage w mp p))
    \<and> (\<forall>q. q \<noteq> mp \<longrightarrow> vpage w' q = vpage w q)
    \<and> fifo w' mp = rev (map of_nat [p0..<p0 + N]) @ fifo w mp
    \<and> mram w' = Some d' \<and> free_fp_list d' = drop N (free_fp_list d)"
proof (rule vm_map_ram_success [OF assms, of a b rg])
  fix w' d' rg'
  assume "fp.get_n N d = (take N (free_fp_list d), d')"
  then have fr: "free_fp_list d' = drop N (free_fp_list d)" using fp.get_n_spec by blast
  assume "vpage w' mp = map_pages (vpage w mp) p0 (take N (free_fp_list d))"
  then have v: "vpage w' mp p = (if p0 \<le> p \<and> p < p0 + N
      then pte_online (vpage w mp p) (free_fp_list d ! (p - p0)) else vpage w mp p)" for p
    using assms(5) by (auto simp: map_pages_def)
  assume "vm_map_ram (Some c) a b (of_nat (p0 * PAGING64_PAGESZ)) n rg w = Some (0, rg', w')"
    and "fifo w' mp = rev (map of_nat [p0..<p0 + N]) @ fifo w mp" and "mram w' = Some d'"
    and "\<And>q. q \<noteq> mp \<Longrightarrow> vpage w' q = vpage w q"
  then show ?thesis using fr v by (intro exI [of _ w'] exI [of _ rg'] exI [of _ d']) simp
qed

theorem vm_map_ram_maps_range_witness:
  "\<exists>w' rg' d'. vm_map_ram (Some ex_caller) 0 8192 (of_nat (0 * PAGING64_PAGESZ)) 2 None ex_w = Some (0, rg', w')
    \<and> mram w' = Some d' \<and> free_fp_list d' = [2]"
proof -
  have w: "mram ex_w = Some ex_dev" "pool_ok ex_dev"
    by (simp_all add: ex_w_def ex_vm_def ex_dev_def pool_ok_def frame_valid_def)
  have "sint (2 :: cint) = int 2" by simp
  from vm_map_ram_maps_range [OF ex_w_ok(1) w this, of 0 0 8192 None] show ?thesis
    using ex_w_ok(3) by (auto simp: ex_dev_def page_limit_def macro_defs)
qed

end
