(* ===== verification/MmVm.thy ===== *)
theory MmVm
  imports Mm64
begin

text \<open>
  The virtual memory areas of \<open>src/src/mm-vm.c\<close>: finding an area, checking that a planned
  range overlaps no other area, and growing an area by whole pages.  A pointer to an area is
  its position in the list \<open>mm->mmap\<close>.
\<close>

section \<open>Operations\<close>

text \<open>The loop of \<open>get_vma_by_num\<close>, at an area and its position.\<close>

fun vma_walk :: "vm_area_struct list \<Rightarrow> nat \<Rightarrow> cint \<Rightarrow> nat option" where
  "vma_walk [] i vmaid = None"
| "vma_walk (pvma # next) i vmaid =
     (if sint (ucast (vm_id pvma) :: cint) < sint vmaid
      then vma_walk next (i + 1) vmaid else Some i)"

definition get_vma_by_num :: "mm_ptr option \<Rightarrow> cint \<Rightarrow> world \<Rightarrow> nat option option" where
  "get_vma_by_num mp vmaid w =
     (case mp of
        None \<Rightarrow> Some None
      | Some mp \<Rightarrow> do {
          m \<leftarrow> w_mms w mp;
          Some (vma_walk (mm_mmap m) 0 vmaid)
        })"

definition mm_swap_page :: "pcb_t \<Rightarrow> addr_t \<Rightarrow> addr_t \<Rightarrow> world \<Rightarrow> (int \<times> world) option" where
  "mm_swap_page caller vicfpn swpfpn w =
     (if \<not> p_krnl caller then None
      else do {
        (r, ram, swp) \<leftarrow> swap_cp_page (mram w) vicfpn (mswp w) swpfpn;
        Some (0, set_mswp (set_mram w ram) swp)
      })"

definition get_vm_area_node_at_brk ::
  "pcb_t option \<Rightarrow> cint \<Rightarrow> addr_t \<Rightarrow> addr_t \<Rightarrow> world \<Rightarrow> (vm_rg_struct option \<times> world) option" where
  "get_vm_area_node_at_brk caller vmaid sz alignedsz w =
     (case caller of
        None \<Rightarrow> Some (None, w)
      | Some c \<Rightarrow>
          if \<not> p_krnl c \<or> p_mm c = None then Some (None, w)
          else do {
            v \<leftarrow> get_vma_by_num (p_mm c) vmaid w;
            (case v of
               None \<Rightarrow> Some (None, w)
             | Some i \<Rightarrow> do {
                 m \<leftarrow> w_mms w (the (p_mm c));
                 let cur_vma = mm_mmap m ! i;
                 let (got, w) = host_alloc w;
                 Some (if got
                       then Some \<lparr>rg_vmaid = vmaid, rg_start = vm_sbrk cur_vma,
                                  rg_end = vm_sbrk cur_vma + sz\<rparr>
                       else None, w)
               })
          })"

text \<open>The overlap test against every area but the one that grows.\<close>

fun overlaps_other :: "vm_area_struct list \<Rightarrow> cint \<Rightarrow> addr_t \<Rightarrow> addr_t \<Rightarrow> bool" where
  "overlaps_other [] vmaid vmastart vmaend = False"
| "overlaps_other (vma # next) vmaid vmastart vmaend =
     (if vm_id vma \<noteq> scast vmaid \<and> vmastart < vm_end vma \<and> vm_start vma < vmaend then True
      else overlaps_other next vmaid vmastart vmaend)"

definition validate_overlap_vm_area ::
  "pcb_t option \<Rightarrow> cint \<Rightarrow> addr_t \<Rightarrow> addr_t \<Rightarrow> world \<Rightarrow> int option" where
  "validate_overlap_vm_area caller vmaid vmastart vmaend w =
     (case caller of
        None \<Rightarrow> Some (- 1)
      | Some c \<Rightarrow>
          (case p_mm c of
             None \<Rightarrow> Some (- 1)
           | Some mp \<Rightarrow>
               if \<not> p_krnl c \<or> vmastart \<ge> vmaend then Some (- 1)
               else do {
                 m \<leftarrow> w_mms w mp;
                 Some (if mm_mmap m = [] then - 1
                       else if overlaps_other (mm_mmap m) vmaid vmastart vmaend then - 1 else 0)
               }))"

text \<open>\<open>cur_vma->vm_end = e\<close> and \<open>cur_vma->sbrk = b\<close> for the area at
  position \<open>i\<close>.\<close>

definition set_vma_limits :: "mm_ptr \<Rightarrow> nat \<Rightarrow> addr_t \<Rightarrow> addr_t \<Rightarrow> world \<Rightarrow> world option" where
  "set_vma_limits mp i e b w = do {
     m \<leftarrow> w_mms w mp;
     mmap' \<leftarrow> arr_set (mm_mmap m) i ((mm_mmap m ! i)\<lparr>vm_end := e, vm_sbrk := b\<rparr>);
     Some (set_mm w mp (m\<lparr>mm_mmap := mmap'\<rparr>))
   }"

definition inc_vma_limit :: "pcb_t option \<Rightarrow> cint \<Rightarrow> addr_t \<Rightarrow> world \<Rightarrow> (int \<times> world) option" where
  "inc_vma_limit caller vmaid inc_sz w =
     (case caller of
        None \<Rightarrow> Some (- 1, w)
      | Some c \<Rightarrow>
          (case p_mm c of
             None \<Rightarrow> Some (- 1, w)
           | Some mp \<Rightarrow>
               if \<not> p_krnl c then Some (- 1, w)
               else if inc_sz = 0 then Some (0, w)
               else do {
                 v \<leftarrow> get_vma_by_num (Some mp) vmaid w;
                 (case v of
                    None \<Rightarrow> Some (- 1, w)
                  | Some i \<Rightarrow> do {
                      m \<leftarrow> w_mms w mp;
                      let cur_vma = mm_mmap m ! i;
                      let inc_amt = PAGING64_PAGE_ALIGNSZ inc_sz;
                      let incnumpage = (ucast (inc_amt div of_nat PAGING64_PAGESZ) :: cint);
                      let old_end = vm_end cur_vma;
                      let new_end = old_end + inc_amt;
                      ov \<leftarrow> validate_overlap_vm_area caller vmaid old_end new_end w;
                      if ov < 0 then Some (- 1, w)
                      else do {
                        let (got, w) = host_alloc w;
                        if \<not> got then Some (- 1, w)
                        else do {
                          let newrg = \<lparr>rg_vmaid = vmaid, rg_start = old_end, rg_end = new_end\<rparr>;
                          w \<leftarrow> set_vma_limits mp i new_end (vm_sbrk cur_vma + inc_sz) w;
                          (r, rg, w) \<leftarrow> vm_map_ram caller old_end new_end old_end incnumpage (Some newrg) w;
                          if r < 0 then do {
                            w \<leftarrow> set_vma_limits mp i old_end (vm_sbrk cur_vma + inc_sz - inc_sz) w;
                            Some (- 1, w)
                          } else Some (0, w)
                        }
                      }
                    })
               }))"

end
