(* ===== verification/Syscall.thy ===== *)
theory Syscall
  imports MmVm
begin

text \<open>
  The system call layer: the dispatcher \<open>_syscall\<close> of \<open>src/src/syscall.c\<close> over the
  table \<open>src/src/syscall.tbl\<close>, the memory call \<open>__sys_memmap\<close> of
  \<open>src/src/sys_mem.c\<close>, and the user-level stub \<open>libsyscall\<close> of
  \<open>src/src/libstd.c\<close>.

  \<open>sys_mem.c\<close> includes \<open>os-mm.h\<close> before \<open>os-cfg.h\<close>, so in that file
  \<open>MM64\<close> is not yet defined where \<open>addr_t\<close> is declared and \<open>addr_t\<close> is a
  32-bit type: the 64-bit arguments of the call are truncated on their way to the memory
  manager.  \<open>sysmem_addr\<close> is that conversion.
\<close>

section \<open>Operations\<close>

record sc_regs =
  a1 :: arg_t
  a2 :: arg_t
  a3 :: arg_t

definition SYSMEM_MAP_OP :: int where [macro_defs]: "SYSMEM_MAP_OP = 1"
definition SYSMEM_INC_OP :: int where [macro_defs]: "SYSMEM_INC_OP = 2"
definition SYSMEM_SWP_OP :: int where [macro_defs]: "SYSMEM_SWP_OP = 3"
definition SYSMEM_IO_READ :: int where [macro_defs]: "SYSMEM_IO_READ = 4"
definition SYSMEM_IO_WRITE :: int where [macro_defs]: "SYSMEM_IO_WRITE = 5"

definition sysmem_addr :: "arg_t \<Rightarrow> addr_t" where
  "sysmem_addr a = ucast (ucast a :: u32)"

text \<open>The test \<open>pid > PID_MAX\<close> admits \<open>PID_MAX\<close> itself, one past the end of the table.
  The argument \<open>krnl\<close> says whether the kernel pointer is set.\<close>

definition get_proc_from_PID :: "bool \<Rightarrow> u32 \<Rightarrow> world \<Rightarrow> pcb_ptr option option" where
  "get_proc_from_PID krnl pid w =
     (if unat pid > PID_MAX then Some None
      else if \<not> krnl then None
      else arr_get (k_proc_table (w_os w)) (unat pid))"

text \<open>The local \<open>value\<close> of the read case is uninitialised unless the read succeeds.\<close>

definition sys_memmap :: "bool \<Rightarrow> u32 \<Rightarrow> sc_regs \<Rightarrow> world \<Rightarrow> (int \<times> sc_regs \<times> world) option" where
  "sys_memmap krnl pid regs w = do {
     let memop = sint (ucast (a1 regs) :: cint);
     p \<leftarrow> get_proc_from_PID krnl pid w;
     (case p of
        None \<Rightarrow> Some (- 1, regs, w)
      | Some p \<Rightarrow> do {
          caller \<leftarrow> w_pcbs w p;
          if memop = SYSMEM_MAP_OP then do {
            (r, w) \<leftarrow> vmap_pgd_memset (Some caller) (sysmem_addr (a2 regs)) (ucast (a3 regs)) w;
            Some (0, regs, w)
          }
          else if memop = SYSMEM_INC_OP then do {
            (r, w) \<leftarrow> inc_vma_limit (Some caller) (ucast (a2 regs)) (sysmem_addr (a3 regs)) w;
            Some (0, regs, w)
          }
          else if memop = SYSMEM_SWP_OP then do {
            (r, w) \<leftarrow> mm_swap_page caller (sysmem_addr (a2 regs)) (sysmem_addr (a3 regs)) w;
            Some (0, regs, w)
          }
          else if memop = SYSMEM_IO_READ then do {
            (r, ram, val) \<leftarrow> MEMPHY_read (mram w) (sysmem_addr (a2 regs)) 0;
            if r \<noteq> 0 then None
            else Some (0, regs\<lparr>a3 := scast val\<rparr>, set_mram w ram)
          }
          else if memop = SYSMEM_IO_WRITE then do {
            (r, ram) \<leftarrow> MEMPHY_write (mram w) (sysmem_addr (a2 regs)) (ucast (a3 regs));
            Some (0, regs, set_mram w ram)
          }
          else Some (0, regs, w)
        })
   }"

text \<open>The rows of \<open>syscall.tbl\<close>: number and entry point.\<close>

datatype sys_entry = Sys_listsyscall | Sys_memmap

definition syscall_tbl :: "(nat \<times> sys_entry) list" where
  "syscall_tbl = [(0, Sys_listsyscall), (17, Sys_memmap)]"

definition sys_call_table :: "string list" where
  "sys_call_table = [''0-sys_listsyscall'', ''17-sys_memmap'']"

text \<open>\<open>__sys_listsyscall\<close> prints the rows of the table.\<close>

definition sys_listsyscall :: "int \<times> string list" where
  "sys_listsyscall = (0, sys_call_table)"

definition do_syscall :: "bool \<Rightarrow> u32 \<Rightarrow> u32 \<Rightarrow> sc_regs \<Rightarrow> world \<Rightarrow> (int \<times> sc_regs \<times> world) option" where
  "do_syscall krnl pid nr regs w =
     (case map_of syscall_tbl (unat nr) of
        Some Sys_listsyscall \<Rightarrow> Some (fst sys_listsyscall, regs, w)
      | Some Sys_memmap \<Rightarrow> sys_memmap krnl pid regs w
      | None \<Rightarrow> Some (0, regs, w))"

definition libsyscall :: "pcb_t \<Rightarrow> u32 \<Rightarrow> arg_t \<Rightarrow> arg_t \<Rightarrow> arg_t \<Rightarrow> world \<Rightarrow> (int \<times> world) option" where
  "libsyscall caller syscall_idx x1 x2 x3 w = do {
     (r, regs, w) \<leftarrow>
       do_syscall (p_krnl caller) (p_pid caller) syscall_idx \<lparr>a1 = x1, a2 = x2, a3 = x3\<rparr> w;
     Some (r, w)
   }"

section \<open>The memory call, operation by operation\<close>

lemma sysmem_addr_small: "unat a < 2 ^ 32 \<Longrightarrow> sysmem_addr a = a"
  by (simp add: sysmem_addr_def ucast_up_down)

lemma sysmem_memop [simp]:
  "sint (ucast (of_int SYSMEM_SWP_OP :: arg_t) :: cint) = SYSMEM_SWP_OP"
  "sint (ucast (of_int SYSMEM_IO_READ :: arg_t) :: cint) = SYSMEM_IO_READ"
  "sint (ucast (of_int SYSMEM_IO_WRITE :: arg_t) :: cint) = SYSMEM_IO_WRITE"
  "sint (ucast (of_int SYSMEM_INC_OP :: arg_t) :: cint) = SYSMEM_INC_OP"
  by code_simp+

lemma do_syscall_mem: "do_syscall krnl pid 17 regs w = sys_memmap krnl pid regs w"
  by (simp add: do_syscall_def syscall_tbl_def)

lemma sys_memmap_ops:
  assumes "get_proc_from_PID krnl pid w = Some (Some k)" and "w_pcbs w k = Some c"
  shows "sys_memmap krnl pid \<lparr>a1 = of_int SYSMEM_SWP_OP, a2 = x, a3 = y\<rparr> w =
      map_option (\<lambda>(r, w). (0, \<lparr>a1 = of_int SYSMEM_SWP_OP, a2 = x, a3 = y\<rparr>, w))
        (mm_swap_page c (sysmem_addr x) (sysmem_addr y) w)" (is ?swp)
    and "sys_memmap krnl pid \<lparr>a1 = of_int SYSMEM_IO_READ, a2 = x, a3 = y\<rparr> w = do {
      (r, ram, val) \<leftarrow> MEMPHY_read (mram w) (sysmem_addr x) 0;
      if r \<noteq> 0 then None
      else Some (0, \<lparr>a1 = of_int SYSMEM_IO_READ, a2 = x, a3 = scast val\<rparr>, set_mram w ram) }" (is ?rd)
    and "sys_memmap krnl pid \<lparr>a1 = of_int SYSMEM_IO_WRITE, a2 = x, a3 = y\<rparr> w = do {
      (r, ram) \<leftarrow> MEMPHY_write (mram w) (sysmem_addr x) (ucast y);
      Some (0, \<lparr>a1 = of_int SYSMEM_IO_WRITE, a2 = x, a3 = y\<rparr>, set_mram w ram) }" (is ?wr)
proof -
  have ne: "SYSMEM_SWP_OP \<noteq> SYSMEM_MAP_OP" "SYSMEM_SWP_OP \<noteq> SYSMEM_INC_OP"
    "SYSMEM_IO_READ \<noteq> SYSMEM_MAP_OP" "SYSMEM_IO_READ \<noteq> SYSMEM_INC_OP" "SYSMEM_IO_READ \<noteq> SYSMEM_SWP_OP"
    "SYSMEM_IO_WRITE \<noteq> SYSMEM_MAP_OP" "SYSMEM_IO_WRITE \<noteq> SYSMEM_INC_OP" "SYSMEM_IO_WRITE \<noteq> SYSMEM_SWP_OP"
    "SYSMEM_IO_WRITE \<noteq> SYSMEM_IO_READ"
    by (simp_all add: macro_defs)
  show ?swp
    by (cases "mm_swap_page c (sysmem_addr x) (sysmem_addr y) w") (auto simp: sys_memmap_def assms ne)
  show ?rd and ?wr by (simp_all add: sys_memmap_def assms ne cong: if_cong)
qed

lemma sys_memmap_inc:
  assumes "get_proc_from_PID krnl pid w = Some (Some k)" and "w_pcbs w k = Some c"
  shows "sys_memmap krnl pid \<lparr>a1 = of_int SYSMEM_INC_OP, a2 = x, a3 = y\<rparr> w =
      map_option (\<lambda>(r, w). (0, \<lparr>a1 = of_int SYSMEM_INC_OP, a2 = x, a3 = y\<rparr>, w))
        (inc_vma_limit (Some c) (ucast x) (sysmem_addr y) w)"
proof -
  have ne: "SYSMEM_INC_OP \<noteq> SYSMEM_MAP_OP" by (simp add: macro_defs)
  show ?thesis
    by (cases "inc_vma_limit (Some c) (ucast x) (sysmem_addr y) w") (auto simp: sys_memmap_def assms ne)
qed

end
