(* ===== verification/Libmem.thy ===== *)
theory Libmem
  imports Syscall
begin

text \<open>
  The user memory library of \<open>src/src/libmem.c\<close>: the region allocator
  (\<open>__alloc\<close>, \<open>__free\<close>, \<open>get_free_vmrg_area\<close>), demand paging with
  first-in first-out replacement (\<open>pg_getpage\<close>, \<open>find_victim_page\<close>), byte access
  (\<open>__read\<close>, \<open>__write\<close>) and the instructions built on them (\<open>liballoc\<close>,
  \<open>libfree\<close>, \<open>libread\<close>, \<open>libwrite\<close>).  Names that start with underscores
  in C carry the prefix \<open>vm_\<close> here.
\<close>

section \<open>Regions\<close>

definition enlist_vm_freerg_list :: "mm_ptr \<Rightarrow> vm_rg_struct \<Rightarrow> world \<Rightarrow> (int \<times> world) option" where
  "enlist_vm_freerg_list mp rg_elmt w = do {
     m \<leftarrow> w_mms w mp;
     (case mm_mmap m of
        [] \<Rightarrow> None
      | vma # rest \<Rightarrow>
          if rg_start rg_elmt \<ge> rg_end rg_elmt then Some (- 1, w)
          else Some (0, set_mm w mp (m\<lparr>mm_mmap :=
                 vma\<lparr>vm_freerg_list := rg_elmt # vm_freerg_list vma\<rparr> # rest\<rparr>)))
   }"

text \<open>A pointer into \<open>symrgtbl\<close> is its index; the test lets the index one past the end
  through.\<close>

definition get_symrg_byid :: "cint \<Rightarrow> nat option" where
  "get_symrg_byid rgid =
     (if sint rgid < 0 \<or> sint rgid > int PAGING_MAX_SYMTBL_SZ then None else Some (nat (sint rgid)))"

text \<open>The traversal of the free list: the region carved out of the first entry with enough
  space, and the list it leaves.  An entry that is used up takes over its successor, or becomes
  an empty region at the end of the list.\<close>

fun free_fit :: "vm_rg_struct list \<Rightarrow> addr_t \<Rightarrow> ((addr_t \<times> addr_t) \<times> vm_rg_struct list) option" where
  "free_fit [] sz = None"
| "free_fit (rgit # next) sz =
     (if rg_start rgit + sz \<le> rg_end rgit
      then Some ((rg_start rgit, rg_start rgit + sz),
             if rg_start rgit + sz < rg_end rgit
             then rgit\<lparr>rg_start := rg_start rgit + sz\<rparr> # next
             else (case next of
                     nextrg # rest \<Rightarrow> rgit\<lparr>rg_start := rg_start nextrg, rg_end := rg_end nextrg\<rparr> # rest
                   | [] \<Rightarrow> [rgit\<lparr>rg_start := rg_end rgit\<rparr>]))
      else map_option (\<lambda>(r, l). (r, rgit # l)) (free_fit next sz))"

text \<open>\<open>get_free_vmrg_area\<close> returns its code and the pair \<open>newrg\<close>; its parameter
  \<open>size\<close> is an \<open>int\<close>.\<close>

definition get_free_vmrg_area ::
  "pcb_t \<Rightarrow> cint \<Rightarrow> cint \<Rightarrow> addr_t \<times> addr_t \<Rightarrow> world \<Rightarrow> (int \<times> (addr_t \<times> addr_t) \<times> world) option" where
  "get_free_vmrg_area caller vmaid sz newrg w = do {
     v \<leftarrow> get_vma_by_num (p_mm caller) vmaid w;
     i \<leftarrow> v;
     mp \<leftarrow> p_mm caller;
     m \<leftarrow> w_mms w mp;
     let cur_vma = mm_mmap m ! i;
     if vm_freerg_list cur_vma = [] then Some (- 1, newrg, w)
     else (case free_fit (vm_freerg_list cur_vma) (scast sz) of
             None \<Rightarrow> Some (- 1, (- 1, - 1), w)
           | Some (rg, l) \<Rightarrow>
               let w = set_mm w mp (m\<lparr>mm_mmap := (mm_mmap m)[i := cur_vma\<lparr>vm_freerg_list := l\<rparr>]\<rparr>)
               in Some (if fst rg = - 1 then - 1 else 0, rg, w))
   }"

text \<open>\<open>caller->mm->symrgtbl[rgid].rg_start = s; ... .rg_end = e\<close>.\<close>

definition set_symrg :: "mm_ptr \<Rightarrow> nat \<Rightarrow> addr_t \<Rightarrow> addr_t \<Rightarrow> world \<Rightarrow> world option" where
  "set_symrg mp i s e w = do {
     m \<leftarrow> w_mms w mp;
     t \<leftarrow> arr_set (mm_symrgtbl m) i ((mm_symrgtbl m ! i)\<lparr>rg_start := s, rg_end := e\<rparr>);
     Some (set_mm w mp (m\<lparr>mm_symrgtbl := t\<rparr>))
   }"

text \<open>\<open>__alloc\<close>: its code, the address and the world.\<close>

definition vm_alloc ::
  "pcb_t option \<Rightarrow> cint \<Rightarrow> cint \<Rightarrow> addr_t \<Rightarrow> addr_t \<Rightarrow> world \<Rightarrow> (int \<times> addr_t \<times> world) option" where
  "vm_alloc caller vmaid rgid sz alloc_addr w =
     (case caller of
        None \<Rightarrow> Some (- 1, alloc_addr, w)
      | Some c \<Rightarrow>
          (case p_mm c of
             None \<Rightarrow> Some (- 1, alloc_addr, w)
           | Some mp \<Rightarrow>
               if sint rgid < 0 \<or> sint rgid \<ge> int PAGING_MAX_SYMTBL_SZ then Some (- 1, alloc_addr, w)
               else do {
                 v \<leftarrow> get_vma_by_num (Some mp) vmaid w;
                 (r, rg, w) \<leftarrow> get_free_vmrg_area c vmaid (ucast sz) (0, 0) w;
                 if r = 0 then do {
                   w \<leftarrow> set_symrg mp (nat (sint rgid)) (fst rg) (snd rg) w;
                   Some (0, fst rg, w)
                 }
                 else do {
                   i \<leftarrow> v;
                   m \<leftarrow> w_mms w mp;
                   let old_sbrk = (scast (ucast (vm_sbrk (mm_mmap m ! i)) :: cint) :: addr_t);
                   let aligned_size = PAGING64_PAGE_ALIGNSZ sz;
                   (r, regs, w) \<leftarrow> do_syscall (p_krnl c) (p_pid c) 17
                     \<lparr>a1 = of_int SYSMEM_INC_OP, a2 = scast vmaid, a3 = aligned_size\<rparr> w;
                   w \<leftarrow> set_symrg mp (nat (sint rgid)) old_sbrk (old_sbrk + sz) w;
                   if aligned_size > sz then do {
                     let (got, w) = host_alloc w;
                     if \<not> got then None
                     else do {
                       (r, w) \<leftarrow> enlist_vm_freerg_list mp
                         \<lparr>rg_vmaid = 0, rg_start = old_sbrk + sz, rg_end = old_sbrk + aligned_size\<rparr> w;
                       Some (0, old_sbrk, w)
                     }
                   } else Some (0, old_sbrk, w)
                 }
               }))"

definition vm_free :: "pcb_t option \<Rightarrow> cint \<Rightarrow> cint \<Rightarrow> world \<Rightarrow> (int \<times> world) option" where
  "vm_free caller vmaid rgid w =
     (case caller of
        None \<Rightarrow> Some (- 1, w)
      | Some c \<Rightarrow>
          if sint rgid < 0 \<or> sint rgid \<ge> int PAGING_MAX_SYMTBL_SZ \<or> \<not> p_krnl c then Some (- 1, w)
          else (case get_symrg_byid rgid of
                  None \<Rightarrow> Some (- 1, w)
                | Some i \<Rightarrow> do {
                    mp \<leftarrow> p_mm c;
                    m \<leftarrow> w_mms w mp;
                    rgnode \<leftarrow> arr_get (mm_symrgtbl m) i;
                    if rg_start rgnode = 0 \<and> rg_end rgnode = 0 then Some (- 1, w)
                    else do {
                      let (got, w) = host_alloc w;
                      if \<not> got then Some (- 1, w)
                      else do {
                        w \<leftarrow> set_symrg mp i 0 0 w;
                        (r, w) \<leftarrow> enlist_vm_freerg_list mp
                          \<lparr>rg_vmaid = 0, rg_start = rg_start rgnode, rg_end = rg_end rgnode\<rparr> w;
                        Some (0, w)
                      }
                    }
                  }))"

text \<open>\<open>proc->regs[i] = v\<close>; the register file has ten entries.\<close>

definition set_reg :: "pcb_ptr \<Rightarrow> nat \<Rightarrow> addr_t \<Rightarrow> world \<Rightarrow> world option" where
  "set_reg p i v w = do {
     c \<leftarrow> w_pcbs w p;
     rs \<leftarrow> arr_set (p_regs c) i v;
     Some (w\<lparr>w_pcbs := (w_pcbs w)(p \<mapsto> c\<lparr>p_regs := rs\<rparr>)\<rparr>)
   }"

definition liballoc :: "pcb_ptr \<Rightarrow> addr_t \<Rightarrow> u32 \<Rightarrow> world \<Rightarrow> (int \<times> world) option" where
  "liballoc proc sz reg_index w = do {
     c \<leftarrow> w_pcbs w proc;
     (val, addr, w) \<leftarrow> vm_alloc (Some c) 0 reg_index sz 0 w;
     if val = - 1 then Some (- 1, w)
     else do {
       w \<leftarrow> set_reg proc (unat reg_index) addr w;
       Some (val, w)
     }
   }"

definition libfree :: "pcb_ptr \<Rightarrow> u32 \<Rightarrow> world \<Rightarrow> (int \<times> world) option" where
  "libfree proc reg_index w = do {
     c \<leftarrow> w_pcbs w proc;
     (val, w) \<leftarrow> vm_free (Some c) 0 reg_index w;
     if val = - 1 then Some (- 1, w)
     else do {
       w \<leftarrow> set_reg proc (unat reg_index) 0 w;
       Some (0, w)
     }
   }"

section \<open>Demand paging\<close>

text \<open>The tail of \<open>fifo_pgn\<close> is the page that was listed first.\<close>

definition find_victim_page :: "mm_ptr \<Rightarrow> world \<Rightarrow> (int \<times> addr_t \<times> world) option" where
  "find_victim_page mp w = do {
     m \<leftarrow> w_mms w mp;
     (case mm_fifo_pgn m of
        [] \<Rightarrow> Some (- 1, 0, w)
      | pg # rest \<Rightarrow>
          Some (0, last (pg # rest), set_mm w mp (m\<lparr>mm_fifo_pgn := butlast (pg # rest)\<rparr>)))
   }"

text \<open>Choosing the frame for a page that is not present: a free one, or the frame of a victim
  whose contents go to the swap device first.  The inner \<open>None\<close> is the early return
  \<open>- 1\<close>.\<close>

definition get_target_frame :: "pcb_t \<Rightarrow> world \<Rightarrow> (addr_t option \<times> world) option" where
  "get_target_frame caller w =
     (if \<not> p_krnl caller then None
      else do {
        let (r, dev, tgtfpn) = MEMPHY_get_freefp (mram w) 0;
        let w = set_mram w dev;
        if r \<noteq> - 1 then Some (Some tgtfpn, w)
        else do {
          mp \<leftarrow> p_mm caller;
          (r, vicpgn, w) \<leftarrow> find_victim_page mp w;
          if r = - 1 then Some (None, w)
          else do {
            (vicpte, w) \<leftarrow> pte_get_entry (Some caller) vicpgn w;
            let vicfpn = ucast (PAGING_FPN vicpte);
            let (r, dev, swpfpn) = MEMPHY_get_freefp (mswp w) 0;
            let w = set_mswp w dev;
            if r = - 1 then Some (None, w)
            else do {
              (r, regs, w) \<leftarrow> do_syscall (p_krnl caller) (p_pid caller) 17
                \<lparr>a1 = of_int SYSMEM_SWP_OP, a2 = vicfpn, a3 = swpfpn\<rparr> w;
              (r, w) \<leftarrow> pte_set_swap (Some caller) vicpgn 0 swpfpn w;
              Some (Some vicfpn, w)
            }
          }
        }
      })"

text \<open>Bringing the contents of a swapped page back into the chosen frame.\<close>

definition swap_in_page :: "u32 \<Rightarrow> addr_t \<Rightarrow> world \<Rightarrow> world option" where
  "swap_in_page pte tgtfpn w =
     (if PAGING_PAGE_SWAPPED pte then do {
        let saved_swpfpn = ucast (PAGING_SWP pte);
        (r, swp, ram) \<leftarrow> swap_cp_page (mswp w) saved_swpfpn (mram w) tgtfpn;
        let (r, swp) = MEMPHY_put_freefp swp saved_swpfpn;
        Some (set_mswp (set_mram w ram) swp)
      } else Some w)"

text \<open>\<open>pg_getpage\<close>: its code, the frame and the world.\<close>

definition pg_getpage :: "cint \<Rightarrow> cint \<Rightarrow> pcb_t \<Rightarrow> world \<Rightarrow> (int \<times> cint \<times> world) option" where
  "pg_getpage pgn fpn caller w = do {
     (pte, w) \<leftarrow> pte_get_entry (Some caller) (scast pgn) w;
     if \<not> PAGING_PAGE_PRESENT pte then do {
       (tgt, w) \<leftarrow> get_target_frame caller w;
       (case tgt of
          None \<Rightarrow> Some (- 1, fpn, w)
        | Some tgtfpn \<Rightarrow> do {
            w \<leftarrow> swap_in_page pte tgtfpn w;
            (r, w) \<leftarrow> pte_set_fpn (Some caller) (scast pgn) tgtfpn w;
            mp \<leftarrow> p_mm caller;
            w \<leftarrow> enlist_pgn_node mp (scast pgn) w;
            (pte, w) \<leftarrow> pte_get_entry (Some caller) (scast pgn) w;
            Some (0, PAGING_FPN pte, w)
          })
     }
     else do {
       (pte, w) \<leftarrow> pte_get_entry (Some caller) (scast pgn) w;
       Some (0, PAGING_FPN pte, w)
     }
   }"

section \<open>Byte access\<close>

text \<open>Splitting an \<open>int\<close> address, and the physical address of an offset in a frame.  A frame
  number has 13 bits, so the sum stays a non-negative \<open>int\<close>.\<close>

definition int_pgn :: "cint \<Rightarrow> cint" where
  "int_pgn addr = signed_drop_bit PAGING64_ADDR_PT_SHIFT addr"

definition int_off :: "cint \<Rightarrow> cint" where
  "int_off addr = addr AND (push_bit PAGING64_ADDR_PT_SHIFT 1 - 1)"

definition int_phyaddr :: "cint \<Rightarrow> cint \<Rightarrow> cint" where
  "int_phyaddr fpn off = push_bit PAGING64_ADDR_PT_SHIFT fpn + off"

text \<open>The byte \<open>data\<close> points to is not written: the value the call reads stays in the
  register structure.  The pointer itself travels in \<open>regs.a3\<close>, which the call does not
  read.\<close>

definition pg_getval :: "cint \<Rightarrow> byte \<Rightarrow> pcb_t \<Rightarrow> world \<Rightarrow> (int \<times> byte \<times> world) option" where
  "pg_getval addr data caller w = do {
     (r, fpn, w) \<leftarrow> pg_getpage (int_pgn addr) 0 caller w;
     if r \<noteq> 0 then Some (- 1, data, w)
     else do {
       (r, regs, w) \<leftarrow> do_syscall (p_krnl caller) (p_pid caller) 17
         \<lparr>a1 = of_int SYSMEM_IO_READ, a2 = scast (int_phyaddr fpn (int_off addr)), a3 = 0\<rparr> w;
       Some (0, data, w)
     }
   }"

definition pg_setval :: "cint \<Rightarrow> byte \<Rightarrow> pcb_t \<Rightarrow> world \<Rightarrow> (int \<times> world) option" where
  "pg_setval addr val caller w = do {
     (r, fpn, w) \<leftarrow> pg_getpage (int_pgn addr) 0 caller w;
     if r \<noteq> 0 then Some (- 1, w)
     else do {
       (r, regs, w) \<leftarrow> do_syscall (p_krnl caller) (p_pid caller) 17
         \<lparr>a1 = of_int SYSMEM_IO_WRITE, a2 = scast (int_phyaddr fpn (int_off addr)), a3 = scast val\<rparr> w;
       Some (0, w)
     }
   }"

text \<open>\<open>__read\<close> and \<open>__write\<close>.\<close>

definition vm_read :: "pcb_t option \<Rightarrow> cint \<Rightarrow> cint \<Rightarrow> addr_t \<Rightarrow> byte \<Rightarrow> world \<Rightarrow> (int \<times> byte \<times> world) option" where
  "vm_read caller vmaid rgid offset data w =
     (case caller of
        None \<Rightarrow> Some (- 1, data, w)
      | Some c \<Rightarrow>
          if \<not> p_krnl c \<or> sint rgid < 0 \<or> sint rgid \<ge> int PAGING_MAX_SYMTBL_SZ then Some (- 1, data, w)
          else (case get_symrg_byid rgid of
                  None \<Rightarrow> Some (- 1, data, w)
                | Some i \<Rightarrow> do {
                    mp \<leftarrow> p_mm c;
                    m \<leftarrow> w_mms w mp;
                    currg \<leftarrow> arr_get (mm_symrgtbl m) i;
                    if rg_start currg = 0 \<and> rg_end currg = 0 then Some (- 1, data, w)
                    else if rg_start currg + offset \<ge> rg_end currg then Some (- 1, data, w)
                    else pg_getval (ucast (rg_start currg + offset)) data c w
                  }))"

definition vm_write :: "pcb_t option \<Rightarrow> cint \<Rightarrow> cint \<Rightarrow> addr_t \<Rightarrow> byte \<Rightarrow> world \<Rightarrow> (int \<times> world) option" where
  "vm_write caller vmaid rgid offset val w =
     (case caller of
        None \<Rightarrow> Some (- 1, w)
      | Some c \<Rightarrow>
          if \<not> p_krnl c \<or> sint rgid < 0 \<or> sint rgid \<ge> int PAGING_MAX_SYMTBL_SZ then Some (- 1, w)
          else (case get_symrg_byid rgid of
                  None \<Rightarrow> Some (- 1, w)
                | Some i \<Rightarrow> do {
                    mp \<leftarrow> p_mm c;
                    m \<leftarrow> w_mms w mp;
                    currg \<leftarrow> arr_get (mm_symrgtbl m) i;
                    if rg_start currg = 0 \<and> rg_end currg = 0 then Some (- 1, w)
                    else if rg_start currg + offset \<ge> rg_end currg then Some (- 1, w)
                    else pg_setval (ucast (rg_start currg + offset)) val c w
                  }))"

text \<open>\<open>junk\<close> is the unspecified value of the uninitialised local \<open>data\<close>; the result
  carries \<open>*destination\<close>.\<close>

definition libread :: "byte \<Rightarrow> pcb_ptr \<Rightarrow> u32 \<Rightarrow> addr_t \<Rightarrow> world \<Rightarrow> (int \<times> u32 \<times> world) option" where
  "libread junk proc source offset w = do {
     c \<leftarrow> w_pcbs w proc;
     (val, data, w) \<leftarrow> vm_read (Some c) 0 source offset junk w;
     Some (val, scast data, w)
   }"

definition libwrite :: "pcb_ptr \<Rightarrow> byte \<Rightarrow> u32 \<Rightarrow> addr_t \<Rightarrow> world \<Rightarrow> (int \<times> world) option" where
  "libwrite proc data destination offset w = do {
     c \<leftarrow> w_pcbs w proc;
     (val, w) \<leftarrow> vm_write (Some c) 0 destination offset data w;
     if val = - 1 then Some (- 1, w) else Some (val, w)
   }"

section \<open>Releasing the frames of a process\<close>

definition PAGING_MAX_PGN :: nat where [macro_defs]: "PAGING_MAX_PGN = 16384"

text \<open>\<open>free_pcb_memph\<close> reads the top directory as if it were a flat page table.  Its entries are
  pointers, whose numeric values the parameter \<open>ptrs\<close> gives; it has 512 of them.\<close>

fun free_memph_loop :: "(nat \<Rightarrow> u64) \<Rightarrow> nat \<Rightarrow> nat \<Rightarrow> world \<Rightarrow> world option" where
  "free_memph_loop ptrs pagenum 0 w = Some w"
| "free_memph_loop ptrs pagenum (Suc n) w =
     (if pagenum < PAGING64_DIR_ENTRIES then
        let pte = (ucast (ptrs pagenum) :: u32);
            w = (if PAGING_PAGE_PRESENT pte
                 then set_mram w (snd (MEMPHY_put_freefp (mram w) (scast (PAGING_FPN pte))))
                 else set_mswp w (snd (MEMPHY_put_freefp (mswp w) (scast (PAGING_SWP pte)))))
        in free_memph_loop ptrs (pagenum + 1) n w
      else None)"

definition free_pcb_memph :: "(nat \<Rightarrow> u64) \<Rightarrow> pcb_t \<Rightarrow> world \<Rightarrow> (int \<times> world) option" where
  "free_pcb_memph ptrs caller w = do {
     mp \<leftarrow> p_mm caller;
     m \<leftarrow> w_mms w mp;
     pgd \<leftarrow> mm_pgd m;
     if \<not> p_krnl caller then None
     else do {
       w \<leftarrow> free_memph_loop ptrs 0 PAGING_MAX_PGN w;
       Some (0, w)
     }
   }"

lemma free_memph_loop_out:
  "i \<le> PAGING64_DIR_ENTRIES \<Longrightarrow> PAGING64_DIR_ENTRIES < i + n \<Longrightarrow> free_memph_loop ptrs i n w = None"
  by (induction n arbitrary: i w) (auto simp: Let_def)

text \<open>The loop always runs past the end of the directory.\<close>

lemma free_pcb_memph_undefined: "free_pcb_memph ptrs caller w = None"
  using free_memph_loop_out [of 0 PAGING_MAX_PGN ptrs w]
  by (simp add: free_pcb_memph_def macro_defs split: bind_split)

end
