(* ===== verification/Kmem.thy ===== *)
theory Kmem
  imports Libmem
begin

text \<open>
  Kernel memory, the second half of \<open>src/src/libmem.c\<close>: page-granular allocation in the
  kernel address space (\<open>__kmalloc\<close>), cache pools with a bump allocator
  (\<open>libkmem_cache_pool_create\<close>, \<open>__kmem_cache_alloc\<close>), byte access to kernel and
  user regions, and the copies between them.
\<close>

section \<open>Kernel allocation\<close>

text \<open>\<open>kcaller = *caller; kcaller.mm = krnl->mm\<close>.\<close>

definition as_kernel :: "pcb_t \<Rightarrow> world \<Rightarrow> pcb_t" where
  "as_kernel c w = c\<lparr>p_mm := k_mm (w_os w)\<rparr>"

text \<open>The loop of \<open>__kmalloc\<close> at page \<open>i\<close> with \<open>n\<close> pages left.  Frames taken before
  a failure stay taken.\<close>

fun kmalloc_loop :: "pcb_t \<Rightarrow> addr_t \<Rightarrow> nat \<Rightarrow> nat \<Rightarrow> world \<Rightarrow> (addr_t \<times> world) option" where
  "kmalloc_loop kcaller vaddr i 0 w = Some (0, w)"
| "kmalloc_loop kcaller vaddr i (Suc n) w = do {
     let (r, dev, fpn) = MEMPHY_get_freefp (mram w) 0;
     let w = set_mram w dev;
     if r = - 1 then Some (- 1, w)
     else do {
       off \<leftarrow> c_int (int i * int PAGING64_PAGESZ);
       let current_vaddr = vaddr + of_int off;
       let pgn = drop_bit PAGING64_ADDR_PT_SHIFT current_vaddr;
       (pte, w) \<leftarrow> get_pte_ptr (Some kcaller) pgn True w;
       (case pte of
          None \<Rightarrow> Some (- 1, w)
        | Some pte \<Rightarrow> do {
            (r, w) \<leftarrow> pte_set_fpn (Some kcaller) pgn fpn w;
            if r \<noteq> 0 then Some (- 1, w)
            else do {
              v \<leftarrow> pte_load w pte;
              w \<leftarrow> pte_write w pte (PAGING_PTE_SET_PRESENT v);
              kmalloc_loop kcaller vaddr (i + 1) n w
            }
          })
     }
   }"

text \<open>The kernel virtual address of a region or pool identifier.\<close>

definition kmalloc_vaddr :: "cint \<Rightarrow> addr_t" where
  "kmalloc_vaddr rgid = scast rgid * of_nat PAGING64_PAGESZ * 1000"

definition kmalloc ::
  "pcb_t \<Rightarrow> cint \<Rightarrow> cint \<Rightarrow> addr_t \<Rightarrow> addr_t \<Rightarrow> world \<Rightarrow> (addr_t \<times> addr_t \<times> world) option" where
  "kmalloc caller vmaid rgid sz alloc_addr w =
     (if \<not> p_krnl caller \<or> sz = 0 then Some (- 1, alloc_addr, w)
      else do {
        let kcaller = as_kernel caller w;
        let num_pages = (ucast ((sz + of_nat PAGING64_PAGESZ - 1) div of_nat PAGING64_PAGESZ) :: cint);
        let vaddr = kmalloc_vaddr rgid;
        (r, w) \<leftarrow> kmalloc_loop kcaller vaddr 0 (nat (sint num_pages)) w;
        if r \<noteq> 0 then Some (r, alloc_addr, w) else Some (0, vaddr, w)
      })"

definition libkmem_malloc :: "pcb_t option \<Rightarrow> u32 \<Rightarrow> u32 \<Rightarrow> world \<Rightarrow> (int \<times> world) option" where
  "libkmem_malloc caller sz reg_index w =
     (case caller of
        None \<Rightarrow> Some (- 1, w)
      | Some c \<Rightarrow>
          if sz = 0 then Some (- 1, w)
          else do {
            (val, addr, w) \<leftarrow> kmalloc c (- 1) reg_index (ucast sz) 0 w;
            if (ucast val :: cint) \<noteq> 0 then Some (- 1, w) else Some (0, w)
          })"

section \<open>Cache pools\<close>

text \<open>\<open>mm->kcpooltbl[id] = p\<close> for a table that exists.\<close>

definition set_kcpool :: "mm_ptr \<Rightarrow> nat \<Rightarrow> kcache_pool_struct \<Rightarrow> world \<Rightarrow> world option" where
  "set_kcpool mp i p w = do {
     m \<leftarrow> w_mms w mp;
     t \<leftarrow> mm_kcpooltbl m;
     t' \<leftarrow> arr_set t i p;
     Some (set_mm w mp (m\<lparr>mm_kcpooltbl := Some t'\<rparr>))
   }"

text \<open>The lazy allocation of the pool table.\<close>

definition ensure_kcpooltbl :: "mm_ptr \<Rightarrow> world \<Rightarrow> (bool \<times> world) option" where
  "ensure_kcpooltbl mp w = do {
     m \<leftarrow> w_mms w mp;
     if mm_kcpooltbl m \<noteq> None then Some (True, w)
     else do {
       let (got, w) = host_alloc w;
       Some (if got
             then (True, set_mm w mp (m\<lparr>mm_kcpooltbl :=
               Some (replicate PAGING_MAX_KCACHE_POOLS \<lparr>kc_size = 0, kc_align = 0, kc_storage = 0\<rparr>)\<rparr>))
             else (False, w))
     }
   }"

definition libkmem_cache_pool_create ::
  "pcb_t option \<Rightarrow> u32 \<Rightarrow> u32 \<Rightarrow> u32 \<Rightarrow> world \<Rightarrow> (int \<times> world) option" where
  "libkmem_cache_pool_create caller sz align cache_pool_id w =
     (case caller of
        None \<Rightarrow> Some (- 1, w)
      | Some c \<Rightarrow>
          if \<not> p_krnl c then Some (- 1, w)
          else (case k_mm (w_os w) of
                  None \<Rightarrow> Some (- 1, w)
                | Some mp \<Rightarrow>
                    if sz = 0 \<or> align = 0 \<or> sz < align then Some (- 1, w)
                    else do {
                      (got, w) \<leftarrow> ensure_kcpooltbl mp w;
                      if \<not> got then Some (- 1, w)
                      else if unat cache_pool_id \<ge> PAGING_MAX_KCACHE_POOLS then Some (- 1, w)
                      else do {
                        (r, pool_storage_addr, w) \<leftarrow> kmalloc c (- 1) cache_pool_id (ucast sz) 0 w;
                        if (ucast r :: cint) \<noteq> 0 then Some (- 1, w)
                        else do {
                          w \<leftarrow> set_kcpool mp (unat cache_pool_id)
                            \<lparr>kc_size = sz, kc_align = align, kc_storage = pool_storage_addr\<rparr> w;
                          Some (0, w)
                        }
                      }
                    }))"

text \<open>\<open>__kmem_cache_alloc\<close>.  A missing pool table is a null dereference.\<close>

definition kmem_cache_alloc ::
  "pcb_t option \<Rightarrow> cint \<Rightarrow> cint \<Rightarrow> cint \<Rightarrow> addr_t \<Rightarrow> world \<Rightarrow> (addr_t \<times> addr_t \<times> world) option" where
  "kmem_cache_alloc caller vmaid rgid cache_pool_id alloc_addr w =
     (case caller of
        None \<Rightarrow> Some (- 1, alloc_addr, w)
      | Some c \<Rightarrow>
          if \<not> p_krnl c then Some (- 1, alloc_addr, w)
          else (case k_mm (w_os w) of
                  None \<Rightarrow> Some (- 1, alloc_addr, w)
                | Some mp \<Rightarrow>
                    if sint cache_pool_id < 0 \<or> sint cache_pool_id \<ge> int PAGING_MAX_KCACHE_POOLS
                    then Some (- 1, alloc_addr, w)
                    else do {
                      m \<leftarrow> w_mms w mp;
                      t \<leftarrow> mm_kcpooltbl m;
                      let i = nat (sint cache_pool_id);
                      pool \<leftarrow> arr_get t i;
                      if kc_align pool = 0 \<or> sint (kc_size pool) < sint (kc_align pool)
                      then Some (- 1, alloc_addr, w)
                      else do {
                        let slot_addr = kc_storage pool;
                        left \<leftarrow> c_int (sint (kc_size pool) - sint (kc_align pool));
                        let pool = pool\<lparr>kc_storage := kc_storage pool + scast (kc_align pool),
                                        kc_size := of_int left\<rparr>;
                        w \<leftarrow> set_kcpool mp i pool w;
                        if 0 \<le> sint rgid \<and> sint rgid < int PAGING_MAX_SYMTBL_SZ then do {
                          m \<leftarrow> w_mms w mp;
                          tb \<leftarrow> arr_set (mm_symrgtbl m) (nat (sint rgid))
                            \<lparr>rg_vmaid = vmaid, rg_start = slot_addr,
                             rg_end = slot_addr + scast (kc_align pool)\<rparr>;
                          Some (0, slot_addr, set_mm w mp (m\<lparr>mm_symrgtbl := tb\<rparr>))
                        }
                        else do {
                          w \<leftarrow> set_kcpool mp i
                            (pool\<lparr>kc_storage := kc_storage pool - scast (kc_align pool),
                                  kc_size := kc_size pool + kc_align pool\<rparr>) w;
                          Some (- 1, alloc_addr, w)
                        }
                      }
                    }))"

definition libkmem_cache_alloc :: "pcb_t option \<Rightarrow> u32 \<Rightarrow> u32 \<Rightarrow> world \<Rightarrow> (int \<times> world) option" where
  "libkmem_cache_alloc proc cache_pool_id reg_index w =
     (case proc of
        None \<Rightarrow> Some (- 1, w)
      | Some c \<Rightarrow>
          if \<not> p_krnl c \<or> k_mm (w_os w) = None then Some (- 1, w)
          else do {
            (val, alloc_addr, w) \<leftarrow> kmem_cache_alloc proc (- 1) reg_index cache_pool_id 0 w;
            if val = - 1 \<or> val = 0 then Some (- 1, w) else Some (0, w)
          })"

section \<open>Byte access\<close>

definition page_off :: "addr_t \<Rightarrow> addr_t" where
  "page_off vaddr = vaddr AND (push_bit PAGING64_ADDR_PT_SHIFT 1 - 1)"

text \<open>The checks the two kernel accessors share: the address of an offset in a kernel
  region, \<open>None\<close> inside for the return \<open>- 1\<close>.\<close>

definition region_addr :: "mm_ptr \<Rightarrow> cint \<Rightarrow> addr_t \<Rightarrow> world \<Rightarrow> addr_t option option" where
  "region_addr mp rgid offset w = do {
     m \<leftarrow> w_mms w mp;
     currg \<leftarrow> arr_get (mm_symrgtbl m) (nat (sint rgid));
     Some (if rg_start currg = 0 \<and> rg_end currg = 0 then None
           else if rg_start currg + offset \<ge> rg_end currg then None
           else Some (rg_start currg + offset))
   }"

text \<open>The translation the two kernel accessors share: the physical address, or a page fault.\<close>

definition kernel_phyaddr :: "pcb_t \<Rightarrow> addr_t \<Rightarrow> world \<Rightarrow> (addr_t option \<times> world) option" where
  "kernel_phyaddr kcaller vaddr w = do {
     (pte, w) \<leftarrow> pte_get_entry (Some kcaller) (drop_bit PAGING64_ADDR_PT_SHIFT vaddr) w;
     Some (if \<not> PAGING_PAGE_PRESENT pte then None
           else Some (push_bit PAGING64_ADDR_PT_SHIFT (ucast (PAGING_FPN pte)) + page_off vaddr), w)
   }"

definition read_kernel_mem ::
  "pcb_t option \<Rightarrow> cint \<Rightarrow> cint \<Rightarrow> addr_t \<Rightarrow> byte \<Rightarrow> world \<Rightarrow> (int \<times> byte \<times> world) option" where
  "read_kernel_mem caller vmaid rgid offset data w =
     (case caller of
        None \<Rightarrow> Some (- 1, data, w)
      | Some c \<Rightarrow>
          if \<not> p_krnl c \<or> sint rgid < 0 \<or> sint rgid \<ge> int PAGING_MAX_SYMTBL_SZ then Some (- 1, data, w)
          else (case k_mm (w_os w) of
                  None \<Rightarrow> Some (- 1, data, w)
                | Some mp \<Rightarrow> do {
                    a \<leftarrow> region_addr mp rgid offset w;
                    (case a of
                       None \<Rightarrow> Some (- 1, data, w)
                     | Some vaddr \<Rightarrow> do {
                         (ph, w) \<leftarrow> kernel_phyaddr (as_kernel c w) vaddr w;
                         (case ph of
                            None \<Rightarrow> Some (- 1, data, w)
                          | Some phyaddr \<Rightarrow> do {
                              (r, ram, v) \<leftarrow> MEMPHY_read (mram w) phyaddr data;
                              Some (if r \<noteq> 0 then - 1 else 0, v, set_mram w ram)
                            })
                       })
                  }))"

definition write_kernel_mem ::
  "pcb_t option \<Rightarrow> cint \<Rightarrow> cint \<Rightarrow> addr_t \<Rightarrow> byte \<Rightarrow> world \<Rightarrow> (int \<times> world) option" where
  "write_kernel_mem caller vmaid rgid offset val w =
     (case caller of
        None \<Rightarrow> Some (- 1, w)
      | Some c \<Rightarrow>
          if \<not> p_krnl c \<or> sint rgid < 0 \<or> sint rgid \<ge> int PAGING_MAX_SYMTBL_SZ then Some (- 1, w)
          else (case k_mm (w_os w) of
                  None \<Rightarrow> Some (- 1, w)
                | Some mp \<Rightarrow> do {
                    a \<leftarrow> region_addr mp rgid offset w;
                    (case a of
                       None \<Rightarrow> Some (- 1, w)
                     | Some vaddr \<Rightarrow> do {
                         (ph, w) \<leftarrow> kernel_phyaddr (as_kernel c w) vaddr w;
                         (case ph of
                            None \<Rightarrow> Some (- 1, w)
                          | Some phyaddr \<Rightarrow> do {
                              (r, ram) \<leftarrow> MEMPHY_write (mram w) phyaddr val;
                              Some (if r \<noteq> 0 then - 1 else 0, set_mram w ram)
                            })
                       })
                  }))"

text \<open>The page of a user address is brought in first; the physical address is an
  \<open>int\<close>.\<close>

definition read_user_mem ::
  "pcb_t option \<Rightarrow> cint \<Rightarrow> cint \<Rightarrow> addr_t \<Rightarrow> byte \<Rightarrow> world \<Rightarrow> (int \<times> byte \<times> world) option" where
  "read_user_mem caller vmaid rgid offset data w =
     (case caller of
        None \<Rightarrow> Some (- 1, data, w)
      | Some c \<Rightarrow>
          (case p_mm c of
             None \<Rightarrow> Some (- 1, data, w)
           | Some mp \<Rightarrow>
               if \<not> p_krnl c \<or> sint rgid < 0 \<or> sint rgid \<ge> int PAGING_MAX_SYMTBL_SZ
               then Some (- 1, data, w)
               else do {
                 a \<leftarrow> region_addr mp rgid offset w;
                 (case a of
                    None \<Rightarrow> Some (- 1, data, w)
                  | Some vaddr \<Rightarrow> do {
                      (r, fpn, w) \<leftarrow> pg_getpage (ucast (drop_bit PAGING64_ADDR_PT_SHIFT vaddr)) 0 c w;
                      if r \<noteq> 0 then Some (- 1, data, w)
                      else do {
                        (r, ram, v) \<leftarrow> MEMPHY_read (mram w)
                          (scast (int_phyaddr fpn (ucast (page_off vaddr)))) data;
                        Some (if r \<noteq> 0 then - 1 else 0, v, set_mram w ram)
                      }
                    })
               }))"

definition write_user_mem ::
  "pcb_t option \<Rightarrow> cint \<Rightarrow> cint \<Rightarrow> addr_t \<Rightarrow> byte \<Rightarrow> world \<Rightarrow> (int \<times> world) option" where
  "write_user_mem caller vmaid rgid offset val w =
     (case caller of
        None \<Rightarrow> Some (- 1, w)
      | Some c \<Rightarrow>
          (case p_mm c of
             None \<Rightarrow> Some (- 1, w)
           | Some mp \<Rightarrow>
               if \<not> p_krnl c \<or> sint rgid < 0 \<or> sint rgid \<ge> int PAGING_MAX_SYMTBL_SZ
               then Some (- 1, w)
               else do {
                 a \<leftarrow> region_addr mp rgid offset w;
                 (case a of
                    None \<Rightarrow> Some (- 1, w)
                  | Some vaddr \<Rightarrow> do {
                      (r, fpn, w) \<leftarrow> pg_getpage (ucast (drop_bit PAGING64_ADDR_PT_SHIFT vaddr)) 0 c w;
                      if r \<noteq> 0 then Some (- 1, w)
                      else do {
                        (r, ram) \<leftarrow> MEMPHY_write (mram w)
                          (scast (int_phyaddr fpn (ucast (page_off vaddr)))) val;
                        Some (if r \<noteq> 0 then - 1 else 0, set_mram w ram)
                      }
                    })
               }))"

section \<open>Copies between kernel and user memory\<close>

text \<open>The loop both copy routines have, at index \<open>i\<close> with \<open>n\<close> bytes left: a byte of
  the kernel region goes to the user region.\<close>

fun copy_loop :: "pcb_t \<Rightarrow> u32 \<Rightarrow> u32 \<Rightarrow> u32 \<Rightarrow> u32 \<Rightarrow> nat \<Rightarrow> world \<Rightarrow> (int \<times> world) option" where
  "copy_loop c source destination offset i 0 w = Some (0, w)"
| "copy_loop c source destination offset i (Suc n) w = do {
     (r, temp_data, w) \<leftarrow> read_kernel_mem (Some c) (- 1) source (ucast (offset + i)) 0 w;
     if r \<noteq> 0 then Some (- 1, w)
     else do {
       (r, w) \<leftarrow> write_user_mem (Some c) (- 1) destination (ucast (offset + i)) temp_data w;
       if r \<noteq> 0 then Some (- 1, w)
       else copy_loop c source destination offset (i + 1) n w
     }
   }"

definition libkmem_copy_from_user ::
  "pcb_t option \<Rightarrow> u32 \<Rightarrow> u32 \<Rightarrow> u32 \<Rightarrow> u32 \<Rightarrow> world \<Rightarrow> (int \<times> world) option" where
  "libkmem_copy_from_user caller source destination offset sz w =
     (case caller of
        None \<Rightarrow> Some (- 1, w)
      | Some c \<Rightarrow>
          if sz = 0 then Some (- 1, w)
          else copy_loop c source destination offset 0 (unat sz) w)"

definition libkmem_copy_to_user ::
  "pcb_t option \<Rightarrow> u32 \<Rightarrow> u32 \<Rightarrow> u32 \<Rightarrow> u32 \<Rightarrow> world \<Rightarrow> (int \<times> world) option" where
  "libkmem_copy_to_user caller source destination offset sz w =
     (case caller of
        None \<Rightarrow> Some (- 1, w)
      | Some c \<Rightarrow>
          if sz = 0 then Some (- 1, w)
          else copy_loop c source destination offset 0 (unat sz) w)"

end
