(* ===== verification/Cpu.thy ===== *)
theory Cpu
  imports Kmem
begin

text \<open>
  The instruction interpreter of \<open>src/src/cpu.c\<close>: \<open>run\<close> fetches the instruction at the
  program counter, advances the counter and calls the routine of the library that executes it.  The
  arguments of an instruction are 64-bit and are converted to the parameter types of the routine.
\<close>

definition calc :: "pcb_ptr \<Rightarrow> int" where
  "calc proc = 0"

text \<open>The instruction once fetched.  \<open>READ\<close> hands \<open>libread\<close> the address of a field of
  the local copy of the instruction, so the byte it delivers is lost; the unspecified byte is taken
  to be zero.\<close>

definition exec_inst :: "inst_t \<Rightarrow> pcb_ptr \<Rightarrow> pcb_t \<Rightarrow> world \<Rightarrow> (int \<times> world) option" where
  "exec_inst ins proc c w =
     (case opcode ins of
        CALC \<Rightarrow> Some (calc proc, w)
      | ALLOC \<Rightarrow> liballoc proc (arg_0 ins) (ucast (arg_1 ins)) w
      | KMALLOC \<Rightarrow> libkmem_malloc (Some c) (ucast (arg_0 ins)) (ucast (arg_1 ins)) w
      | KMEM_CACHE_CREATE \<Rightarrow>
          libkmem_cache_pool_create (Some c) (ucast (arg_0 ins)) (ucast (arg_1 ins)) (ucast (arg_2 ins)) w
      | KMEM_CACHE_ALLOC \<Rightarrow> libkmem_cache_alloc (Some c) (ucast (arg_0 ins)) (ucast (arg_1 ins)) w
      | COPY_FROM_USER \<Rightarrow>
          libkmem_copy_from_user (Some c) (ucast (arg_0 ins)) (ucast (arg_1 ins)) (ucast (arg_2 ins))
            (ucast (arg_3 ins)) w
      | COPY_TO_USER \<Rightarrow>
          libkmem_copy_to_user (Some c) (ucast (arg_0 ins)) (ucast (arg_1 ins)) (ucast (arg_2 ins))
            (ucast (arg_3 ins)) w
      | FREE \<Rightarrow> libfree proc (ucast (arg_0 ins)) w
      | READ \<Rightarrow> do {
          (stat, destination, w) \<leftarrow> libread 0 proc (ucast (arg_0 ins)) (arg_1 ins) w;
          Some (stat, w)
        }
      | WRITE \<Rightarrow> libwrite proc (ucast (arg_0 ins)) (ucast (arg_1 ins)) (arg_2 ins) w
      | SYSCALL \<Rightarrow> libsyscall c (ucast (arg_0 ins)) (arg_1 ins) (arg_2 ins) (arg_3 ins) w)"

definition run :: "pcb_ptr \<Rightarrow> world \<Rightarrow> (int \<times> world) option" where
  "run proc w = do {
     c \<leftarrow> w_pcbs w proc;
     if unat (p_pc c) \<ge> length (p_code c) then Some (1, w)
     else do {
       let ins = p_code c ! unat (p_pc c);
       let c = c\<lparr>p_pc := p_pc c + 1\<rparr>;
       exec_inst ins proc c (w\<lparr>w_pcbs := (w_pcbs w)(proc \<mapsto> c)\<rparr>)
     }
   }"

end
