(* ===== verification/Frames.thy ===== *)
theory Frames
  imports Cpu
begin

text \<open>
  What the memory operations leave alone.  \<open>snap\<close> collects the parts of the world that no
  memory operation changes: the process control blocks, the descriptor of the kernel, the process
  table and the set of live descriptors.  Each operation keeps the snapshot; the lemmas are collected
  in \<open>snap_dest\<close>.
\<close>

named_theorems snap_dest \<open>operations that keep the snapshot of the world\<close>

definition snap :: "world \<Rightarrow>
  (pcb_ptr \<Rightarrow> pcb_t option) \<times> mm_ptr option \<times> pcb_ptr option list \<times> mm_ptr set" where
  "snap w = (w_pcbs w, k_mm (w_os w), k_proc_table (w_os w), dom (w_mms w))"

lemma snapD:
  "snap w' = snap w \<Longrightarrow> w_pcbs w' = w_pcbs w \<and> k_mm (w_os w') = k_mm (w_os w)
     \<and> k_proc_table (w_os w') = k_proc_table (w_os w) \<and> dom (w_mms w') = dom (w_mms w)"
  by (simp add: snap_def)

lemma snap_set [simp]:
  "snap (set_mram w d) = snap w" "snap (set_mswp w d) = snap w" "snap (w\<lparr>w_hostmem := h\<rparr>) = snap w"
  by (simp_all add: snap_def)

lemma snap_set_mm [simp]: "w_mms w mp = Some m \<Longrightarrow> snap (set_mm w mp m') = snap w"
  by (auto simp: snap_def)

lemma snap_host [snap_dest]: "host_alloc w = (b, w') \<Longrightarrow> snap w' = snap w \<and> w_mms w' = w_mms w"
  by (auto simp: host_alloc_def snap_def)

lemmas frame_splits = bind_splits option.splits if_splits prod.splits list.splits

lemma snap_get_pte_ptr [snap_dest]:
  "get_pte_ptr c pgn al w = Some (p, w') \<Longrightarrow> snap w' = snap w"
  by (auto simp: get_pte_ptr_def Let_def snap_def split: frame_splits)

lemma snap_pte_write [snap_dest]: "pte_write w p v = Some w' \<Longrightarrow> snap w' = snap w"
  by (auto simp: pte_write_def split: bind_splits)

lemma snap_count_write [snap_dest]: "count_write w mp = Some w' \<Longrightarrow> snap w' = snap w"
  by (auto simp: count_write_def Let_def split: bind_splits)

lemma snap_pte_get_entry [snap_dest]:
  "pte_get_entry c pgn w = Some (v, w') \<Longrightarrow> snap w' = snap w"
  by (auto simp: pte_get_entry_def dest!: snap_dest split: frame_splits)

lemma snap_pte_set_fpn [snap_dest]:
  "pte_set_fpn c pgn fpn w = Some (r, w') \<Longrightarrow> snap w' = snap w"
  by (auto simp: pte_set_fpn_def dest!: snap_dest split: frame_splits)

lemma snap_pte_set_swap [snap_dest]:
  "pte_set_swap c pgn t off w = Some (r, w') \<Longrightarrow> snap w' = snap w"
  by (auto simp: pte_set_swap_def dest!: snap_dest split: frame_splits)

lemma snap_memset_loop [snap_dest]:
  "memset_loop c a n w = Some (r, w') \<Longrightarrow> snap w' = snap w"
proof (induction c a n w rule: memset_loop.induct)
  case (2 c a n w)
  then show ?case by (auto simp: Let_def dest!: snap_dest split: frame_splits)
qed simp

lemma snap_vmap_pgd_memset [snap_dest]:
  "vmap_pgd_memset c a n w = Some (r, w') \<Longrightarrow> snap w' = snap w"
  by (auto simp: vmap_pgd_memset_def dest: snap_dest split: frame_splits)

lemma snap_enlist_pgn_node [snap_dest]: "enlist_pgn_node mp pgn w = Some w' \<Longrightarrow> snap w' = snap w"
  by (auto simp: enlist_pgn_node_def Let_def dest!: snap_dest split: frame_splits)

lemma snap_vmap_loop [snap_dest]:
  "vmap_loop c a i n fs w = Some (e, k, w') \<Longrightarrow> snap w' = snap w"
proof (induction c a i n fs w rule: vmap_loop.induct)
  case (2 c a i n fs w)
  then show ?case by (auto simp: Let_def dest!: snap_dest split: frame_splits)
qed simp

lemma snap_vmap_page_range [snap_dest]:
  "vmap_page_range c a n fs rg w = Some (r, rg', w') \<Longrightarrow> snap w' = snap w"
  by (auto simp: vmap_page_range_def Let_def dest!: snap_dest split: frame_splits)

lemma snap_alloc_loop [snap_dest]: "alloc_loop n fs w = (b, fs', w') \<Longrightarrow> snap w' = snap w"
proof (induction n fs w rule: alloc_loop.induct)
  case (2 n fs w)
  then show ?case by (auto dest!: snap_dest split: frame_splits)
qed simp

lemma snap_put_frames [simp]: "snap (put_frames fs w) = snap w"
  by (induction fs w rule: put_frames.induct) simp_all

lemma snap_alloc_pages_range [snap_dest]:
  "alloc_pages_range c n fs w = (r, fs', w') \<Longrightarrow> snap w' = snap w"
  by (auto simp: alloc_pages_range_def dest!: snap_dest split: frame_splits)

lemma snap_vm_map_ram [snap_dest]:
  "vm_map_ram c a b e n rg w = Some (r, rg', w') \<Longrightarrow> snap w' = snap w"
  by (auto simp: vm_map_ram_def Let_def dest!: snap_dest split: frame_splits)

lemma snap_mm_swap_page [snap_dest]: "mm_swap_page c f g w = Some (r, w') \<Longrightarrow> snap w' = snap w"
  by (auto simp: mm_swap_page_def split: frame_splits)

lemma snap_set_vma_limits [snap_dest]: "set_vma_limits mp i e b w = Some w' \<Longrightarrow> snap w' = snap w"
  by (auto simp: set_vma_limits_def split: bind_splits)

lemma snap_inc_vma_limit [snap_dest]: "inc_vma_limit c v sz w = Some (r, w') \<Longrightarrow> snap w' = snap w"
  by (auto simp: inc_vma_limit_def Let_def dest!: snap_dest split: frame_splits)

lemma snap_sys_memmap [snap_dest]: "sys_memmap k pid regs w = Some (r, regs', w') \<Longrightarrow> snap w' = snap w"
  by (auto simp: sys_memmap_def Let_def dest!: snap_dest split: frame_splits)

lemma snap_do_syscall [snap_dest]:
  "do_syscall k pid nr regs w = Some (r, regs', w') \<Longrightarrow> snap w' = snap w"
  by (auto simp: do_syscall_def dest: snap_dest split: option.splits sys_entry.splits)

lemma snap_libsyscall [snap_dest]: "libsyscall c nr x y z w = Some (r, w') \<Longrightarrow> snap w' = snap w"
  by (auto simp: libsyscall_def dest: snap_dest split: bind_splits)

section \<open>User memory\<close>

lemma snap_enlist_vm_freerg_list [snap_dest]:
  "enlist_vm_freerg_list mp rg w = Some (r, w') \<Longrightarrow> snap w' = snap w"
  by (auto simp: enlist_vm_freerg_list_def split: frame_splits)

lemma snap_get_free_vmrg_area [snap_dest]:
  "get_free_vmrg_area c v sz rg w = Some (r, rg', w') \<Longrightarrow> snap w' = snap w"
  by (auto simp: get_free_vmrg_area_def Let_def split: frame_splits)

lemma snap_set_symrg [snap_dest]: "set_symrg mp i a b w = Some w' \<Longrightarrow> snap w' = snap w"
  by (auto simp: set_symrg_def split: bind_splits)

lemma snap_vm_alloc [snap_dest]:
  "vm_alloc c v rg sz a w = Some (r, a', w') \<Longrightarrow> snap w' = snap w"
  by (auto simp: vm_alloc_def Let_def dest!: snap_dest split: frame_splits)

lemma snap_vm_free [snap_dest]: "vm_free c v rg w = Some (r, w') \<Longrightarrow> snap w' = snap w"
  by (auto simp: vm_free_def Let_def dest!: snap_dest split: frame_splits)

lemma snap_find_victim_page [snap_dest]:
  "find_victim_page mp w = Some (r, pg, w') \<Longrightarrow> snap w' = snap w"
  by (auto simp: find_victim_page_def split: frame_splits)

lemma snap_get_target_frame [snap_dest]:
  "get_target_frame c w = Some (t, w') \<Longrightarrow> snap w' = snap w"
  by (auto simp: get_target_frame_def Let_def dest!: snap_dest split: frame_splits)

lemma snap_swap_in_page [snap_dest]: "swap_in_page pte f w = Some w' \<Longrightarrow> snap w' = snap w"
  by (auto simp: swap_in_page_def Let_def split: frame_splits)

lemma snap_pg_getpage [snap_dest]:
  "pg_getpage pgn f c w = Some (r, f', w') \<Longrightarrow> snap w' = snap w"
  by (auto simp: pg_getpage_def dest!: snap_dest split: frame_splits)

lemma snap_pg_getval [snap_dest]: "pg_getval a d c w = Some (r, d', w') \<Longrightarrow> snap w' = snap w"
  by (auto simp: pg_getval_def dest!: snap_dest split: frame_splits)

lemma snap_pg_setval [snap_dest]: "pg_setval a v c w = Some (r, w') \<Longrightarrow> snap w' = snap w"
  by (auto simp: pg_setval_def dest!: snap_dest split: frame_splits)

lemma snap_vm_read [snap_dest]: "vm_read c v rg off d w = Some (r, d', w') \<Longrightarrow> snap w' = snap w"
  by (auto simp: vm_read_def dest!: snap_dest split: frame_splits)

lemma snap_vm_write [snap_dest]: "vm_write c v rg off x w = Some (r, w') \<Longrightarrow> snap w' = snap w"
  by (auto simp: vm_write_def dest!: snap_dest split: frame_splits)

section \<open>Kernel memory\<close>

lemma snap_kmalloc_loop [snap_dest]:
  "kmalloc_loop c a i n w = Some (r, w') \<Longrightarrow> snap w' = snap w"
proof (induction c a i n w rule: kmalloc_loop.induct)
  case (2 c a i n w)
  then show ?case by (auto simp: Let_def dest!: snap_dest split: frame_splits)
qed simp

lemma snap_kmalloc [snap_dest]: "kmalloc c v rg sz a w = Some (r, a', w') \<Longrightarrow> snap w' = snap w"
  by (auto simp: kmalloc_def Let_def dest!: snap_dest split: frame_splits)

lemma snap_libkmem_malloc [snap_dest]: "libkmem_malloc c sz rg w = Some (r, w') \<Longrightarrow> snap w' = snap w"
  by (auto simp: libkmem_malloc_def dest!: snap_dest split: frame_splits)

lemma snap_set_kcpool [snap_dest]: "set_kcpool mp i p w = Some w' \<Longrightarrow> snap w' = snap w"
  by (auto simp: set_kcpool_def split: bind_splits)

lemma snap_ensure_kcpooltbl [snap_dest]: "ensure_kcpooltbl mp w = Some (b, w') \<Longrightarrow> snap w' = snap w"
  by (auto simp: ensure_kcpooltbl_def Let_def dest!: snap_dest split: frame_splits)

lemma snap_libkmem_cache_pool_create [snap_dest]:
  "libkmem_cache_pool_create c sz al i w = Some (r, w') \<Longrightarrow> snap w' = snap w"
  by (auto simp: libkmem_cache_pool_create_def dest!: snap_dest split: frame_splits)

lemma snap_kmem_cache_alloc [snap_dest]:
  "kmem_cache_alloc c v rg i a w = Some (r, a', w') \<Longrightarrow> snap w' = snap w"
  by (auto simp: kmem_cache_alloc_def Let_def dest!: snap_dest split: frame_splits)

lemma snap_libkmem_cache_alloc [snap_dest]:
  "libkmem_cache_alloc c i rg w = Some (r, w') \<Longrightarrow> snap w' = snap w"
  by (auto simp: libkmem_cache_alloc_def dest!: snap_dest split: frame_splits)

lemma snap_kernel_phyaddr [snap_dest]: "kernel_phyaddr c a w = Some (r, w') \<Longrightarrow> snap w' = snap w"
  by (auto simp: kernel_phyaddr_def dest!: snap_dest split: frame_splits)

lemma snap_read_kernel_mem [snap_dest]:
  "read_kernel_mem c v rg off d w = Some (r, d', w') \<Longrightarrow> snap w' = snap w"
  by (auto simp: read_kernel_mem_def dest!: snap_dest split: frame_splits)

lemma snap_write_kernel_mem [snap_dest]:
  "write_kernel_mem c v rg off x w = Some (r, w') \<Longrightarrow> snap w' = snap w"
  by (auto simp: write_kernel_mem_def dest!: snap_dest split: frame_splits)

lemma snap_read_user_mem [snap_dest]:
  "read_user_mem c v rg off d w = Some (r, d', w') \<Longrightarrow> snap w' = snap w"
  by (auto simp: read_user_mem_def dest!: snap_dest split: frame_splits)

lemma snap_write_user_mem [snap_dest]:
  "write_user_mem c v rg off x w = Some (r, w') \<Longrightarrow> snap w' = snap w"
  by (auto simp: write_user_mem_def dest!: snap_dest split: frame_splits)

lemma snap_copy_loop [snap_dest]: "copy_loop c s d off i n w = Some (r, w') \<Longrightarrow> snap w' = snap w"
proof (induction c s d off i n w rule: copy_loop.induct)
  case (2 c s d off i n w)
  then show ?case by (auto dest!: snap_dest split: frame_splits)
qed simp

lemma snap_copies [snap_dest]:
  "libkmem_copy_from_user c s d off n w = Some (r, w') \<Longrightarrow> snap w' = snap w"
  "libkmem_copy_to_user c s d off n w = Some (r, w') \<Longrightarrow> snap w' = snap w"
  by (auto simp: libkmem_copy_from_user_def libkmem_copy_to_user_def dest!: snap_dest split: frame_splits)

section \<open>Instructions\<close>

text \<open>An instruction, once fetched, changes the control block of its process in the registers only,
  and no other control block.\<close>

definition pcb_kept :: "pcb_t \<Rightarrow> pcb_t \<Rightarrow> bool" where
  "pcb_kept c c' \<longleftrightarrow> (\<exists>rs. c' = c\<lparr>p_regs := rs\<rparr> \<and> length rs = length (p_regs c))"

definition step_kept :: "pcb_ptr \<Rightarrow> world \<Rightarrow> world \<Rightarrow> bool" where
  "step_kept p w w' \<longleftrightarrow>
     (\<exists>c c'. w_pcbs w p = Some c \<and> w_pcbs w' = (w_pcbs w)(p \<mapsto> c') \<and> pcb_kept c c')
     \<and> k_mm (w_os w') = k_mm (w_os w) \<and> k_proc_table (w_os w') = k_proc_table (w_os w)
     \<and> dom (w_mms w') = dom (w_mms w)"

lemma pcb_kept_refl [simp]: "pcb_kept c c"
  unfolding pcb_kept_def by (rule exI [of _ "p_regs c"]) simp

lemma pcb_kept_regs: "length rs = length (p_regs c) \<Longrightarrow> pcb_kept c (c\<lparr>p_regs := rs\<rparr>)"
  unfolding pcb_kept_def by (rule exI [of _ rs]) simp

lemma pcb_kept_trans: "pcb_kept a b \<Longrightarrow> pcb_kept b c \<Longrightarrow> pcb_kept a c"
  unfolding pcb_kept_def by fastforce

lemma step_kept_snap: "snap w' = snap w \<Longrightarrow> w_pcbs w p = Some c \<Longrightarrow> step_kept p w w'"
  unfolding step_kept_def snap_def by (auto intro!: exI [of _ c] simp: map_upd_triv)

lemma step_kept_trans:
  assumes "step_kept p w1 w2" and "step_kept p w2 w3"
  shows "step_kept p w1 w3"
proof -
  obtain c c' where 1: "w_pcbs w1 p = Some c" "w_pcbs w2 = (w_pcbs w1)(p \<mapsto> c')" "pcb_kept c c'"
    using assms(1) unfolding step_kept_def by blast
  obtain d where 2: "w_pcbs w3 = (w_pcbs w2)(p \<mapsto> d)" "pcb_kept c' d"
    using assms(2) 1(2) unfolding step_kept_def by auto
  have "pcb_kept c d" using pcb_kept_trans 1(3) 2(2) .
  then show ?thesis using assms 1 2(1) unfolding step_kept_def by auto
qed

lemma step_kept_set_reg: "set_reg p i v w = Some w' \<Longrightarrow> step_kept p w w'"
  unfolding step_kept_def by (auto simp: set_reg_def pcb_kept_regs split: bind_splits)

lemma step_kept_liballoc: "liballoc p sz i w = Some (r, w') \<Longrightarrow> step_kept p w w'"
  by (auto simp: liballoc_def split: frame_splits
      intro: step_kept_snap snap_vm_alloc step_kept_trans [OF step_kept_snap step_kept_set_reg])

lemma step_kept_libfree: "libfree p i w = Some (r, w') \<Longrightarrow> step_kept p w w'"
  by (auto simp: libfree_def split: frame_splits
      intro: step_kept_snap snap_vm_free step_kept_trans [OF step_kept_snap step_kept_set_reg])

lemma step_kept_libread: "libread j p s off w = Some (r, d, w') \<Longrightarrow> step_kept p w w'"
  by (auto simp: libread_def split: frame_splits intro: step_kept_snap snap_vm_read)

lemma step_kept_libwrite: "libwrite p x d off w = Some (r, w') \<Longrightarrow> step_kept p w w'"
  by (auto simp: libwrite_def split: frame_splits intro: step_kept_snap snap_vm_write)

lemma step_kept_exec:
  assumes "w_pcbs w p = Some c" and "exec_inst ins p c w = Some (r, w')"
  shows "step_kept p w w'"
proof (cases "opcode ins")
  case READ
  then show ?thesis
    using assms(2) by (auto simp: exec_inst_def split: bind_splits dest: step_kept_libread)
qed (use assms step_kept_liballoc step_kept_libfree step_kept_libwrite in
    \<open>auto simp: exec_inst_def intro: step_kept_snap dest: snap_dest\<close>)

text \<open>What one call of \<open>run\<close> does to the control blocks: the program counter advances by one
  unless the program has ended, and registers may change.\<close>

definition fetched :: "pcb_t \<Rightarrow> pcb_t" where
  "fetched c = (if unat (p_pc c) < length (p_code c) then c\<lparr>p_pc := p_pc c + 1\<rparr> else c)"

lemma fetched_sel [simp]:
  "p_krnl (fetched c) = p_krnl c" "p_prio (fetched c) = p_prio c" "p_code (fetched c) = p_code c"
  "p_regs (fetched c) = p_regs c" "p_mm (fetched c) = p_mm c" "p_pid (fetched c) = p_pid c"
  by (simp_all add: fetched_def)

lemma run_effect:
  assumes run: "run p w = Some (r, w')"
  obtains c c' where "w_pcbs w p = Some c" and "w_pcbs w' = (w_pcbs w)(p \<mapsto> c')" and "pcb_kept (fetched c) c'"
proof -
  obtain c where c: "w_pcbs w p = Some c" using run by (cases "w_pcbs w p") (auto simp: run_def)
  define w1 where "w1 = w\<lparr>w_pcbs := (w_pcbs w)(p \<mapsto> fetched c)\<rparr>"
  show thesis
  proof (cases "unat (p_pc c) \<ge> length (p_code c)")
    case True
    then have "w' = w" "fetched c = c" using run c by (auto simp: run_def fetched_def)
    then show ?thesis using c by (intro that [of c c]) (auto simp: fun_upd_triv)
  next
    case False
    then have "exec_inst (p_code c ! unat (p_pc c)) p (fetched c) w1 = Some (r, w')"
      using run c by (simp add: run_def Let_def w1_def fetched_def)
    then have "step_kept p w1 w'" by (rule step_kept_exec [rotated]) (simp add: w1_def)
    then show ?thesis using c that unfolding step_kept_def w1_def by auto
  qed
qed

end
