(* ===== verification/Queue.thy ===== *)
theory Queue
  imports Prelude
begin

text \<open>
  The process queues of \<open>src/src/queue.c\<close>: a fixed array of \<open>MAX_QUEUE_SIZE\<close>
  process pointers and the number of slots in use.  The interface the scheduler relies on is
  the locale \<open>bounded_fifo\<close>; its interpretation \<open>pq\<close> shows that the array code
  implements it.
\<close>

section \<open>Data and operations\<close>

definition MAX_QUEUE_SIZE :: nat where
  "MAX_QUEUE_SIZE = 50"

record queue_t =
  q_proc :: "pcb_ptr list"
  q_size :: nat

text \<open>\<open>int empty(struct queue_t *q)\<close>; the argument is \<open>None\<close> for a null pointer.\<close>

definition empty_queue :: "queue_t option \<Rightarrow> bool" where
  "empty_queue q = (case q of None \<Rightarrow> True | Some q \<Rightarrow> q_size q = 0)"

definition enqueue :: "queue_t \<Rightarrow> pcb_ptr \<Rightarrow> queue_t" where
  "enqueue q p =
     (if q_size q < MAX_QUEUE_SIZE
      then q\<lparr>q_proc := (q_proc q)[q_size q := p], q_size := q_size q + 1\<rparr>
      else q)"

text \<open>The shifting loop \<open>for (j = i; j < q->size - 1; j++) q->proc[j] = q->proc[j + 1]\<close>
  that both removals share.\<close>

function shift_left :: "pcb_ptr list \<Rightarrow> nat \<Rightarrow> nat \<Rightarrow> pcb_ptr list" where
  "shift_left a j n = (if j + 1 < n then shift_left (a[j := a ! (j + 1)]) (j + 1) n else a)"
  by pat_completeness auto
termination
  by (relation "measure (\<lambda>(a, j, n). n - j)") auto

declare shift_left.simps [simp del]

definition dequeue :: "queue_t \<Rightarrow> pcb_ptr option \<times> queue_t" where
  "dequeue q =
     (if empty_queue (Some q) then (None, q)
      else (Some (q_proc q ! 0),
            q\<lparr>q_proc := shift_left (q_proc q) 0 (q_size q), q_size := q_size q - 1\<rparr>))"

text \<open>The search loop of \<open>purgequeue\<close>: the index at which it breaks, if it does.\<close>

function find_proc :: "pcb_ptr list \<Rightarrow> pcb_ptr \<Rightarrow> nat \<Rightarrow> nat \<Rightarrow> nat option" where
  "find_proc a p i n =
     (if i < n then (if a ! i = p then Some i else find_proc a p (i + 1) n) else None)"
  by pat_completeness auto
termination
  by (relation "measure (\<lambda>(a, p, i, n). n - i)") auto

declare find_proc.simps [simp del]

definition purgequeue :: "queue_t \<Rightarrow> pcb_ptr option \<Rightarrow> pcb_ptr option \<times> queue_t" where
  "purgequeue q p =
     (case p of
        None \<Rightarrow> (None, q)
      | Some p \<Rightarrow>
          if empty_queue (Some q) then (None, q)
          else (case find_proc (q_proc q) p 0 (q_size q) of
                  None \<Rightarrow> (None, q)
                | Some i \<Rightarrow>
                    (Some (q_proc q ! i),
                     q\<lparr>q_proc := shift_left (q_proc q) i (q_size q), q_size := q_size q - 1\<rparr>)))"

text \<open>The queue a client sees, and the invariant of the representation.\<close>

definition queue_items :: "queue_t \<Rightarrow> pcb_ptr list" where
  "queue_items q = take (q_size q) (q_proc q)"

definition queue_ok :: "queue_t \<Rightarrow> bool" where
  "queue_ok q \<longleftrightarrow> length (q_proc q) = MAX_QUEUE_SIZE \<and> q_size q \<le> MAX_QUEUE_SIZE"

section \<open>The interface\<close>

text \<open>A first-in first-out queue of bounded capacity: inserting into a full queue drops the
  element, removal takes the oldest element, purging the first occurrence of one.\<close>

locale bounded_fifo =
  fixes invar :: "'q \<Rightarrow> bool"
    and items :: "'q \<Rightarrow> 'a list"
    and cap :: nat
    and is_empty :: "'q \<Rightarrow> bool"
    and enq :: "'q \<Rightarrow> 'a \<Rightarrow> 'q"
    and deq :: "'q \<Rightarrow> 'a option \<times> 'q"
    and purge :: "'q \<Rightarrow> 'a \<Rightarrow> 'a option \<times> 'q"
  assumes within_cap: "invar q \<Longrightarrow> length (items q) \<le> cap"
    and is_empty_items: "invar q \<Longrightarrow> is_empty q \<longleftrightarrow> items q = []"
    and items_enq: "invar q \<Longrightarrow>
      items (enq q x) = (if length (items q) < cap then items q @ [x] else items q)"
    and deq_nil: "invar q \<Longrightarrow> items q = [] \<Longrightarrow> deq q = (None, q)"
    and deq_cons: "invar q \<Longrightarrow> items q = y # ys \<Longrightarrow>
      fst (deq q) = Some y \<and> items (snd (deq q)) = ys"
    and purge_absent: "invar q \<Longrightarrow> x \<notin> set (items q) \<Longrightarrow> purge q x = (None, q)"
    and purge_present: "invar q \<Longrightarrow> x \<in> set (items q) \<Longrightarrow>
      fst (purge q x) = Some x \<and> items (snd (purge q x)) = remove1 x (items q)"
    and invar_enq: "invar q \<Longrightarrow> invar (enq q x)"
    and invar_deq: "invar q \<Longrightarrow> invar (snd (deq q))"
    and invar_purge: "invar q \<Longrightarrow> invar (snd (purge q x))"
begin

text \<open>Nothing is lost or invented below the capacity.\<close>

lemma mset_enq: "invar q \<Longrightarrow> length (items q) < cap \<Longrightarrow> mset (items (enq q x)) = add_mset x (mset (items q))"
  by (simp add: items_enq)

lemma enq_full: "invar q \<Longrightarrow> cap \<le> length (items q) \<Longrightarrow> items (enq q x) = items q"
  by (simp add: items_enq)

lemma items_deq: "invar q \<Longrightarrow> items (snd (deq q)) = tl (items q)"
  by (cases "items q") (auto simp: deq_nil dest: deq_cons)

lemma fst_deq: "invar q \<Longrightarrow> fst (deq q) = (case items q of [] \<Rightarrow> None | y # ys \<Rightarrow> Some y)"
  by (cases "items q") (auto simp: deq_nil dest: deq_cons)

lemma mset_deq:
  assumes "invar q" and "fst (deq q) = Some x"
  shows "add_mset x (mset (items (snd (deq q)))) = mset (items q)"
  using assms by (cases "items q") (auto simp: fst_deq items_deq)

lemma items_purge: "invar q \<Longrightarrow> items (snd (purge q x)) = remove1 x (items q)"
  by (cases "x \<in> set (items q)") (auto simp: purge_absent remove1_idem dest: purge_present)

lemma fst_purge: "invar q \<Longrightarrow> fst (purge q x) = (if x \<in> set (items q) then Some x else None)"
  by (auto simp: purge_absent dest: purge_present)

text \<open>Inserting a sequence and then draining the queue returns the sequence in order.\<close>

fun enq_all :: "'q \<Rightarrow> 'a list \<Rightarrow> 'q" where
  "enq_all q [] = q"
| "enq_all q (x # xs) = enq_all (enq q x) xs"

lemma invar_enq_all: "invar q \<Longrightarrow> invar (enq_all q xs)"
  by (induction xs arbitrary: q) (auto simp: invar_enq)

lemma items_enq_all: "invar q \<Longrightarrow> items (enq_all q xs) = take cap (items q @ xs)"
proof (induction xs arbitrary: q)
  case Nil
  then show ?case by (simp add: within_cap)
next
  case (Cons x xs)
  have IH: "items (enq_all (enq q x) xs) = take cap (items (enq q x) @ xs)"
    by (rule Cons.IH) (rule invar_enq [OF Cons.prems])
  show ?case
  proof (cases "length (items q) < cap")
    case True
    then show ?thesis using IH Cons.prems by (simp add: items_enq)
  next
    case False
    then have "length (items q) = cap" using within_cap [OF Cons.prems] by simp
    then show ?thesis using IH Cons.prems by (simp add: items_enq)
  qed
qed

end

section \<open>The array code implements the interface\<close>

lemma length_shift_left [simp]: "length (shift_left a j n) = length a"
proof (induction a j n rule: shift_left.induct)
  case (1 a j n)
  then show ?case by (subst shift_left.simps) auto
qed

lemma nth_shift_left:
  "n \<le> length a \<Longrightarrow> k < length a \<Longrightarrow>
   shift_left a j n ! k = (if j \<le> k \<and> k + 1 < n then a ! (k + 1) else a ! k)"
proof (induction a j n rule: shift_left.induct)
  case (1 a j n)
  show ?case
  proof (cases "j + 1 < n")
    case True
    have "shift_left (a[j := a ! (j + 1)]) (j + 1) n ! k
        = (if j + 1 \<le> k \<and> k + 1 < n then a[j := a ! (j + 1)] ! (k + 1) else a[j := a ! (j + 1)] ! k)"
      using "1.IH" [OF True] "1.prems" by simp
    then show ?thesis
      using True "1.prems" by (subst shift_left.simps) (auto simp: nth_list_update)
  next
    case False
    then show ?thesis by (subst shift_left.simps) auto
  qed
qed

lemma take_shift_left:
  assumes "j < n" and "n \<le> length a"
  shows "take (n - 1) (shift_left a j n) = take j a @ drop (j + 1) (take n a)"
  using assms by (intro nth_equalityI) (auto simp: nth_shift_left nth_append)

lemma find_proc_None:
  "find_proc a p i n = None \<longleftrightarrow> (\<forall>k. i \<le> k \<and> k < n \<longrightarrow> a ! k \<noteq> p)"
proof (induction a p i n rule: find_proc.induct)
  case (1 a p i n)
  have split: "(i \<le> k \<and> k < n) = (i < n \<and> (k = i \<or> i + 1 \<le> k \<and> k < n))" for k
    by auto
  show ?case
    using "1.IH" by (subst find_proc.simps) (auto simp: split simp del: One_nat_def)
qed

lemma find_proc_Some:
  "find_proc a p i n = Some k \<Longrightarrow> i \<le> k \<and> k < n \<and> a ! k = p \<and> (\<forall>m. i \<le> m \<and> m < k \<longrightarrow> a ! m \<noteq> p)"
proof (induction a p i n rule: find_proc.induct)
  case (1 a p i n)
  from "1.prems" show ?case
    using "1.IH" by (subst (asm) find_proc.simps)
      (auto split: if_splits, metis Suc_leI le_neq_implies_less)
qed

lemma queue_ok_enqueue: "queue_ok q \<Longrightarrow> queue_ok (enqueue q p)"
  by (auto simp: queue_ok_def enqueue_def)

lemma queue_ok_dequeue: "queue_ok q \<Longrightarrow> queue_ok (snd (dequeue q))"
  by (auto simp: queue_ok_def dequeue_def)

lemma queue_ok_purgequeue: "queue_ok q \<Longrightarrow> queue_ok (snd (purgequeue q p))"
  by (auto simp: queue_ok_def purgequeue_def split: option.splits)

lemma queue_items_enqueue:
  "queue_ok q \<Longrightarrow> queue_items (enqueue q p) =
     (if length (queue_items q) < MAX_QUEUE_SIZE then queue_items q @ [p] else queue_items q)"
  by (auto simp: queue_ok_def queue_items_def enqueue_def take_list_update_last)

lemma queue_items_dequeue:
  assumes "queue_ok q" and "queue_items q = y # ys"
  shows "fst (dequeue q) = Some y \<and> queue_items (snd (dequeue q)) = ys"
proof -
  have pos: "0 < q_size q" and len: "q_size q \<le> length (q_proc q)"
    using assms by (auto simp: queue_ok_def queue_items_def intro: gr0I)
  have "y = q_proc q ! 0"
    using assms(2) pos len by (metis nth_Cons_0 nth_take queue_items_def)
  moreover have "take (q_size q - 1) (shift_left (q_proc q) 0 (q_size q)) = ys"
    using assms(2) take_shift_left [OF pos len]
    by (simp add: queue_items_def drop_Suc)
  ultimately show ?thesis
    using pos by (simp add: dequeue_def empty_queue_def queue_items_def)
qed

lemma purgequeue_hit:
  assumes "queue_ok q" and "p \<in> set (queue_items q)"
  shows "fst (purgequeue q (Some p)) = Some p
    \<and> queue_items (snd (purgequeue q (Some p))) = remove1 p (queue_items q)"
proof -
  have len: "q_size q \<le> length (q_proc q)"
    using assms by (auto simp: queue_ok_def)
  obtain k where k: "find_proc (q_proc q) p 0 (q_size q) = Some k"
    using assms(2) len
    by (cases "find_proc (q_proc q) p 0 (q_size q)")
      (auto simp: queue_items_def find_proc_None in_set_conv_nth)
  note kp = find_proc_Some [OF k]
  have split: "queue_items q = take k (q_proc q) @ p # drop (k + 1) (queue_items q)"
    using kp len id_take_nth_drop [of k "queue_items q"]
    by (simp add: queue_items_def min_def)
  have "p \<notin> set (take k (q_proc q))"
    using kp len by (auto simp: in_set_conv_nth)
  then have "remove1 p (queue_items q) = take k (q_proc q) @ drop (k + 1) (queue_items q)"
    using split by (metis remove1.simps(2) remove1_append)
  then show ?thesis
    using k kp len take_shift_left [of k "q_size q" "q_proc q"]
    by (auto simp: purgequeue_def empty_queue_def queue_items_def)
qed

lemma purgequeue_miss:
  assumes "queue_ok q" and "p \<notin> set (queue_items q)"
  shows "purgequeue q (Some p) = (None, q)"
proof -
  have "find_proc (q_proc q) p 0 (q_size q) = None"
    using assms by (auto simp: find_proc_None queue_items_def queue_ok_def in_set_conv_nth)
  then show ?thesis by (simp add: purgequeue_def)
qed

interpretation pq: bounded_fifo queue_ok queue_items MAX_QUEUE_SIZE
  "\<lambda>q. empty_queue (Some q)" enqueue dequeue "\<lambda>q p. purgequeue q (Some p)"
proof (unfold_locales, goal_cases)
  case (1 q) then show ?case by (auto simp: queue_ok_def queue_items_def)
next
  case (2 q) then show ?case
    by (auto simp: queue_ok_def queue_items_def empty_queue_def MAX_QUEUE_SIZE_def)
next
  case (3 q x) then show ?case by (rule queue_items_enqueue)
next
  case (4 q) then show ?case
    by (auto simp: queue_ok_def queue_items_def dequeue_def empty_queue_def MAX_QUEUE_SIZE_def)
next
  case (5 q y ys) then show ?case by (rule queue_items_dequeue)
next
  case (6 q x) then show ?case by (rule purgequeue_miss)
next
  case (7 q x) then show ?case by (rule purgequeue_hit)
next
  case (8 q x) then show ?case by (rule queue_ok_enqueue)
next
  case (9 q) then show ?case by (rule queue_ok_dequeue)
next
  case (10 q x) then show ?case by (rule queue_ok_purgequeue)
qed

section \<open>Properties\<close>

text \<open>Enqueuing a sequence of processes leaves the queue with its old contents followed by the
  sequence, in order, up to the capacity of fifty; what does not fit is dropped silently, and the
  array and the size stay consistent.\<close>

theorem enqueue_sequence:
  assumes "queue_ok q"
  shows "queue_items (foldl enqueue q ps) = take MAX_QUEUE_SIZE (queue_items q @ ps)
    \<and> queue_ok (foldl enqueue q ps)"
proof -
  have "foldl enqueue q ps = pq.enq_all q ps" for q
    by (induction ps arbitrary: q) simp_all
  then show ?thesis using pq.items_enq_all [OF assms] pq.invar_enq_all [OF assms] by simp
qed

theorem enqueue_sequence_witness:
  "queue_items (foldl enqueue \<lparr>q_proc = replicate 50 0, q_size = 0\<rparr> [7, 8, 9]) = [7, 8, 9]"
  using enqueue_sequence [of "\<lparr>q_proc = replicate 50 0, q_size = 0\<rparr>" "[7, 8, 9]"]
  by (simp add: queue_ok_def queue_items_def MAX_QUEUE_SIZE_def)

text \<open>\<open>dequeue\<close> returns the oldest process and leaves the others in order; on an empty
  queue it returns null and changes nothing.\<close>

theorem dequeue_oldest:
  assumes "queue_ok q" and "dequeue q = (p, q')"
  shows "queue_ok q' \<and> (case queue_items q of [] \<Rightarrow> p = None \<and> q' = q
    | x # xs \<Rightarrow> p = Some x \<and> queue_items q' = xs)"
  using pq.deq_nil [OF assms(1)] pq.deq_cons [OF assms(1)] pq.invar_deq [OF assms(1)] assms(2)
  by (auto split: list.splits)

theorem dequeue_oldest_witness:
  "queue_items (snd (dequeue \<lparr>q_proc = [4, 5, 6] @ replicate 47 0, q_size = 3\<rparr>)) = [5, 6]"
  using dequeue_oldest [of "\<lparr>q_proc = [4, 5, 6] @ replicate 47 0, q_size = 3\<rparr>"
      "fst (dequeue \<lparr>q_proc = [4, 5, 6] @ replicate 47 0, q_size = 3\<rparr>)"
      "snd (dequeue \<lparr>q_proc = [4, 5, 6] @ replicate 47 0, q_size = 3\<rparr>)"]
  by (simp add: queue_ok_def queue_items_def MAX_QUEUE_SIZE_def)

text \<open>\<open>purgequeue\<close> removes the first occurrence of the process, closes the gap and
  returns the process; a process that is not in the queue gives null and no change.\<close>

theorem purgequeue_first:
  assumes "queue_ok q" and "purgequeue q (Some x) = (p, q')"
  shows "queue_ok q' \<and> queue_items q' = remove1 x (queue_items q)
    \<and> p = (if x \<in> set (queue_items q) then Some x else None)"
  using pq.items_purge [OF assms(1), of x] pq.fst_purge [OF assms(1), of x]
    pq.invar_purge [OF assms(1), of x] assms(2) by simp

theorem purgequeue_first_witness:
  "queue_items (snd (purgequeue \<lparr>q_proc = [4, 5, 6] @ replicate 47 0, q_size = 3\<rparr> (Some 5))) = [4, 6]"
  using purgequeue_first [of "\<lparr>q_proc = [4, 5, 6] @ replicate 47 0, q_size = 3\<rparr>" 5
      "fst (purgequeue \<lparr>q_proc = [4, 5, 6] @ replicate 47 0, q_size = 3\<rparr> (Some 5))"
      "snd (purgequeue \<lparr>q_proc = [4, 5, 6] @ replicate 47 0, q_size = 3\<rparr> (Some 5))"]
  by (simp add: queue_ok_def queue_items_def MAX_QUEUE_SIZE_def)

end
