(* ===== verification/Sched.thy ===== *)
theory Sched
  imports Queue Kernel
begin

text \<open>
  The multi-level queue scheduler of \<open>src/src/sched.c\<close> (the \<open>MLQ_SCHED\<close>
  configuration).  Each of the \<open>MAX_PRIO\<close> levels has a queue and a number of slots; the
  dispatcher takes the head of the first level that has both a process and a slot left, and gives
  every level its full quota again when no level qualifies.  The bodies of the operations run under
  one lock, so each is one step.
\<close>

section \<open>Data and operations\<close>

definition MAX_PRIO :: nat where [macro_defs]: "MAX_PRIO = 140"

record sched_t =
  s_ready_queue :: queue_t
  s_run_queue :: queue_t
  s_running_list :: queue_t
  s_mlq :: "queue_t list"
  s_slot :: "int list"

text \<open>The loop of \<open>queue_empty\<close> at level \<open>prio\<close>: whether it returns from inside.\<close>

function mlq_nonempty :: "sched_t \<Rightarrow> nat \<Rightarrow> bool" where
  "mlq_nonempty s prio =
     (if prio < MAX_PRIO
      then (if \<not> empty_queue (Some (s_mlq s ! prio)) then True else mlq_nonempty s (prio + 1))
      else False)"
  by pat_completeness auto
termination
  by (relation "measure (\<lambda>(s, prio). MAX_PRIO - prio)") auto

declare mlq_nonempty.simps [simp del]

definition queue_empty :: "sched_t \<Rightarrow> int" where
  "queue_empty s =
     (if mlq_nonempty s 0 then - 1
      else if empty_queue (Some (s_ready_queue s)) \<and> empty_queue (Some (s_run_queue s)) then 1 else 0)"

text \<open>The quota every level starts with: \<open>slot[i] = MAX_PRIO - i\<close>.\<close>

definition slot_quota :: "int list" where
  "slot_quota = map (\<lambda>i. int MAX_PRIO - int i) [0..<MAX_PRIO]"

definition init_scheduler :: "sched_t \<Rightarrow> sched_t" where
  "init_scheduler s =
     s\<lparr>s_mlq := map (\<lambda>q. q\<lparr>q_size := 0\<rparr>) (s_mlq s), s_slot := slot_quota,
       s_ready_queue := (s_ready_queue s)\<lparr>q_size := 0\<rparr>,
       s_run_queue := (s_run_queue s)\<lparr>q_size := 0\<rparr>,
       s_running_list := (s_running_list s)\<lparr>q_size := 0\<rparr>\<rparr>"

text \<open>The dispatch loop: the level at which it breaks, if it does.\<close>

function mlq_scan :: "sched_t \<Rightarrow> nat \<Rightarrow> nat option" where
  "mlq_scan s prio =
     (if prio < MAX_PRIO
      then (if \<not> empty_queue (Some (s_mlq s ! prio)) \<and> s_slot s ! prio > 0 then Some prio
            else mlq_scan s (prio + 1))
      else None)"
  by pat_completeness auto
termination
  by (relation "measure (\<lambda>(s, prio). MAX_PRIO - prio)") auto

declare mlq_scan.simps [simp del]

definition get_mlq_proc :: "sched_t \<Rightarrow> pcb_ptr option \<times> sched_t" where
  "get_mlq_proc s =
     (let (proc, s) =
            (case mlq_scan s 0 of
               None \<Rightarrow> (None, s)
             | Some prio \<Rightarrow>
                 (case dequeue (s_mlq s ! prio) of
                    (p, q) \<Rightarrow> (p, s\<lparr>s_mlq := (s_mlq s)[prio := q],
                                   s_slot := (s_slot s)[prio := s_slot s ! prio - 1]\<rparr>)));
          s = (case proc of
                 None \<Rightarrow> s
               | Some p \<Rightarrow> s\<lparr>s_running_list := enqueue (s_running_list s) p\<rparr>);
          s = (if proc = None \<and> queue_empty s = - 1 then s\<lparr>s_slot := slot_quota\<rparr> else s)
      in (proc, s))"

text \<open>The three assignments through \<open>proc->krnl\<close>.\<close>

definition publish_queues :: "pcb_t \<Rightarrow> world \<Rightarrow> world option" where
  "publish_queues c w =
     (if p_krnl c
      then Some (w\<lparr>w_os := (w_os w)\<lparr>k_ready_queue := True, k_mlq_ready_queue := True,
                                     k_running_list := True\<rparr>\<rparr>)
      else None)"

text \<open>\<open>enqueue(&mlq_ready_queue[prio], proc)\<close>.\<close>

definition mlq_enqueue :: "nat \<Rightarrow> pcb_ptr \<Rightarrow> sched_t \<Rightarrow> sched_t option" where
  "mlq_enqueue prio p s = do {
     q \<leftarrow> arr_get (s_mlq s) prio;
     Some (s\<lparr>s_mlq := (s_mlq s)[prio := enqueue q p]\<rparr>)
   }"

definition put_mlq_proc :: "pcb_ptr \<Rightarrow> world \<Rightarrow> sched_t \<Rightarrow> (world \<times> sched_t) option" where
  "put_mlq_proc proc w s = do {
     c \<leftarrow> w_pcbs w proc;
     w \<leftarrow> publish_queues c w;
     let s = s\<lparr>s_running_list := snd (purgequeue (s_running_list s) (Some proc))\<rparr>;
     s \<leftarrow> mlq_enqueue (unat (p_prio c)) proc s;
     Some (w, s)
   }"

definition add_mlq_proc :: "pcb_ptr \<Rightarrow> world \<Rightarrow> sched_t \<Rightarrow> (world \<times> sched_t) option" where
  "add_mlq_proc proc w s = do {
     c \<leftarrow> w_pcbs w proc;
     w \<leftarrow> publish_queues c w;
     s \<leftarrow> mlq_enqueue (unat (p_prio c)) proc s;
     Some (w, s)
   }"

definition get_proc :: "sched_t \<Rightarrow> pcb_ptr option \<times> sched_t" where
  "get_proc = get_mlq_proc"

definition put_proc :: "pcb_ptr \<Rightarrow> world \<Rightarrow> sched_t \<Rightarrow> (world \<times> sched_t) option" where
  "put_proc = put_mlq_proc"

definition add_proc :: "pcb_ptr \<Rightarrow> world \<Rightarrow> sched_t \<Rightarrow> (world \<times> sched_t) option" where
  "add_proc = add_mlq_proc"

section \<open>Invariant and view\<close>

definition ready :: "sched_t \<Rightarrow> nat \<Rightarrow> pcb_ptr list" where
  "ready s k = (if k < MAX_PRIO then queue_items (s_mlq s ! k) else [])"

definition running :: "sched_t \<Rightarrow> pcb_ptr list" where
  "running s = queue_items (s_running_list s)"

definition slots_ok :: "sched_t \<Rightarrow> bool" where
  "slots_ok s \<longleftrightarrow> length (s_slot s) = MAX_PRIO
     \<and> (\<forall>k < MAX_PRIO. 0 \<le> s_slot s ! k \<and> s_slot s ! k \<le> int MAX_PRIO - int k)"

definition sched_ok :: "sched_t \<Rightarrow> bool" where
  "sched_ok s \<longleftrightarrow> queue_ok (s_ready_queue s) \<and> queue_ok (s_run_queue s) \<and> queue_ok (s_running_list s)
     \<and> length (s_mlq s) = MAX_PRIO \<and> list_all queue_ok (s_mlq s) \<and> slots_ok s"

lemma sched_okD:
  assumes "sched_ok s"
  shows "queue_ok (s_running_list s)" and "length (s_mlq s) = MAX_PRIO"
    and "k < MAX_PRIO \<Longrightarrow> queue_ok (s_mlq s ! k)" and "slots_ok s"
    and "length (s_slot s) = MAX_PRIO"
    and "k < MAX_PRIO \<Longrightarrow> 0 \<le> s_slot s ! k" and "k < MAX_PRIO \<Longrightarrow> s_slot s ! k \<le> int MAX_PRIO - int k"
  using assms by (auto simp: sched_ok_def slots_ok_def list_all_length)

lemma level_empty:
  "sched_ok s \<Longrightarrow> k < MAX_PRIO \<Longrightarrow> empty_queue (Some (s_mlq s ! k)) \<longleftrightarrow> ready s k = []"
  using pq.is_empty_items sched_okD(3) by (simp add: ready_def)

lemma slot_quota_nth [simp]: "k < MAX_PRIO \<Longrightarrow> slot_quota ! k = int MAX_PRIO - int k"
  by (simp add: slot_quota_def)

lemma length_slot_quota [simp]: "length slot_quota = MAX_PRIO"
  by (simp add: slot_quota_def)

lemma slots_ok_quota: "slots_ok (s\<lparr>s_slot := slot_quota\<rparr>)"
  by (auto simp: slots_ok_def)

lemma mlq_nonempty_iff:
  "mlq_nonempty s k \<longleftrightarrow> (\<exists>j. k \<le> j \<and> j < MAX_PRIO \<and> \<not> empty_queue (Some (s_mlq s ! j)))"
proof (induction s k rule: mlq_nonempty.induct)
  case (1 s k)
  show ?case
    using "1.IH" by (subst mlq_nonempty.simps, subst ex_from_Suc) (auto split: if_splits)
qed

definition qualifies :: "sched_t \<Rightarrow> nat \<Rightarrow> bool" where
  "qualifies s k \<longleftrightarrow> k < MAX_PRIO \<and> \<not> empty_queue (Some (s_mlq s ! k)) \<and> s_slot s ! k > 0"

lemma mlq_scan_Some:
  "mlq_scan s k = Some j \<Longrightarrow> k \<le> j \<and> qualifies s j \<and> (\<forall>i. k \<le> i \<and> i < j \<longrightarrow> \<not> qualifies s i)"
proof (induction s k rule: mlq_scan.induct)
  case (1 s k)
  show ?case
  proof (cases "qualifies s k")
    case True
    then show ?thesis using "1.prems" by (subst (asm) mlq_scan.simps) (auto simp: qualifies_def)
  next
    case False
    then have rec: "k < MAX_PRIO" "mlq_scan s (k + 1) = Some j"
      using "1.prems" by (subst (asm) mlq_scan.simps, auto simp: qualifies_def split: if_splits)+
    have "k + 1 \<le> j \<and> qualifies s j \<and> (\<forall>i. k + 1 \<le> i \<and> i < j \<longrightarrow> \<not> qualifies s i)"
      using "1.IH" rec False by (auto simp: qualifies_def)
    then show ?thesis using False by (metis Suc_eq_plus1 Suc_leI Suc_leD le_neq_implies_less)
  qed
qed

lemma mlq_scan_None: "mlq_scan s k = None \<longleftrightarrow> (\<forall>i. k \<le> i \<longrightarrow> \<not> qualifies s i)"
proof (induction s k rule: mlq_scan.induct)
  case (1 s k)
  show ?case
  proof (cases "k < MAX_PRIO \<and> \<not> qualifies s k")
    case True
    then have "mlq_scan s k = mlq_scan s (Suc k)"
      by (subst mlq_scan.simps) (auto simp: qualifies_def)
    moreover have "mlq_scan s (Suc k) = None \<longleftrightarrow> (\<forall>i. Suc k \<le> i \<longrightarrow> \<not> qualifies s i)"
      using "1.IH" True by (auto simp: qualifies_def)
    ultimately show ?thesis using True by (simp add: all_from_Suc [of k])
  next
    case False
    then show ?thesis by (subst mlq_scan.simps) (auto simp: qualifies_def)
  qed
qed

lemma qualifies_iff:
  "sched_ok s \<Longrightarrow> qualifies s k \<longleftrightarrow> k < MAX_PRIO \<and> ready s k \<noteq> [] \<and> 0 < s_slot s ! k"
  by (auto simp: qualifies_def level_empty)

lemma qualifies_not:
  "sched_ok s \<Longrightarrow> k < MAX_PRIO \<Longrightarrow> \<not> qualifies s k \<longleftrightarrow> ready s k = [] \<or> s_slot s ! k = 0"
  using sched_okD(6) [of s k] by (auto simp: qualifies_iff)

lemma queue_empty_iff: "sched_ok s \<Longrightarrow> queue_empty s = - 1 \<longleftrightarrow> (\<exists>k. ready s k \<noteq> [])"
proof -
  assume ok: "sched_ok s"
  have "mlq_nonempty s 0 \<longleftrightarrow> (\<exists>k < MAX_PRIO. ready s k \<noteq> [])"
    by (auto simp: mlq_nonempty_iff level_empty [OF ok])
  also have "\<dots> \<longleftrightarrow> (\<exists>k. ready s k \<noteq> [])" by (metis ready_def)
  finally show ?thesis by (simp add: queue_empty_def)
qed

lemma sched_ok_refill: "sched_ok s \<Longrightarrow> sched_ok (s\<lparr>s_slot := slot_quota\<rparr>)"
  by (simp add: sched_ok_def slots_ok_quota)

text \<open>The three outcomes of the dispatcher.\<close>

lemma get_mlq_cases:
  assumes ok: "sched_ok s"
  obtains (dispatch) k p ps where "k < MAX_PRIO" and "ready s k = p # ps" and "0 < s_slot s ! k"
      and "\<forall>i < k. ready s i = [] \<or> s_slot s ! i = 0"
      and "fst (get_mlq_proc s) = Some p"
      and "ready (snd (get_mlq_proc s)) = (ready s)(k := ps)"
      and "s_slot (snd (get_mlq_proc s)) = (s_slot s)[k := s_slot s ! k - 1]"
      and "running (snd (get_mlq_proc s)) =
        (if length (running s) < MAX_QUEUE_SIZE then running s @ [p] else running s)"
      and "sched_ok (snd (get_mlq_proc s))"
  | (refill) k where "k < MAX_PRIO" and "ready s k \<noteq> []"
      and "\<forall>i < MAX_PRIO. ready s i = [] \<or> s_slot s ! i = 0"
      and "get_mlq_proc s = (None, s\<lparr>s_slot := slot_quota\<rparr>)"
  | (idle) "\<forall>k. ready s k = []" and "get_mlq_proc s = (None, s)"
proof (cases "mlq_scan s 0")
  case None
  then have none: "\<not> qualifies s i" for i by (simp add: mlq_scan_None)
  have get: "get_mlq_proc s = (None, if queue_empty s = - 1 then s\<lparr>s_slot := slot_quota\<rparr> else s)"
    by (simp add: get_mlq_proc_def None)
  show ?thesis
  proof (cases "\<exists>k. ready s k \<noteq> []")
    case True
    then obtain k where k: "k < MAX_PRIO" "ready s k \<noteq> []" by (metis ready_def)
    have "\<forall>i < MAX_PRIO. ready s i = [] \<or> s_slot s ! i = 0"
      using none qualifies_not [OF ok] by blast
    moreover have "queue_empty s = - 1" using True ok by (simp add: queue_empty_iff)
    ultimately show ?thesis using get by (intro refill [OF k]) simp_all
  next
    case False
    then show ?thesis using idle get ok by (simp add: queue_empty_iff)
  qed
next
  case (Some k)
  from mlq_scan_Some [OF this] have q: "qualifies s k" and before: "\<forall>i < k. \<not> qualifies s i" by auto
  have k: "k < MAX_PRIO" "0 < s_slot s ! k" "ready s k \<noteq> []" using q ok by (auto simp: qualifies_iff)
  then obtain p ps where pps: "ready s k = p # ps" by (cases "ready s k") auto
  have qk: "queue_ok (s_mlq s ! k)" using ok k by (simp add: sched_okD)
  have dq: "fst (dequeue (s_mlq s ! k)) = Some p" "queue_items (snd (dequeue (s_mlq s ! k))) = ps"
    using pq.deq_cons [OF qk, of p ps] pps k(1) by (simp_all add: ready_def)
  define s' where "s' = s\<lparr>s_mlq := (s_mlq s)[k := snd (dequeue (s_mlq s ! k))],
    s_slot := (s_slot s)[k := s_slot s ! k - 1],
    s_running_list := enqueue (s_running_list s) p\<rparr>"
  have get: "get_mlq_proc s = (Some p, s')"
    using dq(1) by (cases "dequeue (s_mlq s ! k)") (simp add: get_mlq_proc_def Some s'_def)
  note okD = sched_okD [OF ok]
  have "s_slot s ! k - 1 \<le> int MAX_PRIO - int k" using okD(7) [OF k(1)] by simp
  then have "sched_ok s'"
    using ok k okD pq.invar_deq [OF qk] pq.invar_enq [OF okD(1), of p]
    by (auto simp: sched_ok_def slots_ok_def s'_def list_all_length nth_list_update)
  moreover have "ready s' = (ready s)(k := ps)"
    using dq(2) k(1) okD(2) by (auto simp: ready_def s'_def fun_eq_iff nth_list_update)
  moreover have "running s' = (if length (running s) < MAX_QUEUE_SIZE then running s @ [p] else running s)"
    using pq.items_enq [OF okD(1)] by (simp add: running_def s'_def)
  moreover have "\<forall>i < k. ready s i = [] \<or> s_slot s ! i = 0"
    using before ok k(1) by (auto simp: qualifies_not)
  ultimately show ?thesis
    using dispatch [OF k(1) pps k(2)] get by (simp add: s'_def)
qed

lemma sched_ok_get:
  assumes "sched_ok s"
  shows "sched_ok (snd (get_mlq_proc s))"
  using assms by (cases rule: get_mlq_cases [OF assms]) (simp_all add: sched_ok_refill)

text \<open>Putting a process back and adding a new one.\<close>

lemma mlq_enqueue_spec:
  assumes "sched_ok s" and "prio < MAX_PRIO"
  obtains s' where "mlq_enqueue prio p s = Some s'" and "sched_ok s'"
    and "ready s' = (ready s)(prio :=
      if length (ready s prio) < MAX_QUEUE_SIZE then ready s prio @ [p] else ready s prio)"
    and "running s' = running s" and "s_slot s' = s_slot s"
proof -
  note okD = sched_okD [OF assms(1)]
  have q: "queue_ok (s_mlq s ! prio)" using okD(3) assms(2) by simp
  define s' where "s' = s\<lparr>s_mlq := (s_mlq s)[prio := enqueue (s_mlq s ! prio) p]\<rparr>"
  show thesis
  proof (rule that [of s'])
    show "mlq_enqueue prio p s = Some s'"
      using assms(2) okD(2) by (simp add: mlq_enqueue_def s'_def)
    show "sched_ok s'"
      using assms okD pq.invar_enq [OF q]
      by (auto simp: sched_ok_def slots_ok_def s'_def list_all_length nth_list_update)
    show "ready s' = (ready s)(prio :=
        if length (ready s prio) < MAX_QUEUE_SIZE then ready s prio @ [p] else ready s prio)"
      using assms(2) okD(2) pq.items_enq [OF q, of p]
      by (auto simp: ready_def s'_def fun_eq_iff nth_list_update)
  qed (simp_all add: s'_def running_def)
qed

definition sched_pcb :: "world \<Rightarrow> pcb_ptr \<Rightarrow> nat \<Rightarrow> bool" where
  "sched_pcb w p prio \<longleftrightarrow> prio < MAX_PRIO
     \<and> (\<exists>c. w_pcbs w p = Some c \<and> p_krnl c \<and> unat (p_prio c) = prio)"

lemma put_mlq_proc_spec:
  assumes "sched_ok s" and "sched_pcb w p prio"
  obtains w' s' where "put_mlq_proc p w s = Some (w', s')" and "sched_ok s'"
    and "ready s' = (ready s)(prio :=
      if length (ready s prio) < MAX_QUEUE_SIZE then ready s prio @ [p] else ready s prio)"
    and "running s' = remove1 p (running s)" and "s_slot s' = s_slot s"
    and "w_pcbs w' = w_pcbs w" and "w_mms w' = w_mms w"
proof -
  obtain c where c: "w_pcbs w p = Some c" "p_krnl c" "unat (p_prio c) = prio" "prio < MAX_PRIO"
    using assms(2) by (auto simp: sched_pcb_def)
  define t where "t = s\<lparr>s_running_list := snd (purgequeue (s_running_list s) (Some p))\<rparr>"
  have ok: "sched_ok t"
    using assms(1) pq.invar_purge by (auto simp: sched_ok_def slots_ok_def t_def)
  have t: "ready t = ready s" "running t = remove1 p (running s)" "s_slot t = s_slot s"
    using pq.items_purge [OF sched_okD(1) [OF assms(1)]]
    by (simp_all add: t_def ready_def fun_eq_iff running_def)
  show thesis
  proof (rule mlq_enqueue_spec [OF ok c(4), of p])
    fix s'
    assume "mlq_enqueue prio p t = Some s'"
    then have "put_mlq_proc p w s = Some (the (publish_queues c w), s')"
      using c by (simp add: put_mlq_proc_def publish_queues_def flip: t_def)
    moreover assume "sched_ok s'" "ready s' = (ready t)(prio :=
      if length (ready t prio) < MAX_QUEUE_SIZE then ready t prio @ [p] else ready t prio)"
      "running s' = running t" "s_slot s' = s_slot t"
    ultimately show thesis using t c(2) by (intro that [of "the (publish_queues c w)" s']) (simp_all add: publish_queues_def)
  qed
qed

lemma add_mlq_proc_spec:
  assumes "sched_ok s" and "sched_pcb w p prio"
  obtains w' s' where "add_mlq_proc p w s = Some (w', s')" and "sched_ok s'"
    and "ready s' = (ready s)(prio :=
      if length (ready s prio) < MAX_QUEUE_SIZE then ready s prio @ [p] else ready s prio)"
    and "running s' = running s" and "s_slot s' = s_slot s"
    and "w_pcbs w' = w_pcbs w" and "w_mms w' = w_mms w"
proof -
  obtain c where c: "w_pcbs w p = Some c" "p_krnl c" "unat (p_prio c) = prio" "prio < MAX_PRIO"
    using assms(2) by (auto simp: sched_pcb_def)
  show thesis
  proof (rule mlq_enqueue_spec [OF assms(1) c(4), of p])
    fix s'
    assume "mlq_enqueue prio p s = Some s'"
    then have "add_mlq_proc p w s = Some (the (publish_queues c w), s')"
      using c by (simp add: add_mlq_proc_def publish_queues_def)
    moreover assume "sched_ok s'" "ready s' = (ready s)(prio :=
      if length (ready s prio) < MAX_QUEUE_SIZE then ready s prio @ [p] else ready s prio)"
      "running s' = running s" "s_slot s' = s_slot s"
    ultimately show thesis using c(2) by (intro that [of "the (publish_queues c w)" s']) (simp_all add: publish_queues_def)
  qed
qed

section \<open>Sequences of operations\<close>

text \<open>The processors and the loader call the scheduler in some order; the lock makes the calls
  atomic, so an execution is a sequence of operations.  Its result lists what the calls of
  \<open>get_proc\<close> returned.\<close>

datatype sched_op = Get | Put pcb_ptr | Add pcb_ptr

fun sched_run :: "sched_op list \<Rightarrow> world \<Rightarrow> sched_t \<Rightarrow> (pcb_ptr option list \<times> world \<times> sched_t) option" where
  "sched_run [] w s = Some ([], w, s)"
| "sched_run (Get # ops) w s =
     (case get_proc s of
        (p, s) \<Rightarrow> do { (ps, w, s) \<leftarrow> sched_run ops w s; Some (p # ps, w, s) })"
| "sched_run (Put p # ops) w s = do { (w, s) \<leftarrow> put_proc p w s; sched_run ops w s }"
| "sched_run (Add p # ops) w s = do { (w, s) \<leftarrow> add_proc p w s; sched_run ops w s }"

definition op_ok :: "world \<Rightarrow> sched_op \<Rightarrow> bool" where
  "op_ok w op \<longleftrightarrow> (case op of Get \<Rightarrow> True | Put p \<Rightarrow> \<exists>k. sched_pcb w p k | Add p \<Rightarrow> \<exists>k. sched_pcb w p k)"

lemma op_ok_pcbs: "w_pcbs w' = w_pcbs w \<Longrightarrow> op_ok w' = op_ok w"
  by (auto simp: op_ok_def sched_pcb_def fun_eq_iff split: sched_op.split)

text \<open>The number of dispatches the levels above \<open>k\<close> are granted by one refill.\<close>

definition level_quota :: "nat \<Rightarrow> nat" where
  "level_quota k = (\<Sum>i<k. MAX_PRIO - i)"

definition slots_below :: "sched_t \<Rightarrow> nat \<Rightarrow> nat" where
  "slots_below s k = (\<Sum>i<k. nat (s_slot s ! i))"

definition wait_bound :: "sched_t \<Rightarrow> nat \<Rightarrow> nat" where
  "wait_bound s k =
     (if 0 < s_slot s ! k then slots_below s k + 1
      else slots_below s MAX_PRIO + level_quota k + 2)"

lemma slots_below_take:
  assumes "j < k" and "k \<le> MAX_PRIO" and "sched_ok s" and "0 < s_slot s ! j"
    and "s_slot s' = (s_slot s)[j := s_slot s ! j - 1]"
  shows "Suc (slots_below s' k) = slots_below s k"
proof -
  have len: "length (s_slot s) = MAX_PRIO" using assms(3) by (rule sched_okD)
  have other: "(\<Sum>i\<in>{..<k} - {j}. nat (s_slot s' ! i)) = (\<Sum>i\<in>{..<k} - {j}. nat (s_slot s ! i))"
    using assms(5) by (intro sum.cong) auto
  have split: "(\<Sum>i<k. nat (t ! i)) = nat (t ! j) + (\<Sum>i\<in>{..<k} - {j}. nat (t ! i))" for t
    using assms(1) by (subst sum.remove [of _ j]) auto
  have "nat (s_slot s ! j) = Suc (nat (s_slot s' ! j))"
    using assms(1,2,4,5) len by simp
  then show ?thesis
    unfolding slots_below_def split other by simp
qed

lemma slots_below_quota: "k \<le> MAX_PRIO \<Longrightarrow> slots_below (s\<lparr>s_slot := slot_quota\<rparr>) k = level_quota k"
  unfolding slots_below_def level_quota_def by (intro sum.cong) (auto simp: nat_diff_distrib)

lemma wait_bound_le:
  assumes "sched_ok s" and "k < MAX_PRIO"
  shows "wait_bound s k \<le> level_quota MAX_PRIO + level_quota k + 2"
proof -
  have "slots_below s j \<le> level_quota j" if "j \<le> MAX_PRIO" for j
    unfolding slots_below_def level_quota_def
    using that sched_okD(7) [OF assms(1)] by (intro sum_mono) (fastforce simp: nat_le_iff)
  from this [of k] this [of MAX_PRIO] show ?thesis using assms(2) by (simp add: wait_bound_def)
qed

text \<open>A call of the dispatcher serves the head of a level or brings it closer.\<close>

lemma get_progress:
  assumes ok: "sched_ok s" and k: "k < MAX_PRIO" and hd: "ready s k = p # ps"
    and miss: "fst (get_mlq_proc s) \<noteq> Some p"
  shows "(\<exists>ps'. ready (snd (get_mlq_proc s)) k = p # ps')
    \<and> wait_bound (snd (get_mlq_proc s)) k < wait_bound s k"
  using ok
proof (cases rule: get_mlq_cases)
  case (dispatch j p' ps')
  let ?s' = "snd (get_mlq_proc s)"
  have jk: "j \<noteq> k" using dispatch(2,5) hd miss by auto
  have slot: "s_slot ?s' ! k = s_slot s ! k" using dispatch(7) jk by simp
  note dec = slots_below_take [OF _ _ ok dispatch(3) dispatch(7)]
  have "wait_bound ?s' k < wait_bound s k"
  proof (cases "0 < s_slot s ! k")
    case True
    then have "\<not> k < j" using dispatch(4) hd by auto
    then have "j < k" using jk by simp
    then show ?thesis using dec [of k] True k slot by (simp add: wait_bound_def)
  next
    case False
    then show ?thesis using dec [of MAX_PRIO] dispatch(1) slot by (simp add: wait_bound_def)
  qed
  then show "(\<exists>ps'. ready ?s' k = p # ps') \<and> wait_bound ?s' k < wait_bound s k"
    using dispatch(6) jk hd by simp
next
  case (refill j)
  then have "s_slot s ! k = 0" using hd k by auto
  then show ?thesis
    using refill(4) hd k slots_below_quota [of k s] by (simp add: wait_bound_def ready_def)
next
  case idle
  then show ?thesis using hd by simp
qed

lemma wait_bound_slot: "s_slot s' = s_slot s \<Longrightarrow> wait_bound s' k = wait_bound s k"
  by (simp add: wait_bound_def slots_below_def)

text \<open>The other operations keep the heads of all levels and the slots.\<close>

lemma put_add_step:
  assumes ok: "sched_ok s" and op: "op_ok w op" and "op \<noteq> Get"
  shows "\<exists>w1 s1. sched_run (op # ops) w s = sched_run ops w1 s1 \<and> sched_ok s1
    \<and> op_ok w1 = op_ok w \<and> s_slot s1 = s_slot s
    \<and> (\<forall>k p ps. ready s k = p # ps \<longrightarrow> (\<exists>ps'. ready s1 k = p # ps'))"
proof -
  obtain x j where x: "op = Put x \<or> op = Add x" and j: "sched_pcb w x j"
    using op \<open>op \<noteq> Get\<close> by (cases op) (auto simp: op_ok_def)
  obtain w1 s1 where run: "sched_run (op # ops) w s = sched_run ops w1 s1" and ok1: "sched_ok s1"
    and pcbs: "w_pcbs w1 = w_pcbs w" and slot: "s_slot s1 = s_slot s"
    and ready: "ready s1 = (ready s)(j :=
      if length (ready s j) < MAX_QUEUE_SIZE then ready s j @ [x] else ready s j)"
  proof (cases "op = Put x")
    case True
    show ?thesis
      apply (rule put_mlq_proc_spec [OF ok j])
      subgoal for w' s' by (rule that [of w' s']) (simp_all add: True put_proc_def)
      done
  next
    case False
    then have add: "op = Add x" using x by simp
    show ?thesis
      apply (rule add_mlq_proc_spec [OF ok j])
      subgoal for w' s' by (rule that [of w' s']) (simp_all add: add add_proc_def)
      done
  qed
  then show ?thesis using op_ok_pcbs [OF pcbs]
    by (intro exI [of _ w1] exI [of _ s1]) auto
qed

lemma sched_run_total:
  "sched_ok s \<Longrightarrow> list_all (op_ok w) ops \<Longrightarrow>
   \<exists>rs w' s'. sched_run ops w s = Some (rs, w', s') \<and> sched_ok s'"
proof (induction ops arbitrary: w s)
  case Nil
  then show ?case by simp
next
  case (Cons op ops)
  show ?case
  proof (cases "op = Get")
    case True
    then show ?thesis
      using Cons.IH [OF sched_ok_get [OF Cons.prems(1)], of w] Cons.prems(2)
      by (cases "get_mlq_proc s") (auto simp: get_proc_def)
  next
    case False
    have "op_ok w op" using Cons.prems(2) by simp
    from put_add_step [OF Cons.prems(1) this False, of ops]
    obtain w1 s1 where 1: "sched_run (op # ops) w s = sched_run ops w1 s1" "sched_ok s1" "op_ok w1 = op_ok w"
      by blast
    then show ?thesis using Cons.IH [OF 1(2), of w1] Cons.prems(2) by simp
  qed
qed

lemma sched_run_serves:
  "sched_ok s \<Longrightarrow> list_all (op_ok w) ops \<Longrightarrow> k < MAX_PRIO \<Longrightarrow> ready s k = p # ps \<Longrightarrow>
   wait_bound s k \<le> length (filter (\<lambda>op. op = Get) ops) \<Longrightarrow>
   sched_run ops w s = Some (rs, w', s') \<Longrightarrow> Some p \<in> set rs"
proof (induction ops arbitrary: w s ps rs)
  case Nil
  then show ?case by (simp add: wait_bound_def split: if_splits)
next
  case (Cons op ops)
  show ?case
  proof (cases "op = Get")
    case True
    obtain q s1 where g: "get_mlq_proc s = (q, s1)" by (cases "get_mlq_proc s")
    obtain rs1 where rs1: "sched_run ops w s1 = Some (rs1, w', s')" "rs = q # rs1"
      using Cons.prems(6) True g by (auto simp: get_proc_def split: bind_splits)
    show ?thesis
    proof (cases "q = Some p")
      case True
      then show ?thesis using rs1 by simp
    next
      case False
      then obtain ps' where pr: "ready s1 k = p # ps'" "wait_bound s1 k < wait_bound s k"
        using get_progress [OF Cons.prems(1,3,4)] g by auto
      have "sched_ok s1" using sched_ok_get [OF Cons.prems(1)] g by simp
      then have "Some p \<in> set rs1"
        using Cons.IH [OF _ _ Cons.prems(3) pr(1) _ rs1(1)] pr(2) Cons.prems(2,5) True by simp
      then show ?thesis using rs1(2) by simp
    qed
  next
    case False
    have "op_ok w op" using Cons.prems(2) by simp
    from put_add_step [OF Cons.prems(1) this False, of ops]
    obtain w1 s1 ps' where 1: "sched_run (op # ops) w s = sched_run ops w1 s1" "sched_ok s1"
        "op_ok w1 = op_ok w" "s_slot s1 = s_slot s" "ready s1 k = p # ps'"
      using Cons.prems(4) by blast
    show ?thesis
    proof (rule Cons.IH [OF 1(2) _ Cons.prems(3) 1(5)])
      show "list_all (op_ok w1) ops" using 1(3) Cons.prems(2) by simp
      show "wait_bound s1 k \<le> length (filter (\<lambda>op. op = Get) ops)"
        using Cons.prems(5) False wait_bound_slot [OF 1(4)] by simp
      show "sched_run ops w1 s1 = Some (rs, w', s')" using 1(1) Cons.prems(6) by simp
    qed
  qed
qed

section \<open>Properties\<close>

text \<open>An initialised scheduler with one process at level five, for the examples below.\<close>

definition ex_queue :: "pcb_ptr list \<Rightarrow> queue_t" where
  "ex_queue ps = \<lparr>q_proc = ps @ replicate (MAX_QUEUE_SIZE - length ps) 0, q_size = length ps\<rparr>"

definition ex_sched :: sched_t where
  "ex_sched = \<lparr>s_ready_queue = ex_queue [], s_run_queue = ex_queue [], s_running_list = ex_queue [],
     s_mlq = (replicate MAX_PRIO (ex_queue []))[5 := ex_queue [42]], s_slot = slot_quota\<rparr>"

definition ex_world :: world where
  "ex_world = \<lparr>w_mms = (\<lambda>_. None),
     w_pcbs = (\<lambda>_. None)(43 \<mapsto> \<lparr>p_pid = 2, p_priority = 0, p_code = [], p_regs = [], p_pc = 0, p_prio = 9,
       p_krnl = True, p_bp = 0, p_mm = None\<rparr>),
     w_os = \<lparr>k_ready_queue = False, k_mlq_ready_queue = False, k_running_list = False,
       k_proc_table = [], k_mm = None, k_mram = None, k_active_mswp = None\<rparr>,
     w_hostmem = 0\<rparr>"

lemma ex_sched_ok: "sched_ok ex_sched" "ready ex_sched 5 = [42]" "k \<noteq> 5 \<Longrightarrow> ready ex_sched k = []"
  "s_slot ex_sched = slot_quota" "sched_pcb ex_world 43 9"
  by (auto simp: ex_sched_def sched_ok_def queue_ok_def list_all_length nth_list_update ready_def
      queue_items_def slots_ok_def ex_queue_def MAX_QUEUE_SIZE_def MAX_PRIO_def sched_pcb_def ex_world_def)

text \<open>C35: The dispatcher takes the head of the first level that has a waiting process and a slot
  left: every level above is empty or has used its slots up.  The level loses that process and one
  slot, nothing else changes in the ready queues, and the invariant is kept.\<close>

theorem get_proc_by_priority:
  assumes "sched_ok s" and "get_proc s = (Some p, s')"
  shows "\<exists>k ps. k < MAX_PRIO \<and> ready s k = p # ps \<and> 0 < s_slot s ! k
    \<and> (\<forall>i < k. ready s i = [] \<or> s_slot s ! i = 0)
    \<and> ready s' = (ready s)(k := ps) \<and> s_slot s' = (s_slot s)[k := s_slot s ! k - 1] \<and> sched_ok s'"
  using assms(1)
proof (cases rule: get_mlq_cases)
  case (dispatch k q qs)
  then show ?thesis
    using assms(2) by (intro exI [of _ k] exI [of _ qs]) (simp add: get_proc_def)
qed (use assms(2) in \<open>simp_all add: get_proc_def\<close>)

theorem get_proc_by_priority_witness:
  "\<exists>k ps. k < MAX_PRIO \<and> ready ex_sched k = 42 # ps \<and> 0 < s_slot ex_sched ! k"
proof -
  have "fst (get_proc ex_sched) = Some 42"
    using ex_sched_ok(1)
  proof (cases rule: get_mlq_cases)
    case (dispatch k p ps)
    then show ?thesis using ex_sched_ok(2,3) by (cases "k = 5") (simp_all add: get_proc_def)
  next
    case (refill k)
    then show ?thesis
      using refill(3) [rule_format, of 5] ex_sched_ok(2,4) by (simp add: MAX_PRIO_def)
  next
    case idle
    then show ?thesis using ex_sched_ok(2) by simp
  qed
  then have "get_proc ex_sched = (Some 42, snd (get_proc ex_sched))" by (cases "get_proc ex_sched") simp
  from get_proc_by_priority [OF ex_sched_ok(1) this] show ?thesis by blast
qed

text \<open>When the dispatcher returns null although a process is waiting, it has refilled the slots,
  and the next call dispatches the head of the highest non-empty level.\<close>

theorem refill_then_dispatch:
  assumes "sched_ok s" and "get_proc s = (None, s')" and "ready s k = p # ps"
    and "\<forall>i < k. ready s i = []"
  shows "s' = s\<lparr>s_slot := slot_quota\<rparr> \<and> fst (get_proc s') = Some p"
proof -
  have k: "k < MAX_PRIO" using assms(3) by (simp add: ready_def split: if_splits)
  have s': "s' = s\<lparr>s_slot := slot_quota\<rparr>"
    using assms(1) by (cases rule: get_mlq_cases) (use assms(2,3) in \<open>auto simp: get_proc_def\<close>)
  have r: "ready s' = ready s" using s' by (simp add: ready_def fun_eq_iff)
  have ok: "sched_ok s'" using sched_ok_refill [OF assms(1)] s' by simp
  have "fst (get_mlq_proc s') = Some p"
    using ok
  proof (cases rule: get_mlq_cases)
    case (dispatch j q qs)
    have "j = k"
    proof (rule ccontr)
      assume "j \<noteq> k"
      then consider "j < k" | "k < j" by linarith
      then show False
        using dispatch(2,4) assms(3,4) r s' k by cases auto
    qed
    then show ?thesis using dispatch(2,5) assms(3) r by simp
  next
    case (refill j)
    then show ?thesis using refill(3) [rule_format, OF k] assms(3) r s' k by simp
  next
    case idle
    then show ?thesis using assms(3) r by simp
  qed
  then show ?thesis using s' by (simp add: get_proc_def)
qed

theorem refill_then_dispatch_witness:
  "fst (get_proc (ex_sched\<lparr>s_slot := slot_quota\<rparr>)) = Some 42"
proof -
  let ?s = "ex_sched\<lparr>s_slot := replicate MAX_PRIO 0\<rparr>"
  have ok: "sched_ok ?s" using ex_sched_ok(1) by (auto simp: sched_ok_def slots_ok_def)
  have r: "ready ?s = ready ex_sched" by (simp add: ready_def fun_eq_iff)
  have "get_proc ?s = (None, ?s\<lparr>s_slot := slot_quota\<rparr>)"
    using ok
  proof (cases rule: get_mlq_cases)
    case (dispatch k p ps)
    then show ?thesis by simp
  next
    case (refill k)
    then show ?thesis by (simp add: get_proc_def)
  next
    case idle
    then show ?thesis using ex_sched_ok(2) r by simp
  qed
  from refill_then_dispatch [OF ok this, of 5 42 "[]"] show ?thesis
    using r ex_sched_ok(2,3) by simp
qed

text \<open>C9: No starvation: whatever processes are put back or added in between, the process at the
  head of level \<open>k\<close> is dispatched after at most one full round of all levels, one refill and one
  round of the levels above it.\<close>

theorem no_starvation:
  assumes "sched_ok s" and "list_all (op_ok w) ops" and "ready s k = p # ps"
    and "level_quota MAX_PRIO + level_quota k + 2 \<le> length (filter (\<lambda>op. op = Get) ops)"
  shows "\<exists>rs w' s'. sched_run ops w s = Some (rs, w', s') \<and> sched_ok s' \<and> Some p \<in> set rs"
proof -
  have k: "k < MAX_PRIO" using assms(3) by (simp add: ready_def split: if_splits)
  obtain rs w' s' where run: "sched_run ops w s = Some (rs, w', s')" "sched_ok s'"
    using sched_run_total [OF assms(1,2)] by blast
  have "wait_bound s k \<le> length (filter (\<lambda>op. op = Get) ops)"
    using wait_bound_le [OF assms(1) k] assms(4) by simp
  from sched_run_serves [OF assms(1,2) k assms(3) this run(1)] run show ?thesis by blast
qed

theorem no_starvation_witness:
  "\<exists>rs w' s'. sched_run (Add 43 # replicate 20000 Get) ex_world ex_sched = Some (rs, w', s')
     \<and> sched_ok s' \<and> Some 42 \<in> set rs"
proof (rule no_starvation [OF ex_sched_ok(1) _ ex_sched_ok(2)])
  show "list_all (op_ok ex_world) (Add 43 # replicate 20000 Get)"
    using ex_sched_ok(5) by (auto simp: op_ok_def list_all_iff)
  have "level_quota MAX_PRIO = 9870" unfolding level_quota_def MAX_PRIO_def by code_simp
  moreover have "level_quota 5 = 690" unfolding level_quota_def MAX_PRIO_def by code_simp
  ultimately show "level_quota MAX_PRIO + level_quota 5 + 2
      \<le> length (filter (\<lambda>op. op = Get) (Add 43 # replicate 20000 Get))"
    by (simp add: filter_replicate)
qed

text \<open>Putting a dispatched process back appends it to the queue of its priority and takes it off
  the running list; a process whose priority is not below \<open>MAX_PRIO\<close> makes the code index past
  the queue array.\<close>

theorem put_proc_level:
  assumes "sched_ok s" and "w_pcbs w p = Some c" and "p_krnl c"
  shows "if unat (p_prio c) < MAX_PRIO
    then \<exists>w' s'. put_proc p w s = Some (w', s') \<and> sched_ok s' \<and> running s' = remove1 p (running s)
      \<and> ready s' = (ready s)(unat (p_prio c) :=
          take MAX_QUEUE_SIZE (ready s (unat (p_prio c)) @ [p]))
    else put_proc p w s = None"
proof (cases "unat (p_prio c) < MAX_PRIO")
  case True
  let ?k = "unat (p_prio c)"
  have pcb: "sched_pcb w p ?k" using True assms by (simp add: sched_pcb_def)
  have "length (ready s ?k) \<le> MAX_QUEUE_SIZE"
    using pq.within_cap sched_okD(3) [OF assms(1)] by (simp add: ready_def)
  then have "(if length (ready s ?k) < MAX_QUEUE_SIZE then ready s ?k @ [p] else ready s ?k)
      = take MAX_QUEUE_SIZE (ready s ?k @ [p])"
    by auto
  then show ?thesis
    using True by (rule_tac put_mlq_proc_spec [OF assms(1) pcb]) (auto simp: put_proc_def)
next
  case False
  then show ?thesis
    using assms sched_okD(2) [OF assms(1)]
    by (simp add: put_proc_def put_mlq_proc_def publish_queues_def mlq_enqueue_def arr_get_out)
qed

theorem put_proc_level_witness:
  "\<exists>w' s'. put_proc 43 ex_world ex_sched = Some (w', s') \<and> ready s' 9 = [43]"
  using put_proc_level [OF ex_sched_ok(1), of ex_world 43 "the (w_pcbs ex_world 43)"] ex_sched_ok(3) [of 9]
  by (auto simp: ex_world_def MAX_PRIO_def MAX_QUEUE_SIZE_def)

end
