(* ===== verification/Loader.thy ===== *)
theory Loader
  imports Kernel
begin

text \<open>
  The program loader of \<open>src/src/loader.c\<close>: the opcode table, the text format of a program and
  the construction of a process control block.  A file is its list of characters; the conversions
  of \<open>fscanf\<close> and \<open>sscanf\<close> the loader uses are modelled on it.  Memory that the C
  code leaves uninitialised is a parameter.
\<close>

section \<open>Scanning\<close>

definition isspace :: "char \<Rightarrow> bool" where
  "isspace ch \<longleftrightarrow> of_char ch = (32 :: int) \<or> (9 :: int) \<le> of_char ch \<and> of_char ch \<le> (13 :: int)"

definition isdigit :: "char \<Rightarrow> bool" where
  "isdigit ch \<longleftrightarrow> (48 :: int) \<le> of_char ch \<and> of_char ch \<le> (57 :: int)"

definition skip_ws :: "string \<Rightarrow> string" where
  "skip_ws = dropWhile isspace"

text \<open>\<open>%s\<close>: \<open>None\<close> at the end of the file.\<close>

definition scan_word :: "string \<Rightarrow> string option \<times> string" where
  "scan_word f =
     (let f = skip_ws f; wd = takeWhile (\<lambda>ch. \<not> isspace ch) f
      in (if wd = [] then None else Some wd, drop (length wd) f))"

definition digits_val :: "string \<Rightarrow> int" where
  "digits_val ds = foldl (\<lambda>v d. 10 * v + (of_char d - 48)) 0 ds"

text \<open>The value \<open>strtoul\<close> gives to a sign and a sequence of digits.\<close>

definition strtoul :: "bool \<Rightarrow> string \<Rightarrow> arg_t" where
  "strtoul neg ds =
     (let v = digits_val ds in if v \<ge> 2 ^ 64 then - 1 else if neg then - of_int v else of_int v)"

text \<open>\<open>%lu\<close>: \<open>None\<close> when no digit follows.\<close>

definition scan_ulong :: "string \<Rightarrow> arg_t option \<times> string" where
  "scan_ulong f =
     (let f = skip_ws f;
          neg = (f \<noteq> [] \<and> hd f = CHR ''-'');
          f = (if f \<noteq> [] \<and> (hd f = CHR ''-'' \<or> hd f = CHR ''+'') then tl f else f);
          ds = takeWhile isdigit f
      in (if ds = [] then None else Some (strtoul neg ds), drop (length ds) f))"

text \<open>A format of \<open>k\<close> numbers: the ones converted before the first failure.\<close>

fun scan_ulongs :: "nat \<Rightarrow> string \<Rightarrow> arg_t list \<times> string" where
  "scan_ulongs 0 f = ([], f)"
| "scan_ulongs (Suc k) f =
     (case scan_ulong f of
        (None, f) \<Rightarrow> ([], f)
      | (Some v, f) \<Rightarrow> (case scan_ulongs k f of (vs, f) \<Rightarrow> (v # vs, f)))"

text \<open>The same followed by the directive \<open>\n\<close>, which skips white space.\<close>

definition scan_args_nl :: "nat \<Rightarrow> string \<Rightarrow> arg_t list \<times> string" where
  "scan_args_nl k f =
     (case scan_ulongs k f of (vs, f) \<Rightarrow> (vs, if length vs = k then skip_ws f else f))"

text \<open>\<open>fgets\<close> into a buffer of \<open>n\<close> characters: \<open>None\<close> at the end of
  the file.\<close>

fun take_line :: "nat \<Rightarrow> string \<Rightarrow> string \<times> string" where
  "take_line 0 f = ([], f)"
| "take_line (Suc n) [] = ([], [])"
| "take_line (Suc n) (ch # f) =
     (if ch = CHR 0x0A then ([ch], f) else (case take_line n f of (l, r) \<Rightarrow> (ch # l, r)))"

definition fgets :: "nat \<Rightarrow> string \<Rightarrow> string option \<times> string" where
  "fgets n f = (if f = [] then (None, f) else (case take_line (n - 1) f of (l, r) \<Rightarrow> (Some l, r)))"

section \<open>Instructions\<close>

text \<open>\<open>get_opcode\<close>; an unknown name ends the program with \<open>exit(1)\<close>.\<close>

definition get_opcode :: "string \<Rightarrow> ins_opcode_t option" where
  "get_opcode opt =
     (if opt = ''calc'' then Some CALC
      else if opt = ''alloc'' then Some ALLOC
      else if opt = ''free'' then Some FREE
      else if opt = ''read'' then Some READ
      else if opt = ''write'' then Some WRITE
      else if opt = ''kmalloc'' then Some KMALLOC
      else if opt = ''kmem_cache_create'' then Some KMEM_CACHE_CREATE
      else if opt = ''kmem_cache_alloc'' then Some KMEM_CACHE_ALLOC
      else if opt = ''copy_from_user'' then Some COPY_FROM_USER
      else if opt = ''copy_to_user'' then Some COPY_TO_USER
      else if opt = ''syscall'' then Some SYSCALL
      else None)"

definition store_args :: "arg_t list \<Rightarrow> inst_t \<Rightarrow> inst_t" where
  "store_args vs ins =
     (let ins = (if 0 < length vs then ins\<lparr>arg_0 := vs ! 0\<rparr> else ins);
          ins = (if 1 < length vs then ins\<lparr>arg_1 := vs ! 1\<rparr> else ins);
          ins = (if 2 < length vs then ins\<lparr>arg_2 := vs ! 2\<rparr> else ins)
      in if 3 < length vs then ins\<lparr>arg_3 := vs ! 3\<rparr> else ins)"

text \<open>The operands of one instruction, by opcode.  \<open>buf\<close> is the line buffer, \<open>None\<close>
  while it is uninitialised.\<close>

definition read_operands ::
  "inst_t \<Rightarrow> string option \<Rightarrow> string \<Rightarrow> (inst_t \<times> string option \<times> string) option" where
  "read_operands ins buf f =
     (case opcode ins of
        CALC \<Rightarrow> Some (ins, buf, f)
      | KMEM_CACHE_ALLOC \<Rightarrow> (case scan_args_nl 2 f of (vs, f) \<Rightarrow> Some (store_args vs ins, buf, f))
      | KMALLOC \<Rightarrow> (case scan_args_nl 2 f of (vs, f) \<Rightarrow> Some (store_args vs ins, buf, f))
      | ALLOC \<Rightarrow> (case scan_args_nl 2 f of (vs, f) \<Rightarrow> Some (store_args vs ins, buf, f))
      | FREE \<Rightarrow> (case scan_args_nl 1 f of (vs, f) \<Rightarrow> Some (store_args vs ins, buf, f))
      | KMEM_CACHE_CREATE \<Rightarrow> (case scan_args_nl 3 f of (vs, f) \<Rightarrow> Some (store_args vs ins, buf, f))
      | READ \<Rightarrow> (case scan_args_nl 3 f of (vs, f) \<Rightarrow> Some (store_args vs ins, buf, f))
      | WRITE \<Rightarrow> (case scan_args_nl 3 f of (vs, f) \<Rightarrow> Some (store_args vs ins, buf, f))
      | _ \<Rightarrow> (case fgets 200 f of
                (l, f) \<Rightarrow>
                  let buf = (case l of None \<Rightarrow> buf | Some l \<Rightarrow> Some l)
                  in do { b \<leftarrow> buf; Some (store_args (fst (scan_ulongs 4 b)) ins, buf, f) }))"

text \<open>The size of the buffer the opcode is read into: a word of ten characters or more overflows
  it.\<close>

definition OPCODE_BUF :: nat where
  "OPCODE_BUF = 10"

text \<open>The reading loop.  \<open>text\<close> is the instruction array as \<open>malloc\<close> returned it, of
  which the part still to be filled is passed; \<open>prev\<close> is the content of the opcode buffer.
  The outer option is undefined behaviour, the inner one \<open>exit(1)\<close>.\<close>

fun read_text ::
  "inst_t list \<Rightarrow> string option \<Rightarrow> string option \<Rightarrow> string \<Rightarrow> inst_t list option option" where
  "read_text [] prev buf f = Some (Some [])"
| "read_text (t # text) prev buf f =
     (case scan_word f of
        (wd, f) \<Rightarrow>
          if wd \<noteq> None \<and> OPCODE_BUF \<le> length (the wd) then None
          else do {
            opt \<leftarrow> (if wd = None then prev else wd);
            (case get_opcode opt of
               None \<Rightarrow> Some None
             | Some opc \<Rightarrow> do {
                 (ins, buf, f) \<leftarrow> read_operands (t\<lparr>opcode := opc\<rparr>) buf f;
                 rest \<leftarrow> read_text text (Some opt) buf f;
                 Some (map_option (Cons ins) rest)
               })
          })"

section \<open>Loading a program\<close>

definition PAGE_SIZE :: u32 where [macro_defs]: "PAGE_SIZE = 0x400"

text \<open>\<open>load\<close> on the contents of the file, \<open>None\<close> if it cannot be opened.
  \<open>raw\<close> is the block the control block is built in, \<open>raw_text\<close> the instruction array
  for a program of a given size.  The result is the control block and the next free identifier, or
  \<open>exit(1)\<close>.  The path of the program is kept for display only and is left out.\<close>

definition load ::
  "pcb_t \<Rightarrow> (nat \<Rightarrow> inst_t list) \<Rightarrow> string option \<Rightarrow> u32 \<Rightarrow> (pcb_t \<times> u32) option option" where
  "load raw raw_text file avail_pid =
     (let proc = raw\<lparr>p_pid := avail_pid, p_bp := PAGE_SIZE, p_pc := 0\<rparr>
      in case file of
           None \<Rightarrow> Some None
         | Some f \<Rightarrow>
             (case scan_ulongs 2 f of
                (vs, f) \<Rightarrow>
                  if length vs < 2 then None
                  else do {
                    let proc = proc\<lparr>p_priority := ucast (vs ! 0)\<rparr>;
                    code \<leftarrow> read_text (raw_text (unat (ucast (vs ! 1) :: u32))) None None f;
                    Some (map_option (\<lambda>code. (proc\<lparr>p_code := code\<rparr>, avail_pid + 1)) code)
                  }))"

end
