(* ===== verification/Timer.thy ===== *)
theory Timer
  imports Prelude
begin

text \<open>
  The clock of \<open>src/src/timer.c\<close>: every processor and the loader own a device; a device
  announces the end of its work in the current slot (\<open>next_slot\<close>) and waits, the timer thread
  waits for all devices, advances the time and releases them.  The threads interleave at every
  access to a shared flag, so the whole is a step relation; a device is its position in the order
  of attachment, and the timer traverses the list from the last one attached.
\<close>

section \<open>Data and operations\<close>

record timer_id_t =
  id_done :: bool
  id_fsh :: bool

text \<open>Where the timer thread is: scanning (devices left, devices found finished, devices seen),
  releasing (devices left and the two counts), or out of its loop.\<close>

datatype timer_pc = Scan nat nat nat | Release nat nat nat | Exited

text \<open>\<open>tm_waiting\<close> tells the device threads that are inside \<open>next_slot\<close>;
  \<open>tm_slots\<close> counts the slots each of them has announced as finished.\<close>

record timer_t =
  tm_devs :: "timer_id_t list"
  tm_started :: bool
  tm_stop :: bool
  tm_time :: nat
  tm_pc :: timer_pc
  tm_waiting :: "bool list"
  tm_slots :: "nat list"

definition attach_event :: "timer_t \<Rightarrow> nat option \<times> timer_t" where
  "attach_event t =
     (if tm_started t then (None, t)
      else (Some (length (tm_devs t)),
            t\<lparr>tm_devs := tm_devs t @ [\<lparr>id_done = False, id_fsh = False\<rparr>],
              tm_waiting := tm_waiting t @ [False], tm_slots := tm_slots t @ [0]\<rparr>))"

definition start_timer :: "timer_t \<Rightarrow> timer_t" where
  "start_timer t =
     t\<lparr>tm_started := True, tm_pc := if tm_stop t then Exited else Scan (length (tm_devs t)) 0 0\<rparr>"

text \<open>The first half of \<open>next_slot\<close>, and the return from its wait.\<close>

definition announce :: "nat \<Rightarrow> timer_t \<Rightarrow> timer_t" where
  "announce i t =
     t\<lparr>tm_devs := (tm_devs t)[i := (tm_devs t ! i)\<lparr>id_done := True\<rparr>],
       tm_waiting := (tm_waiting t)[i := True], tm_slots := (tm_slots t)[i := tm_slots t ! i + 1]\<rparr>"

definition resume :: "nat \<Rightarrow> timer_t \<Rightarrow> timer_t" where
  "resume i t = t\<lparr>tm_waiting := (tm_waiting t)[i := False]\<rparr>"

definition detach_event :: "nat \<Rightarrow> timer_t \<Rightarrow> timer_t" where
  "detach_event i t = t\<lparr>tm_devs := (tm_devs t)[i := (tm_devs t ! i)\<lparr>id_fsh := True\<rparr>]\<rparr>"

definition release :: "nat \<Rightarrow> timer_t \<Rightarrow> timer_t" where
  "release i t = t\<lparr>tm_devs := (tm_devs t)[i := (tm_devs t ! i)\<lparr>id_done := False\<rparr>]\<rparr>"

definition set_timer_stop :: "timer_t \<Rightarrow> timer_t" where
  "set_timer_stop t = t\<lparr>tm_stop := True\<rparr>"

text \<open>One step of the timer thread; \<open>None\<close> when it has to wait or is gone.\<close>

definition timer_step :: "timer_t \<Rightarrow> timer_t option" where
  "timer_step t =
     (case tm_pc t of
        Scan (Suc i) fsh event \<Rightarrow>
          if \<not> id_done (tm_devs t ! i) \<and> \<not> id_fsh (tm_devs t ! i) then None
          else Some (t\<lparr>tm_pc := Scan i (if id_fsh (tm_devs t ! i) then fsh + 1 else fsh) (event + 1)\<rparr>)
      | Scan 0 fsh event \<Rightarrow>
          Some (t\<lparr>tm_time := tm_time t + 1, tm_pc := Release (length (tm_devs t)) fsh event\<rparr>)
      | Release (Suc i) fsh event \<Rightarrow> Some ((release i t)\<lparr>tm_pc := Release i fsh event\<rparr>)
      | Release 0 fsh event \<Rightarrow>
          Some (t\<lparr>tm_pc := if fsh = event \<or> tm_stop t then Exited else Scan (length (tm_devs t)) 0 0\<rparr>)
      | Exited \<Rightarrow> None)"

section \<open>The system\<close>

text \<open>A device thread is outside \<open>next_slot\<close> when it announces or detaches, and does
  neither after it has detached.\<close>

definition active :: "nat \<Rightarrow> timer_t \<Rightarrow> bool" where
  "active i t \<longleftrightarrow> i < length (tm_devs t) \<and> \<not> tm_waiting t ! i \<and> \<not> id_fsh (tm_devs t ! i)"

inductive tick_step :: "timer_t \<Rightarrow> timer_t \<Rightarrow> bool" where
  Timer: "timer_step t = Some t' \<Longrightarrow> tick_step t t'"
| Announce: "active i t \<Longrightarrow> tick_step t (announce i t)"
| Resume: "i < length (tm_devs t) \<Longrightarrow> tm_waiting t ! i \<Longrightarrow> \<not> id_done (tm_devs t ! i) \<Longrightarrow>
    tick_step t (resume i t)"
| Detach: "active i t \<Longrightarrow> tick_step t (detach_event i t)"
| Stop: "tick_step t (set_timer_stop t)"

inductive_cases tick_stepE: "tick_step t t'"

definition timer_init :: "nat \<Rightarrow> timer_t" where
  "timer_init n = start_timer
     (((\<lambda>t. snd (attach_event t)) ^^ n)
       \<lparr>tm_devs = [], tm_started = False, tm_stop = False, tm_time = 0, tm_pc = Exited,
        tm_waiting = [], tm_slots = []\<rparr>)"

inductive timer_reach :: "nat \<Rightarrow> timer_t \<Rightarrow> bool" for n where
  Init: "timer_reach n (timer_init n)"
| Step: "timer_reach n t \<Longrightarrow> tick_step t t' \<Longrightarrow> timer_reach n t'"

text \<open>Device \<open>i\<close> was released, or not yet reached by the scan, in the current slot.\<close>

definition dev_inv :: "nat \<Rightarrow> timer_t \<Rightarrow> bool" where
  "dev_inv i t \<longleftrightarrow>
     (id_done (tm_devs t ! i) \<longrightarrow> tm_waiting t ! i)
     \<and> (\<not> id_fsh (tm_devs t ! i) \<longrightarrow>
          (case tm_pc t of
             Scan k fsh event \<Rightarrow>
               tm_slots t ! i = (if id_done (tm_devs t ! i) then tm_time t + 1 else tm_time t)
               \<and> (k \<le> i \<longrightarrow> id_done (tm_devs t ! i))
           | Release k fsh event \<Rightarrow>
               if i < k then id_done (tm_devs t ! i) \<and> tm_slots t ! i = tm_time t
               else tm_slots t ! i = (if id_done (tm_devs t ! i) then tm_time t + 1 else tm_time t)
           | Exited \<Rightarrow>
               tm_slots t ! i = (if id_done (tm_devs t ! i) then tm_time t + 1 else tm_time t)))"

definition pc_inv :: "timer_t \<Rightarrow> bool" where
  "pc_inv t \<longleftrightarrow> (case tm_pc t of Scan k fsh event \<Rightarrow> k \<le> length (tm_devs t)
     | Release k fsh event \<Rightarrow> k \<le> length (tm_devs t) | Exited \<Rightarrow> True)"

definition timer_inv :: "nat \<Rightarrow> timer_t \<Rightarrow> bool" where
  "timer_inv n t \<longleftrightarrow> length (tm_devs t) = n \<and> length (tm_waiting t) = n \<and> length (tm_slots t) = n
     \<and> pc_inv t \<and> (\<forall>i < n. dev_inv i t)"

lemmas timer_inv_defs = timer_inv_def pc_inv_def dev_inv_def

section \<open>The invariant\<close>

lemma attach_n:
  "((\<lambda>t. snd (attach_event t)) ^^ n)
     \<lparr>tm_devs = [], tm_started = False, tm_stop = False, tm_time = 0, tm_pc = Exited,
      tm_waiting = [], tm_slots = []\<rparr>
   = \<lparr>tm_devs = replicate n \<lparr>id_done = False, id_fsh = False\<rparr>, tm_started = False, tm_stop = False,
      tm_time = 0, tm_pc = Exited, tm_waiting = replicate n False, tm_slots = replicate n 0\<rparr>"
  by (induction n) (simp_all add: attach_event_def replicate_append_same)

lemma timer_inv_init: "timer_inv n (timer_init n)"
  by (simp add: timer_init_def attach_n start_timer_def timer_inv_defs)

lemma timer_inv_timer:
  assumes inv: "timer_inv n t" and step: "timer_step t = Some t'"
  shows "timer_inv n t'"
proof (cases "tm_pc t")
  case (Scan k f e)
  show ?thesis
  proof (cases k)
    case 0
    then show ?thesis using inv step Scan by (auto simp: timer_step_def timer_inv_defs)
  next
    case (Suc i)
    then have t': "t' = t\<lparr>tm_pc := Scan i (if id_fsh (tm_devs t ! i) then f + 1 else f) (e + 1)\<rparr>"
      and "id_done (tm_devs t ! i) \<or> id_fsh (tm_devs t ! i)"
      using step Scan by (auto simp: timer_step_def split: if_splits)
    then show ?thesis
      using inv Scan Suc unfolding timer_inv_defs t' by (auto simp: Suc_le_eq nat_less_le)
  qed
next
  case (Release k f e)
  show ?thesis
  proof (cases k)
    case 0
    then show ?thesis using inv step Release by (auto simp: timer_step_def timer_inv_defs)
  next
    case (Suc i)
    then have t': "t' = (release i t)\<lparr>tm_pc := Release i f e\<rparr>"
      using step Release by (simp add: timer_step_def)
    then show ?thesis
      using inv Release Suc unfolding timer_inv_defs t'
      by (auto simp: release_def nth_list_update less_Suc_eq)
  qed
next
  case Exited
  then show ?thesis using step by (simp add: timer_step_def)
qed

lemma timer_inv_devs:
  assumes "timer_inv n t" and "tm_pc t' = tm_pc t" and "length (tm_devs t') = length (tm_devs t)"
    and "length (tm_waiting t') = length (tm_waiting t)" and "length (tm_slots t') = length (tm_slots t)"
    and "\<And>j. j < n \<Longrightarrow> dev_inv j t \<Longrightarrow> dev_inv j t'"
  shows "timer_inv n t'"
  using assms(1-5) assms(6) by (cases "tm_pc t") (auto simp: timer_inv_def pc_inv_def)

lemmas device_step_simps = announce_def resume_def detach_event_def set_timer_stop_def active_def
  nth_list_update dev_inv_def

lemma timer_inv_step:
  assumes inv: "timer_inv n t" and step: "tick_step t t'"
  shows "timer_inv n t'"
proof -
  have len: "length (tm_devs t) = n" "length (tm_waiting t) = n" "length (tm_slots t) = n"
    and dev: "\<And>i. i < n \<Longrightarrow> dev_inv i t"
    using inv by (simp_all add: timer_inv_def)
  have keep: "timer_inv n t'" if "tm_pc t' = tm_pc t" "length (tm_devs t') = n"
      "length (tm_waiting t') = n" "length (tm_slots t') = n" "\<And>j. j < n \<Longrightarrow> dev_inv j t \<Longrightarrow> dev_inv j t'"
    by (rule timer_inv_devs [OF inv]) (use that len in simp_all)
  from step show ?thesis
  proof cases
    case Timer
    then show ?thesis using timer_inv_timer [OF inv] by blast
  next
    case (Announce i)
    then show ?thesis
      using len dev [of i]
      by (intro keep; cases "tm_pc t"; auto simp: device_step_simps split: if_splits)
  next
    case (Resume i)
    then show ?thesis
      using len by (intro keep; cases "tm_pc t"; auto simp: device_step_simps split: if_splits)
  next
    case (Detach i)
    then show ?thesis
      using len by (intro keep; cases "tm_pc t"; auto simp: device_step_simps split: if_splits)
  next
    case Stop
    then show ?thesis
      using len by (intro keep; cases "tm_pc t"; auto simp: device_step_simps)
  qed
qed

lemma timer_reach_inv: "timer_reach n t \<Longrightarrow> timer_inv n t"
  by (induction rule: timer_reach.induct) (auto intro: timer_inv_init timer_inv_step)

text \<open>A device that has not detached has announced the current slot or the one before.\<close>

lemma dev_slots:
  assumes "timer_inv n t" and "i < n" and "\<not> id_fsh (tm_devs t ! i)"
  shows "tm_time t \<le> tm_slots t ! i" and "tm_slots t ! i \<le> tm_time t + 1"
proof -
  have "dev_inv i t" using assms(1,2) by (simp add: timer_inv_def)
  then have "tm_time t \<le> tm_slots t ! i \<and> tm_slots t ! i \<le> tm_time t + 1"
    using assms(3) by (cases "tm_pc t") (auto simp: dev_inv_def split: if_splits)
  then show "tm_time t \<le> tm_slots t ! i" and "tm_slots t ! i \<le> tm_time t + 1" by auto
qed

section \<open>Properties\<close>

text \<open>C31: In every interleaving of the timer and the device threads, two devices that have not
  detached are at most one slot apart, and none is behind the clock or more than one slot ahead of
  it.\<close>

theorem slots_in_step:
  assumes "timer_reach n t" and "i < n" and "j < n"
    and "\<not> id_fsh (tm_devs t ! i)" and "\<not> id_fsh (tm_devs t ! j)"
  shows "tm_slots t ! i \<le> tm_slots t ! j + 1 \<and> tm_time t \<le> tm_slots t ! i
    \<and> tm_slots t ! i \<le> tm_time t + 1"
  using dev_slots [OF timer_reach_inv [OF assms(1)]] assms(2-5) by fastforce

theorem slots_in_step_witness: "tm_slots (timer_init 2) ! 0 \<le> tm_slots (timer_init 2) ! 1 + 1"
  using slots_in_step [OF timer_reach.Init, of 0 2 1]
  by (simp add: timer_init_def attach_n start_timer_def)

text \<open>C32: The clock advances only when every device that has not detached has announced the end of
  the current slot and is waiting.\<close>

theorem clock_waits_for_devices:
  assumes "timer_reach n t" and "tick_step t t'" and "tm_time t' \<noteq> tm_time t"
    and "i < n" and "\<not> id_fsh (tm_devs t ! i)"
  shows "tm_time t' = tm_time t + 1 \<and> tm_slots t ! i = tm_time t' \<and> id_done (tm_devs t ! i)
    \<and> tm_waiting t ! i"
proof -
  have inv: "dev_inv i t" using timer_reach_inv [OF assms(1)] assms(4) by (simp add: timer_inv_def)
  obtain f e where "tm_pc t = Scan 0 f e" and "tm_time t' = tm_time t + 1"
    using assms(2,3) by (cases rule: tick_step.cases)
      (auto simp: timer_step_def release_def announce_def resume_def detach_event_def set_timer_stop_def
        split: timer_pc.splits nat.splits if_splits)
  then show ?thesis using inv assms(5) by (simp add: dev_inv_def)
qed

theorem clock_waits_for_devices_witness:
  "\<exists>t t'. timer_reach 1 t \<and> tick_step t t' \<and> tm_time t' = 1 \<and> tm_slots t ! 0 = 1"
proof -
  define t0 where "t0 = timer_init 1"
  define t1 where "t1 = announce 0 t0"
  define t2 where "t2 = t1\<lparr>tm_pc := Scan 0 0 1\<rparr>"
  define t3 where "t3 = t2\<lparr>tm_time := 1, tm_pc := Release 1 0 1\<rparr>"
  note defs = t3_def t2_def t1_def t0_def timer_init_def attach_event_def start_timer_def announce_def
  have r0: "timer_reach 1 t0" unfolding t0_def by (rule timer_reach.Init)
  have "tick_step t0 t1"
    unfolding t1_def by (rule tick_step.Announce) (simp add: active_def defs)
  then have r1: "timer_reach 1 t1" by (rule timer_reach.Step [OF r0])
  have "tick_step t1 t2" by (rule tick_step.Timer) (simp add: timer_step_def defs)
  then have r2: "timer_reach 1 t2" by (rule timer_reach.Step [OF r1])
  have s3: "tick_step t2 t3" by (rule tick_step.Timer) (simp add: timer_step_def defs)
  have "tm_time t3 = tm_time t2 + 1 \<and> tm_slots t2 ! 0 = tm_time t3 \<and> id_done (tm_devs t2 ! 0)
      \<and> tm_waiting t2 ! 0"
    by (rule clock_waits_for_devices [OF r2 s3]) (simp_all add: defs)
  then have "tm_time t3 = 1 \<and> tm_slots t2 ! 0 = 1" by (simp add: t3_def)
  then show ?thesis using r2 s3 by blast
qed



end
