(* ===== verification/Os.thy ===== *)
theory Os
  imports Frames Sched Loader Timer
begin

text \<open>
  The threads of \<open>src/src/os.c\<close>: \<open>cpu_routine\<close>, one per processor, and
  \<open>ld_routine\<close>, the loader.  A thread is a program counter and its local variables; the
  calls into the scheduler, which hold its lock, are single steps, and so is the execution of one
  instruction.  The waiting in \<open>next_slot\<close> is the subject of the timer theory; here a thread
  may take any number of steps between two of another thread.
\<close>

section \<open>Processors\<close>

text \<open>The points of the loop of \<open>cpu_routine\<close>: its head, the call of \<open>get_proc\<close> after a
  process was freed or put back, the recheck, the execution of an instruction, the call of
  \<open>next_slot\<close>, and the end.\<close>

datatype cpu_pc = C_Head | C_Get | C_Check | C_Run | C_Slot | C_Stop

record cpu_t =
  c_pc :: cpu_pc
  c_proc :: "pcb_ptr option"
  c_time_left :: int

definition cpu_init :: cpu_t where
  "cpu_init = \<lparr>c_pc = C_Head, c_proc = None, c_time_left = 0\<rparr>"

text \<open>Between the release of a process and the next \<open>get_proc\<close> the variable \<open>proc\<close> is
  stale and is not read; it is \<open>None\<close> there.\<close>

definition cpu_head :: "cpu_t \<Rightarrow> world \<Rightarrow> sched_t \<Rightarrow> (cpu_t \<times> world \<times> sched_t) option" where
  "cpu_head c w s =
     (case c_proc c of
        None \<Rightarrow>
          (case get_proc s of
             (p, s) \<Rightarrow> Some (c\<lparr>c_proc := p, c_pc := if p = None then C_Slot else C_Check\<rparr>, w, s))
      | Some proc \<Rightarrow> do {
          b \<leftarrow> w_pcbs w proc;
          if unat (p_pc b) = length (p_code b)
          then Some (c\<lparr>c_proc := None, c_time_left := 0, c_pc := C_Get\<rparr>,
                     w\<lparr>w_pcbs := (w_pcbs w)(proc := None)\<rparr>, s)
          else if c_time_left c = 0 then do {
            (w, s) \<leftarrow> put_proc proc w s;
            Some (c\<lparr>c_proc := None, c_pc := C_Get\<rparr>, w, s)
          }
          else Some (c\<lparr>c_pc := C_Check\<rparr>, w, s)
        })"

definition cpu_check :: "int \<Rightarrow> bool \<Rightarrow> cpu_t \<Rightarrow> cpu_t" where
  "cpu_check time_slot fin c =
     (if c_proc c = None \<and> fin then c\<lparr>c_pc := C_Stop\<rparr>
      else if c_proc c = None then c\<lparr>c_pc := C_Slot\<rparr>
      else if c_time_left c = 0 then c\<lparr>c_time_left := time_slot, c_pc := C_Run\<rparr>
      else c\<lparr>c_pc := C_Run\<rparr>)"

text \<open>One step of a processor; \<open>time_slot\<close> and \<open>done\<close> are the globals.  The inner
  \<open>None\<close> says that the thread has ended.\<close>

definition cpu_step ::
  "int \<Rightarrow> bool \<Rightarrow> cpu_t \<Rightarrow> world \<Rightarrow> sched_t \<Rightarrow> (cpu_t \<times> world \<times> sched_t) option option" where
  "cpu_step time_slot fin c w s =
     (case c_pc c of
        C_Head \<Rightarrow> map_option Some (cpu_head c w s)
      | C_Get \<Rightarrow> (case get_proc s of (p, s) \<Rightarrow> Some (Some (c\<lparr>c_proc := p, c_pc := C_Check\<rparr>, w, s)))
      | C_Check \<Rightarrow> Some (Some (cpu_check time_slot fin c, w, s))
      | C_Run \<Rightarrow> do {
          proc \<leftarrow> c_proc c;
          (r, w) \<leftarrow> run proc w;
          Some (Some (c\<lparr>c_time_left := c_time_left c - 1, c_pc := C_Slot\<rparr>, w, s))
        }
      | C_Slot \<Rightarrow> Some (Some (c\<lparr>c_pc := C_Head\<rparr>, w, s))
      | C_Stop \<Rightarrow> Some None)"

section \<open>The loader\<close>

text \<open>An entry of the configuration: the contents of the program file, the start time and the
  priority.\<close>

record ld_entry =
  le_file :: "string option"
  le_start :: nat
  le_prio :: u64

datatype ld_pc = L_Start | L_Load | L_Wait pcb_ptr | L_Slot | L_Failed | L_Done

record ld_t =
  l_pc :: ld_pc
  l_i :: nat
  l_avail_pid :: u32

definition ld_init :: ld_t where
  "ld_init = \<lparr>l_pc = L_Start, l_i = 0, l_avail_pid = 1\<rparr>"

text \<open>The initialisation of the kernel structure.  The five arrays \<open>krnl_pgd\<close> to
  \<open>krnl_pt\<close> that are filled here are not read anywhere.\<close>

definition ld_start :: "world \<Rightarrow> world" where
  "ld_start w = w\<lparr>w_os := (w_os w)\<lparr>k_proc_table := replicate PID_MAX None, k_mram := None\<rparr>\<rparr>"

text \<open>Loading the next program into a fresh block \<open>p\<close>.\<close>

definition ld_load ::
  "pcb_ptr \<Rightarrow> pcb_t \<Rightarrow> (nat \<Rightarrow> inst_t list) \<Rightarrow> ld_entry \<Rightarrow> u32 \<Rightarrow> world \<Rightarrow> (u32 \<times> world) option option" where
  "ld_load p raw raw_text e avail_pid w = do {
     r \<leftarrow> load raw raw_text (le_file e) avail_pid;
     Some (map_option
       (\<lambda>(proc, avail_pid).
          (avail_pid, w\<lparr>w_pcbs := (w_pcbs w)(p \<mapsto> proc\<lparr>p_krnl := True, p_prio := ucast (le_prio e)\<rparr>)\<rparr>)) r)
   }"

text \<open>\<open>malloc\<close> of a descriptor and \<open>init_mm\<close> on it: the pointer, whether both
  succeeded, and the world.\<close>

definition new_mm :: "mm_ptr \<Rightarrow> mm_struct \<Rightarrow> pcb_t \<Rightarrow> world \<Rightarrow> (mm_ptr option \<times> bool \<times> world) option" where
  "new_mm mp raw c w = do {
     let (got, w) = host_alloc w;
     if \<not> got then Some (None, False, w)
     else do {
       (r, w) \<leftarrow> init_mm (Some mp) (Some c) (set_mm w mp raw);
       Some (Some mp, r = 0, w)
     }
   }"

text \<open>The descriptor of the kernel, created with the first process.\<close>

definition ld_kernel_mm :: "mm_ptr \<Rightarrow> mm_struct \<Rightarrow> pcb_t \<Rightarrow> world \<Rightarrow> (bool \<times> world) option" where
  "ld_kernel_mm kmp raw c w =
     (if k_mm (w_os w) \<noteq> None then Some (True, w)
      else do {
        (mp, ok, w) \<leftarrow> new_mm kmp raw c w;
        Some (ok, w\<lparr>w_os := (w_os w)\<lparr>k_mm := mp\<rparr>\<rparr>)
      })"

text \<open>Attaching the kernel descriptor when there is none, the devices, the descriptor of the
  process and its table entry, and handing the process to the scheduler; \<open>False\<close> is the
  return \<open>NULL\<close>.  \<open>ram\<close> and \<open>swp\<close> are the devices \<open>main\<close> has set up; the
  structures are reached through the kernel once they are attached.\<close>

definition ld_register ::
  "mm_ptr \<Rightarrow> mm_ptr \<Rightarrow> mm_struct \<Rightarrow> memphy_struct \<Rightarrow> memphy_struct \<Rightarrow> pcb_ptr \<Rightarrow> world \<Rightarrow> sched_t \<Rightarrow>
   (bool \<times> world \<times> sched_t) option" where
  "ld_register kmp ump raw ram swp p w s = do {
     c \<leftarrow> w_pcbs w p;
     (ok, w) \<leftarrow> ld_kernel_mm kmp raw c w;
     if \<not> ok then Some (False, w, s)
     else do {
       let w = set_mram w (Some (case mram w of None \<Rightarrow> ram | Some d \<Rightarrow> d));
       let w = set_mswp w (Some (case mswp w of None \<Rightarrow> swp | Some d \<Rightarrow> d));
       (mp, ok, w) \<leftarrow> new_mm ump raw c w;
       let w = w\<lparr>w_pcbs := (w_pcbs w)(p \<mapsto> c\<lparr>p_mm := mp\<rparr>)\<rparr>;
       if \<not> ok then Some (False, w, s)
       else do {
         t \<leftarrow> arr_set (k_proc_table (w_os w)) (unat (p_pid c)) (Some p);
         let w = w\<lparr>w_os := (w_os w)\<lparr>k_proc_table := t\<rparr>\<rparr>;
         (w, s) \<leftarrow> add_proc p w s;
         Some (True, w, s)
       }
     }
   }"

section \<open>The system\<close>

record sys_cfg =
  cfg_time_slot :: int
  cfg_entries :: "ld_entry list"
  cfg_ram :: memphy_struct
  cfg_swp :: memphy_struct

record sys_t =
  sys_w :: world
  sys_s :: sched_t
  sys_cpus :: "cpu_t list"
  sys_ld :: ld_t
  sys_time :: nat
  sys_done :: bool

text \<open>Pointers returned by \<open>malloc\<close> are fresh; a block that was freed may come back.  The
  contents of a fresh block are arbitrary, its shape is that of the type it is allocated for.\<close>

inductive sys_step :: "sys_cfg \<Rightarrow> sys_t \<Rightarrow> sys_t \<Rightarrow> bool" for cfg where
  Cpu: "i < length (sys_cpus y) \<Longrightarrow>
    cpu_step (cfg_time_slot cfg) (sys_done y) (sys_cpus y ! i) (sys_w y) (sys_s y) = Some (Some (c', w', s')) \<Longrightarrow>
    sys_step cfg y (y\<lparr>sys_w := w', sys_s := s', sys_cpus := (sys_cpus y)[i := c']\<rparr>)"
| Ld_Start: "l_pc (sys_ld y) = L_Start \<Longrightarrow>
    sys_step cfg y (y\<lparr>sys_w := ld_start (sys_w y), sys_ld := (sys_ld y)\<lparr>l_pc := L_Load\<rparr>\<rparr>)"
| Ld_Load: "l_pc (sys_ld y) = L_Load \<Longrightarrow> l_i (sys_ld y) < length (cfg_entries cfg) \<Longrightarrow>
    w_pcbs (sys_w y) p = None \<Longrightarrow> length (p_regs raw) = 10 \<Longrightarrow> (\<And>n. length (raw_text n) = n) \<Longrightarrow>
    ld_load p raw raw_text (cfg_entries cfg ! l_i (sys_ld y)) (l_avail_pid (sys_ld y)) (sys_w y)
      = Some (Some (pid, w')) \<Longrightarrow>
    sys_step cfg y (y\<lparr>sys_w := w', sys_ld := (sys_ld y)\<lparr>l_pc := L_Wait p, l_avail_pid := pid\<rparr>\<rparr>)"
| Ld_Register: "l_pc (sys_ld y) = L_Wait p \<Longrightarrow> le_start (cfg_entries cfg ! l_i (sys_ld y)) \<le> sys_time y \<Longrightarrow>
    w_mms (sys_w y) kmp = None \<Longrightarrow> w_mms (sys_w y) ump = None \<Longrightarrow> kmp \<noteq> ump \<Longrightarrow>
    length (mm_symrgtbl rawm) = PAGING_MAX_SYMTBL_SZ \<Longrightarrow>
    ld_register kmp ump rawm (cfg_ram cfg) (cfg_swp cfg) p (sys_w y) (sys_s y) = Some (ok, w', s') \<Longrightarrow>
    sys_step cfg y (y\<lparr>sys_w := w', sys_s := s',
      sys_ld := (sys_ld y)\<lparr>l_pc := if ok then L_Slot else L_Failed\<rparr>\<rparr>)"
| Ld_Slot: "l_pc (sys_ld y) = L_Slot \<Longrightarrow>
    sys_step cfg y (y\<lparr>sys_ld := (sys_ld y)\<lparr>l_pc := L_Load, l_i := l_i (sys_ld y) + 1\<rparr>\<rparr>)"
| Ld_Done: "l_pc (sys_ld y) = L_Load \<Longrightarrow> length (cfg_entries cfg) \<le> l_i (sys_ld y) \<Longrightarrow>
    sys_step cfg y (y\<lparr>sys_done := True, sys_ld := (sys_ld y)\<lparr>l_pc := L_Done\<rparr>\<rparr>)"
| Tick: "sys_step cfg y (y\<lparr>sys_time := sys_time y + 1\<rparr>)"

definition zero_queue :: queue_t where
  "zero_queue = \<lparr>q_proc = replicate MAX_QUEUE_SIZE 0, q_size = 0\<rparr>"

definition sched_init :: sched_t where
  "sched_init = init_scheduler
     \<lparr>s_ready_queue = zero_queue, s_run_queue = zero_queue, s_running_list = zero_queue,
      s_mlq = replicate MAX_PRIO zero_queue, s_slot = replicate MAX_PRIO 0\<rparr>"

definition world_init :: "nat \<Rightarrow> world" where
  "world_init h =
     \<lparr>w_mms = (\<lambda>_. None), w_pcbs = (\<lambda>_. None),
      w_os = \<lparr>k_ready_queue = False, k_mlq_ready_queue = False, k_running_list = False,
              k_proc_table = replicate PID_MAX None, k_mm = None, k_mram = None, k_active_mswp = None\<rparr>,
      w_hostmem = h\<rparr>"

definition sys_init :: "nat \<Rightarrow> nat \<Rightarrow> sys_t" where
  "sys_init num_cpus h =
     \<lparr>sys_w = world_init h, sys_s = sched_init, sys_cpus = replicate num_cpus cpu_init,
      sys_ld = ld_init, sys_time = 0, sys_done = False\<rparr>"

inductive sys_reach :: "sys_cfg \<Rightarrow> nat \<Rightarrow> nat \<Rightarrow> sys_t \<Rightarrow> bool" for cfg n h where
  Init: "sys_reach cfg n h (sys_init n h)"
| Step: "sys_reach cfg n h y \<Longrightarrow> sys_step cfg y y' \<Longrightarrow> sys_reach cfg n h y'"

section \<open>Who holds a process\<close>

text \<open>The places a process can be in: the queue of a level, the variable \<open>proc\<close> of a
  processor, the hands of the loader.\<close>

definition held_ready :: "sched_t \<Rightarrow> pcb_ptr multiset" where
  "held_ready s = (\<Sum>k<MAX_PRIO. mset (ready s k))"

definition ptr_mset :: "pcb_ptr option \<Rightarrow> pcb_ptr multiset" where
  "ptr_mset p = (case p of None \<Rightarrow> {#} | Some p \<Rightarrow> {#p#})"

definition held_cpus :: "cpu_t list \<Rightarrow> pcb_ptr multiset" where
  "held_cpus cs = (\<Sum>i<length cs. ptr_mset (c_proc (cs ! i)))"

definition held_ld :: "ld_t \<Rightarrow> pcb_ptr multiset" where
  "held_ld l = (case l_pc l of L_Wait p \<Rightarrow> {#p#} | _ \<Rightarrow> {#})"

definition held :: "sys_t \<Rightarrow> pcb_ptr multiset" where
  "held y = held_ready (sys_s y) + held_cpus (sys_cpus y) + held_ld (sys_ld y)"

lemma ptr_mset_simps [simp]: "ptr_mset None = {#}" "ptr_mset (Some p) = {#p#}"
  by (simp_all add: ptr_mset_def)

lemma sum_upd_mset:
  fixes f g :: "nat \<Rightarrow> 'a multiset"
  assumes "k < n" and "\<And>i. i \<noteq> k \<Longrightarrow> g i = f i"
  shows "(\<Sum>i<n. g i) + f k = (\<Sum>i<n. f i) + g k"
proof -
  have "(\<Sum>i\<in>{..<n} - {k}. g i) = (\<Sum>i\<in>{..<n} - {k}. f i)"
    by (intro sum.cong) (use assms(2) in auto)
  then show ?thesis
    using assms(1) sum.remove [of "{..<n}" k g] sum.remove [of "{..<n}" k f] by (simp add: ac_simps)
qed

lemma held_ready_upd:
  "k < MAX_PRIO \<Longrightarrow> ready s' = (ready s)(k := xs) \<Longrightarrow>
   held_ready s' + mset (ready s k) = held_ready s + mset xs"
  unfolding held_ready_def
  by (subst sum_upd_mset [of k MAX_PRIO "\<lambda>k. mset (ready s' k)" "\<lambda>k. mset (ready s k)"]) auto

lemma held_cpus_upd:
  "i < length cs \<Longrightarrow>
   held_cpus (cs[i := c]) + ptr_mset (c_proc (cs ! i)) = held_cpus cs + ptr_mset (c_proc c)"
  unfolding held_cpus_def length_list_update
  by (subst sum_upd_mset [of i "length cs" "\<lambda>j. ptr_mset (c_proc (cs[i := c] ! j))"
        "\<lambda>j. ptr_mset (c_proc (cs ! j))"]) auto

lemma held_get:
  assumes "sched_ok s" and "get_proc s = (p, s')"
  shows "held_ready s' + ptr_mset p = held_ready s" and "sched_ok s'"
    and "set (ready s' k) \<subseteq> set (ready s k)"
proof -
  show "sched_ok s'" using sched_ok_get [OF assms(1)] assms(2) by (simp add: get_proc_def)
  show "held_ready s' + ptr_mset p = held_ready s"
    using assms(1)
  proof (cases rule: get_mlq_cases)
    case (dispatch k q qs)
    then show ?thesis
      using held_ready_upd [OF dispatch(1,6)] assms(2) by (simp add: get_proc_def)
  next
    case (refill k)
    then show ?thesis using assms(2) by (auto simp: get_proc_def held_ready_def ready_def)
  next
    case idle
    then show ?thesis using assms(2) by (simp add: get_proc_def)
  qed
  show "set (ready s' k) \<subseteq> set (ready s k)"
    using assms(1)
  proof (cases rule: get_mlq_cases)
    case (dispatch j q qs)
    then show ?thesis using assms(2) by (auto simp: get_proc_def)
  next
    case (refill j)
    then show ?thesis using assms(2) by (auto simp: get_proc_def ready_def)
  next
    case idle
    then show ?thesis using assms(2) by (simp add: get_proc_def)
  qed
qed

lemma put_add_pcb:
  "put_proc p w s = Some (w', s') \<Longrightarrow> sched_ok s \<Longrightarrow> \<exists>k. sched_pcb w p k"
  "add_proc p w s = Some (w', s') \<Longrightarrow> sched_ok s \<Longrightarrow> \<exists>k. sched_pcb w p k"
  by (auto simp: put_proc_def put_mlq_proc_def add_proc_def add_mlq_proc_def publish_queues_def
      mlq_enqueue_def sched_pcb_def sched_okD Let_def split: bind_splits if_splits)

lemma enqueued_mset:
  assumes "k < MAX_PRIO"
    and "ready s' = (ready s)(k := if length (ready s k) < MAX_QUEUE_SIZE then ready s k @ [p] else ready s k)"
  shows "held_ready s' \<subseteq># held_ready s + {#p#}"
  using held_ready_upd [OF assms] by (auto split: if_splits)

text \<open>What handing a process to the scheduler does.\<close>

definition handed :: "pcb_ptr \<Rightarrow> world \<Rightarrow> sched_t \<Rightarrow> world \<Rightarrow> sched_t \<Rightarrow> bool" where
  "handed p w s w' s' \<longleftrightarrow> sched_ok s' \<and> held_ready s' \<subseteq># held_ready s + {#p#} \<and> w_pcbs w' = w_pcbs w
     \<and> (\<forall>k. \<forall>q \<in> set (ready s' k). q \<in> set (ready s k) \<or> q = p \<and> sched_pcb w p k)"

lemma handed_put_add:
  assumes "sched_ok s"
  shows "put_proc p w s = Some (w', s') \<Longrightarrow> handed p w s w' s'"
    and "add_proc p w s = Some (w', s') \<Longrightarrow> handed p w s w' s'"
proof -
  assume put: "put_proc p w s = Some (w', s')"
  then obtain k where k: "sched_pcb w p k" using put_add_pcb(1) assms by blast
  then have "k < MAX_PRIO" by (simp add: sched_pcb_def)
  then show "handed p w s w' s'"
    using put enqueued_mset [of k s' s p] k unfolding handed_def put_proc_def
    by (rule_tac put_mlq_proc_spec [OF assms k]) (auto split: if_splits)
next
  assume add: "add_proc p w s = Some (w', s')"
  then obtain k where k: "sched_pcb w p k" using put_add_pcb(2) assms by blast
  then have "k < MAX_PRIO" by (simp add: sched_pcb_def)
  then show "handed p w s w' s'"
    using add enqueued_mset [of k s' s p] k unfolding handed_def add_proc_def
    by (rule_tac add_mlq_proc_spec [OF assms k]) (auto split: if_splits)
qed

section \<open>The invariant of the system\<close>

definition sys_inv :: "sys_t \<Rightarrow> bool" where
  "sys_inv y \<longleftrightarrow> sched_ok (sys_s y) \<and> (\<forall>p. count (held y) p \<le> 1)
     \<and> (\<forall>p. p \<in># held y \<longrightarrow> (\<exists>c. w_pcbs (sys_w y) p = Some c \<and> p_krnl c))
     \<and> (\<forall>k p c. p \<in> set (ready (sys_s y) k) \<longrightarrow> w_pcbs (sys_w y) p = Some c \<longrightarrow> unat (p_prio c) = k)"

text \<open>The part of a control block that the scheduler relies on.\<close>

definition same_pcb :: "world \<Rightarrow> world \<Rightarrow> pcb_ptr \<Rightarrow> bool" where
  "same_pcb w w' p \<longleftrightarrow> map_option (\<lambda>c. (p_krnl c, p_prio c)) (w_pcbs w' p)
     = map_option (\<lambda>c. (p_krnl c, p_prio c)) (w_pcbs w p)"

lemma same_pcbD: "same_pcb w w' p \<Longrightarrow> w_pcbs w p = Some c \<Longrightarrow>
    \<exists>c'. w_pcbs w' p = Some c' \<and> p_krnl c' = p_krnl c \<and> p_prio c' = p_prio c"
  by (auto simp: same_pcb_def)

lemma same_pcb_refl [simp]: "w_pcbs w' = w_pcbs w \<Longrightarrow> same_pcb w w' p"
  by (simp add: same_pcb_def)

lemma same_pcb_run: "run q w = Some (r, w') \<Longrightarrow> same_pcb w w' p"
  by (erule run_effect) (auto simp: pcb_kept_def same_pcb_def)

lemma ready_lt: "p \<in> set (ready s k) \<Longrightarrow> k < MAX_PRIO"
  by (simp add: ready_def split: if_splits)

lemma held_ready_mem: "p \<in> set (ready s k) \<Longrightarrow> p \<in># held_ready s"
proof -
  assume p: "p \<in> set (ready s k)"
  have "held_ready s = mset (ready s k) + (\<Sum>j\<in>{..<MAX_PRIO} - {k}. mset (ready s j))"
    unfolding held_ready_def using ready_lt [OF p] by (intro sum.remove) auto
  then show ?thesis using p by simp
qed

lemma held_memI [intro]: "p \<in> set (ready (sys_s y) k) \<Longrightarrow> p \<in># held y"
  using held_ready_mem by (simp add: held_def)

lemma held_cpus_mem:
  assumes "i < length cs" and "c_proc (cs ! i) = Some p"
  shows "p \<in># held_cpus cs"
proof -
  have "held_cpus cs = ptr_mset (c_proc (cs ! i)) + (\<Sum>j\<in>{..<length cs} - {i}. ptr_mset (c_proc (cs ! j)))"
    unfolding held_cpus_def using assms(1) by (intro sum.remove) auto
  then show ?thesis using assms(2) by simp
qed

lemma sys_inv_keep:
  assumes inv: "sys_inv y" and ok: "sched_ok (sys_s y')" and sub: "held y' \<subseteq># held y"
    and same: "\<And>p. p \<in># held y' \<Longrightarrow> same_pcb (sys_w y) (sys_w y') p"
    and lvl: "\<And>k p. p \<in> set (ready (sys_s y') k) \<Longrightarrow>
      p \<in> set (ready (sys_s y) k) \<or> sched_pcb (sys_w y) p k"
  shows "sys_inv y'"
  unfolding sys_inv_def
proof (intro conjI allI impI)
  show "sched_ok (sys_s y')" by (rule ok)
  show "count (held y') p \<le> 1" for p
    using inv mset_subset_eq_count [OF sub, of p] unfolding sys_inv_def by (meson le_trans)
  show "\<exists>c. w_pcbs (sys_w y') p = Some c \<and> p_krnl c" if "p \<in># held y'" for p
    using that same [OF that] inv mset_subset_eqD [OF sub] same_pcbD unfolding sys_inv_def by metis
  show "unat (p_prio c) = k" if p: "p \<in> set (ready (sys_s y') k)" and c: "w_pcbs (sys_w y') p = Some c"
    for k p c
  proof -
    have h: "p \<in># held y'" using p by blast
    obtain d where d: "w_pcbs (sys_w y) p = Some d" "p_prio c = p_prio d"
      using same [OF h] c by (cases "w_pcbs (sys_w y) p") (auto simp: same_pcb_def)
    then show ?thesis using lvl [OF p] inv by (auto simp: sys_inv_def sched_pcb_def)
  qed
qed

definition with_cpu :: "sys_t \<Rightarrow> nat \<Rightarrow> cpu_t \<Rightarrow> world \<Rightarrow> sched_t \<Rightarrow> sys_t" where
  "with_cpu y i c w s = y\<lparr>sys_w := w, sys_s := s, sys_cpus := (sys_cpus y)[i := c]\<rparr>"

lemma held_with_cpu:
  "i < length (sys_cpus y) \<Longrightarrow>
   held (with_cpu y i c' w' s') + (held_ready (sys_s y) + ptr_mset (c_proc (sys_cpus y ! i)))
   = held y + (held_ready s' + ptr_mset (c_proc c'))"
  using held_cpus_upd [of i "sys_cpus y" c'] by (simp add: held_def with_cpu_def ac_simps)

lemma sys_inv_cpu:
  assumes inv: "sys_inv y" and i: "i < length (sys_cpus y)" and ok: "sched_ok s'"
    and m: "held_ready s' + ptr_mset (c_proc c') \<subseteq># held_ready (sys_s y) + ptr_mset (c_proc (sys_cpus y ! i))"
    and same: "\<And>p. p \<in># held (with_cpu y i c' w' s') \<Longrightarrow> same_pcb (sys_w y) w' p"
    and lvl: "\<And>k p. p \<in> set (ready s' k) \<Longrightarrow> p \<in> set (ready (sys_s y) k) \<or> sched_pcb (sys_w y) p k"
  shows "sys_inv (with_cpu y i c' w' s')"
proof (rule sys_inv_keep [OF inv])
  have "held (with_cpu y i c' w' s') + (held_ready (sys_s y) + ptr_mset (c_proc (sys_cpus y ! i)))
      \<subseteq># held y + (held_ready (sys_s y) + ptr_mset (c_proc (sys_cpus y ! i)))"
    unfolding held_with_cpu [OF i] using m by simp
  then show "held (with_cpu y i c' w' s') \<subseteq># held y" by simp
qed (use ok same lvl in \<open>auto simp: with_cpu_def\<close>)

lemma taken_once: "M + {#q#} = N \<Longrightarrow> count N q \<le> 1 \<Longrightarrow> q \<notin># M"
  by (auto simp: count_eq_zero_iff [symmetric])

text \<open>A processor at the head of its loop with a process.\<close>

lemma sys_inv_cpu_head:
  assumes inv: "sys_inv y" and i: "i < length (sys_cpus y)" and q: "c_proc (sys_cpus y ! i) = Some q"
    and head: "cpu_head (sys_cpus y ! i) (sys_w y) (sys_s y) = Some (c', w', s')"
  shows "sys_inv (with_cpu y i c' w' s')"
proof -
  note keep = sys_inv_cpu [OF inv i]
  have ok: "sched_ok (sys_s y)" using inv by (simp add: sys_inv_def)
  obtain b where b: "w_pcbs (sys_w y) q = Some b"
    using head q by (auto simp: cpu_head_def split: bind_splits)
  consider (finished) "unat (p_pc b) = length (p_code b)"
    | (expired) "unat (p_pc b) \<noteq> length (p_code b)" "c_time_left (sys_cpus y ! i) = 0"
    | (goes_on) "unat (p_pc b) \<noteq> length (p_code b)" "c_time_left (sys_cpus y ! i) \<noteq> 0"
    by blast
  then show ?thesis
  proof cases
    case finished
    then have r: "c_proc c' = None" "s' = sys_s y" "w_pcbs w' = (w_pcbs (sys_w y))(q := None)"
      using head q b by (auto simp: cpu_head_def)
    have "held (with_cpu y i c' w' s') + {#q#} = held y"
      using held_with_cpu [OF i, of c' w' s'] r q by (simp add: ac_simps)
    moreover have "count (held y) q \<le> 1" using inv by (simp add: sys_inv_def)
    ultimately have "q \<notin># held (with_cpu y i c' w' s')" by (rule taken_once)
    then have "same_pcb (sys_w y) w' p" if "p \<in># held (with_cpu y i c' w' s')" for p
      using that r(3) by (auto simp: same_pcb_def)
    then show ?thesis using r ok by (intro keep) auto
  next
    case expired
    then have put: "put_proc q (sys_w y) (sys_s y) = Some (w', s')" "c_proc c' = None"
      using head q b by (auto simp: cpu_head_def split: bind_splits)
    then show ?thesis
      using handed_put_add(1) [OF ok put(1)] q unfolding handed_def by (intro keep) auto
  next
    case goes_on
    then show ?thesis using head q b ok by (intro keep) (auto simp: cpu_head_def)
  qed
qed

lemma sys_inv_cpu_step:
  assumes inv: "sys_inv y" and i: "i < length (sys_cpus y)"
    and step: "cpu_step ts fin (sys_cpus y ! i) (sys_w y) (sys_s y) = Some (Some (c', w', s'))"
  shows "sys_inv (with_cpu y i c' w' s')"
proof -
  note keep = sys_inv_cpu [OF inv i]
  have ok: "sched_ok (sys_s y)" using inv by (simp add: sys_inv_def)
  show ?thesis
  proof (cases "c_pc (sys_cpus y ! i)")
    case C_Get
    then obtain p where g: "get_proc (sys_s y) = (p, s')" "c_proc c' = p" "w' = sys_w y"
      using step by (auto simp: cpu_step_def split: prod.splits)
    then show ?thesis using held_get [OF ok g(1)] by (intro keep) auto
  next
    case C_Check
    then show ?thesis using step ok by (intro keep) (auto simp: cpu_step_def cpu_check_def)
  next
    case C_Run
    then obtain q r where "run q (sys_w y) = Some (r, w')" "c_proc c' = c_proc (sys_cpus y ! i)" "s' = sys_s y"
      using step by (auto simp: cpu_step_def split: bind_splits)
    then show ?thesis using ok same_pcb_run by (intro keep) auto
  next
    case C_Slot
    then show ?thesis using step ok by (intro keep) (auto simp: cpu_step_def)
  next
    case C_Stop
    then show ?thesis using step by (simp add: cpu_step_def)
  next
    case C_Head
    then have head: "cpu_head (sys_cpus y ! i) (sys_w y) (sys_s y) = Some (c', w', s')"
      using step by (auto simp: cpu_step_def)
    show ?thesis
    proof (cases "c_proc (sys_cpus y ! i)")
      case None
      then obtain p where g: "get_proc (sys_s y) = (p, s')" "c_proc c' = p" "w' = sys_w y"
        using head by (auto simp: cpu_head_def split: prod.splits)
      then show ?thesis using held_get [OF ok g(1)] None by (intro keep) auto
    next
      case (Some q)
      then show ?thesis using sys_inv_cpu_head [OF inv i _ head] by blast
    qed
  qed
qed

text \<open>The loader.\<close>

lemma init_mm_pcbs: "init_mm mp c w = Some (r, w') \<Longrightarrow> w_pcbs w' = w_pcbs w"
  by (auto simp: init_mm_def init_vm_rg_def host_alloc_def Let_def split: frame_splits)

lemma new_mm_pcbs: "new_mm mp raw c w = Some (r, b, w') \<Longrightarrow> w_pcbs w' = w_pcbs w"
  by (auto simp: new_mm_def Let_def host_alloc_def split: frame_splits dest: init_mm_pcbs)

lemma ld_kernel_mm_pcbs: "ld_kernel_mm mp raw c w = Some (b, w') \<Longrightarrow> w_pcbs w' = w_pcbs w"
  by (auto simp: ld_kernel_mm_def split: frame_splits dest: new_mm_pcbs)

text \<open>Registration either fails before the scheduler is called, or hands the process over.\<close>

lemma ld_register_cases:
  assumes "ld_register kmp ump raw ram swp p w s = Some (r, w', s')"
  obtains c mp u where "w_pcbs w p = Some c"
    and "w_pcbs u = w_pcbs w \<or> w_pcbs u = (w_pcbs w)(p \<mapsto> c\<lparr>p_mm := mp\<rparr>)"
    and "w' = u \<and> s' = s \<or> add_proc p u s = Some (w', s')"
proof -
  obtain c b w1 where c: "w_pcbs w p = Some c" and k: "ld_kernel_mm kmp raw c w = Some (b, w1)"
    using assms by (auto simp: ld_register_def split: bind_splits)
  have p1: "w_pcbs w1 = w_pcbs w" by (rule ld_kernel_mm_pcbs [OF k])
  show thesis
  proof (cases b)
    case False
    then have "w' = w1 \<and> s' = s" using assms c k by (auto simp: ld_register_def)
    then show ?thesis by (intro that [of c w1]) (use c p1 in auto)
  next
    case True
    define w2 where "w2 = set_mswp (set_mram w1 (Some (case mram w1 of None \<Rightarrow> ram | Some d \<Rightarrow> d)))
      (Some (case mswp w1 of None \<Rightarrow> swp | Some d \<Rightarrow> d))"
    obtain mp ok w3 where n: "new_mm ump raw c w2 = Some (mp, ok, w3)"
      using assms c k True by (auto simp: ld_register_def Let_def w2_def split: bind_splits)
    define w4 where "w4 = w3\<lparr>w_pcbs := (w_pcbs w3)(p \<mapsto> c\<lparr>p_mm := mp\<rparr>)\<rparr>"
    have p4: "w_pcbs w4 = (w_pcbs w)(p \<mapsto> c\<lparr>p_mm := mp\<rparr>)"
      using new_mm_pcbs [OF n] p1 by (simp add: w4_def w2_def)
    have "w' = w4 \<and> s' = s \<or> (\<exists>t. add_proc p (w4\<lparr>w_os := (w_os w4)\<lparr>k_proc_table := t\<rparr>\<rparr>) s = Some (w', s'))"
      using assms c k True n
      by (auto simp: ld_register_def Let_def w2_def w4_def split: bind_splits if_splits)
    then show ?thesis
    proof (elim disjE exE)
      assume "w' = w4 \<and> s' = s"
      then show ?thesis by (intro that [of c w4 mp]) (use c p4 in auto)
    next
      fix t
      assume "add_proc p (w4\<lparr>w_os := (w_os w4)\<lparr>k_proc_table := t\<rparr>\<rparr>) s = Some (w', s')"
      then show ?thesis
        by (intro that [of c "w4\<lparr>w_os := (w_os w4)\<lparr>k_proc_table := t\<rparr>\<rparr>" mp]) (use c p4 in auto)
    qed
  qed
qed

lemma ld_register_spec:
  assumes ok: "sched_ok s" and reg: "ld_register kmp ump raw ram swp p w s = Some (r, w', s')"
  shows "sched_ok s' \<and> held_ready s' \<subseteq># held_ready s + {#p#} \<and> same_pcb w w' q
    \<and> (\<forall>k. \<forall>x \<in> set (ready s' k). x \<in> set (ready s k) \<or> sched_pcb w x k)"
proof (rule ld_register_cases [OF reg])
  fix c mp u
  assume c: "w_pcbs w p = Some c"
    and u: "w_pcbs u = w_pcbs w \<or> w_pcbs u = (w_pcbs w)(p \<mapsto> c\<lparr>p_mm := mp\<rparr>)"
    and w': "w' = u \<and> s' = s \<or> add_proc p u s = Some (w', s')"
  have same: "same_pcb w u q" using u c by (auto simp: same_pcb_def)
  have pcb: "sched_pcb u x k \<longleftrightarrow> sched_pcb w x k" for x k
    using u c by (cases "x = p") (auto simp: sched_pcb_def)
  from w' show ?thesis
  proof
    assume "w' = u \<and> s' = s"
    then show ?thesis using same ok by simp
  next
    assume "add_proc p u s = Some (w', s')"
    then have "handed p u s w' s'" by (rule handed_put_add(2) [OF ok])
    then show ?thesis using same unfolding handed_def pcb by (auto simp: same_pcb_def)
  qed
qed

lemma sys_inv_ld_load:
  assumes inv: "sys_inv y" and pc: "l_pc (sys_ld y) = L_Load" and fresh: "w_pcbs (sys_w y) p = None"
    and ld: "ld_load p raw raw_text e a (sys_w y) = Some (Some (pid, w'))"
  shows "sys_inv (y\<lparr>sys_w := w', sys_ld := (sys_ld y)\<lparr>l_pc := L_Wait p, l_avail_pid := pid\<rparr>\<rparr>)" (is "sys_inv ?y'")
proof -
  obtain c where c: "w_pcbs w' = (w_pcbs (sys_w y))(p \<mapsto> c)" "p_krnl c"
    using ld by (auto simp: ld_load_def split: bind_splits)
  have new: "p \<notin># held y" using inv fresh unfolding sys_inv_def by fastforce
  have h: "held ?y' = held y + {#p#}" using pc by (simp add: held_def held_ld_def)
  have lvl: "q \<noteq> p" if "q \<in> set (ready (sys_s y) k)" for q k
    using that new by blast
  show ?thesis
    using inv c new lvl unfolding sys_inv_def h
    by (auto simp: count_eq_zero_iff [symmetric] split: if_splits)
qed

lemma sys_inv_ld_register:
  assumes inv: "sys_inv y" and pc: "l_pc (sys_ld y) = L_Wait p"
    and reg: "ld_register kmp ump raw ram swp p (sys_w y) (sys_s y) = Some (r, w', s')"
  shows "sys_inv (y\<lparr>sys_w := w', sys_s := s',
    sys_ld := (sys_ld y)\<lparr>l_pc := if r then L_Slot else L_Failed\<rparr>\<rparr>)" (is "sys_inv ?y'")
proof (rule sys_inv_keep [OF inv])
  have "sched_ok (sys_s y)" using inv by (simp add: sys_inv_def)
  note spec = ld_register_spec [OF this reg]
  then show "sched_ok (sys_s ?y')" by simp
  show "held ?y' \<subseteq># held y" using spec pc by (simp add: held_def held_ld_def ac_simps)
  show "same_pcb (sys_w y) (sys_w ?y') q" for q using spec by simp
  show "q \<in> set (ready (sys_s y) k) \<or> sched_pcb (sys_w y) q k" if "q \<in> set (ready (sys_s ?y') k)" for k q
    using spec that by simp
qed

lemma sys_inv_step:
  assumes inv: "sys_inv y" and step: "sys_step cfg y y'"
  shows "sys_inv y'"
  using step
proof cases
  case (Cpu i c' w' s')
  then show ?thesis using sys_inv_cpu_step [OF inv, of i] by (simp add: with_cpu_def)
next
  case (Ld_Load p raw raw_text pid w')
  then show ?thesis using sys_inv_ld_load [OF inv] by blast
next
  case (Ld_Register p kmp ump rawm ok w' s')
  then show ?thesis using sys_inv_ld_register [OF inv] by blast
qed (use inv in \<open>auto simp: sys_inv_def held_def held_ld_def ld_start_def\<close>)

lemma zero_queue_ok: "queue_ok zero_queue" "queue_items (zero_queue\<lparr>q_size := 0\<rparr>) = []"
  by (simp_all add: queue_ok_def zero_queue_def queue_items_def)

lemma ready_sched_init [simp]: "ready sched_init k = []"
  using zero_queue_ok by (simp add: ready_def sched_init_def init_scheduler_def)

lemma sched_ok_init: "sched_ok sched_init"
  using zero_queue_ok(1)
  by (auto simp: sched_ok_def sched_init_def init_scheduler_def slots_ok_def list_all_length queue_ok_def)

lemma sys_inv_init: "sys_inv (sys_init n h)"
proof -
  have "held (sys_init n h) = {#}"
    by (simp add: held_def held_ready_def sys_init_def held_cpus_def cpu_init_def held_ld_def ld_init_def)
  then show ?thesis using sched_ok_init by (simp add: sys_inv_def) (simp add: sys_init_def)
qed

lemma sys_reach_inv: "sys_reach cfg n h y \<Longrightarrow> sys_inv y"
  by (induction rule: sys_reach.induct) (auto intro: sys_inv_init sys_inv_step)

text \<open>A process held twice would be counted twice.\<close>

lemma held_once:
  assumes "sys_inv y" and "i < length (sys_cpus y)" and "c_proc (sys_cpus y ! i) = Some p"
  shows "p \<notin># held_ready (sys_s y) + held_ld (sys_ld y)"
    and "j < length (sys_cpus y) \<Longrightarrow> j \<noteq> i \<Longrightarrow> c_proc (sys_cpus y ! j) \<noteq> Some p"
proof -
  let ?f = "\<lambda>j. ptr_mset (c_proc (sys_cpus y ! j))"
  have cpus: "held_cpus (sys_cpus y) = ?f i + (\<Sum>j\<in>{..<length (sys_cpus y)} - {i}. ?f j)"
    unfolding held_cpus_def using assms(2) by (intro sum.remove) auto
  have one: "count (held y) p \<le> 1" using assms(1) by (simp add: sys_inv_def)
  then have rest: "p \<notin># held_ready (sys_s y) + held_ld (sys_ld y)"
    "p \<notin># (\<Sum>j\<in>{..<length (sys_cpus y)} - {i}. ?f j)"
    using cpus assms(3) by (auto simp: held_def count_eq_zero_iff [symmetric])
  show "p \<notin># held_ready (sys_s y) + held_ld (sys_ld y)" by (rule rest)
  assume j: "j < length (sys_cpus y)" "j \<noteq> i"
  have "(\<Sum>j\<in>{..<length (sys_cpus y)} - {i}. ?f j)
      = ?f j + (\<Sum>j\<in>{..<length (sys_cpus y)} - {i} - {j}. ?f j)"
    using j by (intro sum.remove) auto
  then show "c_proc (sys_cpus y ! j) \<noteq> Some p" using rest(2) by auto
qed

section \<open>A small configuration\<close>

text \<open>One processor and one program of two instructions, for the examples below.\<close>

definition ex_pcb :: pcb_t where
  "ex_pcb = \<lparr>p_pid = 0, p_priority = 0, p_code = [], p_regs = replicate 10 0, p_pc = 0, p_prio = 0,
     p_krnl = False, p_bp = 0, p_mm = None\<rparr>"

lemma ex_pcb_regs: "length (p_regs ex_pcb) = 10"
  by (simp add: ex_pcb_def)

definition ex_inst :: inst_t where "ex_inst = \<lparr>opcode = CALC, arg_0 = 0, arg_1 = 0, arg_2 = 0, arg_3 = 0\<rparr>"
definition ex_mm :: mm_struct where
  "ex_mm = \<lparr>mm_pgd = None, mm_mmap = [],
     mm_symrgtbl = replicate PAGING_MAX_SYMTBL_SZ \<lparr>rg_vmaid = 0, rg_start = 0, rg_end = 0\<rparr>,
     mm_fifo_pgn = [], mm_kcpooltbl = None,
     mm_stats = \<lparr>pgtbl_walks = 0, pgtbl_level_reads = 0, pgtbl_level_writes = 0,
       pgtbl_tables_allocated = 0, pgtbl_storage_bytes = 0\<rparr>\<rparr>"
definition ex_cfg :: sys_cfg where
  "ex_cfg = \<lparr>cfg_time_slot = 2,
     cfg_entries = [\<lparr>le_file = Some ''1 2 calc calc'', le_start = 0, le_prio = 3\<rparr>],
     cfg_ram = \<lparr>storage = [], maxsz = 0, rdmflg = True, cursor = 0, free_fp_list = [], used_fp_list = []\<rparr>,
     cfg_swp = \<lparr>storage = [], maxsz = 0, rdmflg = True, cursor = 0, free_fp_list = [], used_fp_list = []\<rparr>\<rparr>"

definition ex_loaded :: pcb_t where
  "ex_loaded = ex_pcb\<lparr>p_pid := 1, p_priority := 1, p_code := [ex_inst, ex_inst], p_bp := 0x400\<rparr>"

lemma ex_load: "load ex_pcb (\<lambda>n. replicate n ex_inst) (Some ''1 2 calc calc'') 1 = Some (Some (ex_loaded, 2))"
  by code_simp


lemma ex_register:
  assumes "w_pcbs w 7 = Some c" and "k_mm (w_os w) = None" and "mram w = None" and "mswp w = None"
    and "8 \<le> w_hostmem w" and "length (k_proc_table (w_os w)) = 255" and "p_pid c = 1"
    and "p_krnl c" and "p_prio c = 3" and "sched_ok s" and "ready s = (\<lambda>_. [])"
  shows "\<exists>w' s'. ld_register 0 1 ex_mm ram swp 7 w s = Some (True, w', s') \<and> sched_ok s'
    \<and> ready s' = (\<lambda>_. [])(3 := [7]) \<and> s_slot s' = s_slot s"
proof -
  have pcb: "sched_pcb w 7 3" using assms by (simp add: sched_pcb_def MAX_PRIO_def)
  obtain w' s' where "ld_register 0 1 ex_mm ram swp 7 w s = Some (True, w', s')"
    "mlq_enqueue 3 7 s = Some s'"
    using assms sched_okD(2) [OF assms(10)]
    by (simp add: ld_register_def ld_kernel_mm_def new_mm_def init_mm_def init_vm_rg_def host_alloc_def
        Let_def add_proc_def add_mlq_proc_def publish_queues_def mlq_enqueue_def MAX_PRIO_def)
  then show ?thesis
    using mlq_enqueue_spec [OF assms(10), of 3 7] assms(11)
    by (auto simp: MAX_PRIO_def MAX_QUEUE_SIZE_def)
qed

lemma ex_reach_any:
  assumes "cfg_entries cfg = [\<lparr>le_file = Some f, le_start = 0, le_prio = 3\<rparr>]" and "p_pid c0 = 1" and "8 \<le> h"
    and "load ex_pcb (\<lambda>n. replicate n ex_inst) (Some f) 1 = Some (Some (c0, 2))"
  shows "\<exists>y. sys_reach cfg 1 h y \<and> ready (sys_s y) = (\<lambda>_. [])(3 := [7]) \<and> s_slot (sys_s y) = slot_quota
     \<and> sys_cpus y = [cpu_init]"
proof -
  define y1 where "y1 = (sys_init 1 h)\<lparr>sys_w := ld_start (world_init h), sys_ld := ld_init\<lparr>l_pc := L_Load\<rparr>\<rparr>"
  have "sys_step cfg (sys_init 1 h) y1"
    using sys_step.Ld_Start [of "sys_init 1 h" cfg] by (simp add: y1_def sys_init_def ld_init_def)
  then have r1: "sys_reach cfg 1 h y1" by (rule sys_reach.Step [OF sys_reach.Init])
  define c where "c = c0\<lparr>p_krnl := True, p_prio := 3\<rparr>"
  define y2 where "y2 = y1\<lparr>sys_w := (sys_w y1)\<lparr>w_pcbs := (w_pcbs (sys_w y1))(7 \<mapsto> c)\<rparr>,
    sys_ld := (sys_ld y1)\<lparr>l_pc := L_Wait 7, l_avail_pid := 2\<rparr>\<rparr>"
  have "sys_step cfg y1 y2"
    unfolding y2_def
    by (rule sys_step.Ld_Load [of _ _ _ ex_pcb "\<lambda>n. replicate n ex_inst"])
      (simp_all add: y1_def sys_init_def ld_init_def assms ld_start_def world_init_def ld_load_def
        c_def ex_pcb_regs)
  then have r2: "sys_reach cfg 1 h y2" by (rule sys_reach.Step [OF r1])
  have ok: "sched_ok (sys_s y2)" using sys_reach_inv [OF r2] by (simp add: sys_inv_def)
  have empty: "ready (sys_s y2) = (\<lambda>_. [])"
    by (simp add: y2_def y1_def sys_init_def fun_eq_iff ready_sched_init)
  obtain w3 s3 where reg: "ld_register 0 1 ex_mm (cfg_ram cfg) (cfg_swp cfg) 7 (sys_w y2) (sys_s y2)
      = Some (True, w3, s3)" and ok3: "sched_ok s3" and rd3: "ready s3 = (\<lambda>_. [])(3 := [7])"
    and sl3: "s_slot s3 = s_slot (sys_s y2)"
    using ex_register [OF _ _ _ _ _ _ _ _ _ ok empty, of "sys_w y2" c]
    by (force simp: y2_def y1_def ld_start_def world_init_def c_def assms PID_MAX_def sys_init_def)
  define y3 where "y3 = y2\<lparr>sys_w := w3, sys_s := s3, sys_ld := (sys_ld y2)\<lparr>l_pc := L_Slot\<rparr>\<rparr>"
  have "sys_step cfg y2 y3"
    using sys_step.Ld_Register [OF _ _ _ _ _ _ reg]
    by (simp add: ex_mm_def y3_def y2_def y1_def sys_init_def ld_init_def assms ld_start_def world_init_def)
  then have r3: "sys_reach cfg 1 h y3" by (rule sys_reach.Step [OF r2])
  have "s_slot (sys_s y2) = slot_quota"
    by (simp add: y2_def y1_def sys_init_def sched_init_def init_scheduler_def)
  then show ?thesis
    using r3 rd3 sl3 by (intro exI [of _ y3]) (simp add: y3_def y2_def y1_def sys_init_def)
qed

lemma ex_reach:
  "\<exists>y. sys_reach ex_cfg 1 20 y \<and> ready (sys_s y) = (\<lambda>_. [])(3 := [7]) \<and> s_slot (sys_s y) = slot_quota
     \<and> sys_cpus y = [cpu_init]"
  by (rule ex_reach_any [OF _ _ _ ex_load]) (simp_all add: ex_cfg_def ex_loaded_def)

section \<open>Properties\<close>

text \<open>C7: In every reachable state of the threads, a process a processor runs is in no ready queue,
  is run by no other processor and is not in the hands of the loader.\<close>

theorem process_exclusive:
  assumes "sys_reach cfg n h y" and "i < length (sys_cpus y)" and "c_proc (sys_cpus y ! i) = Some p"
  shows "(\<forall>k. p \<notin> set (ready (sys_s y) k))
    \<and> (\<forall>j < length (sys_cpus y). j \<noteq> i \<longrightarrow> c_proc (sys_cpus y ! j) \<noteq> Some p)
    \<and> l_pc (sys_ld y) \<noteq> L_Wait p"
proof -
  note inv = sys_reach_inv [OF assms(1)]
  note once = held_once [OF inv assms(2,3)]
  have "p \<notin> set (ready (sys_s y) k)" for k
    using once(1) held_ready_mem [of p "sys_s y" k] by auto
  moreover have "l_pc (sys_ld y) \<noteq> L_Wait p" using once(1) by (auto simp: held_ld_def)
  ultimately show ?thesis using once(2) by blast
qed

theorem process_exclusive_witness:
  "\<exists>y. sys_reach ex_cfg 1 20 y \<and> c_proc (sys_cpus y ! 0) = Some 7
     \<and> (\<forall>k. 7 \<notin> set (ready (sys_s y) k))"
proof -
  obtain y where y: "sys_reach ex_cfg 1 20 y" "ready (sys_s y) = (\<lambda>_. [])(3 := [7])"
    "s_slot (sys_s y) = slot_quota" "sys_cpus y = [cpu_init]"
    using ex_reach by blast
  have ok: "sched_ok (sys_s y)" using sys_reach_inv [OF y(1)] by (simp add: sys_inv_def)
  have "fst (get_mlq_proc (sys_s y)) = Some 7"
    using ok
  proof (cases rule: get_mlq_cases)
    case (refill k)
    then show ?thesis using refill(3) [rule_format, of 3] y(2,3) by (simp add: MAX_PRIO_def)
  qed (use y(2) in \<open>auto simp: fun_eq_iff split: if_splits\<close>)
  then obtain s' where g: "get_proc (sys_s y) = (Some 7, s')"
    by (cases "get_mlq_proc (sys_s y)") (simp add: get_proc_def)
  define y' where "y' = with_cpu y 0 (cpu_init\<lparr>c_proc := Some 7, c_pc := C_Check\<rparr>) (sys_w y) s'"
  have "sys_step ex_cfg y y'"
    using sys_step.Cpu [of 0 y ex_cfg "cpu_init\<lparr>c_proc := Some 7, c_pc := C_Check\<rparr>" "sys_w y" s'] g y(4)
    by (simp add: y'_def with_cpu_def cpu_step_def cpu_head_def cpu_init_def)
  then have r: "sys_reach ex_cfg 1 20 y'" by (rule sys_reach.Step [OF y(1)])
  have "c_proc (sys_cpus y' ! 0) = Some 7" "length (sys_cpus y') = 1"
    using y(4) by (simp_all add: y'_def with_cpu_def)
  then show ?thesis using process_exclusive [OF r, of 0 7] r by auto
qed

text \<open>C30: In every reachable state the scheduler's queues and slots are consistent, every pointer in
  a ready queue, in a processor or in the loader is a live control block attached to the kernel, and
  a waiting process is in the queue of its own priority.\<close>

theorem queued_processes_live:
  assumes "sys_reach cfg n h y"
  shows "sched_ok (sys_s y)
    \<and> (\<forall>k p. p \<in> set (ready (sys_s y) k) \<longrightarrow>
        (\<exists>c. w_pcbs (sys_w y) p = Some c \<and> p_krnl c \<and> unat (p_prio c) = k))
    \<and> (\<forall>i p. i < length (sys_cpus y) \<longrightarrow> c_proc (sys_cpus y ! i) = Some p \<longrightarrow>
        (\<exists>c. w_pcbs (sys_w y) p = Some c \<and> p_krnl c))"
proof -
  note inv = sys_reach_inv [OF assms]
  have live: "\<exists>c. w_pcbs (sys_w y) p = Some c \<and> p_krnl c" if "p \<in># held y" for p
    using inv that by (simp add: sys_inv_def)
  have "\<exists>c. w_pcbs (sys_w y) p = Some c \<and> p_krnl c \<and> unat (p_prio c) = k"
    if p: "p \<in> set (ready (sys_s y) k)" for k p
    using live [of p] held_ready_mem [OF p] inv p unfolding sys_inv_def held_def by auto
  moreover have "p \<in># held y" if "i < length (sys_cpus y)" "c_proc (sys_cpus y ! i) = Some p" for i p
    using held_cpus_mem [OF that] by (simp add: held_def)
  ultimately show ?thesis using inv live by (simp add: sys_inv_def)
qed

theorem queued_processes_live_witness:
  "\<exists>y c. sys_reach ex_cfg 1 20 y \<and> 7 \<in> set (ready (sys_s y) 3)
     \<and> w_pcbs (sys_w y) 7 = Some c \<and> p_krnl c \<and> unat (p_prio c) = 3"
proof -
  obtain y where y: "sys_reach ex_cfg 1 20 y" "ready (sys_s y) = (\<lambda>_. [])(3 := [7])"
    using ex_reach by blast
  then have m: "7 \<in> set (ready (sys_s y) 3)" by simp
  then show ?thesis using queued_processes_live [OF y(1)] y(1) by blast
qed

end
