(* ===== verification/Progress.thy ===== *)
theory Progress
  imports Os
begin

text \<open>
  The shape of the control blocks and processors in every reachable state, and the progress of the
  programs: the program counter stays inside the program, so the test for equality with the program's
  size in \<open>cpu_routine\<close> finds the end of every program, a processor runs at most
  \<open>time_slot\<close> instructions between two rounds of the scheduler, and every program ends after as
  many calls of \<open>run\<close> as it has instructions.
\<close>

section \<open>Well-formed control blocks\<close>

definition pcb_wf :: "pcb_t \<Rightarrow> bool" where
  "pcb_wf c \<longleftrightarrow> unat (p_pc c) \<le> length (p_code c) \<and> length (p_code c) < 2 ^ 32 \<and> length (p_regs c) = 10"

lemma unat_Suc32: "unat (x :: u32) < 2 ^ 32 - 1 \<Longrightarrow> unat (x + 1) = unat x + 1"
  by (simp add: unat_plus_if_size word_size)

lemma fetched_pc:
  assumes "pcb_wf c"
  shows "unat (p_pc (fetched c)) = min (length (p_code c)) (unat (p_pc c) + 1)"
  using assms unat_Suc32 [of "p_pc c"] by (auto simp: pcb_wf_def fetched_def)

lemma pcb_wf_kept:
  assumes "pcb_wf c" and "pcb_kept (fetched c) c'"
  shows "pcb_wf c'" and "p_code c' = p_code c" and "unat (p_pc c') = min (length (p_code c)) (unat (p_pc c) + 1)"
  using assms fetched_pc [OF assms(1)] by (auto simp: pcb_wf_def pcb_kept_def)

definition world_wf :: "world \<Rightarrow> bool" where
  "world_wf w \<longleftrightarrow> (\<forall>p c. w_pcbs w p = Some c \<longrightarrow> pcb_wf c)"

lemma world_wf_run: "world_wf w \<Longrightarrow> run p w = Some (r, w') \<Longrightarrow> world_wf w'"
  by (erule run_effect) (auto simp: world_wf_def intro: pcb_wf_kept(1))

text \<open>The loader fills the instruction array it was given.\<close>

lemma read_text_length: "read_text slots prev buf f = Some (Some code) \<Longrightarrow> length code = length slots"
proof (induction slots arbitrary: prev buf f code)
  case (Cons t slots)
  then show ?case by (auto split: prod.splits option.splits if_splits bind_splits)
qed simp

lemma load_wf:
  assumes "load raw raw_text file pid = Some (Some (c, pid'))" and "length (p_regs raw) = 10"
    and "\<And>n. length (raw_text n) = n"
  shows "pcb_wf c"
proof -
  obtain f vs f' where "file = Some f" and "scan_ulongs 2 f = (vs, f')"
    using assms(1) by (auto simp: load_def Let_def split: option.splits prod.splits)
  then obtain code where code: "read_text (raw_text (unat (ucast (vs ! 1) :: u32))) None None f' = Some (Some code)"
    and c: "c = raw\<lparr>p_pid := pid, p_bp := PAGE_SIZE, p_pc := 0, p_priority := ucast (vs ! 0), p_code := code\<rparr>"
    using assms(1) by (auto simp: load_def Let_def split: bind_splits if_splits)
  have "length code < 2 ^ 32"
    using read_text_length [OF code] assms(3) unsigned_less [of "ucast (vs ! 1) :: u32"] by simp
  then show ?thesis using assms(2) by (simp add: c pcb_wf_def)
qed

section \<open>Well-formed systems\<close>

text \<open>A processor with a positive time slice.\<close>

definition cpu_wf :: "int \<Rightarrow> cpu_t \<Rightarrow> bool" where
  "cpu_wf ts c \<longleftrightarrow> 0 \<le> c_time_left c \<and> c_time_left c \<le> ts
     \<and> (c_pc c = C_Run \<longrightarrow> 0 < c_time_left c \<and> c_proc c \<noteq> None)"

definition sys_wf :: "int \<Rightarrow> sys_t \<Rightarrow> bool" where
  "sys_wf ts y \<longleftrightarrow> world_wf (sys_w y) \<and> (\<forall>i < length (sys_cpus y). cpu_wf ts (sys_cpus y ! i))"

lemma cpu_wf_step:
  assumes "cpu_wf ts c" and "0 < ts" and "cpu_step ts fin c w s = Some (Some (c', w', s'))"
  shows "cpu_wf ts c'"
proof (cases "c_pc c")
  case C_Head
  then show ?thesis
    using assms by (auto simp: cpu_wf_def cpu_step_def cpu_head_def split: option.splits prod.splits bind_splits if_splits)
qed (use assms in \<open>auto simp: cpu_wf_def cpu_step_def cpu_check_def split: prod.splits bind_splits if_splits\<close>)

lemma world_wf_handed: "world_wf w \<Longrightarrow> handed p w s w' s' \<Longrightarrow> world_wf w'"
  by (simp add: world_wf_def handed_def)

lemma world_wf_cpu_step:
  assumes "world_wf w" and "sched_ok s" and "cpu_step ts fin c w s = Some (Some (c', w', s'))"
  shows "world_wf w'"
proof (cases "c_pc c")
  case C_Head
  show ?thesis
  proof (cases "c_proc c")
    case None
    then show ?thesis using C_Head assms by (auto simp: cpu_step_def cpu_head_def split: prod.splits)
  next
    case (Some q)
    then have "w' = w \<or> w_pcbs w' = (w_pcbs w)(q := None) \<or> put_proc q w s = Some (w', s')"
      using C_Head assms(3) by (auto simp: cpu_step_def cpu_head_def split: bind_splits if_splits)
    then show ?thesis
    proof (elim disjE)
      assume "put_proc q w s = Some (w', s')"
      then show ?thesis by (rule world_wf_handed [OF assms(1) handed_put_add(1) [OF assms(2)]])
    qed (use assms(1) in \<open>auto simp: world_wf_def split: if_splits\<close>)
  qed
next
  case C_Run
  then obtain q r where "run q w = Some (r, w')" using assms(3) by (auto simp: cpu_step_def split: bind_splits)
  then show ?thesis using world_wf_run [OF assms(1)] by blast
qed (use assms in \<open>auto simp: cpu_step_def split: prod.splits\<close>)

lemma world_wf_ld_load:
  assumes "world_wf w" and "ld_load p raw raw_text e a w = Some (Some (pid, w'))" and "length (p_regs raw) = 10"
    and "\<And>n. length (raw_text n) = n"
  shows "world_wf w'"
proof -
  obtain c where l: "load raw raw_text (le_file e) a = Some (Some (c, pid))"
    and w': "w' = w\<lparr>w_pcbs := (w_pcbs w)(p \<mapsto> c\<lparr>p_krnl := True, p_prio := ucast (le_prio e)\<rparr>)\<rparr>"
    using assms(2) by (auto simp: ld_load_def split: bind_splits)
  have "pcb_wf c" by (rule load_wf [OF l assms(3,4)])
  then show ?thesis using assms(1) by (auto simp: w' world_wf_def pcb_wf_def)
qed

lemma world_wf_ld_register:
  assumes "world_wf w" and "sched_ok s" and "ld_register kmp ump raw ram swp p w s = Some (r, w', s')"
  shows "world_wf w'"
proof (rule ld_register_cases [OF assms(3)])
  fix c mp u
  assume c: "w_pcbs w p = Some c" and u: "w_pcbs u = w_pcbs w \<or> w_pcbs u = (w_pcbs w)(p \<mapsto> c\<lparr>p_mm := mp\<rparr>)"
    and w': "w' = u \<and> s' = s \<or> add_proc p u s = Some (w', s')"
  have "world_wf u" using assms(1) c u by (auto simp: world_wf_def pcb_wf_def split: if_splits)
  then show ?thesis using w' world_wf_handed handed_put_add(2) [OF assms(2)] by blast
qed

lemma sys_wf_step:
  assumes wf: "sys_wf (cfg_time_slot cfg) y" and inv: "sys_inv y" and ts: "0 < cfg_time_slot cfg"
    and step: "sys_step cfg y y'"
  shows "sys_wf (cfg_time_slot cfg) y'"
proof -
  have w: "world_wf (sys_w y)" and ok: "sched_ok (sys_s y)"
    and cpu: "\<And>i. i < length (sys_cpus y) \<Longrightarrow> cpu_wf (cfg_time_slot cfg) (sys_cpus y ! i)"
    using wf inv by (auto simp: sys_wf_def sys_inv_def)
  from step show ?thesis
  proof cases
    case (Cpu i c' w' s')
    have "cpu_wf (cfg_time_slot cfg) c'" by (rule cpu_wf_step [OF cpu [OF Cpu(2)] ts Cpu(3)])
    moreover have "world_wf w'" by (rule world_wf_cpu_step [OF w ok Cpu(3)])
    ultimately show ?thesis using cpu Cpu(1,2) by (simp add: sys_wf_def nth_list_update)
  next
    case (Ld_Load p raw raw_text pid w')
    have "world_wf w'" by (rule world_wf_ld_load [OF w Ld_Load(7,5,6)])
    then show ?thesis using cpu Ld_Load(1) by (simp add: sys_wf_def)
  next
    case (Ld_Register p kmp ump rawm r w' s')
    have "world_wf w'" by (rule world_wf_ld_register [OF w ok Ld_Register(8)])
    then show ?thesis using cpu Ld_Register(1) by (simp add: sys_wf_def)
  qed (use wf in \<open>auto simp: sys_wf_def world_wf_def ld_start_def\<close>)
qed

lemma sys_reach_wf:
  assumes "0 < cfg_time_slot cfg" and "sys_reach cfg n h y"
  shows "sys_wf (cfg_time_slot cfg) y"
  using assms(2)
proof induction
  case Init
  then show ?case using assms(1) by (auto simp: sys_wf_def sys_init_def world_wf_def world_init_def cpu_wf_def cpu_init_def)
next
  case (Step y y')
  then show ?case using sys_wf_step [OF _ sys_reach_inv assms(1)] by blast
qed

section \<open>Runs of programs\<close>

text \<open>The processors call \<open>run\<close> one after the other, each on a process of its choice.\<close>

fun run_seq :: "pcb_ptr list \<Rightarrow> world \<Rightarrow> world option" where
  "run_seq [] w = Some w"
| "run_seq (p # ps) w = do {
     (r, w) \<leftarrow> run p w;
     run_seq ps w
   }"

lemma run_pcb:
  assumes "run q w = Some (r, w')" and "w_pcbs w p = Some c" and "pcb_wf c"
  obtains c' where "w_pcbs w' p = Some c'" and "pcb_wf c'" and "p_code c' = p_code c"
    and "unat (p_pc c') = min (length (p_code c)) (unat (p_pc c) + (if q = p then 1 else 0))"
proof (rule run_effect [OF assms(1)])
  fix d d'
  assume d: "w_pcbs w q = Some d" and w': "w_pcbs w' = (w_pcbs w)(q \<mapsto> d')" and kept: "pcb_kept (fetched d) d'"
  show thesis
  proof (cases "q = p")
    case True
    then have "d = c" using d assms(2) by simp
    with pcb_wf_kept [OF assms(3)] kept show ?thesis by (intro that [of d']) (simp_all add: w' True)
  next
    case False
    with assms(2,3) show ?thesis by (intro that [of c]) (simp_all add: w' pcb_wf_def)
  qed
qed

lemma run_seq_pc:
  "run_seq ps w = Some w' \<Longrightarrow> w_pcbs w p = Some c \<Longrightarrow> pcb_wf c \<Longrightarrow>
   \<exists>c'. w_pcbs w' p = Some c' \<and> p_code c' = p_code c
     \<and> unat (p_pc c') = min (length (p_code c)) (unat (p_pc c) + count_list ps p)"
proof (induction ps arbitrary: w c)
  case Nil
  then show ?case by (simp add: pcb_wf_def)
next
  case (Cons q ps)
  obtain r w1 where r: "run q w = Some (r, w1)" "run_seq ps w1 = Some w'"
    using Cons.prems(1) by (auto split: bind_splits)
  obtain c1 where c1: "w_pcbs w1 p = Some c1" "pcb_wf c1" "p_code c1 = p_code c"
    "unat (p_pc c1) = min (length (p_code c)) (unat (p_pc c) + (if q = p then 1 else 0))"
    by (rule run_pcb [OF r(1) Cons.prems(2,3)])
  show ?case using Cons.IH [OF r(2) c1(1,2)] c1(3,4) by auto
qed

text \<open>A program of \<open>calc\<close> instructions.\<close>

definition calc_only :: "world \<Rightarrow> pcb_ptr \<Rightarrow> bool" where
  "calc_only w p \<longleftrightarrow> (case w_pcbs w p of None \<Rightarrow> False | Some c \<Rightarrow> list_all (\<lambda>ins. opcode ins = CALC) (p_code c))"

lemma run_calc:
  assumes "calc_only w p"
  obtains r w' where "run p w = Some (r, w')" and "\<And>q. calc_only w' q = calc_only w q"
proof -
  obtain c where c: "w_pcbs w p = Some c" "list_all (\<lambda>ins. opcode ins = CALC) (p_code c)"
    using assms by (auto simp: calc_only_def split: option.splits)
  then have "opcode (p_code c ! unat (p_pc c)) = CALC" if "unat (p_pc c) < length (p_code c)"
    using that by (simp add: list_all_length)
  moreover define w1 where "w1 = w\<lparr>w_pcbs := (w_pcbs w)(p \<mapsto> c\<lparr>p_pc := p_pc c + 1\<rparr>)\<rparr>"
  moreover have "calc_only w1 q = calc_only w q" for q using c(1) by (simp add: w1_def calc_only_def)
  ultimately show thesis
    using c that [of 1 w] that [of 0 w1]
    by (cases "unat (p_pc c) < length (p_code c)") (simp_all add: run_def exec_inst_def calc_def)
qed

lemma run_seq_calc: "\<forall>p \<in> set ps. calc_only w p \<Longrightarrow> \<exists>w'. run_seq ps w = Some w'"
proof (induction ps arbitrary: w)
  case (Cons p ps)
  obtain r w1 where r: "run p w = Some (r, w1)" "\<And>q. calc_only w1 q = calc_only w q"
    by (rule run_calc [of w p]) (use Cons.prems in auto)
  then show ?case using Cons.IH [of w1] Cons.prems by simp
qed simp

section \<open>Properties\<close>

text \<open>C14: In every reachable state each live control block has its ten registers, a program of fewer
  than 4294967296 instructions and a program counter that does not exceed its size, so the processor's test
  for equality finds the end; with a positive time slot the time a processor has left is between
  zero and the time slot, and positive with a process at hand whenever an instruction is run.\<close>

theorem reachable_well_formed:
  assumes "sys_reach cfg n h y" and "0 < cfg_time_slot cfg"
  shows "(\<forall>p c. w_pcbs (sys_w y) p = Some c \<longrightarrow>
      unat (p_pc c) \<le> length (p_code c) \<and> length (p_code c) < 2 ^ 32 \<and> length (p_regs c) = 10)
    \<and> (\<forall>i < length (sys_cpus y). 0 \<le> c_time_left (sys_cpus y ! i) \<and> c_time_left (sys_cpus y ! i) \<le> cfg_time_slot cfg
        \<and> (c_pc (sys_cpus y ! i) = C_Run \<longrightarrow> 0 < c_time_left (sys_cpus y ! i) \<and> c_proc (sys_cpus y ! i) \<noteq> None))"
  using sys_reach_wf [OF assms(2,1)] by (auto simp: sys_wf_def world_wf_def pcb_wf_def cpu_wf_def)

theorem reachable_well_formed_witness:
  "\<exists>y c. sys_reach ex_cfg 1 20 y \<and> w_pcbs (sys_w y) 7 = Some c \<and> unat (p_pc c) \<le> length (p_code c)"
proof -
  obtain y where y: "sys_reach ex_cfg 1 20 y" "ready (sys_s y) = (\<lambda>_. [])(3 := [7])"
    using ex_reach by blast
  have "7 \<in># held y" using held_memI [of 7 y 3] y(2) by simp
  then obtain c where "w_pcbs (sys_w y) 7 = Some c" using sys_reach_inv [OF y(1)] by (auto simp: sys_inv_def)
  then show ?thesis using reachable_well_formed [OF y(1)] y(1) by (force simp: ex_cfg_def)
qed

text \<open>C15: However the calls of \<open>run\<close> for different processes interleave, a process that is run at
  least as often as it has instructions left has ended: its program counter is at the size of its
  program and further calls do nothing.  Programs of \<open>calc\<close> instructions always get there.\<close>

theorem program_terminates:
  assumes "w_pcbs w p = Some c" and "pcb_wf c" and "length (p_code c) - unat (p_pc c) \<le> count_list ps p"
  shows "(\<forall>w'. run_seq ps w = Some w' \<longrightarrow>
      (\<exists>c'. w_pcbs w' p = Some c' \<and> p_code c' = p_code c \<and> unat (p_pc c') = length (p_code c)) \<and> run p w' = Some (1, w'))
    \<and> ((\<forall>q \<in> set ps. calc_only w q) \<longrightarrow> (\<exists>w'. run_seq ps w = Some w'))"
proof (intro conjI allI impI)
  fix w'
  assume "run_seq ps w = Some w'"
  from run_seq_pc [OF this assms(1,2)] assms(3)
  show c': "\<exists>c'. w_pcbs w' p = Some c' \<and> p_code c' = p_code c \<and> unat (p_pc c') = length (p_code c)" by auto
  then show "run p w' = Some (1, w')" by (auto simp: run_def)
qed (use run_seq_calc in blast)

definition ex_two :: world where
  "ex_two = (world_init 0)\<lparr>w_pcbs := [7 \<mapsto> ex_loaded, 8 \<mapsto> ex_loaded]\<rparr>"

theorem program_terminates_witness:
  "\<exists>w' c'. run_seq [7, 8, 7] ex_two = Some w' \<and> w_pcbs w' 7 = Some c' \<and> unat (p_pc c') = 2
     \<and> run 7 w' = Some (1, w')"
proof -
  have p: "w_pcbs ex_two 7 = Some ex_loaded" "pcb_wf ex_loaded" "length (p_code ex_loaded) = 2"
    "length (p_code ex_loaded) - unat (p_pc ex_loaded) \<le> count_list [7, 8, 7] 7"
    by (simp_all add: ex_two_def pcb_wf_def ex_loaded_def ex_pcb_def)
  have "\<forall>q \<in> set [7, 8, 7]. calc_only ex_two q"
    by (simp add: calc_only_def ex_two_def ex_loaded_def ex_inst_def)
  then show ?thesis using program_terminates [OF p(1,2,4)] p(3) by metis
qed

end
