(* ===== verification/SegMem.thy ===== *)
theory SegMem
  imports Kernel
begin

text \<open>
  The obsolete segment memory of \<open>src/src/mem.c\<close> and the routines of \<open>src/src/cpu.c\<close>
  (\<open>alloc\<close>, \<open>free_data\<close>, \<open>read\<close>, \<open>write\<close>) that a build without paging would
  use.  The search of the first level is left as an empty loop in the source, so no address
  translates; what the routines do with that is modelled as written.  A translation that succeeded
  would leave the physical address uninitialised, which is undefined behaviour (\<open>None\<close>).
\<close>

section \<open>Geometry\<close>

definition ADDRESS_SIZE :: nat where [macro_defs]: "ADDRESS_SIZE = 20"
definition OFFSET_LEN :: nat where [macro_defs]: "OFFSET_LEN = 10"
definition PAGE_LEN :: nat where [macro_defs]: "PAGE_LEN = 5"
definition RAM_SIZE :: nat where [macro_defs]: "RAM_SIZE = 2 ^ ADDRESS_SIZE"
definition NUM_PAGES :: nat where [macro_defs]: "NUM_PAGES = 2 ^ (ADDRESS_SIZE - OFFSET_LEN)"
definition SEG_PAGE_SIZE :: u32 where [macro_defs]: "SEG_PAGE_SIZE = 0x400"

text \<open>The mask is computed in 32-bit unsigned arithmetic and then widened.\<close>

definition get_offset :: "addr_t \<Rightarrow> addr_t" where
  "get_offset addr = addr AND ucast (NOT (push_bit OFFSET_LEN (NOT 0 :: u32)))"

definition get_first_lv :: "addr_t \<Rightarrow> addr_t" where
  "get_first_lv addr = drop_bit (OFFSET_LEN + PAGE_LEN) addr"

definition get_second_lv :: "addr_t \<Rightarrow> addr_t" where
  "get_second_lv addr = drop_bit OFFSET_LEN addr - push_bit PAGE_LEN (get_first_lv addr)"

section \<open>State\<close>

record mem_stat_t =
  ms_proc :: u32
  ms_index :: int
  ms_next :: int

record seg_mem =
  sm_ram :: "byte list"
  sm_stat :: "mem_stat_t list"

record trans_table_t =
  tt_table :: "(addr_t \<times> addr_t) list"
  tt_size :: int

record page_table_t =
  pt_table :: "(addr_t \<times> trans_table_t option) list"
  pt_size :: int

definition init_mem :: seg_mem where
  "init_mem = \<lparr>sm_ram = replicate RAM_SIZE 0,
     sm_stat = replicate NUM_PAGES \<lparr>ms_proc = 0, ms_index = 0, ms_next = 0\<rparr>\<rparr>"

section \<open>Translation\<close>

text \<open>The empty loop over the rows reads only their number; the table must exist.\<close>

definition get_trans_table :: "addr_t \<Rightarrow> page_table_t option \<Rightarrow> trans_table_t option option" where
  "get_trans_table index page_table = do {
     t \<leftarrow> page_table;
     Some None
   }"

fun trans_scan :: "(addr_t \<times> addr_t) list \<Rightarrow> nat \<Rightarrow> addr_t \<Rightarrow> bool option" where
  "trans_scan rows 0 second_lv = Some False"
| "trans_scan [] (Suc n) second_lv = None"
| "trans_scan ((v_index, p_index) # rows) (Suc n) second_lv =
     (if v_index = second_lv then Some True else trans_scan rows n second_lv)"

text \<open>Whether the address is valid; the physical address is never written.\<close>

definition translate :: "addr_t \<Rightarrow> page_table_t option \<Rightarrow> bool option" where
  "translate virtual_addr page_table = do {
     let first_lv = get_first_lv virtual_addr;
     let second_lv = get_second_lv virtual_addr;
     trans_table \<leftarrow> get_trans_table first_lv page_table;
     (case trans_table of
        None \<Rightarrow> Some False
      | Some tt \<Rightarrow> trans_scan (tt_table tt) (nat (tt_size tt)) second_lv)
   }"

section \<open>Operations\<close>

text \<open>The number of pages, with the two cases exchanged.\<close>

definition seg_num_pages :: "u32 \<Rightarrow> u32" where
  "seg_num_pages sz =
     (if sz mod SEG_PAGE_SIZE \<noteq> 0 then sz div SEG_PAGE_SIZE else sz div SEG_PAGE_SIZE + 1)"

text \<open>The address and the control block; \<open>mem_avail\<close> is set to 0 and not changed.\<close>

definition alloc_mem :: "u32 \<Rightarrow> pcb_t \<Rightarrow> addr_t \<times> pcb_t" where
  "alloc_mem sz proc =
     (let ret_mem = 0;
          num_pages = seg_num_pages sz;
          mem_avail = (0 :: int)
      in if mem_avail \<noteq> 0
         then (ucast (p_bp proc), proc\<lparr>p_bp := p_bp proc + num_pages * SEG_PAGE_SIZE\<rparr>)
         else (ret_mem, proc))"

definition free_mem :: "addr_t \<Rightarrow> pcb_t \<Rightarrow> int" where
  "free_mem address proc = 0"

text \<open>The code and the byte \<open>data\<close> points to.\<close>

definition read_mem :: "addr_t \<Rightarrow> page_table_t option \<Rightarrow> byte \<Rightarrow> seg_mem \<Rightarrow> (int \<times> byte) option" where
  "read_mem address page_table data sm = do {
     valid \<leftarrow> translate address page_table;
     if valid then None else Some (1, data)
   }"

definition write_mem :: "addr_t \<Rightarrow> page_table_t option \<Rightarrow> byte \<Rightarrow> seg_mem \<Rightarrow> (int \<times> seg_mem) option" where
  "write_mem address page_table data sm = do {
     valid \<leftarrow> translate address page_table;
     if valid then None else Some (1, sm)
   }"

section \<open>The instructions without paging\<close>

definition cpu_alloc :: "pcb_t \<Rightarrow> u32 \<Rightarrow> u32 \<Rightarrow> (int \<times> pcb_t) option" where
  "cpu_alloc proc sz reg_index =
     (case alloc_mem sz proc of
        (addr, proc) \<Rightarrow>
          if addr = 0 then Some (1, proc)
          else do {
            rs \<leftarrow> arr_set (p_regs proc) (unat reg_index) addr;
            Some (0, proc\<lparr>p_regs := rs\<rparr>)
          })"

definition cpu_free_data :: "pcb_t \<Rightarrow> u32 \<Rightarrow> int option" where
  "cpu_free_data proc reg_index = do {
     a \<leftarrow> arr_get (p_regs proc) (unat reg_index);
     Some (free_mem a proc)
   }"

text \<open>The test of the result of \<open>read_mem\<close> is the wrong way round: the failure code stores the
  uninitialised byte \<open>junk\<close>.\<close>

definition cpu_read ::
  "byte \<Rightarrow> pcb_t \<Rightarrow> page_table_t option \<Rightarrow> u32 \<Rightarrow> u32 \<Rightarrow> u32 \<Rightarrow> seg_mem \<Rightarrow> (int \<times> pcb_t) option" where
  "cpu_read junk proc page_table source offset destination sm = do {
     a \<leftarrow> arr_get (p_regs proc) (unat source);
     (r, data) \<leftarrow> read_mem (a + ucast offset) page_table junk sm;
     if r \<noteq> 0 then do {
       rs \<leftarrow> arr_set (p_regs proc) (unat destination) (scast data);
       Some (0, proc\<lparr>p_regs := rs\<rparr>)
     } else Some (1, proc)
   }"

definition cpu_write ::
  "pcb_t \<Rightarrow> page_table_t option \<Rightarrow> byte \<Rightarrow> u32 \<Rightarrow> u32 \<Rightarrow> seg_mem \<Rightarrow> (int \<times> seg_mem) option" where
  "cpu_write proc page_table data destination offset sm = do {
     a \<leftarrow> arr_get (p_regs proc) (unat destination);
     write_mem (a + ucast offset) page_table data sm
   }"

section \<open>Lemmas\<close>

lemma get_offset_mask: "get_offset a = take_bit 10 a"
  by (rule bit_word_eqI) (auto simp: get_offset_def macro_defs bit_simps)

lemma get_second_lv_bits: "get_second_lv a = take_bit 5 (drop_bit 10 a)"
proof -
  have "get_first_lv a = drop_bit 5 (drop_bit 10 a)"
    by (simp add: get_first_lv_def macro_defs)
  then have "get_second_lv a = drop_bit 10 a - push_bit 5 (drop_bit 5 (drop_bit 10 a))"
    by (simp add: get_second_lv_def macro_defs)
  also have "\<dots> = take_bit 5 (drop_bit 10 a)"
    by (metis add_diff_cancel_left' bits_ident)
  finally show ?thesis .
qed

lemma translate_none: "translate a (Some t) = Some False"
  by (simp add: translate_def get_trans_table_def Let_def)

text \<open>Splitting an address of the segment memory loses nothing.\<close>

lemma seg_address_split:
  "push_bit 15 (get_first_lv a) + push_bit 10 (get_second_lv a) + get_offset a = a"
proof -
  let ?p = "drop_bit 10 a"
  have f: "get_first_lv a = drop_bit 5 ?p" by (simp add: get_first_lv_def macro_defs)
  have "push_bit 15 (get_first_lv a) + push_bit 10 (get_second_lv a)
      = push_bit 10 (push_bit 5 (drop_bit 5 ?p) + take_bit 5 ?p)"
    by (simp add: f get_second_lv_bits push_bit_add)
  also have "\<dots> = push_bit 10 ?p" by (simp only: bits_ident)
  finally show ?thesis by (simp only: get_offset_mask bits_ident)
qed

lemma seg_index_bounds:
  "unat (get_offset a) < 2 ^ 10" "unat (get_second_lv a) < 2 ^ 5"
  "unat a < RAM_SIZE \<Longrightarrow> unat (get_first_lv a) < 2 ^ 5"
  by (simp_all add: get_offset_mask get_second_lv_bits take_bit_eq_mod unat_mod_distrib
      get_first_lv_def macro_defs drop_bit_eq_div unat_div_distrib)

section \<open>Properties\<close>

text \<open>Without paging no memory can be used: allocation always reports failure and leaves the
  process alone, every access is refused without touching the memory, and the \<open>read\<close> instruction,
  whose test is inverted, reports success and stores an uninitialised byte in the destination.\<close>

theorem segment_memory_refuses:
  assumes "unat src < length (p_regs proc)" and "unat dst < length (p_regs proc)"
  shows "alloc_mem sz proc = (0, proc) \<and> cpu_alloc proc sz dst = Some (1, proc)
    \<and> read_mem a (Some t) d sm = Some (1, d)
    \<and> cpu_write proc (Some t) d dst off sm = Some (1, sm)
    \<and> cpu_read junk proc (Some t) src off dst sm
        = Some (0, proc\<lparr>p_regs := (p_regs proc)[unat dst := scast junk]\<rparr>)"
  using assms
  by (simp add: alloc_mem_def cpu_alloc_def read_mem_def cpu_write_def write_mem_def cpu_read_def
      translate_none Let_def)

theorem segment_memory_refuses_witness:
  "cpu_read 9 \<lparr>p_pid = 1, p_priority = 0, p_code = [], p_regs = [0, 0], p_pc = 0, p_prio = 0, p_krnl = True,
       p_bp = 0, p_mm = None\<rparr> (Some \<lparr>pt_table = [], pt_size = 0\<rparr>) 0 4 1 init_mem
   = Some (0, \<lparr>p_pid = 1, p_priority = 0, p_code = [], p_regs = [0, 9], p_pc = 0, p_prio = 0, p_krnl = True,
       p_bp = 0, p_mm = None\<rparr>)"
  using segment_memory_refuses [of 0 "\<lparr>p_pid = 1, p_priority = 0, p_code = [], p_regs = [0, 0], p_pc = 0, p_prio = 0,
       p_krnl = True, p_bp = 0, p_mm = None\<rparr>" 1 0 0 "\<lparr>pt_table = [], pt_size = 0\<rparr>" 0 init_mem 4 9]
  by simp

end
