(* ===== verification/Dump.thy ===== *)
theory Dump
  imports SegMem PageTable
begin

text \<open>
  The printing routines: \<open>print_list_fp\<close>, \<open>print_list_rg\<close>, \<open>print_list_vma\<close>,
  \<open>print_list_pgn\<close> and \<open>print_pgtbl\<close> of \<open>src/src/mm64.c\<close>, \<open>MEMPHY_dump\<close> of
  \<open>src/src/mm-memphy.c\<close> and \<open>dump\<close> of \<open>src/src/mem.c\<close>.  What a routine prints is a
  list of tokens: the literal text of the format and the values of its conversions.  A pointer is
  printed as whether it is set.  A null list pointer is the empty list.
\<close>

section \<open>Output\<close>

datatype out = Txt string | Nl | Addr u64 | Num int | Byte byte | Ptr bool

section \<open>Lists of the memory manager\<close>

fun fp_lines :: "addr_t list \<Rightarrow> out list" where
  "fp_lines [] = []"
| "fp_lines (fp # rest) = [Txt ''fp['', Addr fp, Txt '']'', Nl] @ fp_lines rest"

definition print_list_fp :: "addr_t list \<Rightarrow> int \<times> out list" where
  "print_list_fp ifp =
     (if ifp = [] then (- 1, [Txt ''print_list_fp: '', Txt ''NULL list'', Nl])
      else (0, [Txt ''print_list_fp: '', Nl] @ fp_lines ifp @ [Nl]))"

fun rg_lines :: "vm_rg_struct list \<Rightarrow> out list" where
  "rg_lines [] = []"
| "rg_lines (rg # rest) = [Txt ''rg['', Addr (rg_start rg), Txt ''->'', Addr (rg_end rg), Txt '']'', Nl] @ rg_lines rest"

definition print_list_rg :: "vm_rg_struct list \<Rightarrow> int \<times> out list" where
  "print_list_rg irg =
     (if irg = [] then (- 1, [Txt ''print_list_rg: '', Txt ''NULL list'', Nl])
      else (0, [Txt ''print_list_rg: '', Nl] @ rg_lines irg @ [Nl]))"

fun vma_lines :: "vm_area_struct list \<Rightarrow> out list" where
  "vma_lines [] = []"
| "vma_lines (vma # rest) =
     [Txt ''va['', Addr (vm_start vma), Txt ''->'', Addr (vm_end vma), Txt '']'', Nl] @ vma_lines rest"

definition print_list_vma :: "vm_area_struct list \<Rightarrow> int \<times> out list" where
  "print_list_vma ivma =
     (if ivma = [] then (- 1, [Txt ''print_list_vma: '', Txt ''NULL list'', Nl])
      else (0, [Txt ''print_list_vma: '', Nl] @ vma_lines ivma @ [Nl]))"

fun pgn_lines :: "addr_t list \<Rightarrow> out list" where
  "pgn_lines [] = []"
| "pgn_lines (pgn # rest) = [Txt ''va['', Addr pgn, Txt '']-'', Nl] @ pgn_lines rest"

text \<open>The last format is the letter \<open>n\<close>, without a backslash.\<close>

definition print_list_pgn :: "addr_t list \<Rightarrow> int \<times> out list" where
  "print_list_pgn ip =
     (if ip = [] then (- 1, [Txt ''print_list_pgn: '', Txt ''NULL list'', Nl])
      else (0, [Txt ''print_list_pgn: '', Nl] @ pgn_lines ip @ [Txt ''n'']))"

section \<open>The page table\<close>

definition print_pgtbl :: "pcb_t option \<Rightarrow> addr_t \<Rightarrow> addr_t \<Rightarrow> world \<Rightarrow> (int \<times> out list) option" where
  "print_pgtbl caller s e w =
     (case caller of
        None \<Rightarrow> Some (- 1, [])
      | Some c \<Rightarrow>
          (case p_mm c of
             None \<Rightarrow> Some (- 1, [])
           | Some mp \<Rightarrow> do {
               m \<leftarrow> w_mms w mp;
               let pgd_tbl = mm_pgd m;
               let p4d_tbl = do { t \<leftarrow> pgd_tbl; t 0 };
               let pud_tbl = do { t \<leftarrow> p4d_tbl; t 0 };
               let pmd_tbl = do { t \<leftarrow> pud_tbl; t 0 };
               let pt_tbl = do { t \<leftarrow> pmd_tbl; t 0 };
               let st = mm_stats m;
               Some (0, [Txt ''print_pgtbl:'', Nl,
                 Txt '' PDG='', Ptr (pgd_tbl \<noteq> None), Txt '' P4g='', Ptr (p4d_tbl \<noteq> None),
                 Txt '' PUD='', Ptr (pud_tbl \<noteq> None), Txt '' PMD='', Ptr (pmd_tbl \<noteq> None),
                 Txt '' PT='', Ptr (pt_tbl \<noteq> None), Nl,
                 Txt '' pgtbl_stats: walks='', Addr (pgtbl_walks st),
                 Txt '' level_reads='', Addr (pgtbl_level_reads st),
                 Txt '' level_writes='', Addr (pgtbl_level_writes st),
                 Txt '' total_accesses='', Addr (pgtbl_level_reads st + pgtbl_level_writes st),
                 Txt '' tables='', Addr (pgtbl_tables_allocated st),
                 Txt '' storage_bytes='', Addr (pgtbl_storage_bytes st), Nl])
             }))"

section \<open>A device\<close>

fun frame_items :: "addr_t list \<Rightarrow> out list" where
  "frame_items [] = []"
| "frame_items (fp # rest) = [Addr fp, Txt '' ''] @ frame_items rest"

text \<open>The loop of the hexadecimal dump, at index \<open>i\<close> with \<open>n\<close> bytes left.\<close>

fun hex_loop :: "byte list \<Rightarrow> nat \<Rightarrow> nat \<Rightarrow> out list option" where
  "hex_loop st i 0 = Some []"
| "hex_loop st i (Suc n) = do {
     b \<leftarrow> arr_get st i;
     rest \<leftarrow> hex_loop st (i + 1) n;
     Some ((if i mod 16 = 0 then [Txt ''  ['', Num (int i), Txt ''] ''] else [])
           @ [Byte b, Txt '' ''] @ (if (i + 1) mod 16 = 0 then [Nl] else []) @ rest)
   }"

definition MEMPHY_dump :: "memphy_struct option \<Rightarrow> (int \<times> out list) option" where
  "MEMPHY_dump mp =
     (case mp of
        None \<Rightarrow> Some (- 1, [])
      | Some m \<Rightarrow> do {
          let dump_bytes = (if maxsz m < 256 then maxsz m else 256);
          hex \<leftarrow> hex_loop (storage m) 0 (nat dump_bytes);
          Some (0,
            [Nl, Txt ''---- MEMPHY DUMP (maxsz='', Num (maxsz m), Txt '') ----'', Nl,
             Txt ''Free frames : ''] @ frame_items (free_fp_list m)
            @ [Txt ''(total: '', Num (int (length (free_fp_list m))), Txt '')'', Nl,
               Txt ''Used frames : ''] @ frame_items (used_fp_list m)
            @ [Txt ''(total: '', Num (int (length (used_fp_list m))), Txt '')'', Nl,
               Txt ''Storage[0..'', Num (dump_bytes - 1), Txt '']:'', Nl] @ hex
            @ (if dump_bytes mod 16 \<noteq> 0 then [Nl] else [])
            @ [Txt ''--------------------------------'', Nl, Nl])
        })"

section \<open>The segment memory\<close>

text \<open>The bytes of a page from \<open>j\<close>, \<open>n\<close> of them; zero bytes are not shown.\<close>

fun dump_bytes :: "byte list \<Rightarrow> nat \<Rightarrow> nat \<Rightarrow> out list option" where
  "dump_bytes ram j 0 = Some []"
| "dump_bytes ram j (Suc n) = do {
     b \<leftarrow> arr_get ram j;
     rest \<leftarrow> dump_bytes ram (j + 1) n;
     Some ((if b \<noteq> 0 then [Txt [CHR 0x09], Num (int j), Txt '': '', Byte b, Nl] else []) @ rest)
   }"

text \<open>The pages from \<open>i\<close>, \<open>n\<close> of them.  The inner loop ends one byte before the end of
  the page.\<close>

fun dump_pages :: "seg_mem \<Rightarrow> nat \<Rightarrow> nat \<Rightarrow> out list option" where
  "dump_pages sm i 0 = Some []"
| "dump_pages sm i (Suc n) = do {
     st \<leftarrow> arr_get (sm_stat sm) i;
     page \<leftarrow> (if ms_proc st \<noteq> 0 then do {
       bytes \<leftarrow> dump_bytes (sm_ram sm) (i * 2 ^ OFFSET_LEN) (2 ^ OFFSET_LEN - 1);
       Some ([Num (int i), Txt '': '', Num (int (i * 2 ^ OFFSET_LEN)), Txt ''-'',
              Num (int ((i + 1) * 2 ^ OFFSET_LEN) - 1), Txt '' - PID: '', Num (sint (ms_proc st)),
              Txt '' (idx '', Num (ms_index st), Txt '', nxt: '', Num (ms_next st), Txt '')'', Nl] @ bytes)
     } else Some []);
     rest \<leftarrow> dump_pages sm (i + 1) n;
     Some (page @ rest)
   }"

definition dump :: "seg_mem \<Rightarrow> out list option" where
  "dump sm = dump_pages sm 0 NUM_PAGES"

section \<open>What the dumps show\<close>

fun bytes_of :: "out list \<Rightarrow> byte list" where
  "bytes_of [] = []"
| "bytes_of (Byte b # os) = b # bytes_of os"
| "bytes_of (_ # os) = bytes_of os"

fun addrs_of :: "out list \<Rightarrow> u64 list" where
  "addrs_of [] = []"
| "addrs_of (Addr a # os) = a # addrs_of os"
| "addrs_of (_ # os) = addrs_of os"

lemma bytes_of_append [simp]: "bytes_of (xs @ ys) = bytes_of xs @ bytes_of ys"
  by (induction xs rule: bytes_of.induct) simp_all

lemma addrs_of_append [simp]: "addrs_of (xs @ ys) = addrs_of xs @ addrs_of ys"
  by (induction xs rule: addrs_of.induct) simp_all

lemma frame_items_shown [simp]: "addrs_of (frame_items fs) = fs" "bytes_of (frame_items fs) = []"
  by (induction fs) simp_all

lemma list_lines_shown:
  "addrs_of (fp_lines fs) = fs" "addrs_of (pgn_lines fs) = fs"
  by (induction fs) simp_all

lemma hex_loop_shown:
  "i + n \<le> length st \<Longrightarrow> \<exists>hex. hex_loop st i n = Some hex \<and> bytes_of hex = take n (drop i st) \<and> addrs_of hex = []"
proof (induction n arbitrary: i)
  case (Suc n)
  have "i + 1 + n \<le> length st" using Suc.prems by simp
  from Suc.IH [OF this] obtain hex where "hex_loop st (i + 1) n = Some hex"
    "bytes_of hex = take n (drop (i + 1) st)" "addrs_of hex = []" by blast
  moreover have "drop i st = st ! i # drop (i + 1) st" using Suc.prems by (simp add: Cons_nth_drop_Suc)
  ultimately show ?case using Suc.prems by simp
qed simp

section \<open>Properties\<close>

text \<open>\<open>MEMPHY_dump\<close> stays inside the device and shows its state: on a device whose capacity is
  covered by its storage it lists the free frames and the used frames in order, and the first bytes
  of the storage, at most 256 of them.\<close>

theorem memphy_dump_shows_device:
  assumes "nat (maxsz m) \<le> length (storage m)"
  shows "\<exists>os. MEMPHY_dump (Some m) = Some (0, os) \<and> addrs_of os = free_fp_list m @ used_fp_list m
    \<and> bytes_of os = take (min 256 (nat (maxsz m))) (storage m)"
proof -
  let ?n = "nat (if maxsz m < 256 then maxsz m else 256)"
  have n: "?n = min 256 (nat (maxsz m))" by auto
  have "0 + ?n \<le> length (storage m)" using assms by auto
  then obtain hex where "hex_loop (storage m) 0 ?n = Some hex" "bytes_of hex = take ?n (storage m)" "addrs_of hex = []"
    using hex_loop_shown [of 0 ?n "storage m"] by auto
  then show ?thesis unfolding n by (simp add: MEMPHY_dump_def Let_def n)
qed

theorem memphy_dump_shows_device_witness:
  "\<exists>os. MEMPHY_dump (Some ex_dev) = Some (0, os) \<and> addrs_of os = [0, 1, 2] \<and> bytes_of os = replicate 8 0"
  using memphy_dump_shows_device [of ex_dev] by (simp add: ex_dev_def)

end
