(* ===== verification/Paging.thy ===== *)
theory Paging
  imports Progress Dump
begin

text \<open>
  The test driver \<open>src/src/paging.c\<close>: it loads one program twice, runs the two processes in turn
  and prints the segment memory.  The kernel pointer of the two processes is what the host left in the
  block, here a field of the parameters.
\<close>

text \<open>The loop of \<open>main\<close> with \<open>n\<close> rounds to go.\<close>

fun paging_loop :: "pcb_ptr \<Rightarrow> pcb_ptr \<Rightarrow> nat \<Rightarrow> world \<Rightarrow> world option" where
  "paging_loop ld proc 0 w = Some w"
| "paging_loop ld proc (Suc n) w = do {
     (r, w) \<leftarrow> run proc w;
     (r, w) \<leftarrow> run ld w;
     paging_loop ld proc n w
   }"

text \<open>\<open>main\<close> on the contents of \<open>input/p0\<close>.  \<open>raw\<close> and \<open>raw_text\<close> are the
  blocks the loader gets from the host for the two processes; \<open>mem\<close> is the segment memory.  The
  outer option is undefined behaviour, the inner one \<open>exit(1)\<close>.\<close>

definition paging_main ::
  "pcb_t \<Rightarrow> pcb_t \<Rightarrow> (nat \<Rightarrow> inst_t list) \<Rightarrow> string option \<Rightarrow> pcb_ptr \<Rightarrow> pcb_ptr \<Rightarrow> seg_mem \<Rightarrow> world \<Rightarrow>
   (world \<times> out list) option option" where
  "paging_main raw1 raw2 raw_text file ld proc mem w = do {
     r1 \<leftarrow> load raw1 raw_text file 1;
     (case r1 of
        None \<Rightarrow> Some None
      | Some (c1, avail_pid) \<Rightarrow> do {
          r2 \<leftarrow> load raw2 raw_text file avail_pid;
          (case r2 of
             None \<Rightarrow> Some None
           | Some (c2, avail_pid) \<Rightarrow> do {
               w \<leftarrow> paging_loop ld proc (length (p_code c2)) (w\<lparr>w_pcbs := (w_pcbs w)(ld \<mapsto> c1, proc \<mapsto> c2)\<rparr>);
               txt \<leftarrow> dump mem;
               Some (Some (w, txt))
             })
        })
   }"

text \<open>The loop is an interleaving of runs, so both programs are at their end after it.\<close>

lemma paging_loop_runs: "paging_loop ld proc n w = run_seq (concat (replicate n [proc, ld])) w"
  by (induction n arbitrary: w) (auto split: bind_splits)

lemma paging_count: "count_list (concat (replicate n [proc, ld])) proc \<ge> n" "count_list (concat (replicate n [proc, ld])) ld \<ge> n"
  by (induction n) auto

lemma paging_loop_ends:
  assumes "paging_loop ld proc (length (p_code c)) w = Some w'" and "w_pcbs w p = Some c" and "pcb_wf c"
    and "p = ld \<or> p = proc"
  shows "\<exists>c'. w_pcbs w' p = Some c' \<and> unat (p_pc c') = length (p_code c)"
  using run_seq_pc [OF assms(1) [unfolded paging_loop_runs] assms(2,3)] assms(4)
    paging_count [of "length (p_code c)" proc ld] by fastforce

end
