(* ===== verification/Regions.thy ===== *)
theory Regions
  imports Libmem
begin

text \<open>
  The region allocator of \<open>src/src/libmem.c\<close> (\<open>__alloc\<close>, \<open>__free\<close>,
  \<open>get_free_vmrg_area\<close>) over the area growth of \<open>src/src/mm-vm.c\<close>
  (\<open>inc_vma_limit\<close>): the regions a process has been given and the regions on the free list of
  its area never overlap.
\<close>

section \<open>Spans\<close>

definition rg_span :: "vm_rg_struct \<Rightarrow> nat set" where
  "rg_span rg = {unat (rg_start rg)..<unat (rg_end rg)}"

definition spans :: "vm_rg_struct list \<Rightarrow> nat set" where
  "spans l = (\<Union>rg \<in> set l. rg_span rg)"

lemma spans_simps [simp]:
  "spans [] = {}" "spans (rg # l) = rg_span rg \<union> spans l" "spans (k @ l) = spans k \<union> spans l"
  by (auto simp: spans_def)

text \<open>Regions that end by \<open>b\<close> and do not overlap.\<close>

definition rg_wf :: "nat \<Rightarrow> vm_rg_struct \<Rightarrow> bool" where
  "rg_wf b rg \<longleftrightarrow> unat (rg_start rg) \<le> unat (rg_end rg) \<and> unat (rg_end rg) \<le> b"

primrec regions_ok :: "nat \<Rightarrow> vm_rg_struct list \<Rightarrow> bool" where
  "regions_ok b [] = True"
| "regions_ok b (rg # l) = (rg_wf b rg \<and> rg_span rg \<inter> spans l = {} \<and> regions_ok b l)"

lemma regions_ok_append:
  "regions_ok b (k @ l) \<longleftrightarrow> regions_ok b k \<and> regions_ok b l \<and> spans k \<inter> spans l = {}"
  by (induction k) auto

lemma regions_ok_wf: "regions_ok b l \<Longrightarrow> rg \<in> set l \<Longrightarrow> rg_wf b rg"
  by (induction l) auto

lemma regions_ok_mono: "regions_ok b l \<Longrightarrow> b \<le> b' \<Longrightarrow> regions_ok b' l"
  by (induction l) (auto simp: rg_wf_def)

lemma regions_ok_bound: "regions_ok b l \<Longrightarrow> spans l \<subseteq> {..<b}"
  by (induction l) (auto simp: rg_wf_def rg_span_def)

lemma spans_update: "spans (l[i := r]) \<subseteq> spans l \<union> rg_span r"
  by (auto simp: spans_def dest!: set_update_subset_insert [THEN subsetD])

lemma regions_ok_update:
  "regions_ok b l \<Longrightarrow> rg_wf b r \<Longrightarrow> rg_span r \<inter> spans l = {} \<Longrightarrow> regions_ok b (l[i := r])"
proof (induction l arbitrary: i)
  case (Cons a l)
  then show ?case using spans_update [of l _ r] by (cases i) fastforce+
qed simp

lemma nth_span: "i < length l \<Longrightarrow> rg_span (l ! i) \<subseteq> spans l"
  by (auto simp: spans_def intro: nth_mem)

text \<open>Blanking an entry takes its span out.\<close>

lemma spans_blank:
  "regions_ok b l \<Longrightarrow> i < length l \<Longrightarrow> rg_span r = {} \<Longrightarrow>
   spans (l[i := r]) \<inter> rg_span (l ! i) = {} \<and> spans (l[i := r]) \<union> rg_span (l ! i) = spans l"
proof (induction l arbitrary: i)
  case (Cons a l)
  then show ?case using Cons.IH [of "i - 1"] nth_span [of "i - 1" l] by (cases i) auto
qed simp

section \<open>First fit\<close>

lemma unat_add_small: "unat x + unat y < 2 ^ 64 \<Longrightarrow> unat (x + y :: u64) = unat x + unat y"
  using unsigned_less [of x] by (simp add: unat_plus_if_size word_size)

lemma free_fit_spec:
  assumes "regions_ok b l" and "b + unat sz < 2 ^ 64" and "free_fit l sz = Some ((s, e), l')"
  shows "e = s + sz \<and> unat e = unat s + unat sz \<and> unat e \<le> b
    \<and> {unat s..<unat e} \<union> spans l' = spans l \<and> {unat s..<unat e} \<inter> spans l' = {} \<and> regions_ok b l'"
  using assms
proof (induction l sz arbitrary: l' rule: free_fit.induct)
  case (2 rg nx sz)
  have wf: "unat (rg_start rg) \<le> unat (rg_end rg)" "unat (rg_end rg) \<le> b" "rg_span rg \<inter> spans nx = {}"
    "regions_ok b nx"
    using "2.prems"(1) by (auto simp: rg_wf_def)
  have add: "unat (rg_start rg + sz) = unat (rg_start rg) + unat sz"
    using wf "2.prems"(2) by (intro unat_add_small) simp
  show ?case
  proof (cases "rg_start rg + sz \<le> rg_end rg")
    case True
    then have le: "unat (rg_start rg) + unat sz \<le> unat (rg_end rg)" using add by (simp add: word_le_nat_alt)
    have se: "s = rg_start rg" "e = rg_start rg + sz" using "2.prems"(3) True by auto
    show ?thesis
    proof (cases "rg_start rg + sz < rg_end rg")
      case lt: True
      then have "l' = rg\<lparr>rg_start := rg_start rg + sz\<rparr> # nx" using "2.prems"(3) True by auto
      moreover have "x < unat (rg_start rg) \<or> unat (rg_end rg) \<le> x" if "x \<in> spans nx" for x
      proof -
        have "x \<notin> rg_span rg" using wf(3) that by blast
        then show ?thesis by (auto simp: rg_span_def)
      qed
      ultimately show ?thesis
        using se add le wf by (auto simp: rg_span_def rg_wf_def; fastforce)
    next
      case False
      then have end_eq: "rg_end rg = rg_start rg + sz" using True by simp
      have l': "l' = (case nx of
                     nextrg # rest \<Rightarrow> rg\<lparr>rg_start := rg_start nextrg, rg_end := rg_end nextrg\<rparr> # rest
                   | [] \<Rightarrow> [rg\<lparr>rg_start := rg_end rg\<rparr>])"
        using "2.prems"(3) True False by auto
      show ?thesis
      proof (cases nx)
        case Nil
        then show ?thesis using se add wf end_eq l' by (auto simp: rg_span_def rg_wf_def)
      next
        case (Cons a rest)
        then show ?thesis using se add wf end_eq l' by (auto simp: rg_span_def rg_wf_def)
      qed
    qed
  next
    case False
    then obtain l2 where l2: "free_fit nx sz = Some ((s, e), l2)" "l' = rg # l2"
      using "2.prems"(3) by (auto split: option.splits)
    have "e = s + sz \<and> unat e = unat s + unat sz \<and> unat e \<le> b \<and> {unat s..<unat e} \<union> spans l2 = spans nx
        \<and> {unat s..<unat e} \<inter> spans l2 = {} \<and> regions_ok b l2"
      by (rule "2.IH" [OF False wf(4) "2.prems"(2) l2(1)])
    then show ?thesis using l2(2) wf "2.prems"(1) by auto
  qed
qed simp

section \<open>What mapping pages leaves alone\<close>

definition areas :: "world \<Rightarrow> mm_ptr \<Rightarrow> (vm_area_struct list \<times> vm_rg_struct list) option" where
  "areas w mp = map_option (\<lambda>m. (mm_mmap m, mm_symrgtbl m)) (w_mms w mp)"

named_theorems area_dest \<open>operations that keep the areas and the symbol table of every descriptor\<close>

lemma areas_set [simp]:
  "areas (set_mram w d) = areas w" "areas (set_mswp w d) = areas w" "areas (w\<lparr>w_hostmem := h\<rparr>) = areas w"
  by (simp_all add: areas_def fun_eq_iff)

lemma areas_set_mm [simp]:
  "w_mms w mp = Some m \<Longrightarrow> mm_mmap m' = mm_mmap m \<Longrightarrow> mm_symrgtbl m' = mm_symrgtbl m \<Longrightarrow>
   areas (set_mm w mp m') = areas w"
  by (auto simp: areas_def fun_eq_iff)

lemma areas_host [area_dest]: "host_alloc w = (b, w') \<Longrightarrow> areas w' = areas w \<and> w_mms w' = w_mms w"
  by (auto simp: host_alloc_def)

lemmas area_splits = bind_splits option.splits if_splits prod.splits list.splits

lemma areas_get_pte_ptr [area_dest]:
  "get_pte_ptr c pgn al w = Some (p, w') \<Longrightarrow> areas w' = areas w"
  by (auto simp: get_pte_ptr_def Let_def split: area_splits)

lemma areas_pte_write [area_dest]: "pte_write w p v = Some w' \<Longrightarrow> areas w' = areas w"
  by (auto simp: pte_write_def split: bind_splits)

lemma areas_count_write [area_dest]: "count_write w mp = Some w' \<Longrightarrow> areas w' = areas w"
  by (auto simp: count_write_def Let_def split: bind_splits)

lemma areas_pte_set_fpn [area_dest]:
  "pte_set_fpn c pgn fpn w = Some (r, w') \<Longrightarrow> areas w' = areas w"
  by (auto simp: pte_set_fpn_def dest!: area_dest split: area_splits)

lemma areas_enlist_pgn_node [area_dest]: "enlist_pgn_node mp pgn w = Some w' \<Longrightarrow> areas w' = areas w"
  by (auto simp: enlist_pgn_node_def Let_def dest!: area_dest split: area_splits)

lemma areas_vmap_loop [area_dest]:
  "vmap_loop c a i n fs w = Some (e, k, w') \<Longrightarrow> areas w' = areas w"
proof (induction c a i n fs w rule: vmap_loop.induct)
  case (2 c a i n fs w)
  then show ?case by (auto simp: Let_def dest!: area_dest split: area_splits)
qed simp

lemma areas_vmap_page_range [area_dest]:
  "vmap_page_range c a n fs rg w = Some (r, rg', w') \<Longrightarrow> areas w' = areas w"
  by (auto simp: vmap_page_range_def Let_def dest!: area_dest split: area_splits)

lemma areas_alloc_loop [area_dest]: "alloc_loop n fs w = (b, fs', w') \<Longrightarrow> areas w' = areas w"
proof (induction n fs w rule: alloc_loop.induct)
  case (2 n fs w)
  then show ?case by (auto dest!: area_dest split: area_splits)
qed simp

lemma areas_put_frames [simp]: "areas (put_frames fs w) = areas w"
  by (induction fs w rule: put_frames.induct) simp_all

lemma areas_alloc_pages_range [area_dest]:
  "alloc_pages_range c n fs w = (r, fs', w') \<Longrightarrow> areas w' = areas w"
  by (auto simp: alloc_pages_range_def dest!: area_dest split: area_splits)

lemma areas_vm_map_ram [area_dest]:
  "vm_map_ram c a b e n rg w = Some (r, rg', w') \<Longrightarrow> areas w' = areas w"
  by (auto simp: vm_map_ram_def Let_def dest!: area_dest split: area_splits)

section \<open>Growing an area\<close>

lemma no_word_below_zero [simp]: "\<not> (r :: addr_t) < 0"
  by simp

text \<open>Growing the only area of a descriptor moves its two limits, whether or not the frames for
  the new pages could be allocated.\<close>

lemma inc_vma_limit_areas:
  assumes c: "p_krnl c" "p_mm c = Some mp" and a: "areas w mp = Some ([vma], tb)" and v: "vm_id vma = 0"
    and h: "0 < w_hostmem w" and inc: "inc \<noteq> 0" "unat (vm_end vma) + unat (PAGING64_PAGE_ALIGNSZ inc) < 2 ^ 64"
      "PAGING64_PAGE_ALIGNSZ inc \<noteq> 0"
    and run: "inc_vma_limit (Some c) 0 inc w = Some (r, w')"
  shows "r = 0" and "areas w' mp = Some ([vma\<lparr>vm_end := vm_end vma + PAGING64_PAGE_ALIGNSZ inc,
      vm_sbrk := vm_sbrk vma + inc\<rparr>], tb)"
proof -
  obtain m where m: "w_mms w mp = Some m" "mm_mmap m = [vma]" "mm_symrgtbl m = tb"
    using a by (auto simp: areas_def)
  let ?e = "vm_end vma + PAGING64_PAGE_ALIGNSZ inc"
  have lt: "vm_end vma < ?e"
    using unat_add_small [OF inc(2)] inc(3) by (simp add: word_less_nat_alt unat_gt_0)
  have walk: "get_vma_by_num (Some mp) 0 w = Some (Some 0)" using m v by (simp add: get_vma_by_num_def)
  have ov: "validate_overlap_vm_area (Some c) 0 (vm_end vma) ?e w = Some 0"
    using m v lt c by (simp add: validate_overlap_vm_area_def not_le)
  define m1 where "m1 = m\<lparr>mm_mmap := [vma\<lparr>vm_end := ?e, vm_sbrk := vm_sbrk vma + inc\<rparr>]\<rparr>"
  define w1 where "w1 = set_mm (w\<lparr>w_hostmem := w_hostmem w - 1\<rparr>) mp m1"
  have sl: "set_vma_limits mp 0 ?e (vm_sbrk vma + inc) (w\<lparr>w_hostmem := w_hostmem w - 1\<rparr>) = Some w1"
    using m by (simp add: set_vma_limits_def w1_def m1_def)
  obtain r1 rg where mp: "vm_map_ram (Some c) (vm_end vma) ?e (vm_end vma)
      (ucast (PAGING64_PAGE_ALIGNSZ inc div of_nat PAGING64_PAGESZ))
      (Some \<lparr>rg_vmaid = 0, rg_start = vm_end vma, rg_end = ?e\<rparr>) w1 = Some (r1, rg, w') \<and> r = 0"
    using run c inc(1) walk m ov h sl
    by (auto simp: inc_vma_limit_def host_alloc_def Let_def split: bind_splits prod.splits)
  show "r = 0" using mp by simp
  have "areas w' = areas w1" using mp areas_vm_map_ram by blast
  then show "areas w' mp = Some ([vma\<lparr>vm_end := ?e, vm_sbrk := vm_sbrk vma + inc\<rparr>], tb)"
    using m by (simp add: areas_def w1_def m1_def)
qed

section \<open>The invariant of the allocator\<close>

text \<open>One area with number 0; the regions of the symbol table and of the free list do not overlap
  and lie below the break.\<close>

definition region_inv :: "world \<Rightarrow> mm_ptr \<Rightarrow> bool" where
  "region_inv w mp \<longleftrightarrow> (case areas w mp of
     Some ([vma], tb) \<Rightarrow> vm_id vma = 0 \<and> length tb = PAGING_MAX_SYMTBL_SZ
       \<and> regions_ok (unat (vm_sbrk vma)) (tb @ vm_freerg_list vma)
   | _ \<Rightarrow> False)"

lemma region_invE:
  assumes "region_inv w mp"
  obtains m vma where "w_mms w mp = Some m" and "mm_mmap m = [vma]" and "vm_id vma = 0"
    and "length (mm_symrgtbl m) = PAGING_MAX_SYMTBL_SZ"
    and "regions_ok (unat (vm_sbrk vma)) (mm_symrgtbl m @ vm_freerg_list vma)"
  using assms by (auto simp: region_inv_def areas_def split: option.splits list.splits)

text \<open>The region of a symbol.\<close>

definition symrg :: "world \<Rightarrow> mm_ptr \<Rightarrow> nat \<Rightarrow> vm_rg_struct" where
  "symrg w mp i = mm_symrgtbl (the (w_mms w mp)) ! i"

lemma page_align_unat:
  assumes "unat (x :: u64) < 2 ^ 33"
  shows "unat (PAGING64_PAGE_ALIGNSZ x) = (unat x + 4095) div 4096 * 4096"
proof -
  have "x + 4096 - 1 = of_nat (unat x + 4095)" by simp
  then have s: "unat (x + 4096 - 1) = unat x + 4095" using assms by (simp only: unat_of_nat) simp
  have "unat (PAGING64_PAGE_ALIGNSZ x) = unat ((x + 4096 - 1) div 4096 * 4096)"
    by (simp add: PAGING64_PAGE_ALIGNSZ_def DIV_ROUND_UP_def macro_defs)
  also have "\<dots> = ((unat x + 4095) div 4096 * 4096) mod 2 ^ 64"
    by (simp only: unat_word_ariths unat_div_distrib s) (simp add: mod_simps)
  also have "\<dots> = (unat x + 4095) div 4096 * 4096"
    using assms by (intro mod_less) (auto intro: le_less_trans [OF div_times_less_eq_dividend])
  finally show ?thesis .
qed

lemma page_align_bounds:
  assumes "unat (sz :: u64) < 2 ^ 32"
  shows "unat sz \<le> unat (PAGING64_PAGE_ALIGNSZ sz)" and "unat (PAGING64_PAGE_ALIGNSZ sz) < unat sz + 4096"
    and "PAGING64_PAGE_ALIGNSZ (PAGING64_PAGE_ALIGNSZ sz) = PAGING64_PAGE_ALIGNSZ sz"
proof -
  have a: "unat (PAGING64_PAGE_ALIGNSZ sz) = (unat sz + 4095) div 4096 * 4096" using page_align_unat assms by simp
  then show b: "unat sz \<le> unat (PAGING64_PAGE_ALIGNSZ sz)" and c: "unat (PAGING64_PAGE_ALIGNSZ sz) < unat sz + 4096"
    using div_mult_mod_eq [of "unat sz + 4095" 4096] mod_less_divisor [of 4096 "unat sz + 4095"] by linarith+
  have "unat (PAGING64_PAGE_ALIGNSZ (PAGING64_PAGE_ALIGNSZ sz)) = unat (PAGING64_PAGE_ALIGNSZ sz)"
    using page_align_unat [of "PAGING64_PAGE_ALIGNSZ sz"] a c assms by simp
  then show "PAGING64_PAGE_ALIGNSZ (PAGING64_PAGE_ALIGNSZ sz) = PAGING64_PAGE_ALIGNSZ sz"
    by (simp add: word_unat_eq_iff)
qed

section \<open>Allocating\<close>

lemma ucast_scast_small: "unat (sz :: u64) < 2 ^ 31 \<Longrightarrow> scast (ucast sz :: cint) = sz"
  using frame_valid_trunc [of sz] by (simp add: frame_valid_def)

text \<open>Looking for a free region: nothing changes, or one region is carved out.\<close>

lemma get_free_vmrg_area_cases:
  assumes m: "w_mms w mp = Some m" "mm_mmap m = [vma]" "vm_id vma = 0"
    and ok: "regions_ok b (vm_freerg_list vma)" "b < 2 ^ 32" and c: "p_mm c = Some mp" and sz: "unat sz < 2 ^ 31"
    and run: "get_free_vmrg_area c 0 (ucast sz) rg0 w = Some (r, rg, w1)"
  obtains (none) "r = - 1" and "w1 = w"
  | (fit) l where "r = 0" and "w1 = set_mm w mp (m\<lparr>mm_mmap := [vma\<lparr>vm_freerg_list := l\<rparr>]\<rparr>)"
      and "snd rg = fst rg + sz" and "unat (snd rg) = unat (fst rg) + unat sz" and "unat (snd rg) \<le> b"
      and "{unat (fst rg)..<unat (snd rg)} \<union> spans l = spans (vm_freerg_list vma)"
      and "{unat (fst rg)..<unat (snd rg)} \<inter> spans l = {}" and "regions_ok b l"
proof -
  have walk: "get_vma_by_num (Some mp) 0 w = Some (Some 0)" using m by (simp add: get_vma_by_num_def)
  have sc: "scast (ucast sz :: cint) = sz" using ucast_scast_small [OF sz] .
  show thesis
  proof (cases "free_fit (vm_freerg_list vma) sz")
    case None
    then have "r = - 1 \<and> w1 = w"
      using run walk m c by (auto simp: get_free_vmrg_area_def Let_def sc split: if_splits)
    then show ?thesis using none by simp
  next
    case (Some res)
    obtain s e l where res: "res = ((s, e), l)" by (metis surj_pair)
    have ff: "free_fit (vm_freerg_list vma) sz = Some ((s, e), l)" using Some res by simp
    have sum: "b + unat sz < 2 ^ 64" using ok(2) sz by simp
    note sp = free_fit_spec [OF ok(1) sum ff]
    have ne: "vm_freerg_list vma \<noteq> []" using ff by auto
    have "unat (- 1 :: addr_t) = 2 ^ 64 - 1" by (simp add: unsigned_minus_1_eq_mask mask_eq_exp_minus_1)
    then have "s \<noteq> - 1" using sp ok(2) by auto
    then have "r = 0 \<and> rg = (s, e) \<and> w1 = set_mm w mp (m\<lparr>mm_mmap := [vma\<lparr>vm_freerg_list := l\<rparr>]\<rparr>)"
      using run walk m c ff ne by (simp add: get_free_vmrg_area_def Let_def sc)
    then show ?thesis using sp by (intro fit [of l]) (auto simp del: Un_iff)
  qed
qed

lemma set_symrg_run:
  assumes "set_symrg mp i s e w = Some w'"
  obtains m where "w_mms w mp = Some m" and "i < length (mm_symrgtbl m)"
    and "w' = set_mm w mp (m\<lparr>mm_symrgtbl := (mm_symrgtbl m)[i := (mm_symrgtbl m ! i)\<lparr>rg_start := s, rg_end := e\<rparr>]\<rparr>)"
  using assms by (auto simp: set_symrg_def split: bind_splits)

lemma region_invI:
  "w_mms w mp = Some m \<Longrightarrow> mm_mmap m = [vma] \<Longrightarrow> vm_id vma = 0 \<Longrightarrow>
   length (mm_symrgtbl m) = PAGING_MAX_SYMTBL_SZ \<Longrightarrow> spans (mm_symrgtbl m) \<inter> spans (vm_freerg_list vma) = {} \<Longrightarrow>
   regions_ok (unat (vm_sbrk vma)) (mm_symrgtbl m) \<Longrightarrow> regions_ok (unat (vm_sbrk vma)) (vm_freerg_list vma) \<Longrightarrow>
   region_inv w mp"
  by (simp add: region_inv_def areas_def regions_ok_append)

text \<open>Entering a new region that overlaps nothing.\<close>

lemma region_inv_enter:
  assumes m: "w_mms w mp = Some m" "mm_mmap m = [vma]" "vm_id vma = 0" "length (mm_symrgtbl m) = PAGING_MAX_SYMTBL_SZ"
    and ok: "regions_ok (unat (vm_sbrk vma)) (mm_symrgtbl m)" "regions_ok (unat (vm_sbrk vma)) (vm_freerg_list vma)"
      "spans (mm_symrgtbl m) \<inter> spans (vm_freerg_list vma) = {}"
    and rg: "unat s \<le> unat e" "unat e \<le> unat (vm_sbrk vma)"
      "{unat s..<unat e} \<inter> (spans (mm_symrgtbl m) \<union> spans (vm_freerg_list vma)) = {}"
    and run: "set_symrg mp i s e w = Some w'"
  shows "region_inv w' mp" and "rg_start (symrg w' mp i) = s" and "rg_end (symrg w' mp i) = e"
proof -
  let ?r = "(mm_symrgtbl m ! i)\<lparr>rg_start := s, rg_end := e\<rparr>"
  let ?t = "(mm_symrgtbl m)[i := ?r]"
  have i: "i < length (mm_symrgtbl m)" and w': "w' = set_mm w mp (m\<lparr>mm_symrgtbl := ?t\<rparr>)"
    using run m(1) by (auto elim!: set_symrg_run)
  have sp: "rg_span ?r = {unat s..<unat e}" by (simp add: rg_span_def)
  have "regions_ok (unat (vm_sbrk vma)) ?t"
    using ok(1) rg sp by (intro regions_ok_update) (auto simp: rg_wf_def)
  moreover have "spans ?t \<inter> spans (vm_freerg_list vma) = {}"
    using spans_update [of "mm_symrgtbl m" i ?r] ok(3) rg(3) sp by blast
  ultimately show "region_inv w' mp"
    using m ok(2) by (intro region_invI [of _ _ "m\<lparr>mm_symrgtbl := ?t\<rparr>" vma]) (simp_all add: w')
  show "rg_start (symrg w' mp i) = s" and "rg_end (symrg w' mp i) = e"
    using i by (simp_all add: w' symrg_def)
qed

lemma regions_ok_nth:
  "regions_ok b l \<Longrightarrow> i < length l \<Longrightarrow> j < length l \<Longrightarrow> i \<noteq> j \<Longrightarrow> rg_span (l ! i) \<inter> rg_span (l ! j) = {}"
proof (induction l arbitrary: i j)
  case (Cons a l)
  then show ?case
    using nth_span [of "i - 1" l] nth_span [of "j - 1" l] Cons.IH [of "i - 1" "j - 1"]
    by (cases i; cases j) auto
qed simp

lemma region_inv_disjoint:
  assumes "region_inv w mp" and "i < PAGING_MAX_SYMTBL_SZ" and "j < PAGING_MAX_SYMTBL_SZ" and "i \<noteq> j"
  shows "rg_span (symrg w mp i) \<inter> rg_span (symrg w mp j) = {}"
proof (rule region_invE [OF assms(1)])
  fix m vma
  assume "w_mms w mp = Some m" "length (mm_symrgtbl m) = PAGING_MAX_SYMTBL_SZ"
    "regions_ok (unat (vm_sbrk vma)) (mm_symrgtbl m @ vm_freerg_list vma)"
  then show ?thesis
    using regions_ok_nth [of "unat (vm_sbrk vma)" "mm_symrgtbl m" i j] assms(2-4) by (simp add: symrg_def regions_ok_append)
qed

text \<open>Putting a region on the free list.\<close>

lemma region_inv_enlist:
  assumes inv: "region_inv w mp" and m: "w_mms w mp = Some m" "mm_mmap m = [vma]"
    and rg: "rg_wf (unat (vm_sbrk vma)) rg" "rg_span rg \<inter> (spans (mm_symrgtbl m) \<union> spans (vm_freerg_list vma)) = {}"
    and run: "enlist_vm_freerg_list mp rg w = Some (r, w')"
  shows "region_inv w' mp" and "symrg w' mp = symrg w mp"
proof -
  have ok: "vm_id vma = 0" "length (mm_symrgtbl m) = PAGING_MAX_SYMTBL_SZ"
    "regions_ok (unat (vm_sbrk vma)) (mm_symrgtbl m @ vm_freerg_list vma)"
    using inv m by (auto elim!: region_invE)
  let ?m = "m\<lparr>mm_mmap := [vma\<lparr>vm_freerg_list := rg # vm_freerg_list vma\<rparr>]\<rparr>"
  have "w' = w \<or> w' = set_mm w mp ?m"
    using run m by (auto simp: enlist_vm_freerg_list_def split: if_splits)
  moreover have "region_inv (set_mm w mp ?m) mp"
    using ok rg m by (intro region_invI [of _ _ ?m "vma\<lparr>vm_freerg_list := rg # vm_freerg_list vma\<rparr>"])
      (auto simp: regions_ok_append)
  ultimately show "region_inv w' mp" and "symrg w' mp = symrg w mp"
    using inv m by (auto simp: symrg_def fun_eq_iff)
qed

text \<open>Growing the area by the aligned size moves the break and keeps the regions.\<close>

lemma alloc_grow:
  assumes k: "get_proc_from_PID (p_krnl c) (p_pid c) w = Some (Some k)" "w_pcbs w k = Some c" "p_krnl c" "p_mm c = Some mp"
    and a: "areas w mp = Some ([vma], tb)" "vm_id vma = 0" "unat (vm_end vma) < 2 ^ 63" and h: "0 < w_hostmem w"
    and sz: "unat sz < 2 ^ 31" "al = PAGING64_PAGE_ALIGNSZ sz"
    and run: "do_syscall (p_krnl c) (p_pid c) 17 \<lparr>a1 = of_int SYSMEM_INC_OP, a2 = 0, a3 = al\<rparr> w = Some (r, regs, w2)"
  obtains vma2 where "areas w2 mp = Some ([vma2], tb)" and "vm_id vma2 = 0"
    and "vm_freerg_list vma2 = vm_freerg_list vma" and "vm_sbrk vma2 = vm_sbrk vma + al"
    and "vm_end vma2 = vm_end vma + al"
proof -
  have b: "unat sz < 2 ^ 32" using sz(1) by simp
  note al = page_align_bounds [OF b, folded sz(2)]
  have "sysmem_addr al = al"
    using al(2) sz(1) by (intro sysmem_addr_small) simp
  then obtain r1 where inc: "inc_vma_limit (Some c) 0 al w = Some (r1, w2)"
    using run by (auto simp: do_syscall_mem sys_memmap_inc [OF k(1,2)])
  show thesis
  proof (cases "al = 0")
    case True
    then have "w2 = w" using inc k by (simp add: inc_vma_limit_def)
    then show ?thesis using a True by (intro that [of vma]) simp_all
  next
    case False
    have "unat (vm_end vma) + unat (PAGING64_PAGE_ALIGNSZ al) < 2 ^ 64" "PAGING64_PAGE_ALIGNSZ al \<noteq> 0"
      using al False a(3) sz by simp_all
    from inc_vma_limit_areas(2) [OF k(3,4) a(1,2) h False this inc] show ?thesis
      by (rule that) (use a al(3) in simp_all)
  qed
qed

text \<open>The region at the old break and the rest of its last page, which goes on the free list.\<close>

lemma alloc_at_break:
  assumes a: "areas w2 mp = Some ([vma], tb)" "vm_id vma = 0" "length tb = PAGING_MAX_SYMTBL_SZ"
    and ok: "regions_ok (unat brk) tb" "regions_ok (unat brk) (vm_freerg_list vma)" "spans tb \<inter> spans (vm_freerg_list vma) = {}"
    and b: "unat brk < 2 ^ 31" "unat sz < 2 ^ 31" "al = PAGING64_PAGE_ALIGNSZ sz" "vm_sbrk vma = brk + al"
    and set: "set_symrg mp i brk (brk + sz) w2 = Some w3"
    and rest: "sz < al \<Longrightarrow> \<exists>r h. enlist_vm_freerg_list mp \<lparr>rg_vmaid = 0, rg_start = brk + sz, rg_end = brk + al\<rparr>
        (w3\<lparr>w_hostmem := h\<rparr>) = Some (r, w')" "\<not> sz < al \<Longrightarrow> w' = w3"
  shows "region_inv w' mp" and "rg_start (symrg w' mp i) = brk" and "rg_end (symrg w' mp i) = brk + sz"
    and "unat (brk + sz) = unat brk + unat sz"
proof -
  obtain m where m: "w_mms w2 mp = Some m" "mm_mmap m = [vma]" "mm_symrgtbl m = tb"
    using a(1) by (auto simp: areas_def)
  have "unat sz < 2 ^ 32" using b(2) by simp
  note al = page_align_bounds [OF this, folded b(3)]
  have ua: "unat (brk + sz) = unat brk + unat sz" "unat (brk + al) = unat brk + unat al"
    using b al(2) by (auto intro!: unat_add_small)
  then show "unat (brk + sz) = unat brk + unat sz" by simp
  have below: "spans tb \<subseteq> {..<unat brk}" "spans (vm_freerg_list vma) \<subseteq> {..<unat brk}"
    using ok regions_ok_bound by blast+
  have up: "regions_ok (unat (vm_sbrk vma)) tb" "regions_ok (unat (vm_sbrk vma)) (vm_freerg_list vma)"
    using ok ua(2) b(4) regions_ok_mono by auto
  have dj: "{unat brk..<unat (brk + sz)} \<inter> (spans tb \<union> spans (vm_freerg_list vma)) = {}"
    using below by fastforce
  have e: "region_inv w3 mp" "rg_start (symrg w3 mp i) = brk" "rg_end (symrg w3 mp i) = brk + sz"
    by (rule region_inv_enter [OF m(1,2) a(2) _ _ _ _ _ _ _ set]; use m a up ok(3) dj ua al b(4) in simp)+
  obtain m3 where m3: "w_mms w3 mp = Some m3" "mm_mmap m3 = [vma]"
    "spans (mm_symrgtbl m3) \<subseteq> spans tb \<union> {unat brk..<unat (brk + sz)}"
    using set m spans_update [of tb i "(tb ! i)\<lparr>rg_start := brk, rg_end := brk + sz\<rparr>"]
    by (auto elim!: set_symrg_run simp: rg_span_def)
  show "region_inv w' mp" and "rg_start (symrg w' mp i) = brk" and "rg_end (symrg w' mp i) = brk + sz"
  proof (atomize (full), cases "sz < al")
    case False
    then show "region_inv w' mp \<and> rg_start (symrg w' mp i) = brk \<and> rg_end (symrg w' mp i) = brk + sz"
      using rest(2) e by simp
  next
    case True
    let ?rg = "\<lparr>rg_vmaid = 0, rg_start = brk + sz, rg_end = brk + al\<rparr>"
    obtain r h where en: "enlist_vm_freerg_list mp ?rg (w3\<lparr>w_hostmem := h\<rparr>) = Some (r, w')"
      using rest(1) [OF True] by blast
    have i3: "region_inv (w3\<lparr>w_hostmem := h\<rparr>) mp" using e(1) by (simp add: region_inv_def)
    have wf: "rg_wf (unat (vm_sbrk vma)) ?rg" using ua al(1) b(4) by (simp add: rg_wf_def)
    have "rg_span ?rg \<inter> (spans (mm_symrgtbl m3) \<union> spans (vm_freerg_list vma)) = {}"
      using m3(3) below ua by (fastforce simp: rg_span_def)
    note en = region_inv_enlist [OF i3 _ m3(2) wf this en]
    show "region_inv w' mp \<and> rg_start (symrg w' mp i) = brk \<and> rg_end (symrg w' mp i) = brk + sz"
      using en m3(1) e by (simp add: symrg_def)
  qed
qed

lemma vm_alloc_inv:
  assumes k: "get_proc_from_PID (p_krnl c) (p_pid c) w = Some (Some k)" "w_pcbs w k = Some c" "p_krnl c" "p_mm c = Some mp"
    and a: "areas w mp = Some ([vma], tb)" "unat (vm_end vma) < 2 ^ 63" "unat (vm_sbrk vma) < 2 ^ 31"
    and h: "0 < w_hostmem w" and inv: "region_inv w mp" and sz: "unat sz < 2 ^ 31"
    and i: "sint rgid = int i" "i < PAGING_MAX_SYMTBL_SZ"
    and run: "vm_alloc (Some c) 0 rgid sz a0 w = Some (r, addr, w')"
  shows "r = 0" and "region_inv w' mp" and "rg_start (symrg w' mp i) = addr" and "rg_end (symrg w' mp i) = addr + sz"
    and "unat (addr + sz) = unat addr + unat sz"
proof -
  obtain m where m: "w_mms w mp = Some m" "mm_mmap m = [vma]" "mm_symrgtbl m = tb"
    using a(1) by (auto simp: areas_def)
  let ?b = "unat (vm_sbrk vma)"
  have ok: "vm_id vma = 0" "length tb = PAGING_MAX_SYMTBL_SZ" "regions_ok ?b tb" "regions_ok ?b (vm_freerg_list vma)"
    "spans tb \<inter> spans (vm_freerg_list vma) = {}"
    using inv m by (auto elim!: region_invE simp: regions_ok_append)
  have walk: "get_vma_by_num (Some mp) 0 w = Some (Some 0)" using m ok by (simp add: get_vma_by_num_def)
  have b: "?b < 2 ^ 32" using a(3) by simp
  obtain r1 rg w1 where g: "get_free_vmrg_area c 0 (ucast sz) (0, 0) w = Some (r1, rg, w1)"
    using run walk i k by (auto simp: vm_alloc_def split: bind_splits)
  from m(1,2) ok(1,4) b k(4) sz g
  have "r = 0 \<and> region_inv w' mp \<and> rg_start (symrg w' mp i) = addr \<and> rg_end (symrg w' mp i) = addr + sz
    \<and> unat (addr + sz) = unat addr + unat sz"
  proof (cases rule: get_free_vmrg_area_cases)
    case (fit l)
    let ?m1 = "m\<lparr>mm_mmap := [vma\<lparr>vm_freerg_list := l\<rparr>]\<rparr>"
    have w1: "w_mms w1 mp = Some ?m1" by (simp add: fit)
    have st: "set_symrg mp i (fst rg) (snd rg) w1 = Some w'" "r = 0" "addr = fst rg"
      using run walk i k g fit(1) by (auto simp: vm_alloc_def split: bind_splits)
    have dj: "{unat (fst rg)..<unat (snd rg)} \<inter> (spans tb \<union> spans l) = {}" "spans tb \<inter> spans l = {}"
      using ok(5) fit(6,7) by blast+
    have "region_inv w' mp" "rg_start (symrg w' mp i) = fst rg" "rg_end (symrg w' mp i) = snd rg"
      by (rule region_inv_enter [OF w1 _ _ _ _ _ _ _ _ _ st(1), of "vma\<lparr>vm_freerg_list := l\<rparr>"];
          use ok m fit dj in simp)+
    then show ?thesis using st fit(3,4) by simp
  next
    case none
    let ?brk = "vm_sbrk vma" and ?al = "PAGING64_PAGE_ALIGNSZ sz"
    have old: "scast (ucast ?brk :: cint) = ?brk" using ucast_scast_small a(3) by simp
    obtain r2 regs w2 w3 where sc: "do_syscall (p_krnl c) (p_pid c) 17
          \<lparr>a1 = of_int SYSMEM_INC_OP, a2 = 0, a3 = ?al\<rparr> w = Some (r2, regs, w2)"
      and set: "set_symrg mp i ?brk (?brk + sz) w2 = Some w3" and res: "r = 0" "addr = ?brk"
      and rest: "sz < ?al \<Longrightarrow> \<exists>r h. enlist_vm_freerg_list mp
          \<lparr>rg_vmaid = 0, rg_start = ?brk + sz, rg_end = ?brk + ?al\<rparr> (w3\<lparr>w_hostmem := h\<rparr>) = Some (r, w')"
        "\<not> sz < ?al \<Longrightarrow> w' = w3"
      using run walk i k g none m old
      by (auto simp: vm_alloc_def Let_def host_alloc_def split: bind_splits if_splits prod.splits)
    obtain vma2 where v2: "areas w2 mp = Some ([vma2], tb)" "vm_id vma2 = 0"
      "vm_freerg_list vma2 = vm_freerg_list vma" "vm_sbrk vma2 = ?brk + ?al"
      by (rule alloc_grow [OF k a(1) ok(1) a(2) h sz refl sc])
    have "region_inv w' mp" "rg_start (symrg w' mp i) = ?brk" "rg_end (symrg w' mp i) = ?brk + sz"
      "unat (?brk + sz) = unat ?brk + unat sz"
      by (rule alloc_at_break [OF v2(1,2) ok(2) _ _ _ a(3) sz refl v2(4) set rest]; use ok v2 in simp)+
    then show ?thesis using res by simp
  qed
  then show "r = 0" and "region_inv w' mp" and "rg_start (symrg w' mp i) = addr" and "rg_end (symrg w' mp i) = addr + sz"
    and "unat (addr + sz) = unat addr + unat sz" by auto
qed

section \<open>Freeing\<close>

lemma vm_free_inv:
  assumes c: "p_krnl c" "p_mm c = Some mp" and inv: "region_inv w mp"
    and i: "sint rgid = int i" "i < PAGING_MAX_SYMTBL_SZ" and run: "vm_free (Some c) vmaid rgid w = Some (0, w')"
  shows "region_inv w' mp" and "rg_span (symrg w' mp i) = {}"
    and "\<And>j. j \<noteq> i \<Longrightarrow> symrg w' mp j = symrg w mp j"
    and "unat (rg_start (symrg w mp i)) < unat (rg_end (symrg w mp i)) \<Longrightarrow>
      \<exists>vma rg. areas w' mp = Some ([vma], mm_symrgtbl (the (w_mms w' mp))) \<and> rg \<in> set (vm_freerg_list vma)
        \<and> rg_span rg = rg_span (symrg w mp i)"
proof -
  obtain m vma where m: "w_mms w mp = Some m" "mm_mmap m = [vma]" "vm_id vma = 0"
    "length (mm_symrgtbl m) = PAGING_MAX_SYMTBL_SZ" "regions_ok (unat (vm_sbrk vma)) (mm_symrgtbl m @ vm_freerg_list vma)"
    using inv by (rule region_invE)
  let ?b = "unat (vm_sbrk vma)" and ?o = "mm_symrgtbl m ! i"
  let ?z = "?o\<lparr>rg_start := 0, rg_end := 0\<rparr>" and ?rg = "\<lparr>rg_vmaid = 0, rg_start = rg_start ?o, rg_end = rg_end ?o\<rparr>"
  let ?m1 = "m\<lparr>mm_symrgtbl := (mm_symrgtbl m)[i := ?z]\<rparr>"
  have ok: "regions_ok ?b (mm_symrgtbl m)" "regions_ok ?b (vm_freerg_list vma)"
    "spans (mm_symrgtbl m) \<inter> spans (vm_freerg_list vma) = {}" using m(5) by (auto simp: regions_ok_append)
  have o: "symrg w mp i = ?o" using m(1) by (simp add: symrg_def)
  have rid: "get_symrg_byid rgid = Some i" using i by (simp add: get_symrg_byid_def)
  obtain r h where en: "enlist_vm_freerg_list mp ?rg (set_mm (w\<lparr>w_hostmem := h\<rparr>) mp ?m1) = Some (r, w')"
    using run i c rid m by (auto simp: vm_free_def set_symrg_def host_alloc_def Let_def set_mm_def
        split: if_splits bind_splits)
  let ?w1 = "set_mm (w\<lparr>w_hostmem := h\<rparr>) mp ?m1"
  have z: "rg_span ?z = {}" by (simp add: rg_span_def)
  have il: "i < length (mm_symrgtbl m)" using i(2) m(4) by simp
  note bl = spans_blank [OF ok(1) il z]
  have i1: "region_inv ?w1 mp"
    using m ok bl by (intro region_invI [of _ _ ?m1 vma]) (auto intro!: regions_ok_update simp: z rg_wf_def)
  have wfo: "rg_wf ?b ?o" using regions_ok_wf [OF ok(1)] il by simp
  have rg: "rg_wf ?b ?rg" "rg_span ?rg = rg_span ?o" using wfo by (simp_all add: rg_wf_def rg_span_def)
  have dj: "rg_span ?rg \<inter> (spans (mm_symrgtbl ?m1) \<union> spans (vm_freerg_list vma)) = {}"
    using bl nth_span [OF il] ok(3) rg(2) by auto
  note e = region_inv_enlist [OF i1 _ _ rg(1) dj en]
  show "region_inv w' mp" using e(1) m by simp
  have s: "symrg w' mp = symrg ?w1 mp" using e(2) m by simp
  then show "rg_span (symrg w' mp i) = {}" using il z by (simp add: symrg_def)
  show "symrg w' mp j = symrg w mp j" if "j \<noteq> i" for j using s that m by (simp add: symrg_def)
  assume "unat (rg_start (symrg w mp i)) < unat (rg_end (symrg w mp i))"
  then have "\<not> rg_end ?o \<le> rg_start ?o" using o by (simp add: word_le_nat_alt)
  then have "w' = set_mm ?w1 mp (?m1\<lparr>mm_mmap := [vma\<lparr>vm_freerg_list := ?rg # vm_freerg_list vma\<rparr>]\<rparr>)"
    using en m by (simp add: enlist_vm_freerg_list_def)
  then show "\<exists>vma rg. areas w' mp = Some ([vma], mm_symrgtbl (the (w_mms w' mp))) \<and> rg \<in> set (vm_freerg_list vma)
        \<and> rg_span rg = rg_span (symrg w mp i)"
    using rg(2) o by (auto simp: areas_def)
qed

section \<open>Properties\<close>

definition ex_heap :: world where
  "ex_heap = ex_vm (ex_mm0\<lparr>mm_mmap := [\<lparr>vm_id = 0, vm_start = 0, vm_end = 0, vm_sbrk = 0, vm_freerg_list = []\<rparr>],
     mm_symrgtbl := replicate PAGING_MAX_SYMTBL_SZ \<lparr>rg_vmaid = 0, rg_start = 0, rg_end = 0\<rparr>\<rparr>) ex_dev ex_dev"

lemma ex_heap_ok:
  "get_proc_from_PID (p_krnl ex_caller) (p_pid ex_caller) ex_heap = Some (Some 7)" "w_pcbs ex_heap 7 = Some ex_caller"
  "p_krnl ex_caller" "p_mm ex_caller = Some 0" "0 < w_hostmem ex_heap" "region_inv ex_heap 0"
  "areas ex_heap 0 = Some ([\<lparr>vm_id = 0, vm_start = 0, vm_end = 0, vm_sbrk = 0, vm_freerg_list = []\<rparr>],
     replicate PAGING_MAX_SYMTBL_SZ \<lparr>rg_vmaid = 0, rg_start = 0, rg_end = 0\<rparr>)"
proof -
  have "regions_ok 0 (replicate n \<lparr>rg_vmaid = 0, rg_start = 0, rg_end = 0\<rparr>)" for n
    by (induction n) (auto simp: rg_wf_def rg_span_def)
  then show "region_inv ex_heap 0" by (simp add: region_inv_def ex_heap_def ex_vm_def areas_def)
qed (simp_all add: get_proc_from_PID_def ex_heap_def ex_vm_def ex_caller_def PID_MAX_def areas_def)

text \<open>A region that \<open>__alloc\<close> gives out has exactly the requested size and overlaps no other
  region, and free and allocated regions stay pairwise disjoint and below the break.  That the call
  returns is shown in theory \<open>Returns\<close>.\<close>

lemma alloc_regions_disjoint:
  assumes "get_proc_from_PID (p_krnl c) (p_pid c) w = Some (Some k)" and "w_pcbs w k = Some c"
    and "p_krnl c" and "p_mm c = Some mp"
    and "areas w mp = Some ([vma], tb)" and "unat (vm_end vma) < 2 ^ 63" and "unat (vm_sbrk vma) < 2 ^ 31"
    and "0 < w_hostmem w" and "region_inv w mp" and "unat sz < 2 ^ 31"
    and "sint rgid = int i" and "i < PAGING_MAX_SYMTBL_SZ"
    and "vm_alloc (Some c) 0 rgid sz a0 w = Some (r, addr, w')"
  shows "r = 0 \<and> region_inv w' mp \<and> rg_span (symrg w' mp i) = {unat addr..<unat addr + unat sz}
    \<and> (\<forall>j < PAGING_MAX_SYMTBL_SZ. j \<noteq> i \<longrightarrow>
        rg_span (symrg w' mp j) \<inter> {unat addr..<unat addr + unat sz} = {})"
proof -
  note al = vm_alloc_inv [OF assms]
  have sp: "rg_span (symrg w' mp i) = {unat addr..<unat addr + unat sz}"
    using al(3-5) by (simp add: rg_span_def)
  moreover have "rg_span (symrg w' mp j) \<inter> rg_span (symrg w' mp i) = {}"
    if "j < PAGING_MAX_SYMTBL_SZ" "j \<noteq> i" for j
    by (rule region_inv_disjoint [OF al(2) that(1) assms(12) that(2)])
  ultimately show ?thesis using al(1,2) by simp
qed

text \<open>C29: Freeing a region gives exactly its bytes back: the symbol's region becomes empty, the
  regions of the other symbols stay, the freed bytes are one region of the free list, and the
  regions stay disjoint, so nothing that is still allocated can be handed out again.\<close>

theorem free_returns_region:
  assumes "p_krnl c" and "p_mm c = Some mp" and "region_inv w mp"
    and "sint rgid = int i" and "i < PAGING_MAX_SYMTBL_SZ" and "vm_free (Some c) vmaid rgid w = Some (0, w')"
    and "rg_span (symrg w mp i) \<noteq> {}"
  shows "region_inv w' mp \<and> rg_span (symrg w' mp i) = {} \<and> (\<forall>j. j \<noteq> i \<longrightarrow> symrg w' mp j = symrg w mp j)
    \<and> (\<exists>vma tb. areas w' mp = Some ([vma], tb) \<and> rg_span (symrg w mp i) \<in> rg_span ` set (vm_freerg_list vma))"
proof -
  note f = vm_free_inv [OF assms(1-6)]
  have "unat (rg_start (symrg w mp i)) < unat (rg_end (symrg w mp i))" using assms(7) by (auto simp: rg_span_def)
  from f(4) [OF this] obtain vma rg where "areas w' mp = Some ([vma], mm_symrgtbl (the (w_mms w' mp)))"
    "rg \<in> set (vm_freerg_list vma)" "rg_span rg = rg_span (symrg w mp i)" by blast
  then have "\<exists>vma tb. areas w' mp = Some ([vma], tb) \<and> rg_span (symrg w mp i) \<in> rg_span ` set (vm_freerg_list vma)"
    by (intro exI [of _ vma] exI conjI) (assumption, metis imageI)
  then show ?thesis using f(1-3) by simp
qed

text \<open>The heap of the example with one region given out.\<close>

definition ex_heap1 :: world where
  "ex_heap1 = set_mm ex_heap 0 ((the (w_mms ex_heap 0))\<lparr>
     mm_mmap := [\<lparr>vm_id = 0, vm_start = 0, vm_end = 4096, vm_sbrk = 4096, vm_freerg_list = []\<rparr>],
     mm_symrgtbl := (replicate PAGING_MAX_SYMTBL_SZ \<lparr>rg_vmaid = 0, rg_start = 0, rg_end = 0\<rparr>)
       [0 := \<lparr>rg_vmaid = 0, rg_start = 0, rg_end = 300\<rparr>]\<rparr>)"

theorem free_returns_region_witness:
  "\<exists>w'. vm_free (Some ex_caller) 0 0 ex_heap1 = Some (0, w') \<and> region_inv w' 0 \<and> rg_span (symrg w' 0 0) = {}"
proof -
  have "\<exists>w'. vm_free (Some ex_caller) 0 0 ex_heap1 = Some (0, w')"
    by (simp add: vm_free_def ex_caller_def get_symrg_byid_def ex_heap1_def ex_heap_def ex_vm_def host_alloc_def
        set_symrg_def enlist_vm_freerg_list_def macro_defs Let_def)
  then obtain w' where run: "vm_free (Some ex_caller) 0 0 ex_heap1 = Some (0, w')" by blast
  have z: "regions_ok b (replicate n \<lparr>rg_vmaid = 0, rg_start = 0, rg_end = 0\<rparr>)"
    "spans (replicate n \<lparr>rg_vmaid = 0, rg_start = 0, rg_end = 0\<rparr>) = {}" for b n
    by (induction n) (auto simp: rg_wf_def rg_span_def)
  have inv: "region_inv ex_heap1 0"
    by (simp add: region_inv_def ex_heap1_def areas_def) (auto intro!: regions_ok_update z(1) simp: z(2) rg_wf_def)
  have sp: "rg_span (symrg ex_heap1 0 0) \<noteq> {}"
    by (simp add: symrg_def ex_heap1_def rg_span_def PAGING_MAX_SYMTBL_SZ_def)
  show ?thesis
    using free_returns_region [OF ex_heap_ok(3,4) inv _ _ run sp] run by (simp add: PAGING_MAX_SYMTBL_SZ_def)
qed

section \<open>Growing without frames\<close>

lemma page_count_nat:
  assumes "unat (inc :: u64) < 2 ^ 31"
  shows "nat (sint (ucast (PAGING64_PAGE_ALIGNSZ inc div of_nat PAGING64_PAGESZ) :: cint)) * 4096 \<ge> unat inc"
proof -
  have b: "unat inc < 2 ^ 32" using assms by simp
  let ?al = "PAGING64_PAGE_ALIGNSZ inc"
  have d: "unat (?al div of_nat PAGING64_PAGESZ) = unat ?al div 4096"
    by (simp add: unat_div_distrib macro_defs)
  have ub: "unat ?al div 4096 < 2 ^ 31" using page_align_bounds(2) [OF b] assms by simp
  then have "sint (ucast (?al div of_nat PAGING64_PAGESZ) :: cint) = int (unat ?al div 4096)"
    using d sint_small [of "ucast (?al div of_nat PAGING64_PAGESZ)"] unat_ucast_lt [of "?al div of_nat PAGING64_PAGESZ"]
    by simp
  moreover have "unat ?al div 4096 * 4096 = unat ?al" using page_align_unat [of inc] assms by simp
  ultimately show ?thesis using page_align_bounds(1) [OF b] by simp
qed

text \<open>C37: \<open>inc_vma_limit\<close> does not notice that RAM is exhausted: with fewer free frames than the
  request needs it maps nothing, still moves the end of the area and the break, and reports
  success.\<close>

theorem growth_ignores_exhausted_ram:
  assumes "p_krnl c" and "p_mm c = Some mp" and "areas w mp = Some ([vma], tb)" and "vm_id vma = 0"
    and "0 < w_hostmem w" and "unat inc < 2 ^ 31" and "unat (vm_end vma) < 2 ^ 63"
    and "mram w = Some d" and "pool_ok d" and "length (free_fp_list d) * 4096 < unat inc"
  shows "\<exists>w'. inc_vma_limit (Some c) 0 inc w = Some (0, w') \<and> vpage w' = vpage w
    \<and> areas w' mp = Some ([vma\<lparr>vm_end := vm_end vma + PAGING64_PAGE_ALIGNSZ inc, vm_sbrk := vm_sbrk vma + inc\<rparr>], tb)"
proof -
  let ?al = "PAGING64_PAGE_ALIGNSZ inc" let ?n = "ucast (?al div of_nat PAGING64_PAGESZ) :: cint"
  let ?e = "vm_end vma + ?al"
  obtain m where m: "w_mms w mp = Some m" "mm_mmap m = [vma]" "mm_symrgtbl m = tb"
    using assms(3) by (auto simp: areas_def)
  have b: "unat inc < 2 ^ 32" using assms(6) by simp
  note al = page_align_bounds [OF b]
  have i0: "inc \<noteq> 0" "0 < unat ?al" using assms(10) al(1) by auto
  have "unat ?e = unat (vm_end vma) + unat ?al" using assms(6,7) al(2) by (intro unat_add_small) simp
  then have lt: "vm_end vma < ?e" using i0(2) by (simp add: word_less_nat_alt)
  have walk: "get_vma_by_num (Some mp) 0 w = Some (Some 0)" using m assms(4) by (simp add: get_vma_by_num_def)
  have ov: "validate_overlap_vm_area (Some c) 0 (vm_end vma) ?e w = Some 0"
    using m lt assms(1,2,4) by (simp add: validate_overlap_vm_area_def not_le)
  define m1 where "m1 = m\<lparr>mm_mmap := [vma\<lparr>vm_end := ?e, vm_sbrk := vm_sbrk vma + inc\<rparr>]\<rparr>"
  define w1 where "w1 = set_mm (w\<lparr>w_hostmem := w_hostmem w - 1\<rparr>) mp m1"
  have sl: "set_vma_limits mp 0 ?e (vm_sbrk vma + inc) (w\<lparr>w_hostmem := w_hostmem w - 1\<rparr>) = Some w1"
    using m by (simp add: set_vma_limits_def w1_def m1_def)
  have d1: "mram w1 = Some d" using assms(8) by (simp add: w1_def)
  have few: "length (free_fp_list d) < nat (sint ?n)" using page_count_nat [OF assms(6)] assms(10) by simp
  have "\<exists>w' rg. vm_map_ram (Some c) (vm_end vma) ?e (vm_end vma) ?n
      (Some \<lparr>rg_vmaid = 0, rg_start = vm_end vma, rg_end = ?e\<rparr>) w1 = Some (- 1, rg, w')
      \<and> vpage w' = vpage w1 \<and> areas w' = areas w1"
    using assms(1) d1 assms(9)
  proof (cases rule: alloc_pages_range_cases [of c w1 d ?n])
    case (granted fs d' h)
    then show ?thesis using fp.get_n_spec [OF granted(2)] few by simp
  next
    case (rollback d' h)
    have "sint (ucast (- 3000 :: addr_t) :: cint) = - 3000" by code_simp
    then show ?thesis
      using rollback(1) assms(1) d1
      by (auto simp: vm_map_ram_def vpage_def pte_view_def fun_eq_iff areas_def)
  qed
  then obtain w' rg where mp: "vm_map_ram (Some c) (vm_end vma) ?e (vm_end vma) ?n
      (Some \<lparr>rg_vmaid = 0, rg_start = vm_end vma, rg_end = ?e\<rparr>) w1 = Some (- 1, rg, w')"
    "vpage w' = vpage w1" "areas w' = areas w1" by blast
  have "inc_vma_limit (Some c) 0 inc w = Some (0, w')"
    using assms(1,2,5) i0(1) walk m ov sl mp(1) by (simp add: inc_vma_limit_def host_alloc_def Let_def)
  moreover have "vpage w1 = vpage w" using m by (simp add: w1_def m1_def vpage_def pte_view_def fun_eq_iff)
  ultimately show ?thesis
    using mp m by (intro exI [of _ w']) (simp add: areas_def w1_def m1_def)
qed

theorem growth_ignores_exhausted_ram_witness:
  "\<exists>w'. inc_vma_limit (Some ex_caller) 0 20000 ex_heap = Some (0, w') \<and> vpage w' = vpage ex_heap"
proof -
  have d: "mram ex_heap = Some ex_dev" "pool_ok ex_dev" "length (free_fp_list ex_dev) * 4096 < unat (20000 :: addr_t)"
    by (simp_all add: ex_heap_def ex_vm_def ex_dev_def pool_ok_def frame_valid_def)
  show ?thesis
    using growth_ignores_exhausted_ram [OF ex_heap_ok(3,4,7) _ ex_heap_ok(5) _ _ d] by auto
qed

section \<open>Access checks\<close>

lemma pg_getval_data: "pg_getval a data c w = map_option (\<lambda>(r, d, w'). (r, data, w')) (pg_getval a 0 c w)"
proof (cases "pg_getpage (int_pgn a) 0 c w")
  case (Some res)
  obtain r f w1 where res: "res = (r, f, w1)" by (cases res)
  show ?thesis
    by (cases "do_syscall (p_krnl c) (p_pid c) 17
         \<lparr>a1 = of_int SYSMEM_IO_READ, a2 = scast (int_phyaddr f (int_off a)), a3 = 0\<rparr> w1")
      (auto simp: pg_getval_def Some res)
qed (simp add: pg_getval_def)

lemma vm_read_data:
  "vm_read c v rg off data w = map_option (\<lambda>(r, d, w'). (r, data, w')) (vm_read c v rg off 0 w)"
proof (cases c)
  case (Some c')
  show ?thesis
  proof (cases "\<not> p_krnl c' \<or> sint rg < 0 \<or> sint rg \<ge> int PAGING_MAX_SYMTBL_SZ")
    case False
    then have id: "get_symrg_byid rg = Some (nat (sint rg))" by (auto simp: get_symrg_byid_def)
    show ?thesis
      using False pg_getval_data [of _ data c' w] by (auto simp: vm_read_def Some id split: bind_split)
  qed (simp add: vm_read_def Some)
qed (simp add: vm_read_def)

text \<open>C38: \<open>libread\<close> never delivers what memory holds: its result code and the new state do not
  depend on the uninitialised local \<open>data\<close>, and the value it stores in the destination is that
  uninitialised byte.\<close>

theorem libread_ignores_memory:
  "libread junk proc source offset w = map_option (\<lambda>(val, dest, w'). (val, scast junk, w')) (libread 0 proc source offset w)"
proof (cases "w_pcbs w proc")
  case (Some c)
  show ?thesis
    unfolding libread_def Some option.simps Option.bind.simps
    by (subst vm_read_data) (cases "vm_read (Some c) 0 source offset 0 w"; auto)
qed (simp add: libread_def)

lemma vm_write_region:
  assumes "p_krnl c" and "p_mm c = Some mp" and "w_mms w mp = Some m" and "sint rgid = int i"
    and "i < PAGING_MAX_SYMTBL_SZ" and "i < length (mm_symrgtbl m)"
    and "mm_symrgtbl m ! i = \<lparr>rg_vmaid = z, rg_start = s, rg_end = e\<rparr>"
  shows "vm_write (Some c) vmaid rgid off v w =
    (if s = 0 \<and> e = 0 \<or> s + off \<ge> e then Some (- 1, w) else pg_setval (ucast (s + off)) v c w)"
  using assms by (simp add: vm_write_def get_symrg_byid_def)

text \<open>The bounds check of \<open>__write\<close> is exact for offsets that do not wrap around: a write at an
  offset below the size of the symbol's region goes to that byte, a write at or beyond the size and
  every write through a freed symbol is refused without any change; but an offset that wraps around
  passes the check and is carried out below the start of the region.\<close>

theorem write_bounds_check:
  assumes "p_krnl c" and "p_mm c = Some mp" and "w_mms w mp = Some m" and "sint rgid = int i"
    and "i < PAGING_MAX_SYMTBL_SZ" and "i < length (mm_symrgtbl m)"
    and "mm_symrgtbl m ! i = \<lparr>rg_vmaid = z, rg_start = s, rg_end = e\<rparr>" and "s \<le> e" and "0 < k" and "k \<le> unat s"
  shows "(unat s + unat off < 2 ^ 64 \<longrightarrow> vm_write (Some c) vmaid rgid off v w =
      (if unat off < unat e - unat s then pg_setval (ucast (s + off)) v c w else Some (- 1, w)))
    \<and> vm_write (Some c) vmaid rgid (- of_nat k) v w = pg_setval (ucast (s - of_nat k)) v c w"
proof -
  note wr = vm_write_region [OF assms(1-7)]
  have le: "unat s \<le> unat e" using assms(8) by (simp add: word_le_nat_alt)
  have "s + off \<ge> e \<longleftrightarrow> \<not> unat off < unat e - unat s" if "unat s + unat off < 2 ^ 64"
    using unat_add_small [OF that] le by (auto simp: word_le_nat_alt)
  moreover have "\<not> (s = 0 \<and> e = 0)" using assms(9,10) by auto
  moreover have "\<not> e \<le> s - of_nat k"
  proof -
    have "unat (of_nat k :: addr_t) = k"
      using assms(10) unat_lt_2p64 [of s] by (simp add: unat_of_nat)
    then have "unat (s - of_nat k) = unat s - k" using assms(10) by (subst unat_sub) (simp_all add: word_le_nat_alt)
    then show ?thesis using le assms(9,10) by (simp add: word_le_nat_alt)
  qed
  ultimately show ?thesis by (auto simp: wr)
qed

theorem write_bounds_check_witness:
  "vm_write (Some ex_caller) 0 0 (- of_nat 1) 5 (set_mm ex_heap1 0 ((the (w_mms ex_heap1 0))\<lparr>mm_symrgtbl :=
     [\<lparr>rg_vmaid = 0, rg_start = 100, rg_end = 300\<rparr>]\<rparr>))
   = pg_setval (ucast (100 - of_nat 1 :: addr_t)) 5 ex_caller (set_mm ex_heap1 0 ((the (w_mms ex_heap1 0))\<lparr>mm_symrgtbl :=
     [\<lparr>rg_vmaid = 0, rg_start = 100, rg_end = 300\<rparr>]\<rparr>))"
proof -
  let ?m = "(the (w_mms ex_heap1 0))\<lparr>mm_symrgtbl := [\<lparr>rg_vmaid = 0, rg_start = 100, rg_end = 300\<rparr>]\<rparr>"
  have "w_mms (set_mm ex_heap1 0 ?m) 0 = Some ?m" "sint (0 :: cint) = int 0" "0 < PAGING_MAX_SYMTBL_SZ"
    "0 < length (mm_symrgtbl ?m)" "mm_symrgtbl ?m ! 0 = \<lparr>rg_vmaid = 0, rg_start = 100, rg_end = 300\<rparr>"
    "(100 :: addr_t) \<le> 300" "0 < (1 :: nat)" "1 \<le> unat (100 :: addr_t)"
    by (simp_all add: PAGING_MAX_SYMTBL_SZ_def)
  from write_bounds_check [OF ex_heap_ok(3,4) this, of 0 0 5] show ?thesis by blast
qed

end
