(* ===== verification/FirstFit.thy ===== *)
theory FirstFit
  imports Regions
begin

text \<open>
  The free list of a memory area against a reference allocator.  \<open>get_free_vmrg_area\<close> shrinks
  list nodes in place, lets a node that is used up take over its successor and leaves an empty node at
  the end of the list.  On the intervals the nodes stand for this is plain first fit.
\<close>

section \<open>The reference\<close>

type_synonym interval = "addr_t \<times> addr_t"

fun first_fit :: "interval list \<Rightarrow> addr_t \<Rightarrow> (interval \<times> interval list) option" where
  "first_fit [] sz = None"
| "first_fit ((a, b) # l) sz =
     (if unat a + unat sz \<le> unat b
      then Some ((a, a + sz), if a + sz = b then l else (a + sz, b) # l)
      else map_option (\<lambda>(r, l'). (r, (a, b) # l')) (first_fit l sz))"

text \<open>The intervals of a free list, without the empty ones.\<close>

definition intervals :: "vm_rg_struct list \<Rightarrow> interval list" where
  "intervals l = filter (\<lambda>(a, b). a < b) (map (\<lambda>rg. (rg_start rg, rg_end rg)) l)"

lemma intervals_simps [simp]:
  "intervals [] = []"
  "intervals (rg # l) = (if rg_start rg < rg_end rg then (rg_start rg, rg_end rg) # intervals l else intervals l)"
  by (simp_all add: intervals_def)

text \<open>The test the code makes, when it does not wrap around.\<close>

lemma fits_iff:
  "unat a + unat sz < 2 ^ 64 \<Longrightarrow> (a + sz \<le> (b :: u64)) \<longleftrightarrow> unat a + unat sz \<le> unat b"
  using unat_add_small [of a sz] by (simp add: word_le_nat_alt)

lemma free_fit_first_fit:
  assumes "regions_ok b l" and "b + unat sz < 2 ^ 64" and "0 < unat sz"
  shows "map_option (\<lambda>(r, l'). (r, intervals l')) (free_fit l sz) = first_fit (intervals l) sz"
  using assms
proof (induction l sz rule: free_fit.induct)
  case (2 rg nx sz)
  have wf: "unat (rg_start rg) \<le> unat (rg_end rg)" "unat (rg_end rg) \<le> b" "regions_ok b nx"
    using "2.prems"(1) by (auto simp: rg_wf_def)
  then have nw: "unat (rg_start rg) + unat sz < 2 ^ 64" using "2.prems"(2) by simp
  note fits = fits_iff [OF nw, of "rg_end rg"]
  show ?case
  proof (cases "rg_start rg + sz \<le> rg_end rg")
    case True
    then have "rg_start rg < rg_end rg" using fits "2.prems"(3) by (simp add: word_less_nat_alt)
    then show ?thesis using True fits by (cases nx) (auto simp: not_less)
  next
    case False
    have "map_option (\<lambda>(r, l'). (r, intervals l')) (free_fit nx sz) = first_fit (intervals nx) sz"
      using "2.IH" [OF False wf(3) "2.prems"(2,3)] .
    then show ?thesis using False fits by (cases "free_fit nx sz") (auto dest: sym)
  qed
qed simp

section \<open>Properties\<close>

text \<open>C16: The search of the free list is first fit: for an area whose free regions do not overlap,
  \<open>get_free_vmrg_area\<close> takes the interval the reference allocator takes and leaves the same
  intervals, or fails, with the area unchanged, exactly when the reference finds none.\<close>

theorem free_list_is_first_fit:
  assumes "w_mms w mp = Some m" and "mm_mmap m = [vma]" and "vm_id vma = 0" and "p_mm c = Some mp"
    and "regions_ok b (vm_freerg_list vma)" and "b < 2 ^ 63" and "0 < unat sz" and "unat sz < 2 ^ 31"
  shows "case first_fit (intervals (vm_freerg_list vma)) sz of
      None \<Rightarrow> \<exists>rg. get_free_vmrg_area c 0 (ucast sz) rg0 w = Some (- 1, rg, w)
    | Some (r, ivs) \<Rightarrow> \<exists>l. get_free_vmrg_area c 0 (ucast sz) rg0 w
        = Some (0, r, set_mm w mp (m\<lparr>mm_mmap := [vma\<lparr>vm_freerg_list := l\<rparr>]\<rparr>)) \<and> intervals l = ivs"
proof -
  have eq: "map_option (\<lambda>(r, l'). (r, intervals l')) (free_fit (vm_freerg_list vma) sz)
      = first_fit (intervals (vm_freerg_list vma)) sz"
    by (rule free_fit_first_fit [OF assms(5)]) (use assms(6-8) in auto)
  have sz: "scast (ucast sz :: cint) = sz" by (rule ucast_scast_small [OF assms(8)])
  have v: "get_vma_by_num (Some mp) 0 w = Some (Some 0)"
    using assms(1-3) by (simp add: get_vma_by_num_def)
  show ?thesis
  proof (cases "free_fit (vm_freerg_list vma) sz")
    case None
    then show ?thesis
      using eq assms(1-4) v sz by (auto simp: get_free_vmrg_area_def)
  next
    case (Some x)
    obtain s e l where x: "x = ((s, e), l)" by (metis surj_pair)
    have sp: "e = s + sz" "unat e = unat s + unat sz" "unat e \<le> b"
      using free_fit_spec [OF assms(5) _ Some [unfolded x]] assms(6,8) by auto
    have "unat s < 2 ^ 63" using sp assms(6) by simp
    moreover have "unat (- 1 :: addr_t) = 2 ^ 64 - 1" by (simp add: unsigned_minus_1_eq_mask mask_eq_exp_minus_1)
    ultimately have "s \<noteq> - 1" by auto
    moreover have "vm_freerg_list vma \<noteq> []" using Some by auto
    ultimately show ?thesis
      unfolding eq [symmetric] Some using Some assms(1-4) v sz by (auto simp: get_free_vmrg_area_def x)
  qed
qed

definition ex_area :: vm_area_struct where
  "ex_area = \<lparr>vm_id = 0, vm_start = 0, vm_end = 4096, vm_sbrk = 4096,
     vm_freerg_list = [\<lparr>rg_vmaid = 0, rg_start = 0, rg_end = 10\<rparr>, \<lparr>rg_vmaid = 0, rg_start = 20, rg_end = 50\<rparr>,
       \<lparr>rg_vmaid = 0, rg_start = 60, rg_end = 100\<rparr>]\<rparr>"

theorem free_list_is_first_fit_witness:
  "\<exists>l. get_free_vmrg_area ex_caller 0 (ucast (30 :: addr_t)) (0, 0) (ex_vm (ex_mm0\<lparr>mm_mmap := [ex_area]\<rparr>) ex_dev ex_dev)
      = Some (0, (20, 50), set_mm (ex_vm (ex_mm0\<lparr>mm_mmap := [ex_area]\<rparr>) ex_dev ex_dev) 0
          (ex_mm0\<lparr>mm_mmap := [ex_area\<lparr>vm_freerg_list := l\<rparr>]\<rparr>))
    \<and> intervals l = [(0, 10), (60, 100)]"
proof -
  have m: "w_mms (ex_vm (ex_mm0\<lparr>mm_mmap := [ex_area]\<rparr>) ex_dev ex_dev) 0 = Some (ex_mm0\<lparr>mm_mmap := [ex_area]\<rparr>)"
    "mm_mmap (ex_mm0\<lparr>mm_mmap := [ex_area]\<rparr>) = [ex_area]" "vm_id ex_area = 0" "p_mm ex_caller = Some 0"
    by (simp_all add: ex_vm_def ex_area_def ex_caller_def)
  have r: "regions_ok 4096 (vm_freerg_list ex_area)"
    by (auto simp: ex_area_def rg_wf_def rg_span_def)
  have "first_fit (intervals (vm_freerg_list ex_area)) 30 = Some ((20, 50), [(0, 10), (60, 100)])"
    by (simp add: ex_area_def)
  then show ?thesis
    using free_list_is_first_fit [OF m r, of 30 "(0, 0)"] by simp
qed

end
