(* ===== verification/Isolation.thy ===== *)
theory Isolation
  imports Libmem
begin

text \<open>
  The invariant of demand paging, over what the page tables and the devices amount to: the entry of
  every page of every descriptor, the replacement list of every descriptor, and the two devices.
  Frames of the RAM and slots of the swap device have at most one owner, and a page that has
  contents keeps them wherever it is.  The theory first shows the three moves of
  \<open>pg_getpage\<close> on this level: taking a free frame, evicting a page, and installing a page in a
  frame.
\<close>

section \<open>Entries and devices\<close>

definition epresent :: "u64 \<Rightarrow> bool" where
  "epresent e \<longleftrightarrow> PAGING_PAGE_PRESENT (ucast e)"

definition eswapped :: "u64 \<Rightarrow> bool" where
  "eswapped e \<longleftrightarrow> \<not> epresent e \<and> PAGING_PAGE_SWAPPED (ucast e)"

definition eframe :: "u64 \<Rightarrow> addr_t" where
  "eframe e = ucast (PAGING_FPN (ucast e))"

definition eslot :: "u64 \<Rightarrow> addr_t" where
  "eslot e = ucast (PAGING_SWP (ucast e))"

lemma entry_zero [simp]: "\<not> epresent 0" "\<not> eswapped 0"
  by (simp_all add: epresent_def eswapped_def pte_simps)

lemma entry_online [simp]: "epresent (pte_online e f)" "\<not> eswapped (pte_online e f)"
  by (simp_all add: epresent_def eswapped_def online_present)

lemma entry_swapped [simp]: "\<not> epresent (pte_swapped e t g)" "eswapped (pte_swapped e t g)"
  by (simp_all add: epresent_def eswapped_def swapped_not_present swapped_swapped)

lemma eframe_online [simp]: "unat f < 2 ^ 13 \<Longrightarrow> eframe (pte_online e f) = f"
  by (simp add: eframe_def online_fpn take_bit_small ucast_up_down)

lemma eslot_swapped [simp]: "unat g < 2 ^ 21 \<Longrightarrow> eslot (pte_swapped e t g) = g"
  by (simp add: eslot_def swapped_swp take_bit_small ucast_up_down)

text \<open>A random access device all of whose frames lie inside it, have at most \<open>b\<close> bits and are
  listed once.\<close>

definition dev_ok :: "nat \<Rightarrow> memphy_struct \<Rightarrow> bool" where
  "dev_ok b m \<longleftrightarrow> rdmflg m \<and> distinct (free_fp_list m @ used_fp_list m)
     \<and> (\<forall>f \<in> set (free_fp_list m @ used_fp_list m). frame_fits m f \<and> unat f < 2 ^ b)"

lemma dev_ok_pool: "dev_ok b m \<Longrightarrow> pool_ok m"
  by (auto simp: dev_ok_def pool_ok_def list_all_iff frame_fits_def)

lemma dev_ok_used: "dev_ok b m \<Longrightarrow> f \<in> set (used_fp_list m) \<Longrightarrow> frame_fits m f \<and> unat f < 2 ^ b"
  by (auto simp: dev_ok_def)

lemma dev_ok_get:
  assumes "dev_ok b m" and "fp_get m = Some (f, m')"
  shows "dev_ok b m'" and "f \<in> set (used_fp_list m')" and "f \<notin> set (used_fp_list m)"
    and "set (used_fp_list m') = insert f (set (used_fp_list m))" and "storage m' = storage m"
    and "rdmflg m'" and "frame_fits m' f" and "unat f < 2 ^ b"
  using assms by (auto simp: dev_ok_def fp_get_eq frame_fits_def split: list.splits)

lemma dev_ok_put:
  assumes "dev_ok b m" and "f \<in> set (used_fp_list m)" and "fp_put m f = Some m'"
  shows "dev_ok b m'" and "set (used_fp_list m') = set (used_fp_list m) - {f}" and "storage m' = storage m"
proof -
  have "frame_valid f" using assms(1,2) by (auto simp: dev_ok_def frame_fits_def)
  then have m': "m' = m\<lparr>used_fp_list := remove1 f (used_fp_list m), free_fp_list := f # free_fp_list m\<rparr>"
    using assms(2,3) by (simp add: fp_put_eq)
  then show "dev_ok b m'" and "set (used_fp_list m') = set (used_fp_list m) - {f}" and "storage m' = storage m"
    using assms(1,2) by (auto simp: dev_ok_def frame_fits_def)
qed

lemma dev_ok_storage:
  "length st = length (storage m) \<Longrightarrow> dev_ok b (m\<lparr>storage := st\<rparr>) \<longleftrightarrow> dev_ok b m"
  by (simp add: dev_ok_def frame_fits_def)

section \<open>The invariant\<close>

type_synonym entries = "mm_ptr \<Rightarrow> nat \<Rightarrow> u64"

definition owned :: "(u64 \<Rightarrow> bool) \<Rightarrow> (u64 \<Rightarrow> addr_t) \<Rightarrow> entries \<Rightarrow> addr_t set \<Rightarrow> bool" where
  "owned is_at at P used \<longleftrightarrow>
     (\<forall>mp p. is_at (P mp p) \<longrightarrow> at (P mp p) \<in> used)
     \<and> (\<forall>mp p mq q. is_at (P mp p) \<longrightarrow> is_at (P mq q) \<longrightarrow> at (P mp p) = at (P mq q) \<longrightarrow> mp = mq \<and> p = q)"

definition listed :: "entries \<Rightarrow> (mm_ptr \<Rightarrow> addr_t list) \<Rightarrow> bool" where
  "listed P fi \<longleftrightarrow> (\<forall>mp. distinct (fi mp)
     \<and> (\<forall>g \<in> set (fi mp). unat g < page_limit \<and> epresent (P mp (unat g))))"

definition paging_ok :: "entries \<Rightarrow> (mm_ptr \<Rightarrow> addr_t list) \<Rightarrow> memphy_struct \<Rightarrow> memphy_struct \<Rightarrow> bool" where
  "paging_ok P fi ram swp \<longleftrightarrow> dev_ok 13 ram \<and> dev_ok 21 swp
     \<and> owned epresent eframe P (set (used_fp_list ram)) \<and> owned eswapped eslot P (set (used_fp_list swp))
     \<and> listed P fi"

text \<open>The bytes of a frame, and the contents of a page, if it has any.\<close>

definition frame_bytes :: "memphy_struct \<Rightarrow> addr_t \<Rightarrow> byte list" where
  "frame_bytes m f = map (frame_byte m f) [0..<PAGING64_PAGESZ]"

definition contents :: "entries \<Rightarrow> memphy_struct \<Rightarrow> memphy_struct \<Rightarrow> mm_ptr \<Rightarrow> nat \<Rightarrow> byte list option" where
  "contents P ram swp mp p =
     (if epresent (P mp p) then Some (frame_bytes ram (eframe (P mp p)))
      else if eswapped (P mp p) then Some (frame_bytes swp (eslot (P mp p)))
      else None)"

lemma frame_bytes_storage: "storage m' = storage m \<Longrightarrow> frame_bytes m' f = frame_bytes m f"
  by (simp add: frame_bytes_def frame_byte_def)

definition unmapped :: "entries \<Rightarrow> addr_t \<Rightarrow> bool" where
  "unmapped P f \<longleftrightarrow> (\<forall>mp p. epresent (P mp p) \<longrightarrow> eframe (P mp p) \<noteq> f)"

definition set_entry :: "entries \<Rightarrow> mm_ptr \<Rightarrow> nat \<Rightarrow> u64 \<Rightarrow> entries" where
  "set_entry P mp p e = P(mp := (P mp)(p := e))"

lemma set_entry_app: "set_entry P mp p e mq q = (if mq = mp \<and> q = p then e else P mq q)"
  by (simp add: set_entry_def)

text \<open>Giving a page a new place that nobody else has keeps single ownership; so does taking its
  place away.\<close>

lemma owned_add:
  assumes "owned is_at at P used" and "is_at e \<Longrightarrow> at e \<in> used'" and "used - {a} \<subseteq> used'"
    and "is_at e \<Longrightarrow> \<forall>mq q. (mq, q) \<noteq> (mp, p) \<longrightarrow> is_at (P mq q) \<longrightarrow> at (P mq q) \<noteq> at e"
    and "\<And>mq q. (mq, q) \<noteq> (mp, p) \<Longrightarrow> is_at (P mq q) \<Longrightarrow> at (P mq q) \<noteq> a"
  shows "owned is_at at (set_entry P mp p e) used'"
  using assms unfolding owned_def set_entry_app by (auto split: if_splits) blast+

lemma owned_drop: "owned is_at at P used \<Longrightarrow> \<not> is_at e \<Longrightarrow> owned is_at at (set_entry P mp p e) used"
  unfolding owned_def set_entry_app by (auto split: if_splits)

section \<open>Taking a free frame\<close>

lemma paging_take:
  assumes "paging_ok P fi ram swp" and "fp_get ram = Some (f, ram')"
  shows "paging_ok P fi ram' swp" and "unmapped P f" and "f \<in> set (used_fp_list ram')"
    and "contents P ram' swp = contents P ram swp"
proof -
  note g = dev_ok_get [OF _ assms(2), of 13]
  have ok: "dev_ok 13 ram" using assms(1) by (simp add: paging_ok_def)
  show "paging_ok P fi ram' swp"
    using assms(1) g [OF ok] by (auto simp: paging_ok_def owned_def)
  show "unmapped P f" using assms(1) g(3) [OF ok] by (auto simp: paging_ok_def owned_def unmapped_def)
  show "f \<in> set (used_fp_list ram')" by (rule g(2) [OF ok])
  show "contents P ram' swp = contents P ram swp"
    using frame_bytes_storage [OF g(5) [OF ok]] by (auto simp: contents_def fun_eq_iff)
qed

section \<open>Copying a frame\<close>

text \<open>The device after the bytes \<open>bs\<close> were copied into its frame \<open>f\<close>.\<close>

definition copied :: "memphy_struct \<Rightarrow> addr_t \<Rightarrow> byte list \<Rightarrow> memphy_struct \<Rightarrow> bool" where
  "copied d f bs d' \<longleftrightarrow>
     (\<exists>st. d' = d\<lparr>storage := st\<rparr> \<and> length st = length (storage d)) \<and> frame_bytes d' f = bs
     \<and> (\<forall>g. g \<noteq> f \<longrightarrow> frame_fits d g \<longrightarrow> frame_bytes d' g = frame_bytes d g)"

lemma swap_cp_page_copied:
  assumes "rdmflg s" and "rdmflg d" and "frame_fits s sf" and "frame_fits d df"
  obtains d' where "swap_cp_page (Some s) sf (Some d) df = Some (0, Some s, Some d')"
    and "copied d df (frame_bytes s sf) d'"
proof (rule swap_cp_page_spec [OF assms])
  fix st
  assume run: "swap_cp_page (Some s) sf (Some d) df = Some (0, Some s, Some (d\<lparr>storage := st\<rparr>))"
    and st: "length st = length (storage d)"
      "\<And>i. i < PAGING64_PAGESZ \<Longrightarrow> frame_byte (d\<lparr>storage := st\<rparr>) df i = frame_byte s sf i"
      "\<And>g i. g \<noteq> df \<Longrightarrow> frame_fits d g \<Longrightarrow> i < PAGING64_PAGESZ \<Longrightarrow>
           frame_byte (d\<lparr>storage := st\<rparr>) g i = frame_byte d g i"
  have "copied d df (frame_bytes s sf) (d\<lparr>storage := st\<rparr>)"
    using st by (auto simp: copied_def frame_bytes_def)
  with run show thesis by (rule that)
qed

lemma copied_dev:
  assumes "copied d f bs d'"
  shows "dev_ok b d' = dev_ok b d" and "used_fp_list d' = used_fp_list d" and "frame_bytes d' f = bs"
    and "dev_ok b d \<Longrightarrow> g \<in> set (used_fp_list d) \<Longrightarrow> g \<noteq> f \<Longrightarrow> frame_bytes d' g = frame_bytes d g"
  using assms by (auto simp: copied_def dev_ok_storage dest: dev_ok_used)

section \<open>Evicting a page\<close>

lemma paging_evict:
  assumes ok: "paging_ok P fi ram swp" and fi: "fi mp = l @ [v]" and g: "fp_get swp = Some (g, swp1)"
    and cp: "copied swp1 g (frame_bytes ram (eframe (P mp (unat v)))) swp2"
    and P': "P' = set_entry P mp (unat v) (pte_swapped (P mp (unat v)) t g)"
  shows "paging_ok P' (fi(mp := l)) ram swp2"
    and "unmapped P' (eframe (P mp (unat v)))" and "eframe (P mp (unat v)) \<in> set (used_fp_list ram)"
    and "contents P' ram swp2 = contents P ram swp"
proof -
  have dev: "dev_ok 13 ram" "dev_ok 21 swp" and li: "listed P fi"
    and own: "owned epresent eframe P (set (used_fp_list ram))" "owned eswapped eslot P (set (used_fp_list swp))"
    using ok by (auto simp: paging_ok_def)
  note get = dev_ok_get [OF dev(2) g] and cd = copied_dev [OF cp]
  have v: "epresent (P mp (unat v))" "\<And>u. u \<in> set l \<Longrightarrow> unat u \<noteq> unat v"
    using li fi by (auto simp: listed_def word_unat_eq_iff [symmetric] dest: spec [of _ mp])
  have sl: "eslot (pte_swapped (P mp (unat v)) t g) = g" using get(8) by simp
  have own1: "owned epresent eframe P' (set (used_fp_list ram))"
    unfolding P' by (rule owned_drop [OF own(1)]) simp
  have own2: "owned eswapped eslot P' (set (used_fp_list swp2))"
    unfolding P' by (rule owned_add [OF own(2), where a = g])
      (use get(2-4) own(2) sl in \<open>auto simp: cd(2) owned_def\<close>)
  have "listed P' (fi(mp := l))"
    using li fi v(2) by (auto simp: listed_def P' set_entry_app dest: spec [of _ mp])
  then show "paging_ok P' (fi(mp := l)) ram swp2"
    using own1 own2 dev get(1) cd(1) by (simp add: paging_ok_def)
  show "eframe (P mp (unat v)) \<in> set (used_fp_list ram)" using own(1) v(1) by (auto simp: owned_def)
  show "unmapped P' (eframe (P mp (unat v)))"
    using own(1) v(1) by (auto simp: owned_def unmapped_def P' set_entry_app)
  have "contents P' ram swp2 mq q = contents P ram swp mq q" for mq q
  proof (cases "eswapped (P mq q)")
    case True
    then have e: "eslot (P mq q) \<in> set (used_fp_list swp)" "\<not> epresent (P mq q)"
      using own(2) by (auto simp: owned_def eswapped_def)
    then have "frame_bytes swp2 (eslot (P mq q)) = frame_bytes swp1 (eslot (P mq q))"
      using get(3,4) by (intro cd(4) [OF get(1)]) auto
    moreover have "\<not> (mq = mp \<and> q = unat v)" using e(2) v(1) by auto
    ultimately show ?thesis
      using True e frame_bytes_storage [OF get(5)] by (auto simp: contents_def P' set_entry_app)
  next
    case False
    then show ?thesis using v(1) cd(3) sl by (auto simp: contents_def P' set_entry_app)
  qed
  then show "contents P' ram swp2 = contents P ram swp" by (simp add: fun_eq_iff)
qed

section \<open>Installing a page\<close>

lemma paging_install_own:
  assumes ok: "paging_ok P fi ram swp" and p: "p < page_limit" "\<not> epresent (P mp p)"
    and f: "f \<in> set (used_fp_list ram)" "unmapped P f"
    and P': "P' = set_entry P mp p (pte_online e f)"
  shows "owned epresent eframe P' (set (used_fp_list ram))" and "eframe (pte_online e f) = f"
    and "listed P' (fi(mp := of_nat p # fi mp))"
proof -
  have own: "owned epresent eframe P (set (used_fp_list ram))" and li: "listed P fi"
    using ok by (auto simp: paging_ok_def)
  have "unat f < 2 ^ 13" using ok f(1) dev_ok_used [of 13 ram f] by (simp add: paging_ok_def)
  then show fr: "eframe (pte_online e f) = f" by simp
  show "owned epresent eframe P' (set (used_fp_list ram))"
    unfolding P' by (rule owned_add [OF own, where a = f])
      (use f fr in \<open>auto simp: unmapped_def\<close>)
  have "of_nat p \<notin> set (fi mp)" using li p unat_page [OF p(1)] unfolding listed_def by metis
  then show "listed P' (fi(mp := of_nat p # fi mp))"
    using li p unat_page [OF p(1)] by (auto simp: listed_def P' set_entry_app)
qed

text \<open>A page that never had contents gets those of the frame.\<close>

lemma paging_install_fresh:
  assumes ok: "paging_ok P fi ram swp" and p: "p < page_limit" "\<not> epresent (P mp p)" "\<not> eswapped (P mp p)"
    and f: "f \<in> set (used_fp_list ram)" "unmapped P f"
    and P': "P' = set_entry P mp p (pte_online e f)"
  shows "paging_ok P' (fi(mp := of_nat p # fi mp)) ram swp"
    and "(mq, q) \<noteq> (mp, p) \<Longrightarrow> contents P' ram swp mq q = contents P ram swp mq q"
    and "contents P' ram swp mp p = Some (frame_bytes ram f)"
proof -
  note own = paging_install_own [OF ok p(1,2) f P']
  have "owned eswapped eslot P' (set (used_fp_list swp))"
    unfolding P' using ok by (intro owned_drop) (auto simp: paging_ok_def)
  then show "paging_ok P' (fi(mp := of_nat p # fi mp)) ram swp"
    using own ok by (simp add: paging_ok_def)
  show "contents P' ram swp mp p = Some (frame_bytes ram f)"
    using own(2) by (simp add: contents_def P' set_entry_app)
  show "(mq, q) \<noteq> (mp, p) \<Longrightarrow> contents P' ram swp mq q = contents P ram swp mq q"
    by (auto simp: contents_def P' set_entry_app)
qed

text \<open>A swapped page keeps its contents: they move from the slot, which becomes free, to the
  frame.\<close>

lemma paging_install_swapped:
  assumes ok: "paging_ok P fi ram swp" and p: "p < page_limit" "eswapped (P mp p)"
    and f: "f \<in> set (used_fp_list ram)" "unmapped P f"
    and cp: "copied ram f (frame_bytes swp (eslot (P mp p))) ram'"
    and put: "fp_put swp (eslot (P mp p)) = Some swp'"
    and P': "P' = set_entry P mp p (pte_online e f)"
  shows "paging_ok P' (fi(mp := of_nat p # fi mp)) ram' swp'"
    and "contents P' ram' swp' = contents P ram swp"
proof -
  have np: "\<not> epresent (P mp p)" using p(2) by (simp add: eswapped_def)
  note own = paging_install_own [OF ok p(1) np f P'] and cd = copied_dev [OF cp]
  have dev: "dev_ok 13 ram" "dev_ok 21 swp"
    and ow: "owned epresent eframe P (set (used_fp_list ram))" "owned eswapped eslot P (set (used_fp_list swp))"
    using ok by (auto simp: paging_ok_def)
  have sl: "eslot (P mp p) \<in> set (used_fp_list swp)" using ow(2) p(2) by (simp add: owned_def)
  note pt = dev_ok_put [OF dev(2) sl put]
  have "owned eswapped eslot P' (set (used_fp_list swp'))"
    unfolding P' by (rule owned_add [OF ow(2), where a = "eslot (P mp p)"])
      (use p(2) ow(2) in \<open>auto simp: pt(2) owned_def\<close>)
  then show "paging_ok P' (fi(mp := of_nat p # fi mp)) ram' swp'"
    using own dev pt(1) cd(1,2) by (simp add: paging_ok_def)
  have "contents P' ram' swp' mq q = contents P ram swp mq q" for mq q
  proof (cases "epresent (P mq q)")
    case True
    then have e: "eframe (P mq q) \<in> set (used_fp_list ram)" "eframe (P mq q) \<noteq> f"
      using ow(1) f(2) by (auto simp: owned_def unmapped_def)
    have "\<not> (mq = mp \<and> q = p)" using True np by auto
    then show ?thesis
      using True cd(4) [OF dev(1) e] by (auto simp: contents_def P' set_entry_app)
  next
    case False
    then show ?thesis
      using p(2) np cd(3) own(2) frame_bytes_storage [OF pt(3)]
      by (auto simp: contents_def P' set_entry_app)
  qed
  then show "contents P' ram' swp' = contents P ram swp" by (simp add: fun_eq_iff)
qed

section \<open>The world\<close>

text \<open>A caller whose number the kernel's process table knows, as the system calls need it.\<close>

definition registered :: "pcb_t \<Rightarrow> world \<Rightarrow> bool" where
  "registered c w \<longleftrightarrow> (\<exists>k c'. unat (p_pid c) \<le> PID_MAX
     \<and> arr_get (k_proc_table (w_os w)) (unat (p_pid c)) = Some (Some k) \<and> w_pcbs w k = Some c' \<and> p_krnl c')"

definition same_ctx :: "world \<Rightarrow> world \<Rightarrow> bool" where
  "same_ctx w w' \<longleftrightarrow> w_pcbs w' = w_pcbs w \<and> k_proc_table (w_os w') = k_proc_table (w_os w)
     \<and> (\<forall>c q. caller_ok c q w' = caller_ok c q w)"

lemma same_ctx_keeps:
  assumes "same_ctx w w'"
  shows "registered c w' = registered c w" and "caller_ok c q w' = caller_ok c q w"
  using assms by (simp_all add: same_ctx_def registered_def)

lemma same_ctx_refl [simp]: "same_ctx w w"
  by (simp add: same_ctx_def)

lemma same_ctx_trans [trans]: "same_ctx u v \<Longrightarrow> same_ctx v w \<Longrightarrow> same_ctx u w"
  by (simp add: same_ctx_def)

lemma set_dev_view [simp]:
  "vpage (set_mram w d) = vpage w" "fifo (set_mram w d) = fifo w" "same_ctx w (set_mram w d)"
  "vpage (set_mswp w d) = vpage w" "fifo (set_mswp w d) = fifo w" "same_ctx w (set_mswp w d)"
  by (simp_all add: vpage_def pte_view_def fifo_def fun_eq_iff same_ctx_def caller_ok_def)

lemma pt_changed_world:
  assumes "pt_changed mp w w'"
  shows "same_ctx w w'" and "fifo w' = fifo w" and "w_os w' = w_os w"
    and "vpage w' mp = (vpage w mp)(p := e) \<Longrightarrow> vpage w' = set_entry (vpage w) mp p e"
    and "vpage w' mp = vpage w mp \<Longrightarrow> vpage w' = vpage w"
proof -
  show "same_ctx w w'" and "fifo w' = fifo w" and "w_os w' = w_os w"
    using pt_changed_frame(1,2,5) [OF assms] pt_vm_changed(2) [OF assms]
    by (auto simp: same_ctx_def fun_eq_iff)
  have "vpage w' = (vpage w)(mp := vpage w' mp)"
    using vpage_other [OF assms] by (simp add: fun_eq_iff)
  then show "vpage w' mp = (vpage w mp)(p := e) \<Longrightarrow> vpage w' = set_entry (vpage w) mp p e"
    and "vpage w' mp = vpage w mp \<Longrightarrow> vpage w' = vpage w"
    by (simp_all add: set_entry_def)
qed

lemma vm_changed_world:
  assumes "vm_changed mp w w'"
  shows "same_ctx w w'" and "w_os w' = w_os w"
    and "vpage w' mp = vpage w mp \<Longrightarrow> vpage w' = vpage w"
    and "fifo w' mp = l \<Longrightarrow> fifo w' = (fifo w)(mp := l)"
proof -
  show "same_ctx w w'" and "w_os w' = w_os w"
    using vm_changed_frame(1,2,6) [OF assms] by (auto simp: same_ctx_def)
  have "vpage w' = (vpage w)(mp := vpage w' mp)" and "fifo w' = (fifo w)(mp := fifo w' mp)"
    using vm_changed_frame(4,5) [OF assms] by (auto simp: fun_eq_iff)
  then show "vpage w' mp = vpage w mp \<Longrightarrow> vpage w' = vpage w"
    and "fifo w' mp = l \<Longrightarrow> fifo w' = (fifo w)(mp := l)"
    by (simp_all add: fun_upd_idem)
qed

text \<open>The paging invariant of a world, and what every page holds.\<close>

definition vm_inv :: "world \<Rightarrow> bool" where
  "vm_inv w \<longleftrightarrow> (case (mram w, mswp w) of
     (Some ram, Some swp) \<Rightarrow> paging_ok (vpage w) (fifo w) ram swp | _ \<Rightarrow> False)"

definition page_bytes :: "world \<Rightarrow> mm_ptr \<Rightarrow> nat \<Rightarrow> byte list option" where
  "page_bytes w = contents (vpage w) (the (mram w)) (the (mswp w))"

lemma vm_invE:
  assumes "vm_inv w"
  obtains ram swp where "mram w = Some ram" and "mswp w = Some swp" and "paging_ok (vpage w) (fifo w) ram swp"
  using assms by (auto simp: vm_inv_def split: option.splits prod.splits)

lemma vm_invI:
  "mram w = Some ram \<Longrightarrow> mswp w = Some swp \<Longrightarrow> paging_ok (vpage w) (fifo w) ram swp \<Longrightarrow> vm_inv w"
  by (simp add: vm_inv_def)

lemma registered_proc:
  assumes "registered c w" and "p_krnl c"
  obtains k c' where "get_proc_from_PID (p_krnl c) (p_pid c) w = Some (Some k)"
    and "w_pcbs w k = Some c'" and "p_krnl c'"
proof -
  obtain k c' where k: "unat (p_pid c) \<le> PID_MAX" "w_pcbs w k = Some c'" "p_krnl c'"
    "arr_get (k_proc_table (w_os w)) (unat (p_pid c)) = Some (Some k)"
    using assms(1) unfolding registered_def by blast
  have "get_proc_from_PID (p_krnl c) (p_pid c) w = Some (Some k)"
    unfolding get_proc_from_PID_def using k(1,4) assms(2) by (metis linorder_not_less)
  then show thesis using k(2,3) by (rule that)
qed

text \<open>Copying a frame to the swap device through the system call.\<close>

lemma swap_syscall:
  assumes reg: "registered c w" "p_krnl c" and dev: "mram w = Some ram" "mswp w = Some swp"
    and f: "dev_ok 13 ram" "f \<in> set (used_fp_list ram)" and g: "dev_ok 21 swp" "g \<in> set (used_fp_list swp)"
  obtains swp' where "do_syscall (p_krnl c) (p_pid c) 17 \<lparr>a1 = of_int SYSMEM_SWP_OP, a2 = f, a3 = g\<rparr> w
      = Some (0, \<lparr>a1 = of_int SYSMEM_SWP_OP, a2 = f, a3 = g\<rparr>, set_mswp (set_mram w (Some ram)) (Some swp'))"
    and "copied swp g (frame_bytes ram f) swp'"
proof -
  obtain k c' where k: "get_proc_from_PID (p_krnl c) (p_pid c) w = Some (Some k)" "w_pcbs w k = Some c'" "p_krnl c'"
    using registered_proc [OF reg] .
  have fit: "rdmflg ram" "rdmflg swp" "frame_fits ram f" "frame_fits swp g" "unat f < 2 ^ 13" "unat g < 2 ^ 21"
    using dev_ok_used [OF f] dev_ok_used [OF g] f(1) g(1) by (auto simp: dev_ok_def)
  obtain swp' where cp: "swap_cp_page (Some ram) f (Some swp) g = Some (0, Some ram, Some swp')"
    and "copied swp g (frame_bytes ram f) swp'"
    using swap_cp_page_copied [OF fit(1-4)] by blast
  moreover have "sysmem_addr f = f" "sysmem_addr g = g" using fit(5,6) by (auto intro: sysmem_addr_small)
  ultimately show thesis
    using k(3) dev
    by (intro that [of swp']) (simp_all add: do_syscall_mem sys_memmap_ops(1) [OF k(1,2)] mm_swap_page_def)
qed

section \<open>Choosing a frame\<close>

text \<open>What \<open>get_target_frame\<close> keeps, whatever it returns: the context, the invariant and the
  contents of all pages.\<close>

definition vm_kept :: "world \<Rightarrow> world \<Rightarrow> bool" where
  "vm_kept w w' \<longleftrightarrow> same_ctx w w' \<and> vm_inv w' \<and> page_bytes w' = page_bytes w"

lemma vm_kept_view:
  assumes "vm_inv w" and "same_ctx w w'" and "vpage w' = vpage w" and "fifo w' = fifo w" and "w_os w' = w_os w"
  shows "vm_kept w w'"
  using assms unfolding vm_kept_def vm_inv_def page_bytes_def by metis

lemma vm_kept_refl: "vm_inv w \<Longrightarrow> vm_kept w w"
  by (simp add: vm_kept_def)

lemma vm_kept_trans [trans]: "vm_kept u v \<Longrightarrow> vm_kept v w \<Longrightarrow> vm_kept u w"
  by (auto simp: vm_kept_def intro: same_ctx_trans)

text \<open>Reading an entry keeps everything.\<close>

lemma pte_get_entry_kept:
  assumes "caller_ok c mp w" and "p < page_limit" and "vm_inv w"
  obtains w' where "pte_get_entry (Some c) (of_nat p) w = Some (ucast (vpage w mp p), w')"
    and "vm_kept w w'" and "vpage w' = vpage w" and "fifo w' = fifo w" and "w_os w' = w_os w"
    and "w_hostmem w' = w_hostmem w"
proof (rule pte_get_entry_page [OF assms(1,2)])
  fix w'
  assume *: "pte_get_entry (Some c) (of_nat p) w = Some (ucast (vpage w mp p), w')"
    "pt_changed mp w w'" "vpage w' mp = vpage w mp" "w_hostmem w' = w_hostmem w"
  note ch = pt_changed_world [OF *(2)]
  show thesis
    using *(1) vm_kept_view [OF assms(3) ch(1) ch(5) [OF *(3)] ch(2,3)] ch(5) [OF *(3)] ch(2,3) *(4) by (rule that)
qed

lemma get_freefp_take:
  assumes "mram w = Some ram" and "mswp w = Some swp" and "paging_ok (vpage w) (fifo w) ram swp"
    and "fp_get ram = Some (f, ram')"
  shows "vm_kept w (set_mram w (Some ram'))" and "unmapped (vpage w) f" and "f \<in> set (used_fp_list ram')"
  using paging_take [OF assms(3,4)] assms(1,2) by (simp_all add: vm_kept_def vm_inv_def page_bytes_def)

text \<open>Taking the victim off the replacement list.\<close>

lemma find_victim_page_spec:
  assumes "caller_ok c mp w"
  shows "fifo w mp = [] \<Longrightarrow> find_victim_page mp w = Some (- 1, 0, w)"
    and "fifo w mp = l @ [v] \<Longrightarrow> \<exists>w'. find_victim_page mp w = Some (0, v, w') \<and> same_ctx w w'
      \<and> vpage w' = vpage w \<and> fifo w' = (fifo w)(mp := l) \<and> w_os w' = w_os w \<and> w_hostmem w' = w_hostmem w"
proof -
  obtain m where m: "w_mms w mp = Some m" "mm_pgd m \<noteq> None" using assms by (auto simp: caller_ok_def)
  show "fifo w mp = [] \<Longrightarrow> find_victim_page mp w = Some (- 1, 0, w)"
    using m by (simp add: find_victim_page_def fifo_def)
  define w' where "w' = set_mm w mp (m\<lparr>mm_fifo_pgn := l\<rparr>)"
  assume "fifo w mp = l @ [v]"
  then have fi: "mm_fifo_pgn m = l @ [v]" using m by (simp add: fifo_def)
  have "find_victim_page mp w = Some (0, v, w')"
    using m fi by (cases l) (auto simp: find_victim_page_def w'_def)
  moreover have "same_ctx w w'" "vpage w' = vpage w" "fifo w' = (fifo w)(mp := l)" "w_os w' = w_os w"
    "w_hostmem w' = w_hostmem w"
    using m by (auto simp: w'_def same_ctx_def caller_ok_def vpage_def pte_view_def fifo_def fun_eq_iff)
  ultimately show "\<exists>w'. find_victim_page mp w = Some (0, v, w') \<and> same_ctx w w'
      \<and> vpage w' = vpage w \<and> fifo w' = (fifo w)(mp := l) \<and> w_os w' = w_os w \<and> w_hostmem w' = w_hostmem w"
    by blast
qed

lemma listed_shorter: "paging_ok P fi ram swp \<Longrightarrow> fi mp = l @ [v] \<Longrightarrow> paging_ok P (fi(mp := l)) ram swp"
  unfolding paging_ok_def listed_def by (metis butlast_snoc distinct_butlast fun_upd_apply in_set_butlastD)

lemma get_freefp_cases:
  "MEMPHY_get_freefp (Some d) 0 = (if free_fp_list d = [] then (- 1, Some d, 0)
     else (0, Some (snd (the (fp_get d))), fst (the (fp_get d))))"
  by (auto simp: get_freefp_pool fp_get_eq split: list.splits)

text \<open>The eviction: copying the victim's frame to the new slot and marking its entry.\<close>

lemma evict_run:
  assumes ok: "caller_ok c mp w" "registered c w" and mem: "4 \<le> w_hostmem w"
    and dev: "mram w = Some ram" "mswp w = Some swp" and pok: "paging_ok (vpage w) fi ram swp"
    and fi: "fi mp = l @ [v]" "fifo w = fi(mp := l)" and g: "fp_get swp = Some (g, swp1)"
    and f: "f = eframe (vpage w mp (unat v))" and rg: "rg = \<lparr>a1 = of_int SYSMEM_SWP_OP, a2 = f, a3 = g\<rparr>"
  obtains w4 w5 where "do_syscall (p_krnl c) (p_pid c) 17 rg (set_mswp w (Some swp1)) = Some (0, rg, w4)"
    and "pte_set_swap (Some c) v 0 g w4 = Some (0, w5)"
    and "same_ctx w w5" and "vm_inv w5" and "page_bytes w5 = page_bytes w"
    and "unmapped (vpage w5) f" and "f \<in> set (used_fp_list (the (mram w5)))"
    and "\<And>q. q \<noteq> unat v \<Longrightarrow> vpage w5 mp q = vpage w mp q" and "w_hostmem w \<le> w_hostmem w5 + 4"
proof -
  let ?P = "vpage w" let ?w3 = "set_mswp w (Some swp1)"
  have k: "p_krnl c" using ok(1) by (simp add: caller_ok_def)
  have d: "dev_ok 13 ram" "dev_ok 21 swp" using pok by (auto simp: paging_ok_def)
  note get = dev_ok_get [OF d(2) g]
  have v: "unat v < page_limit" "epresent (?P mp (unat v))"
    using pok fi(1) unfolding paging_ok_def listed_def by (metis in_set_conv_decomp)+
  have fu: "f \<in> set (used_fp_list ram)" using pok v(2) f by (auto simp: paging_ok_def owned_def)
  have r3: "registered c ?w3" using same_ctx_keeps(1) [of w ?w3 c] ok(2) by simp
  obtain swp2 where sc: "do_syscall (p_krnl c) (p_pid c) 17 rg ?w3
      = Some (0, rg, set_mswp (set_mram ?w3 (Some ram)) (Some swp2))"
    and cp: "copied swp1 g (frame_bytes ram f) swp2"
    unfolding rg by (rule swap_syscall [OF r3 k _ _ d(1) fu get(1,2)]) (use dev in auto)
  define w4 where "w4 = set_mswp (set_mram ?w3 (Some ram)) (Some swp2)"
  have c4: "same_ctx w w4" unfolding w4_def by (meson same_ctx_trans set_dev_view)
  have ok4: "caller_ok c mp w4" using same_ctx_keeps(2) [OF c4] ok(1) by simp
  have view4: "vpage w4 = ?P" "fifo w4 = fifo w" "w_hostmem w4 = w_hostmem w" "mram w4 = Some ram" "mswp w4 = Some swp2"
    by (simp_all add: w4_def)
  obtain r w5 where s: "pte_set_swap (Some c) (of_nat (unat v)) 0 g w4 = Some (r, w5)" and ch: "pt_changed mp w4 w5"
    and r: "r = 0 \<and> vpage w5 mp = (vpage w4 mp)(unat v := pte_swapped (vpage w4 mp (unat v)) 0 g)
       \<or> r = - 1 \<and> vpage w5 mp = vpage w4 mp" "r = 0" and h: "w_hostmem w4 \<le> w_hostmem w5 + 4"
    by (rule pte_set_swap_page [OF ok4 v(1), of 0 g]) (use mem view4 in metis)
  note w5 = pt_changed_world [OF ch]
  have P5: "vpage w5 = set_entry ?P mp (unat v) (pte_swapped (?P mp (unat v)) 0 g)"
    using r view4(1) w5(4) [of "unat v" "pte_swapped (?P mp (unat v)) 0 g"] by simp
  note ev = paging_evict [OF pok fi(1) g cp [unfolded f] P5]
  show thesis
  proof (rule that [of w4 w5])
    show "do_syscall (p_krnl c) (p_pid c) 17 rg ?w3 = Some (0, rg, w4)" using sc by (simp add: w4_def)
    show "pte_set_swap (Some c) v 0 g w4 = Some (0, w5)" using s r(2) by simp
    show "same_ctx w w5" using c4 w5(1) by (rule same_ctx_trans)
    show "vm_inv w5" using ev(1) w5(2,3) view4 fi(2) by (intro vm_invI) auto
    show "page_bytes w5 = page_bytes w" using ev(4) w5(3) view4 dev by (simp add: page_bytes_def)
    show "unmapped (vpage w5) f" using ev(2) f by simp
    show "f \<in> set (used_fp_list (the (mram w5)))" using fu w5(3) view4 by simp
    show "vpage w5 mp q = vpage w mp q" if "q \<noteq> unat v" for q using that by (simp add: P5 set_entry_app)
    show "w_hostmem w \<le> w_hostmem w5 + 4" using h view4 by simp
  qed
qed

lemma get_target_frame_cases:
  assumes ok: "caller_ok c mp w" and reg: "registered c w" and inv: "vm_inv w" and mem: "4 \<le> w_hostmem w"
  obtains (got) f w' where "get_target_frame c w = Some (Some f, w')" and "vm_kept w w'"
      and "unmapped (vpage w') f" and "f \<in> set (used_fp_list (the (mram w')))"
      and "\<And>q. \<not> epresent (vpage w mp q) \<Longrightarrow> vpage w' mp q = vpage w mp q"
      and "w_hostmem w \<le> w_hostmem w' + 4"
  | (full) w' where "get_target_frame c w = Some (None, w')" and "vm_kept w w'" and "vpage w' = vpage w"
      and "free_fp_list (the (mram w)) = []" and "fifo w mp = [] \<or> free_fp_list (the (mswp w)) = []"
      and "fifo w' = (fifo w)(mp := butlast (fifo w mp))" and "w_hostmem w' = w_hostmem w"
proof -
  obtain ram swp where dev: "mram w = Some ram" "mswp w = Some swp" and pok: "paging_ok (vpage w) (fifo w) ram swp"
    using inv by (rule vm_invE)
  have k: "p_krnl c" "p_mm c = Some mp" using ok by (auto simp: caller_ok_def)
  have same: "set_mram w (Some ram) = w" using dev(1) by (simp add: set_mram_def)
  note full0 = get_target_frame_def get_freefp_cases
  show thesis
  proof (cases "free_fp_list ram")
    case (Cons f fs)
    then obtain ram' where g: "fp_get ram = Some (f, ram')" by (simp add: fp_get_eq)
    have "get_target_frame c w = Some (Some f, set_mram w (Some ram'))"
      using k dev g by (simp add: get_target_frame_def get_freefp_pool)
    then show ?thesis
      by (rule got) (use get_freefp_take [OF dev pok g] in auto)
  next
    case Nil
    show ?thesis
    proof (cases "fifo w mp" rule: rev_cases)
      case fi: Nil
      have "get_target_frame c w = Some (None, w)"
        using k dev Nil find_victim_page_spec(1) [OF ok fi] by (simp add: full0 same)
      then show ?thesis
        by (rule full) (use fi Nil dev vm_kept_refl [OF inv] in \<open>auto simp: fun_upd_idem\<close>)
    next
      case (snoc l v)
      obtain w1 where fv: "find_victim_page mp w = Some (0, v, w1)" "same_ctx w w1" "vpage w1 = vpage w"
        "fifo w1 = (fifo w)(mp := l)" "w_os w1 = w_os w" "w_hostmem w1 = w_hostmem w"
        using find_victim_page_spec(2) [OF ok snoc] by blast
      have ok1: "caller_ok c mp w1" "registered c w1" using same_ctx_keeps [OF fv(2)] ok reg by auto
      have inv1: "vm_inv w1"
        using listed_shorter [OF pok snoc] dev fv(3-5) by (intro vm_invI) simp_all
      have v: "unat v < page_limit" "epresent (vpage w mp (unat v))"
        using pok snoc unfolding paging_ok_def listed_def by (metis in_set_conv_decomp)+
      obtain w2 where ge: "pte_get_entry (Some c) v w1 = Some (ucast (vpage w mp (unat v)), w2)"
        and w2: "vm_kept w1 w2" "vpage w2 = vpage w" "fifo w2 = fifo w1" "w_os w2 = w_os w" "w_hostmem w2 = w_hostmem w"
        by (rule pte_get_entry_kept [OF ok1(1) v(1) inv1]) (use fv in auto)
      have kept2: "vm_kept w w2" "same_ctx w w2"
        using w2 fv inv same_ctx_trans [OF fv(2)] by (auto simp: vm_kept_def page_bytes_def)
      let ?f = "eframe (vpage w mp (unat v))"
      show ?thesis
      proof (cases "free_fp_list swp")
        case sw: Nil
        have s2: "set_mswp w2 (Some swp) = w2" using w2(4) dev by (simp add: set_mswp_def)
        have "get_target_frame c w = Some (None, w2)"
          using k dev Nil fv(1) ge w2(4) sw by (simp add: full0 same s2)
        then show ?thesis
          by (rule full) (use kept2 w2 fv dev Nil sw snoc in auto)
      next
        case (Cons g gs)
        then obtain swp1 where g: "fp_get swp = Some (g, swp1)" by (simp add: fp_get_eq)
        have ok2: "caller_ok c mp w2" "registered c w2" using same_ctx_keeps [OF kept2(2)] ok reg by auto
        have d2: "mram w2 = Some ram" "mswp w2 = Some swp" "paging_ok (vpage w2) (fifo w) ram swp"
          "fifo w2 = (fifo w)(mp := l)" "4 \<le> w_hostmem w2" using w2 dev pok fv mem by simp_all
        obtain w4 w5 where e: "do_syscall (p_krnl c) (p_pid c) 17 \<lparr>a1 = of_int SYSMEM_SWP_OP, a2 = ?f, a3 = g\<rparr>
            (set_mswp w2 (Some swp1)) = Some (0, \<lparr>a1 = of_int SYSMEM_SWP_OP, a2 = ?f, a3 = g\<rparr>, w4)"
          "pte_set_swap (Some c) v 0 g w4 = Some (0, w5)" "same_ctx w2 w5" "vm_inv w5" "page_bytes w5 = page_bytes w2"
          "unmapped (vpage w5) ?f" "?f \<in> set (used_fp_list (the (mram w5)))"
          "\<And>q. q \<noteq> unat v \<Longrightarrow> vpage w5 mp q = vpage w2 mp q" "w_hostmem w2 \<le> w_hostmem w5 + 4"
          by (rule evict_run [OF ok2 d2(5) d2(1-3) snoc d2(4) g _ refl]) (use w2(2) in auto)
        have "get_target_frame c w = Some (Some ?f, w5)"
          using k dev Nil fv(1) ge w2(4) Cons g e(1,2) by (simp add: full0 same eframe_def)
        then show ?thesis
        proof (rule got)
          show "vm_kept w w5" using kept2 e(3-5) same_ctx_trans by (auto simp: vm_kept_def)
          show "vpage w5 mp q = vpage w mp q" if "\<not> epresent (vpage w mp q)" for q
            using that v(2) w2(2) e(8) [of q] by auto
        qed (use e w2 in auto)
      qed
    qed
  qed
qed

section \<open>The page fault handler\<close>

lemma scast_page: "sint (pgn :: cint) = int p \<Longrightarrow> (scast pgn :: addr_t) = of_nat p"
  by (metis of_int_of_nat_eq of_int_sint)

lemma sint_page_limit: "sint (pgn :: cint) = int p \<Longrightarrow> p < page_limit"
  using sint_lt [of pgn] by (simp add: page_limit_def)

text \<open>The page after the frame \<open>f\<close> was chosen for it: bringing its contents in, the entry and
  the replacement list.\<close>

lemma enlist_pgn_node_hostmem: "enlist_pgn_node mp pgn w = Some w' \<Longrightarrow> w_hostmem w = w_hostmem w' + 1"
  by (auto simp: enlist_pgn_node_def host_alloc_def split: if_splits bind_splits)

lemma install_run:
  assumes ok: "caller_ok c mp w" and inv: "vm_inv w" and mem: "5 \<le> w_hostmem w" and p: "p < page_limit"
    and np: "\<not> epresent (vpage w mp p)"
    and f: "unmapped (vpage w) f" "f \<in> set (used_fp_list (the (mram w)))"
  obtains w1 w2 w3 where "swap_in_page (ucast (vpage w mp p)) f w = Some w1"
    and "pte_set_fpn (Some c) (of_nat p) f w1 = Some (0, w2)" and "enlist_pgn_node mp (of_nat p) w2 = Some w3"
    and "same_ctx w w3" and "vm_inv w3" and "vpage w3 mp p = pte_online (vpage w mp p) f"
    and "\<And>mq q. (mq, q) \<noteq> (mp, p) \<or> page_bytes w mp p \<noteq> None \<Longrightarrow> page_bytes w3 mq q = page_bytes w mq q"
    and "w_hostmem w \<le> w_hostmem w3 + 5"
proof -
  obtain ram swp where dev: "mram w = Some ram" "mswp w = Some swp" and pok: "paging_ok (vpage w) (fifo w) ram swp"
    using inv by (rule vm_invE)
  have d: "dev_ok 13 ram" "dev_ok 21 swp" using pok by (auto simp: paging_ok_def)
  have fu: "f \<in> set (used_fp_list ram)" using f(2) dev by simp
  let ?P = "vpage w" let ?e = "vpage w mp p" let ?P' = "set_entry ?P mp p (pte_online ?e f)"
  have "\<exists>w1 ram' swp'. swap_in_page (ucast ?e) f w = Some w1 \<and> w1 = set_mswp (set_mram w (Some ram')) (Some swp')
      \<and> paging_ok ?P' ((fifo w)(mp := of_nat p # fifo w mp)) ram' swp'
      \<and> (\<forall>mq q. (mq, q) \<noteq> (mp, p) \<or> contents ?P ram swp mp p \<noteq> None
           \<longrightarrow> contents ?P' ram' swp' mq q = contents ?P ram swp mq q)"
  proof (cases "eswapped ?e")
    case False
    note fr = paging_install_fresh [where e = ?e, OF pok p np False fu f(1) refl]
    have "\<not> PAGING_PAGE_SWAPPED (ucast ?e)" using np False by (simp add: eswapped_def)
    moreover have "set_mswp (set_mram w (Some ram)) (Some swp) = w" using dev by (simp add: set_mram_def set_mswp_def)
    moreover have "contents ?P ram swp mp p = None" using np False by (simp add: contents_def)
    ultimately show ?thesis
      using fr by (intro exI [of _ w] exI [of _ ram] exI [of _ swp]) (auto simp: swap_in_page_def)
  next
    case True
    have sl: "eslot ?e \<in> set (used_fp_list swp)" using pok True by (simp add: paging_ok_def owned_def)
    have fit: "rdmflg ram" "rdmflg swp" "frame_fits ram f" "frame_fits swp (eslot ?e)"
      using dev_ok_used [OF d(1) fu] dev_ok_used [OF d(2) sl] d by (auto simp: dev_ok_def)
    obtain ram' where cp: "swap_cp_page (Some swp) (eslot ?e) (Some ram) f = Some (0, Some swp, Some ram')"
      "copied ram f (frame_bytes swp (eslot ?e)) ram'"
      using swap_cp_page_copied [OF fit(2,1,4,3)] by blast
    obtain swp' where put: "fp_put swp (eslot ?e) = Some swp'"
      using sl fit(4) by (simp add: fp_put_eq frame_fits_def)
    have "swap_in_page (ucast ?e) f w = Some (set_mswp (set_mram w (Some ram')) (Some swp'))"
      using True cp(1) put dev by (simp add: swap_in_page_def eswapped_def eslot_def put_freefp_pool)
    then show ?thesis
      using paging_install_swapped [where e = ?e, OF pok p True fu f(1) cp(2) put refl]
      by (intro exI [of _ "set_mswp (set_mram w (Some ram')) (Some swp')"] exI [of _ ram'] exI [of _ swp']) simp
  qed
  then obtain w1 ram' swp' where sw: "swap_in_page (ucast ?e) f w = Some w1"
    and w1: "w1 = set_mswp (set_mram w (Some ram')) (Some swp')"
    and pok': "paging_ok ?P' ((fifo w)(mp := of_nat p # fifo w mp)) ram' swp'"
    and con: "\<And>mq q. (mq, q) \<noteq> (mp, p) \<or> contents ?P ram swp mp p \<noteq> None
           \<Longrightarrow> contents ?P' ram' swp' mq q = contents ?P ram swp mq q"
    by blast
  have c1: "same_ctx w w1" unfolding w1 by (meson same_ctx_trans set_dev_view)
  have ok1: "caller_ok c mp w1" using same_ctx_keeps(2) [OF c1] ok by simp
  have v1: "vpage w1 = ?P" "fifo w1 = fifo w" "w_hostmem w1 = w_hostmem w" "mram w1 = Some ram'" "mswp w1 = Some swp'"
    by (simp_all add: w1)
  obtain r w2 where s: "pte_set_fpn (Some c) (of_nat p) f w1 = Some (r, w2)" and ch: "pt_changed mp w1 w2"
    and r: "r = 0 \<and> vpage w2 mp = (vpage w1 mp)(p := pte_online (vpage w1 mp p) f) \<or> r = - 1 \<and> vpage w2 mp = vpage w1 mp"
      "r = 0" and h: "w_hostmem w1 \<le> w_hostmem w2 + 4"
    by (rule pte_set_fpn_page [OF ok1 p, of f]) (use mem v1(3) in fastforce)
  note c2 = pt_changed_world [OF ch]
  have P2: "vpage w2 = ?P'" using r v1(1) c2(4) [of p "pte_online ?e f"] by simp
  have ok2: "caller_ok c mp w2" using same_ctx_keeps(2) [OF c2(1)] ok1 by simp
  obtain w3 where en: "enlist_pgn_node mp (of_nat p) w2 = Some w3"
    using enlist_pgn_node_some [OF ok2, of "of_nat p"] h mem v1(3) by fastforce
  note es = enlist_pgn_node_spec [OF ok2 en] and c3 = vm_changed_world [OF enlist_pgn_node_spec(1) [OF ok2 en]]
  have w3: "vpage w3 = ?P'" "fifo w3 = (fifo w)(mp := of_nat p # fifo w mp)" "mram w3 = Some ram'" "mswp w3 = Some swp'"
    using c3(3) [OF es(2)] c3(4) [OF es(3)] c3(2) c2(2,3) v1 P2 by simp_all
  show thesis
  proof (rule that [OF sw])
    show "pte_set_fpn (Some c) (of_nat p) f w1 = Some (0, w2)" using s r(2) by simp
    show "same_ctx w w3" using c1 c2(1) c3(1) by (meson same_ctx_trans)
    show "vm_inv w3" using pok' w3 by (intro vm_invI) simp_all
    show "vpage w3 mp p = pte_online ?e f" by (simp add: w3(1) set_entry_app)
    show "page_bytes w3 mq q = page_bytes w mq q" if "(mq, q) \<noteq> (mp, p) \<or> page_bytes w mp p \<noteq> None" for mq q
      using that con dev w3 by (simp add: page_bytes_def)
    show "w_hostmem w \<le> w_hostmem w3 + 5" using h v1(3) enlist_pgn_node_hostmem [OF en] by simp
  qed (rule en)
qed

lemma pg_getpage_cases:
  assumes ok: "caller_ok c mp w" and reg: "registered c w" and inv: "vm_inv w" and mem: "9 \<le> w_hostmem w"
    and p: "sint pgn = int p"
  obtains (mapped) w' where "pg_getpage pgn fpn c w = Some (0, PAGING_FPN (ucast (vpage w' mp p)), w')"
      and "same_ctx w w'" and "vm_inv w'" and "epresent (vpage w' mp p)"
      and "\<And>mq q. (mq, q) \<noteq> (mp, p) \<or> page_bytes w mp p \<noteq> None \<Longrightarrow> page_bytes w' mq q = page_bytes w mq q"
      and "w_hostmem w \<le> w_hostmem w' + 9" and "epresent (vpage w mp p) \<longrightarrow> vpage w' = vpage w"
  | (refused) w' where "pg_getpage pgn fpn c w = Some (- 1, fpn, w')"
      and "vm_kept w w'" and "\<not> epresent (vpage w mp p)" and "free_fp_list (the (mram w)) = []"
      and "fifo w mp = [] \<or> free_fp_list (the (mswp w)) = []" and "fifo w' = (fifo w)(mp := butlast (fifo w mp))"
      and "w_hostmem w' = w_hostmem w"
proof -
  note pn = scast_page [OF p] and pl = sint_page_limit [OF p]
  obtain w1 where ge: "pte_get_entry (Some c) (of_nat p) w = Some (ucast (vpage w mp p), w1)"
    and w1: "vm_kept w w1" "vpage w1 = vpage w" "fifo w1 = fifo w" "w_os w1 = w_os w" "w_hostmem w1 = w_hostmem w"
    by (rule pte_get_entry_kept [OF ok pl inv]) blast
  have k1: "same_ctx w w1" "vm_inv w1" "page_bytes w1 = page_bytes w" using w1(1) by (auto simp: vm_kept_def)
  have ok1: "caller_ok c mp w1" "registered c w1" using same_ctx_keeps [OF k1(1)] ok reg by auto
  have mmc: "p_mm c = Some mp" using ok by (simp add: caller_ok_def)
  show thesis
  proof (cases "epresent (vpage w mp p)")
    case True
    obtain w2 where "pte_get_entry (Some c) (of_nat p) w1 = Some (ucast (vpage w1 mp p), w2)"
      and w2: "vm_kept w1 w2" "vpage w2 = vpage w1" "w_hostmem w2 = w_hostmem w1"
      by (rule pte_get_entry_kept [OF ok1(1) pl k1(2)]) blast
    then have "pg_getpage pgn fpn c w = Some (0, PAGING_FPN (ucast (vpage w2 mp p)), w2)"
      using ge True w1(2) by (simp add: pg_getpage_def pn epresent_def)
    then show ?thesis
      by (rule mapped) (use w1 w2 True vm_kept_trans [OF w1(1) w2(1)] in \<open>auto simp: vm_kept_def\<close>)
  next
    case False
    have m1: "4 \<le> w_hostmem w1" using mem w1(5) by simp
    show ?thesis
      using ok1 k1(2) m1
    proof (cases rule: get_target_frame_cases)
      case (full w2)
      then have "pg_getpage pgn fpn c w = Some (- 1, fpn, w2)"
        using ge False by (simp add: pg_getpage_def pn epresent_def)
      then show ?thesis
        by (rule refused) (use full w1 False vm_kept_trans [OF w1(1) full(2)] in auto)
    next
      case (got f w2)
      have k2: "same_ctx w1 w2" "vm_inv w2" "page_bytes w2 = page_bytes w" using got(2) k1(3) by (auto simp: vm_kept_def)
      have ok2: "caller_ok c mp w2" using same_ctx_keeps(2) [OF k2(1)] ok1 by simp
      have m2: "5 \<le> w_hostmem w2" using got(6) mem w1(5) by simp
      have e2: "vpage w2 mp p = vpage w mp p" using got(5) [of p] False w1(2) by simp
      then have np2: "\<not> epresent (vpage w2 mp p)" using False by simp
      obtain w3 w4 w5 where i: "swap_in_page (ucast (vpage w2 mp p)) f w2 = Some w3"
        "pte_set_fpn (Some c) (of_nat p) f w3 = Some (0, w4)" "enlist_pgn_node mp (of_nat p) w4 = Some w5"
        "same_ctx w2 w5" "vm_inv w5" "vpage w5 mp p = pte_online (vpage w2 mp p) f"
        "\<And>mq q. (mq, q) \<noteq> (mp, p) \<or> page_bytes w2 mp p \<noteq> None \<Longrightarrow> page_bytes w5 mq q = page_bytes w2 mq q"
        "w_hostmem w2 \<le> w_hostmem w5 + 5"
        by (rule install_run [OF ok2 k2(2) m2 pl np2 got(3,4)]) blast
      have ok5: "caller_ok c mp w5" using same_ctx_keeps(2) [OF i(4)] ok2 by simp
      obtain w6 where ge6: "pte_get_entry (Some c) (of_nat p) w5 = Some (ucast (vpage w5 mp p), w6)"
        and w6: "vm_kept w5 w6" "vpage w6 = vpage w5" "w_hostmem w6 = w_hostmem w5"
        by (rule pte_get_entry_kept [OF ok5 pl i(5)]) blast
      have "pg_getpage pgn fpn c w = Some (0, PAGING_FPN (ucast (vpage w6 mp p)), w6)"
        using ge False got(1) i(1-3) ge6 mmc w6(2) e2 by (simp add: pg_getpage_def pn epresent_def)
      then show ?thesis
      proof (rule mapped)
        show "same_ctx w w6"
          using k1(1) k2(1) i(4) w6(1) by (meson same_ctx_trans vm_kept_def)
        show "vm_inv w6" using w6(1) by (simp add: vm_kept_def)
        show "epresent (vpage w6 mp p)" using i(6) w6(2) by simp
        show "page_bytes w6 mq q = page_bytes w mq q" if "(mq, q) \<noteq> (mp, p) \<or> page_bytes w mp p \<noteq> None" for mq q
          using i(7) [of mq q] that k2(3) w6(1) by (simp add: vm_kept_def)
        show "w_hostmem w \<le> w_hostmem w6 + 9" using got(6) i(8) w6(3) w1(5) by simp
        show "epresent (vpage w mp p) \<longrightarrow> vpage w6 = vpage w" using False by simp
      qed
    qed
  qed
qed

section \<open>Storing a byte\<close>

definition poke :: "memphy_struct \<Rightarrow> addr_t \<Rightarrow> nat \<Rightarrow> byte \<Rightarrow> memphy_struct" where
  "poke m f i v = m\<lparr>storage := (storage m)[unat f * PAGING64_PAGESZ + i := v]\<rparr>"

lemma poke_dev [simp]: "dev_ok b (poke m f i v) = dev_ok b m" "used_fp_list (poke m f i v) = used_fp_list m"
  by (simp_all add: poke_def dev_ok_storage)

lemma frame_bytes_poke:
  assumes "frame_fits m f" and "i < PAGING64_PAGESZ"
  shows "frame_bytes (poke m f i v) f = (frame_bytes m f)[i := v]"
    and "g \<noteq> f \<Longrightarrow> frame_bytes (poke m f i v) g = frame_bytes m g"
proof -
  have "unat f * PAGING64_PAGESZ + i < length (storage m)" using assms by (simp add: frame_fits_def)
  then show "frame_bytes (poke m f i v) f = (frame_bytes m f)[i := v]"
    by (intro nth_equalityI) (auto simp: frame_bytes_def frame_byte_def poke_def nth_list_update)
  have "unat g * PAGING64_PAGESZ + j \<noteq> unat f * PAGING64_PAGESZ + i" if "g \<noteq> f" "j < PAGING64_PAGESZ" for j
    using frames_disjoint [of g f j] that assms(2) by (auto simp: word_unat_eq_iff)
  then show "g \<noteq> f \<Longrightarrow> frame_bytes (poke m f i v) g = frame_bytes m g"
    by (auto simp: frame_bytes_def frame_byte_def poke_def) (metis nth_list_update_neq)
qed

lemma paging_poke:
  assumes ok: "paging_ok P fi ram swp" and e: "epresent (P mp p)" and i: "i < PAGING64_PAGESZ"
    and r: "ram' = poke ram (eframe (P mp p)) i v"
  shows "paging_ok P fi ram' swp"
    and "contents P ram' swp mp p = map_option (\<lambda>bs. bs[i := v]) (contents P ram swp mp p)"
    and "(mq, q) \<noteq> (mp, p) \<Longrightarrow> contents P ram' swp mq q = contents P ram swp mq q"
proof -
  have own: "owned epresent eframe P (set (used_fp_list ram))" and d: "dev_ok 13 ram"
    using ok by (auto simp: paging_ok_def)
  have "frame_fits ram (eframe (P mp p))" using own e dev_ok_used [OF d] by (simp add: owned_def)
  note fb = frame_bytes_poke [OF this i]
  show "paging_ok P fi ram' swp" using ok by (simp add: r paging_ok_def)
  show "contents P ram' swp mp p = map_option (\<lambda>bs. bs[i := v]) (contents P ram swp mp p)"
    using e fb(1) by (simp add: contents_def r)
  assume ne: "(mq, q) \<noteq> (mp, p)"
  have "eframe (P mq q) \<noteq> eframe (P mp p)" if "epresent (P mq q)"
    using own e that ne unfolding owned_def by blast
  then show "contents P ram' swp mq q = contents P ram swp mq q"
    using fb(2) by (simp add: contents_def r)
qed

text \<open>Splitting a non-negative \<open>int\<close> address.\<close>

lemma int_pgn_nat: "sint addr = int a \<Longrightarrow> sint (int_pgn addr) = int (a div PAGING64_PAGESZ)"
  by (simp add: int_pgn_def sint_signed_drop_bit_eq drop_bit_eq_div macro_defs zdiv_int)

lemma int_off_nat: "sint addr = int a \<Longrightarrow> unat (int_off addr) = a mod PAGING64_PAGESZ"
proof -
  assume "sint addr = int a"
  then have "addr = of_nat a" by (metis of_int_of_nat_eq of_int_sint scast_id)
  then have "int_off addr = take_bit 12 (of_nat a)"
    by (simp add: int_off_def macro_defs take_bit_eq_mask mask_eq_exp_minus_1 push_bit_of_1)
  then have "unat (int_off addr) = take_bit 12 a"
    by (simp add: unsigned_take_bit_eq unsigned_of_nat take_bit_take_bit min_def)
  then show ?thesis by (simp add: take_bit_eq_mod macro_defs)
qed

lemma int_phyaddr_nat:
  assumes "unat fpn < 2 ^ 13" and "unat off < PAGING64_PAGESZ"
  shows "(scast (int_phyaddr fpn off) :: addr_t) = of_nat (unat fpn * PAGING64_PAGESZ + unat off)"
proof -
  define n where "n = unat fpn * PAGING64_PAGESZ + unat off"
  have n: "n < 2 ^ 25" using assms by (simp add: n_def macro_defs)
  have "int_phyaddr fpn off = of_nat n"
    by (simp add: int_phyaddr_def n_def push_bit_eq_mult macro_defs)
  moreover have "sint (of_nat n :: cint) = int n"
    using n by (intro sint_small [THEN trans]) (simp_all add: unat_of_nat)
  ultimately show ?thesis using scast_page [of "int_phyaddr fpn off" n] by (simp add: n_def)
qed

lemma scast_byte: "ucast (scast (v :: byte) :: arg_t) = v"
  by (rule bit_word_eqI) (auto simp: bit_simps)

text \<open>The physical address of an offset of a mapped page.\<close>

lemma mapped_address:
  assumes inv: "vm_inv w" and e: "epresent (vpage w mp p)"
    and off: "unat off < PAGING64_PAGESZ" and fpn: "fpn = PAGING_FPN (ucast (vpage w mp p))"
  obtains ram n where "mram w = Some ram" and "rdmflg ram" and "n < length (storage ram)"
    and "scast (int_phyaddr fpn off) = (of_nat n :: addr_t)" and "unat (of_nat n :: addr_t) = n"
    and "sysmem_addr (of_nat n) = of_nat n" and "n = unat (eframe (vpage w mp p)) * PAGING64_PAGESZ + unat off"
proof -
  obtain ram swp where dev: "mram w = Some ram" "mswp w = Some swp" and pok: "paging_ok (vpage w) (fifo w) ram swp"
    using inv by (rule vm_invE)
  have d: "dev_ok 13 ram" and u: "eframe (vpage w mp p) \<in> set (used_fp_list ram)"
    using pok e by (auto simp: paging_ok_def owned_def)
  let ?f = "eframe (vpage w mp p)"
  have f: "rdmflg ram" "frame_fits ram ?f" "unat ?f < 2 ^ 13" using dev_ok_used [OF d u] d by (auto simp: dev_ok_def)
  have uf: "unat ?f = unat fpn" using unsigned_less [of fpn, where ?'a = nat]
    by (simp add: eframe_def fpn unsigned_ucast_eq take_bit_nat_eq_self)
  define n where "n = unat ?f * PAGING64_PAGESZ + unat off"
  have n: "n < 2 ^ 25" "n < length (storage ram)" using f off by (auto simp: n_def macro_defs frame_fits_def)
  have a: "scast (int_phyaddr fpn off) = (of_nat n :: addr_t)"
    using int_phyaddr_nat [of fpn off] f(3) off uf by (simp add: n_def)
  have un: "unat (of_nat n :: addr_t) = n" using n(1) by (simp add: unat_of_nat)
  have sa: "sysmem_addr (of_nat n) = of_nat n" using n(1) un by (intro sysmem_addr_small) simp
  show thesis using dev(1) f(1) n(2) a un sa n_def by (rule that)
qed

text \<open>Writing to the RAM at an offset of a mapped page, directly and through the system call.\<close>

lemma write_mapped:
  assumes inv: "vm_inv w" and e: "epresent (vpage w mp p)"
    and off: "unat off < PAGING64_PAGESZ" and fpn: "fpn = PAGING_FPN (ucast (vpage w mp p))"
  obtains ram' w' where "MEMPHY_write (mram w) (scast (int_phyaddr fpn off)) v = Some (0, Some ram')"
    and "w' = set_mram w (Some ram')" and "same_ctx w w'" and "vm_inv w'" and "vpage w' = vpage w" and "fifo w' = fifo w"
    and "page_bytes w' mp p = map_option (\<lambda>bs. bs[unat off := v]) (page_bytes w mp p)"
    and "\<And>mq q. (mq, q) \<noteq> (mp, p) \<Longrightarrow> page_bytes w' mq q = page_bytes w mq q"
    and "w_hostmem w' = w_hostmem w"
proof -
  obtain ram swp where dev: "mram w = Some ram" "mswp w = Some swp" and pok: "paging_ok (vpage w) (fifo w) ram swp"
    using inv by (rule vm_invE)
  let ?f = "eframe (vpage w mp p)"
  obtain ram2 n where n: "mram w = Some ram2" "rdmflg ram2" "n < length (storage ram2)"
    "scast (int_phyaddr fpn off) = (of_nat n :: addr_t)" "unat (of_nat n :: addr_t) = n" "sysmem_addr (of_nat n) = of_nat n"
    "n = unat ?f * PAGING64_PAGESZ + unat off"
    by (rule mapped_address [OF inv e off fpn])
  define w' where "w' = set_mram w (Some (poke ram ?f (unat off) v))"
  have wr: "MEMPHY_write (mram w) (scast (int_phyaddr fpn off)) v = Some (0, Some (poke ram ?f (unat off) v))"
    using MEMPHY_write_ram [OF n(2), of "of_nat n" v] n dev(1) by (simp add: poke_def)
  note pk = paging_poke [where v = v, OF pok e off refl]
  show thesis
  proof (rule that [OF wr w'_def])
    show "vm_inv w'" using pk(1) dev by (intro vm_invI) (simp_all add: w'_def)
    show "page_bytes w' mp p = map_option (\<lambda>bs. bs[unat off := v]) (page_bytes w mp p)"
      using pk(2) dev by (simp add: page_bytes_def w'_def)
    show "page_bytes w' mq q = page_bytes w mq q" if "(mq, q) \<noteq> (mp, p)" for mq q
      using pk(3) [OF that] dev by (simp add: page_bytes_def w'_def)
  qed (simp_all add: w'_def)
qed

lemma write_syscall:
  assumes reg: "registered c w" "p_krnl c" and inv: "vm_inv w" and e: "epresent (vpage w mp p)"
    and off: "unat off < PAGING64_PAGESZ" and fpn: "fpn = PAGING_FPN (ucast (vpage w mp p))"
  obtains rg w' where "do_syscall (p_krnl c) (p_pid c) 17
      \<lparr>a1 = of_int SYSMEM_IO_WRITE, a2 = scast (int_phyaddr fpn off), a3 = scast v\<rparr> w = Some (0, rg, w')"
    and "same_ctx w w'" and "vm_inv w'" and "vpage w' = vpage w" and "fifo w' = fifo w"
    and "page_bytes w' mp p = map_option (\<lambda>bs. bs[unat off := v]) (page_bytes w mp p)"
    and "\<And>mq q. (mq, q) \<noteq> (mp, p) \<Longrightarrow> page_bytes w' mq q = page_bytes w mq q"
    and "w_hostmem w' = w_hostmem w"
proof (rule write_mapped [OF inv e off fpn, of v])
  fix ram' w'
  assume wr: "MEMPHY_write (mram w) (scast (int_phyaddr fpn off)) v = Some (0, Some ram')" "w' = set_mram w (Some ram')"
    and w': "same_ctx w w'" "vm_inv w'" "vpage w' = vpage w" "fifo w' = fifo w"
      "page_bytes w' mp p = map_option (\<lambda>bs. bs[unat off := v]) (page_bytes w mp p)"
      "\<And>mq q. (mq, q) \<noteq> (mp, p) \<Longrightarrow> page_bytes w' mq q = page_bytes w mq q" "w_hostmem w' = w_hostmem w"
  obtain k c' where k: "get_proc_from_PID (p_krnl c) (p_pid c) w = Some (Some k)" "w_pcbs w k = Some c'"
    using registered_proc [OF reg] by blast
  obtain n where n: "scast (int_phyaddr fpn off) = (of_nat n :: addr_t)" "sysmem_addr (of_nat n) = of_nat n"
    by (rule mapped_address [OF inv e off fpn])
  have "do_syscall (p_krnl c) (p_pid c) 17 \<lparr>a1 = of_int SYSMEM_IO_WRITE, a2 = scast (int_phyaddr fpn off), a3 = scast v\<rparr> w =
      Some (0, \<lparr>a1 = of_int SYSMEM_IO_WRITE, a2 = of_nat n, a3 = scast v\<rparr>, w')"
    using wr n by (simp add: do_syscall_mem sys_memmap_ops(3) [OF k] scast_byte)
  then show thesis using w' by (rule that)
qed

section \<open>Properties\<close>

text \<open>Two devices of two frames and a process without pages, for the examples.\<close>

definition ex_page_dev :: memphy_struct where
  "ex_page_dev = \<lparr>storage = replicate 8192 0, maxsz = 8192, rdmflg = True, cursor = 0,
     free_fp_list = [0, 1], used_fp_list = []\<rparr>"

definition ex_paged :: world where
  "ex_paged = ex_vm ex_mm0 ex_page_dev ex_page_dev"

lemma ex_paged_ok:
  "caller_ok ex_caller 0 ex_paged" "registered ex_caller ex_paged" "vm_inv ex_paged" "9 \<le> w_hostmem ex_paged"
  "page_bytes ex_paged 0 5 = None" "free_fp_list (the (mram ex_paged)) = [0, 1]"
proof -
  have v: "vpage ex_paged q p = 0" for q p
    by (simp add: ex_paged_def vpage_def pte_view_def ex_vm_def ex_mm0_def pt_view_def pt_lookup_def)
  show "caller_ok ex_caller 0 ex_paged" unfolding ex_paged_def by (rule ex_caller_ok) (simp add: ex_mm0_def)
  show "registered ex_caller ex_paged"
    by (simp add: registered_def ex_paged_def ex_vm_def ex_caller_def PID_MAX_def)
  have "dev_ok 13 ex_page_dev" "dev_ok 21 ex_page_dev"
    by (auto simp: dev_ok_def ex_page_dev_def frame_fits_def frame_valid_def macro_defs)
  moreover have "fifo ex_paged q = []" for q
    by (simp add: fifo_def ex_paged_def ex_vm_def ex_mm0_def)
  ultimately show "vm_inv ex_paged"
    by (intro vm_invI [of _ ex_page_dev ex_page_dev])
      (simp_all add: paging_ok_def owned_def listed_def v, simp_all add: ex_paged_def ex_vm_def)
  show "9 \<le> w_hostmem ex_paged" "free_fp_list (the (mram ex_paged)) = [0, 1]"
    by (simp_all add: ex_paged_def ex_vm_def ex_page_dev_def)
  show "page_bytes ex_paged 0 5 = None" by (simp add: page_bytes_def contents_def v)
qed

text \<open>C11: A page fault never damages memory: in every world in which each RAM frame and each swap
  slot has at most one owner, \<open>pg_getpage\<close> keeps that so, and every page of every process that
  had contents, resident or swapped out, has the same contents afterwards, also when the fault
  evicts a page and also when the call fails.\<close>

theorem page_fault_isolation:
  assumes "caller_ok c mp w" and "registered c w" and "vm_inv w" and "9 \<le> w_hostmem w"
    and "sint pgn = int p" and "pg_getpage pgn fpn c w = Some (r, fpn', w')"
  shows "vm_inv w' \<and> (\<forall>mq q. (mq, q) \<noteq> (mp, p) \<or> page_bytes w mp p \<noteq> None \<longrightarrow>
    page_bytes w' mq q = page_bytes w mq q)"
  using assms(1-5)
proof (cases rule: pg_getpage_cases [of c mp w pgn p fpn])
  case (mapped v)
  then show ?thesis using assms(6) by auto
next
  case (refused v)
  then show ?thesis using assms(6) by (auto simp: vm_kept_def)
qed

theorem page_fault_isolation_witness:
  "\<exists>r f w'. pg_getpage 5 0 ex_caller ex_paged = Some (r, f, w') \<and> vm_inv w'
     \<and> page_bytes w' 0 6 = page_bytes ex_paged 0 6"
proof -
  have s: "sint (5 :: cint) = int 5" by simp
  obtain r f w' where run: "pg_getpage 5 0 ex_caller ex_paged = Some (r, f, w')"
    by (rule pg_getpage_cases [OF ex_paged_ok(1-4) s, of 0]) blast+
  show ?thesis using page_fault_isolation [OF ex_paged_ok(1-4) s run] run by auto
qed

text \<open>C20: A page fault always ends: either the page is resident afterwards and the call returns its
  frame, or the call returns \<open>- 1\<close>, which happens only when RAM is full and the process has no
  listed page or the swap device is full; in that case the oldest listed page has been dropped from
  the replacement list although it stays resident.\<close>

theorem page_fault_served:
  assumes "caller_ok c mp w" and "registered c w" and "vm_inv w" and "9 \<le> w_hostmem w" and "sint pgn = int p"
  shows "\<exists>r fpn' w'. pg_getpage pgn fpn c w = Some (r, fpn', w')
    \<and> (r = 0 \<and> epresent (vpage w' mp p) \<and> ucast fpn' = eframe (vpage w' mp p)
     \<or> r = - 1 \<and> \<not> epresent (vpage w mp p) \<and> free_fp_list (the (mram w)) = []
       \<and> (fifo w mp = [] \<or> free_fp_list (the (mswp w)) = [])
       \<and> fifo w' = (fifo w)(mp := butlast (fifo w mp)))"
  using assms
proof (cases rule: pg_getpage_cases [of c mp w pgn p fpn])
  case (mapped v)
  then show ?thesis by (auto simp: eframe_def)
next
  case (refused v)
  then show ?thesis by auto
qed

theorem page_fault_served_witness:
  "\<exists>f w'. pg_getpage 5 0 ex_caller ex_paged = Some (0, f, w') \<and> epresent (vpage w' 0 5)"
  using page_fault_served [OF ex_paged_ok(1-4), of 5 5 0] ex_paged_ok(6) by auto

text \<open>\<open>pg_setval\<close> stores one byte and touches nothing else: when it succeeds, the page of the
  address holds the byte at its offset, keeps its other bytes if it had contents, and every other
  page of every process keeps its contents; when it fails no page changes.\<close>

theorem store_byte_isolated:
  assumes "caller_ok c mp w" and "registered c w" and "vm_inv w" and "9 \<le> w_hostmem w"
    and "sint addr = int a" and "p = a div PAGING64_PAGESZ" and "i = a mod PAGING64_PAGESZ"
  shows "(\<exists>w'. pg_setval addr v c w = Some (- 1, w') \<and> vm_inv w' \<and> page_bytes w' = page_bytes w
        \<and> free_fp_list (the (mram w)) = [])
    \<or> (\<exists>w' bs. pg_setval addr v c w = Some (0, w') \<and> vm_inv w' \<and> page_bytes w' mp p = Some bs \<and> bs ! i = v
        \<and> (page_bytes w mp p \<noteq> None \<longrightarrow> bs = (the (page_bytes w mp p))[i := v])
        \<and> (\<forall>mq q. (mq, q) \<noteq> (mp, p) \<longrightarrow> page_bytes w' mq q = page_bytes w mq q))"
proof -
  have k: "p_krnl c" using assms(1) by (simp add: caller_ok_def)
  have pg: "sint (int_pgn addr) = int p" and off: "unat (int_off addr) = i"
    using int_pgn_nat [OF assms(5)] int_off_nat [OF assms(5)] assms(6,7) by simp_all
  have i: "i < PAGING64_PAGESZ" using assms(7) by (simp add: macro_defs)
  from assms(1-4) pg show ?thesis
  proof (cases rule: pg_getpage_cases [of c mp w "int_pgn addr" p 0])
    case (refused v')
    then show ?thesis by (intro disjI1 exI [of _ v']) (simp add: pg_setval_def vm_kept_def)
  next
    case (mapped w1)
    let ?f = "PAGING_FPN (ucast (vpage w1 mp p))"
    have reg1: "registered c w1" using same_ctx_keeps(1) [OF mapped(2)] assms(2) by simp
    obtain bs1 where bs1: "page_bytes w1 mp p = Some bs1" "length bs1 = PAGING64_PAGESZ"
      using mapped(4) by (simp add: page_bytes_def contents_def frame_bytes_def)
    obtain rg w2 where s: "do_syscall (p_krnl c) (p_pid c) 17 \<lparr>a1 = of_int SYSMEM_IO_WRITE,
          a2 = scast (int_phyaddr ?f (int_off addr)), a3 = scast v\<rparr> w1 = Some (0, rg, w2)"
      and w2: "vm_inv w2" "page_bytes w2 mp p = map_option (\<lambda>bs. bs[i := v]) (page_bytes w1 mp p)"
        "\<And>mq q. (mq, q) \<noteq> (mp, p) \<Longrightarrow> page_bytes w2 mq q = page_bytes w1 mq q"
      by (rule write_syscall [OF reg1 k mapped(3,4) _ refl, of "int_off addr" v]) (use off i in auto)
    have "pg_setval addr v c w = Some (0, w2)" using mapped(1) s by (simp add: pg_setval_def)
    moreover have "page_bytes w2 mp p = Some (bs1[i := v])" "bs1[i := v] ! i = v" using w2(2) bs1 i by simp_all
    moreover have "page_bytes w mp p \<noteq> None \<longrightarrow> bs1[i := v] = (the (page_bytes w mp p))[i := v]"
      using mapped(5) [of mp p] bs1(1) by auto
    moreover have "page_bytes w2 mq q = page_bytes w mq q" if "(mq, q) \<noteq> (mp, p)" for mq q
      using w2(3) [OF that] mapped(5) [OF disjI1 [OF that]] by simp
    ultimately show ?thesis using w2(1) by blast
  qed
qed

theorem store_byte_isolated_witness:
  "\<exists>w' bs. pg_setval 20485 7 ex_caller ex_paged = Some (0, w') \<and> page_bytes w' 0 5 = Some bs \<and> bs ! 5 = 7"
proof -
  have "sint (20485 :: cint) = int 20485" "5 = 20485 div PAGING64_PAGESZ" "5 = 20485 mod PAGING64_PAGESZ"
    by (simp_all add: macro_defs)
  note st = store_byte_isolated [OF ex_paged_ok(1-4) this, of 7]
  from st show ?thesis
  proof (elim disjE exE conjE)
    fix w' assume "free_fp_list (the (mram ex_paged)) = []"
    then show ?thesis using ex_paged_ok(6) by simp
  next
    fix w' bs assume "pg_setval 20485 7 ex_caller ex_paged = Some (0, w')" and "page_bytes w' 0 5 = Some bs" and "bs ! 5 = 7"
    then show ?thesis by (intro exI conjI)
  qed
qed

end
