(* ===== verification/Returns.thy ===== *)
theory Returns
  imports Regions Frames
begin

text \<open>
  The allocator of user regions always returns: with a page directory, a RAM device and enough host
  memory, growing an area, allocating a region and freeing one are defined, whether or not frames are
  left, and leave the address space well formed, so that every sequence of requests is served.
\<close>

section \<open>Mapping and growing\<close>

text \<open>The caller has its tables and the machine a RAM device.\<close>

definition backed :: "pcb_t \<Rightarrow> mm_ptr \<Rightarrow> world \<Rightarrow> bool" where
  "backed c mp w \<longleftrightarrow> caller_ok c mp w \<and> (\<exists>d. mram w = Some d \<and> pool_ok d)"

lemma vm_map_ram_returns:
  assumes "backed c mp w" and "sint n = int N" and "6 * N \<le> w_hostmem w"
    and "p0 + N \<le> page_limit" and "N * PAGING64_PAGESZ < 2 ^ 31"
  obtains r rg' w' where "vm_map_ram (Some c) a b (of_nat (p0 * PAGING64_PAGESZ)) n rg w = Some (r, rg', w')"
    and "w_hostmem w \<le> w_hostmem w' + 6 * N" and "backed c mp w'"
proof -
  obtain d where d: "caller_ok c mp w" "mram w = Some d" "pool_ok d" using assms(1) by (auto simp: backed_def)
  have k: "p_krnl c" using d(1) by (simp add: caller_ok_def)
  from k d(2,3) show thesis
  proof (cases rule: alloc_pages_range_cases [of c w d n])
    case (granted fs d' h)
    then have fit: "N \<le> length (free_fp_list d)" using fp.get_n_spec [OF granted(2)] assms(2) by simp
    show ?thesis
    proof (rule vm_map_ram_success [OF d assms(2) fit assms(3-5), of a b rg])
      fix w' d2 rg'
      assume "vm_map_ram (Some c) a b (of_nat (p0 * PAGING64_PAGESZ)) n rg w = Some (0, rg', w')"
        "w_hostmem w \<le> w_hostmem w' + 6 * N" and w': "caller_ok c mp w'" "mram w' = Some d2"
        and g: "fp.get_n N d = (take N (free_fp_list d), d2)"
      moreover have "pool_ok d2" using fp.get_n_invar [OF d(3), of N] g by simp
      ultimately show thesis using that by (simp add: backed_def)
    qed
  next
    case (rollback d' h)
    have "sint (ucast (- 3000 :: addr_t) :: cint) = - 3000" by code_simp
    then have "vm_map_ram (Some c) a b (of_nat (p0 * PAGING64_PAGESZ)) n rg w = Some (- 1, rg, dev_with w d' h)"
      using rollback(1) k d(2) by (simp add: vm_map_ram_def)
    moreover have "backed c mp (dev_with w d' h)" using d(1) rollback(2) by (simp add: backed_def)
    ultimately show ?thesis using that rollback(7) assms(2) by simp
  qed
qed

lemma inc_vma_limit_returns:
  assumes c: "backed c mp w"
    and a: "areas w mp = Some ([vma], tb)" "vm_id vma = 0" "vm_end vma = of_nat (p0 * PAGING64_PAGESZ)"
    and inc: "unat inc = N * 4096" "0 < N" "N * PAGING64_PAGESZ < 2 ^ 31" and lim: "p0 + N \<le> page_limit"
    and h: "6 * N + 1 \<le> w_hostmem w"
  obtains r w' where "inc_vma_limit (Some c) 0 inc w = Some (r, w')" and "w_hostmem w \<le> w_hostmem w' + 6 * N + 1"
    and "backed c mp w'"
proof -
  obtain m where m: "w_mms w mp = Some m" "mm_mmap m = [vma]" using a(1) by (auto simp: areas_def)
  have k: "p_krnl c" "p_mm c = Some mp" using c by (auto simp: backed_def caller_ok_def)
  have small: "unat inc < 2 ^ 31" using inc by (simp add: macro_defs)
  have "unat (PAGING64_PAGE_ALIGNSZ inc) = unat inc" using page_align_unat [of inc] small inc(1) by simp
  then have al: "PAGING64_PAGE_ALIGNSZ inc = inc" by (simp add: word_unat_eq_iff)
  let ?e = "vm_end vma + inc"
  have e: "unat (vm_end vma) = p0 * 4096"
    unfolding a(3) PAGING64_PAGESZ_def using lim by (simp only: unat_of_nat) (simp add: page_limit_def)
  then have "unat ?e = p0 * 4096 + N * 4096"
    using inc lim by (subst unat_add_small) (simp_all add: page_limit_def)
  then have lt: "vm_end vma < ?e" using e inc(2) by (simp add: word_less_nat_alt)
  have walk: "get_vma_by_num (Some mp) 0 w = Some (Some 0)" using m a(2) by (simp add: get_vma_by_num_def)
  have ov: "validate_overlap_vm_area (Some c) 0 (vm_end vma) ?e w = Some 0"
    using m a(2) lt k by (simp add: validate_overlap_vm_area_def not_le)
  define w1 where "w1 = set_mm (w\<lparr>w_hostmem := w_hostmem w - 1\<rparr>) mp
    (m\<lparr>mm_mmap := [vma\<lparr>vm_end := ?e, vm_sbrk := vm_sbrk vma + inc\<rparr>]\<rparr>)"
  have sl: "set_vma_limits mp 0 ?e (vm_sbrk vma + inc) (w\<lparr>w_hostmem := w_hostmem w - 1\<rparr>) = Some w1"
    using m by (simp add: set_vma_limits_def w1_def)
  have c1: "backed c mp w1" using c m by (simp add: backed_def caller_ok_def w1_def)
  let ?n = "ucast (inc div of_nat PAGING64_PAGESZ) :: cint"
  have "unat (inc div of_nat PAGING64_PAGESZ) = N" using inc(1) by (simp add: unat_div_distrib macro_defs)
  then have n: "sint ?n = int N"
    using inc(3) sint_small [of ?n] unat_ucast_lt [of "inc div of_nat PAGING64_PAGESZ"]
    by (simp add: macro_defs) (metis uint_nat)
  have h1: "6 * N \<le> w_hostmem w1" using h by (simp add: w1_def)
  obtain r rg' w' where mp: "vm_map_ram (Some c) (vm_end vma) ?e (of_nat (p0 * PAGING64_PAGESZ)) ?n
      (Some \<lparr>rg_vmaid = 0, rg_start = vm_end vma, rg_end = ?e\<rparr>) w1 = Some (r, rg', w')"
    and h': "w_hostmem w1 \<le> w_hostmem w' + 6 * N" and b': "backed c mp w'"
    by (rule vm_map_ram_returns [OF c1 n h1 lim inc(3)])
  have "inc \<noteq> 0" using inc by auto
  then have "inc_vma_limit (Some c) 0 inc w = Some (0, w')"
    using k walk m ov h sl mp a(3) by (simp add: inc_vma_limit_def al host_alloc_def Let_def)
  then show thesis using that h' h b' by (simp add: w1_def)
qed

section \<open>The address space of a process\<close>

text \<open>One area that ends at page \<open>p\<close>, with the break at its end.\<close>

definition area_at :: "mm_ptr \<Rightarrow> nat \<Rightarrow> world \<Rightarrow> bool" where
  "area_at mp p w \<longleftrightarrow> (\<exists>vma tb. areas w mp = Some ([vma], tb) \<and> vm_end vma = of_nat (p * PAGING64_PAGESZ)
     \<and> vm_sbrk vma = vm_end vma)"

definition known :: "pcb_ptr \<Rightarrow> pcb_t \<Rightarrow> world \<Rightarrow> bool" where
  "known k c w \<longleftrightarrow> w_pcbs w k = Some c \<and> get_proc_from_PID (p_krnl c) (p_pid c) w = Some (Some k)"

definition heap_ok :: "pcb_ptr \<Rightarrow> pcb_t \<Rightarrow> mm_ptr \<Rightarrow> nat \<Rightarrow> world \<Rightarrow> bool" where
  "heap_ok k c mp p w \<longleftrightarrow> known k c w \<and> backed c mp w \<and> region_inv w mp \<and> area_at mp p w"

lemma known_snap: "snap w' = snap w \<Longrightarrow> known k c w' = known k c w"
  unfolding known_def get_proc_from_PID_def by (drule snapD) simp

lemma heap_step:
  "heap_ok k c mp p w \<Longrightarrow> snap w' = snap w \<Longrightarrow> backed c mp w' \<Longrightarrow> region_inv w' mp \<Longrightarrow> area_at mp q w' \<Longrightarrow>
   heap_ok k c mp q w'"
  unfolding heap_ok_def using known_snap by blast

text \<open>Changes of the symbol table and of the free list keep all but the regions.\<close>

lemma set_symrg_keeps:
  assumes "set_symrg mp i a b w = Some w'"
  shows "backed c mp w' = backed c mp w" and "area_at mp p w' = area_at mp p w" and "w_hostmem w' = w_hostmem w"
proof -
  obtain m tb where m: "w_mms w mp = Some m" and w': "w' = set_mm w mp (m\<lparr>mm_symrgtbl := tb\<rparr>)"
    using assms by (rule set_symrg_run) blast
  show "backed c mp w' = backed c mp w" and "area_at mp p w' = area_at mp p w" and "w_hostmem w' = w_hostmem w"
    using m by (simp_all add: w' backed_def caller_ok_def area_at_def areas_def)
qed

lemma enlist_keeps:
  assumes "enlist_vm_freerg_list mp rg w = Some (r, w')"
  shows "backed c mp w' = backed c mp w" and "area_at mp p w' = area_at mp p w" and "w_hostmem w' = w_hostmem w"
proof -
  obtain m v vs where m: "w_mms w mp = Some m" "mm_mmap m = v # vs"
    and w': "w' = w \<or> w' = set_mm w mp (m\<lparr>mm_mmap := v\<lparr>vm_freerg_list := rg # vm_freerg_list v\<rparr> # vs\<rparr>)"
    using assms by (auto simp: enlist_vm_freerg_list_def split: bind_splits list.splits if_splits)
  show "backed c mp w' = backed c mp w" and "w_hostmem w' = w_hostmem w"
    using m w' by (auto simp: backed_def caller_ok_def)
  show "area_at mp p w' = area_at mp p w" using m w' by (auto simp: area_at_def areas_def)
qed

lemma backed_hostmem [simp]: "backed c mp (w\<lparr>w_hostmem := h\<rparr>) = backed c mp w"
  by (simp add: backed_def caller_ok_def)

lemma area_at_hostmem [simp]: "area_at mp p (w\<lparr>w_hostmem := h\<rparr>) = area_at mp p w"
  by (simp add: area_at_def)

lemma set_symrg_total:
  "areas w mp = Some (vs, tb) \<Longrightarrow> i < length tb \<Longrightarrow> \<exists>w'. set_symrg mp i a b w = Some w'"
  by (auto simp: areas_def set_symrg_def)

lemma enlist_total:
  "areas w mp = Some (v # vs, tb) \<Longrightarrow> \<exists>r w'. enlist_vm_freerg_list mp rg w = Some (r, w')"
  by (auto simp: areas_def enlist_vm_freerg_list_def)

lemma areas_set_symrg:
  "set_symrg mp i a b w = Some w' \<Longrightarrow> areas w mp = Some (vs, tb) \<Longrightarrow> \<exists>tb'. areas w' mp = Some (vs, tb')"
  by (auto elim!: set_symrg_run simp: areas_def)

text \<open>They keep the page tables of the descriptor too, and all other descriptors.\<close>

definition paging_view :: "mm_ptr \<Rightarrow> world \<Rightarrow> (mm_ptr \<Rightarrow> mm_struct option) \<times> (mm_ptr \<Rightarrow> nat \<Rightarrow> u64)
    \<times> (mm_ptr \<Rightarrow> addr_t list) \<times> memphy_struct option \<times> memphy_struct option" where
  "paging_view mp w = ((w_mms w)(mp := None), vpage w, fifo w, mram w, mswp w)"

lemma paging_view_hostmem [simp]: "paging_view mp (w\<lparr>w_hostmem := h\<rparr>) = paging_view mp w"
  by (simp add: paging_view_def vpage_def pte_view_def fifo_def fun_eq_iff)

lemma paging_view_set_mm [simp]:
  "w_mms w mp = Some m \<Longrightarrow> mm_pgd m' = mm_pgd m \<Longrightarrow> mm_fifo_pgn m' = mm_fifo_pgn m \<Longrightarrow>
   paging_view mp (set_mm w mp m') = paging_view mp w"
  by (auto simp: paging_view_def vpage_def pte_view_def fifo_def fun_eq_iff)

lemma set_symrg_view: "set_symrg mp i a b w = Some w' \<Longrightarrow> paging_view mp w' = paging_view mp w"
  by (auto elim!: set_symrg_run)

lemma enlist_view: "enlist_vm_freerg_list mp rg w = Some (r, w') \<Longrightarrow> paging_view mp w' = paging_view mp w"
  by (auto simp: enlist_vm_freerg_list_def split: bind_splits list.splits if_splits)

section \<open>Requests\<close>

definition pages_for :: "addr_t \<Rightarrow> nat" where
  "pages_for sz = (unat sz + 4095) div 4096"

lemma pages_for_ge: "unat sz \<le> pages_for sz * 4096"
  unfolding pages_for_def by linarith

text \<open>The requests that keep the area below the range of \<open>int\<close>, and the calls of the host's
  allocator that serving them can take.\<close>

definition request_ok :: "nat \<Rightarrow> addr_t \<Rightarrow> world \<Rightarrow> bool" where
  "request_ok p sz w \<longleftrightarrow> (p + pages_for sz) * PAGING64_PAGESZ < 2 ^ 31 \<and> 6 * pages_for sz + 2 \<le> w_hostmem w"

lemma page_addr_unat: "p * PAGING64_PAGESZ < 2 ^ 31 \<Longrightarrow> unat (of_nat (p * PAGING64_PAGESZ) :: addr_t) = p * 4096"
  by (simp only: unat_of_nat) (simp add: macro_defs)

lemma heap_request:
  assumes "heap_ok k c mp p w" and "request_ok p sz w"
  obtains vma tb where "get_proc_from_PID (p_krnl c) (p_pid c) w = Some (Some k)" and "w_pcbs w k = Some c"
    and "p_krnl c" and "p_mm c = Some mp" and "areas w mp = Some ([vma], tb)" and "unat (vm_end vma) < 2 ^ 63"
    and "unat (vm_sbrk vma) < 2 ^ 31" and "0 < w_hostmem w" and "region_inv w mp" and "unat sz < 2 ^ 31"
    and "vm_end vma = of_nat (p * PAGING64_PAGESZ)" and "vm_sbrk vma = vm_end vma"
proof -
  have "p * PAGING64_PAGESZ < 2 ^ 31" using assms(2) by (simp add: request_ok_def macro_defs)
  note page_addr_unat [OF this] this
  then show thesis
    using that assms pages_for_ge [of sz]
    by (auto simp: heap_ok_def known_def backed_def area_at_def request_ok_def caller_ok_def macro_defs)
qed

lemma grow_returns:
  assumes ok: "heap_ok k c mp p w" "request_ok p sz w" and al: "al = PAGING64_PAGE_ALIGNSZ sz"
  obtains r regs w2 where "do_syscall (p_krnl c) (p_pid c) 17 \<lparr>a1 = of_int SYSMEM_INC_OP, a2 = 0, a3 = al\<rparr> w
      = Some (r, regs, w2)" and "w_hostmem w \<le> w_hostmem w2 + 6 * pages_for sz + 1" and "backed c mp w2"
    and "unat al = pages_for sz * 4096"
proof -
  obtain vma tb where w: "get_proc_from_PID (p_krnl c) (p_pid c) w = Some (Some k)" "w_pcbs w k = Some c"
    "areas w mp = Some ([vma], tb)" "region_inv w mp" "vm_end vma = of_nat (p * PAGING64_PAGESZ)"
    by (rule heap_request [OF ok])
  have b: "backed c mp w" using ok(1) by (simp add: heap_ok_def)
  let ?N = "pages_for sz"
  have r: "?N * PAGING64_PAGESZ < 2 ^ 31" "p + ?N \<le> page_limit" "6 * ?N + 2 \<le> w_hostmem w"
    using ok(2) by (auto simp: request_ok_def macro_defs page_limit_def)
  have "vm_id vma = 0" using w(3,4) by (auto simp: region_inv_def)
  have ua: "unat al = ?N * 4096"
    using r(1) pages_for_ge [of sz] page_align_unat [of sz] by (simp add: al pages_for_def macro_defs)
  then have "sysmem_addr al = al" using r(1) by (intro sysmem_addr_small) (simp add: macro_defs)
  then have eq: "do_syscall (p_krnl c) (p_pid c) 17 \<lparr>a1 = of_int SYSMEM_INC_OP, a2 = 0, a3 = al\<rparr> w =
      map_option (\<lambda>(r, w). (0, \<lparr>a1 = of_int SYSMEM_INC_OP, a2 = 0, a3 = al\<rparr>, w)) (inc_vma_limit (Some c) 0 al w)"
    by (simp add: do_syscall_mem sys_memmap_inc [OF w(1,2)])
  show thesis
  proof (cases "?N = 0")
    case True
    then have "al = 0" using ua by (simp add: unat_eq_0)
    then have "inc_vma_limit (Some c) 0 al w = Some (0, w)"
      using b by (simp add: inc_vma_limit_def backed_def caller_ok_def)
    then show ?thesis using that eq ua b by simp
  next
    case False
    obtain r' w' where "inc_vma_limit (Some c) 0 al w = Some (r', w')" "w_hostmem w \<le> w_hostmem w' + 6 * ?N + 1"
      "backed c mp w'"
      by (rule inc_vma_limit_returns [OF b w(3) \<open>vm_id vma = 0\<close> w(5) ua _ r(1,2)]) (use False r(3) in simp_all)
    then show ?thesis using that eq ua by simp
  qed
qed

text \<open>Where the region comes from: the free list, which leaves the area of \<open>p\<close> pages and the page
  tables alone, or the end of the area, after a system call that grows it.\<close>

definition served_from :: "pcb_t \<Rightarrow> mm_ptr \<Rightarrow> addr_t \<Rightarrow> nat \<Rightarrow> nat \<Rightarrow> world \<Rightarrow> world \<Rightarrow> bool" where
  "served_from c mp sz p q w w' \<longleftrightarrow> q = p \<and> paging_view mp w' = paging_view mp w
     \<or> q = p + pages_for sz \<and> (\<exists>r regs w2. do_syscall (p_krnl c) (p_pid c) 17
           \<lparr>a1 = of_int SYSMEM_INC_OP, a2 = 0, a3 = PAGING64_PAGE_ALIGNSZ sz\<rparr> w = Some (r, regs, w2)
         \<and> paging_view mp w' = paging_view mp w2)"

lemma served_bound: "served_from c mp sz p q w w' \<Longrightarrow> q \<le> p + pages_for sz"
  by (auto simp: served_from_def)

text \<open>Allocation returns, from the free list or at the break; the area grows by the pages of the request at most.\<close>

lemma alloc_by_growing:
  assumes ok: "heap_ok k c mp p w" "request_ok p sz w" and i: "sint rgid = int i" "i < PAGING_MAX_SYMTBL_SZ"
    and g: "get_free_vmrg_area c 0 (ucast sz) (0, 0) w = Some (- 1, rg, w)"
  obtains r addr w' q where "vm_alloc (Some c) 0 rgid sz a0 w = Some (r, addr, w')" and "backed c mp w'"
    and "area_at mp q w'" and "served_from c mp sz p q w w'" and "w_hostmem w \<le> w_hostmem w' + 6 * pages_for sz + 2"
proof -
  obtain vma tb where w: "get_proc_from_PID (p_krnl c) (p_pid c) w = Some (Some k)" "w_pcbs w k = Some c"
    "p_krnl c" "p_mm c = Some mp" "areas w mp = Some ([vma], tb)" "unat (vm_end vma) < 2 ^ 63"
    "unat (vm_sbrk vma) < 2 ^ 31" "0 < w_hostmem w" "region_inv w mp" "unat sz < 2 ^ 31"
    "vm_end vma = of_nat (p * PAGING64_PAGESZ)" "vm_sbrk vma = vm_end vma"
    by (rule heap_request [OF ok])
  obtain m where m: "w_mms w mp = Some m" "mm_mmap m = [vma]" "mm_symrgtbl m = tb"
    using w(5) by (auto simp: areas_def)
  have tb: "length tb = PAGING_MAX_SYMTBL_SZ" "vm_id vma = 0"
    using w(5,9) by (auto simp: region_inv_def)
  have walk: "get_vma_by_num (Some mp) 0 w = Some (Some 0)" using m tb by (simp add: get_vma_by_num_def)
  let ?al = "PAGING64_PAGE_ALIGNSZ sz" and ?brk = "vm_sbrk vma" and ?N = "pages_for sz"
  have old: "scast (ucast ?brk :: cint) = ?brk" using ucast_scast_small w(7) by simp
  obtain r2 regs w2 where sc: "do_syscall (p_krnl c) (p_pid c) 17
        \<lparr>a1 = of_int SYSMEM_INC_OP, a2 = 0, a3 = ?al\<rparr> w = Some (r2, regs, w2)"
      "w_hostmem w \<le> w_hostmem w2 + 6 * ?N + 1" "backed c mp w2" "unat ?al = ?N * 4096"
    by (rule grow_returns [OF ok refl])
  obtain vma2 where v2: "areas w2 mp = Some ([vma2], tb)" "vm_sbrk vma2 = ?brk + ?al" "vm_end vma2 = vm_end vma + ?al"
    by (rule alloc_grow [OF w(1-5) tb(2) w(6,8,10) refl sc(1)])
  have "?al = of_nat (?N * PAGING64_PAGESZ)" by (simp add: macro_defs flip: sc(4))
  then have at2: "area_at mp (p + ?N) w2" using v2 w(11,12) by (simp add: area_at_def algebra_simps)
  obtain w3 where st: "set_symrg mp i ?brk (?brk + sz) w2 = Some w3"
    using set_symrg_total [OF v2(1)] i(2) tb(1) by metis
  note k3 = set_symrg_keeps [OF st]
  obtain tb' where a3: "areas w3 mp = Some ([vma2], tb')" using areas_set_symrg [OF st v2(1)] by blast
  have sv: "served_from c mp sz p (p + ?N) w u" if "paging_view mp u = paging_view mp w2" for u
    unfolding served_from_def using sc(1) that by blast
  have h2: "0 < w_hostmem w2" using sc(2) ok(2) by (simp add: request_ok_def)
  show thesis
  proof (cases "sz < ?al")
    case False
    then have run: "vm_alloc (Some c) 0 rgid sz a0 w = Some (0, ?brk, w3)"
      using walk i w(3,4) g m old sc(1) st by (simp add: vm_alloc_def Let_def)
    show thesis using that [OF run, of "p + ?N"] k3 at2 sc(2,3) sv [OF set_symrg_view [OF st]] by simp
  next
    case True
    let ?rg = "\<lparr>rg_vmaid = 0, rg_start = ?brk + sz, rg_end = ?brk + ?al\<rparr>"
    let ?w4 = "w3\<lparr>w_hostmem := w_hostmem w3 - 1\<rparr>"
    have "areas ?w4 mp = Some ([vma2], tb')" using a3 by simp
    then obtain r5 w5 where en: "enlist_vm_freerg_list mp ?rg ?w4 = Some (r5, w5)" using enlist_total by blast
    have run: "vm_alloc (Some c) 0 rgid sz a0 w = Some (0, ?brk, w5)"
      using walk i w(3,4) g m old sc(1) st True h2 k3(3) en by (simp add: vm_alloc_def Let_def host_alloc_def)
    have "served_from c mp sz p (p + ?N) w w5" using set_symrg_view [OF st] enlist_view [OF en] by (intro sv) simp
    then show thesis using that [OF run, of "p + ?N"] k3 enlist_keeps [OF en] at2 sc(2,3) by simp
  qed
qed

lemma vm_alloc_returns:
  assumes ok: "heap_ok k c mp p w" "request_ok p sz w" and i: "sint rgid = int i" "i < PAGING_MAX_SYMTBL_SZ"
  obtains r addr w' q where "vm_alloc (Some c) 0 rgid sz a0 w = Some (r, addr, w')" and "backed c mp w'"
    and "area_at mp q w'" and "served_from c mp sz p q w w'" and "w_hostmem w \<le> w_hostmem w' + 6 * pages_for sz + 2"
proof -
  obtain vma tb where w: "get_proc_from_PID (p_krnl c) (p_pid c) w = Some (Some k)" "w_pcbs w k = Some c"
    "p_krnl c" "p_mm c = Some mp" "areas w mp = Some ([vma], tb)" "unat (vm_end vma) < 2 ^ 63"
    "unat (vm_sbrk vma) < 2 ^ 31" "0 < w_hostmem w" "region_inv w mp" "unat sz < 2 ^ 31"
    "vm_end vma = of_nat (p * PAGING64_PAGESZ)" "vm_sbrk vma = vm_end vma"
    by (rule heap_request [OF ok])
  have bk: "backed c mp w" using ok(1) by (auto simp: heap_ok_def)
  obtain m where m: "w_mms w mp = Some m" "mm_mmap m = [vma]" "mm_symrgtbl m = tb"
    using w(5) by (auto simp: areas_def)
  have tb: "length tb = PAGING_MAX_SYMTBL_SZ" "vm_id vma = 0"
    "regions_ok (unat (vm_sbrk vma)) (vm_freerg_list vma)"
    using w(5,9) by (auto simp: region_inv_def regions_ok_append)
  have walk: "get_vma_by_num (Some mp) 0 w = Some (Some 0)" using m tb by (simp add: get_vma_by_num_def)
  have "get_free_vmrg_area c 0 (ucast sz) (0, 0) w \<noteq> None"
    using walk m w(4) by (cases "free_fit (vm_freerg_list vma) (scast (ucast sz :: cint))")
      (simp_all add: get_free_vmrg_area_def Let_def split: if_splits prod.splits)
  then obtain r1 rg w1 where g: "get_free_vmrg_area c 0 (ucast sz) (0, 0) w = Some (r1, rg, w1)" by auto
  have b: "unat (vm_sbrk vma) < 2 ^ 32" using w(7) by simp
  from m(1,2) tb(2,3) b w(4,10) g show thesis
  proof (cases rule: get_free_vmrg_area_cases)
    case (fit l)
    have a1: "areas w1 mp = Some ([vma\<lparr>vm_freerg_list := l\<rparr>], tb)" using m by (simp add: fit areas_def)
    then obtain w' where st: "set_symrg mp i (fst rg) (snd rg) w1 = Some w'"
      using set_symrg_total i(2) tb(1) by metis
    have run: "vm_alloc (Some c) 0 rgid sz a0 w = Some (0, fst rg, w')"
      using walk i w(3,4) g fit(1) st by (simp add: vm_alloc_def)
    have "backed c mp w1" using bk m by (simp add: fit backed_def caller_ok_def)
    moreover have "area_at mp p w1" using a1 w(11,12) by (simp add: area_at_def)
    moreover have "paging_view mp w1 = paging_view mp w" using m by (simp add: fit)
    then have "served_from c mp sz p p w w'" using set_symrg_view [OF st] by (simp add: served_from_def)
    ultimately show ?thesis
      using that [OF run, of p] set_symrg_keeps [OF st] by (simp add: fit)
  next
    case none
    then have "get_free_vmrg_area c 0 (ucast sz) (0, 0) w = Some (- 1, rg, w)" using g by simp
    then show ?thesis by (rule alloc_by_growing [OF ok i]) (rule that)
  qed
qed

lemma vm_alloc_serves:
  assumes ok: "heap_ok k c mp p w" "request_ok p sz w" and i: "sint rgid = int i" "i < PAGING_MAX_SYMTBL_SZ"
  obtains addr w' q where "vm_alloc (Some c) 0 rgid sz a0 w = Some (0, addr, w')" and "heap_ok k c mp q w'"
    and "served_from c mp sz p q w w'" and "w_hostmem w \<le> w_hostmem w' + 6 * pages_for sz + 2"
    and "rg_span (symrg w' mp i) = {unat addr..<unat addr + unat sz}"
proof -
  obtain r addr w' q where run: "vm_alloc (Some c) 0 rgid sz a0 w = Some (r, addr, w')" and b: "backed c mp w'"
    "area_at mp q w'" "served_from c mp sz p q w w'" "w_hostmem w \<le> w_hostmem w' + 6 * pages_for sz + 2"
    by (rule vm_alloc_returns [OF assms])
  obtain vma tb where h: "get_proc_from_PID (p_krnl c) (p_pid c) w = Some (Some k)" "w_pcbs w k = Some c"
    "p_krnl c" "p_mm c = Some mp" "areas w mp = Some ([vma], tb)" "unat (vm_end vma) < 2 ^ 63"
    "unat (vm_sbrk vma) < 2 ^ 31" "0 < w_hostmem w" "region_inv w mp" "unat sz < 2 ^ 31"
    by (rule heap_request [OF ok])
  note al = alloc_regions_disjoint [OF h i run]
  have "heap_ok k c mp q w'"
    by (rule heap_step [OF ok(1) snap_vm_alloc [OF run] b(1) _ b(2)]) (use al in simp)
  then show thesis using that run b(3,4) al by simp
qed

text \<open>So does freeing.\<close>

lemma vm_free_serves:
  assumes ok: "heap_ok k c mp p w" and h: "0 < w_hostmem w" and i: "sint rgid = int i" "i < PAGING_MAX_SYMTBL_SZ"
  obtains r w' where "vm_free (Some c) 0 rgid w = Some (r, w')" and "r = 0 \<or> r = - 1" and "heap_ok k c mp p w'"
    and "w_hostmem w \<le> w_hostmem w' + 1" and "paging_view mp w' = paging_view mp w"
proof -
  have c: "p_krnl c" "p_mm c = Some mp" "backed c mp w" "region_inv w mp" "area_at mp p w"
    using ok by (auto simp: heap_ok_def backed_def caller_ok_def)
  obtain m vma where m: "w_mms w mp = Some m" "mm_mmap m = [vma]" "length (mm_symrgtbl m) = PAGING_MAX_SYMTBL_SZ"
    using c(4) by (rule region_invE)
  let ?o = "mm_symrgtbl m ! i" and ?w0 = "w\<lparr>w_hostmem := w_hostmem w - 1\<rparr>"
  have o: "arr_get (mm_symrgtbl m) i = Some ?o" and rid: "get_symrg_byid rgid = Some i"
    using i m(3) by (simp_all add: get_symrg_byid_def)
  show thesis
  proof (cases "rg_start ?o = 0 \<and> rg_end ?o = 0")
    case True
    then have "vm_free (Some c) 0 rgid w = Some (- 1, w)" using c i rid m(1) o by (simp add: vm_free_def)
    then show ?thesis using that ok by simp
  next
    case False
    have a0: "areas ?w0 mp = Some ([vma], mm_symrgtbl m)" using m by (simp add: areas_def)
    then obtain w1 where st: "set_symrg mp i 0 0 ?w0 = Some w1" using set_symrg_total [OF a0] i(2) m(3) by metis
    obtain tb where a1: "areas w1 mp = Some ([vma], tb)" using areas_set_symrg [OF st a0] by blast
    obtain r2 w' where en: "enlist_vm_freerg_list mp
        \<lparr>rg_vmaid = 0, rg_start = rg_start ?o, rg_end = rg_end ?o\<rparr> w1 = Some (r2, w')"
      using enlist_total [OF a1] by blast
    have run: "vm_free (Some c) 0 rgid w = Some (0, w')"
      using c i rid m(1) o False h st en by (auto simp: vm_free_def host_alloc_def Let_def)
    have "heap_ok k c mp p w'"
      by (rule heap_step [OF ok snap_vm_free [OF run]])
        (use c set_symrg_keeps [OF st] enlist_keeps [OF en] vm_free_inv [OF c(1,2,4) i run] in simp_all)
    then show ?thesis
      using that [OF run] set_symrg_keeps(3) [OF st] enlist_keeps(3) [OF en] h set_symrg_view [OF st] enlist_view [OF en] by simp
  qed
qed

section \<open>Sequences of requests\<close>

text \<open>What the \<open>alloc\<close> and \<open>free\<close> instructions of a program ask for: a register, and a
  size.  A sequence of them is served through \<open>liballoc\<close> and \<open>libfree\<close>; the result collects
  the codes they return.\<close>

datatype heap_op = Alloc u32 addr_t | Free u32

fun heap_do :: "pcb_ptr \<Rightarrow> heap_op \<Rightarrow> world \<Rightarrow> (int \<times> world) option" where
  "heap_do k (Alloc i sz) w = liballoc k sz i w"
| "heap_do k (Free i) w = libfree k i w"

fun heap_run :: "pcb_ptr \<Rightarrow> heap_op list \<Rightarrow> world \<Rightarrow> (int list \<times> world) option" where
  "heap_run k [] w = Some ([], w)"
| "heap_run k (op # ops) w = do {
     (r, w) \<leftarrow> heap_do k op w;
     (rs, w) \<leftarrow> heap_run k ops w;
     Some (r # rs, w)
   }"

text \<open>The register of a request, the pages it can add and the calls of the host's allocator it can
  take.\<close>

fun op_reg :: "heap_op \<Rightarrow> nat" where
  "op_reg (Alloc i sz) = unat i"
| "op_reg (Free i) = unat i"

fun op_pages :: "heap_op \<Rightarrow> nat" where
  "op_pages (Alloc i sz) = pages_for sz"
| "op_pages (Free i) = 0"

fun op_host :: "heap_op \<Rightarrow> nat" where
  "op_host (Alloc i sz) = 6 * pages_for sz + 2"
| "op_host (Free i) = 1"

fun op_code :: "heap_op \<Rightarrow> int \<Rightarrow> bool" where
  "op_code (Alloc i sz) r = (r = 0)"
| "op_code (Free i) r = (r = 0 \<or> r = - 1)"

definition proc_ok :: "pcb_ptr \<Rightarrow> mm_ptr \<Rightarrow> nat \<Rightarrow> world \<Rightarrow> bool" where
  "proc_ok k mp p w \<longleftrightarrow> (\<exists>c. heap_ok k c mp p w \<and> length (p_regs c) = 10)"

lemma sint_reg:
  assumes "unat (i :: u32) < 10"
  shows "sint i = int (unat i)" and "unat i < PAGING_MAX_SYMTBL_SZ"
  using sint_small [of i] assms by (simp_all add: PAGING_MAX_SYMTBL_SZ_def)

lemma set_reg_returns:
  assumes "heap_ok k c mp p w" and "length (p_regs c) = 10" and "i < 10"
  obtains w' where "set_reg k i v w = Some w'" and "proc_ok k mp p w'" and "w_hostmem w' = w_hostmem w"
proof -
  let ?c = "c\<lparr>p_regs := (p_regs c)[i := v]\<rparr>" let ?w = "w\<lparr>w_pcbs := (w_pcbs w)(k \<mapsto> ?c)\<rparr>"
  have "w_pcbs w k = Some c" using assms(1) by (simp add: heap_ok_def known_def)
  then have run: "set_reg k i v w = Some ?w" using assms(2,3) by (simp add: set_reg_def)
  have "heap_ok k ?c mp p ?w"
    using assms(1) by (auto simp: heap_ok_def known_def get_proc_from_PID_def backed_def caller_ok_def region_inv_def
        area_at_def areas_def)
  moreover have "length (p_regs ?c) = 10" using assms(2) by simp
  ultimately have "proc_ok k mp p ?w" unfolding proc_ok_def by blast
  then show thesis using that [OF run] by simp
qed

lemma liballoc_returns:
  assumes ok: "proc_ok k mp p w" "request_ok p sz w" and i: "unat i < 10"
  obtains w' q where "liballoc k sz i w = Some (0, w')" and "proc_ok k mp q w'" and "q \<le> p + pages_for sz"
    and "w_hostmem w \<le> w_hostmem w' + (6 * pages_for sz + 2)"
proof -
  obtain c where c: "heap_ok k c mp p w" "length (p_regs c) = 10" using ok(1) by (auto simp: proc_ok_def)
  obtain addr w1 q where al: "vm_alloc (Some c) 0 i sz 0 w = Some (0, addr, w1)" "heap_ok k c mp q w1"
    "served_from c mp sz p q w w1" "w_hostmem w \<le> w_hostmem w1 + 6 * pages_for sz + 2"
    by (rule vm_alloc_serves [OF c(1) ok(2) sint_reg [OF i]])
  obtain w' where st: "set_reg k (unat i) addr w1 = Some w'" "proc_ok k mp q w'" "w_hostmem w' = w_hostmem w1"
    by (rule set_reg_returns [OF al(2) c(2) i])
  have "w_pcbs w k = Some c" using c(1) by (simp add: heap_ok_def known_def)
  then have "liballoc k sz i w = Some (0, w')" using al(1) st(1) by (simp add: liballoc_def)
  then show thesis using that st(2,3) served_bound [OF al(3)] al(4) by simp
qed

lemma libfree_returns:
  assumes ok: "proc_ok k mp p w" "0 < w_hostmem w" and i: "unat i < 10"
  obtains r w' where "libfree k i w = Some (r, w')" and "r = 0 \<or> r = - 1" and "proc_ok k mp p w'"
    and "w_hostmem w \<le> w_hostmem w' + 1"
proof -
  obtain c where c: "heap_ok k c mp p w" "length (p_regs c) = 10" using ok(1) by (auto simp: proc_ok_def)
  obtain r w1 where fr: "vm_free (Some c) 0 i w = Some (r, w1)" "r = 0 \<or> r = - 1" "heap_ok k c mp p w1"
    "w_hostmem w \<le> w_hostmem w1 + 1"
    by (rule vm_free_serves [OF c(1) ok(2) sint_reg [OF i]])
  obtain w' where st: "set_reg k (unat i) 0 w1 = Some w'" "proc_ok k mp p w'" "w_hostmem w' = w_hostmem w1"
    by (rule set_reg_returns [OF fr(3) c(2) i])
  have "w_pcbs w k = Some c" using c(1) by (simp add: heap_ok_def known_def)
  then have "libfree k i w = Some (r, if r = - 1 then w1 else w')"
    using fr(1,2) st(1) by (auto simp: libfree_def)
  moreover have "proc_ok k mp p w1" unfolding proc_ok_def using fr(3) c(2) by blast
  ultimately show thesis using that fr(2,4) st(2,3) by (cases "r = - 1") simp_all
qed

lemma heap_do_returns:
  assumes ok: "proc_ok k mp p w" and op: "op_reg op < 10" "(p + op_pages op) * PAGING64_PAGESZ < 2 ^ 31"
    "op_host op \<le> w_hostmem w"
  obtains r w' q where "heap_do k op w = Some (r, w')" and "op_code op r" and "proc_ok k mp q w'"
    and "q \<le> p + op_pages op" and "w_hostmem w \<le> w_hostmem w' + op_host op"
proof (cases op)
  case (Alloc i sz)
  have "request_ok p sz w" "unat i < 10" using op Alloc by (simp_all add: request_ok_def)
  then show thesis by (rule liballoc_returns [OF ok]) (use that Alloc in simp)
next
  case (Free i)
  have "0 < w_hostmem w" "unat i < 10" using op Free by simp_all
  then show thesis by (rule libfree_returns [OF ok]) (use that [of _ _ p] Free in simp)
qed

lemma heap_run_returns:
  assumes "proc_ok k mp p w" and "\<forall>op \<in> set ops. op_reg op < 10"
    and "(p + sum_list (map op_pages ops)) * PAGING64_PAGESZ < 2 ^ 31" and "sum_list (map op_host ops) \<le> w_hostmem w"
  shows "\<exists>rs w' q. heap_run k ops w = Some (rs, w') \<and> list_all2 op_code ops rs \<and> proc_ok k mp q w'"
  using assms
proof (induction ops arbitrary: p w)
  case (Cons op ops)
  have "op_reg op < 10" "(p + op_pages op) * PAGING64_PAGESZ < 2 ^ 31" "op_host op \<le> w_hostmem w"
    using Cons.prems(2-4) by (simp_all add: macro_defs)
  then obtain r w1 q where s: "heap_do k op w = Some (r, w1)" "op_code op r" "proc_ok k mp q w1"
    "q \<le> p + op_pages op" "w_hostmem w \<le> w_hostmem w1 + op_host op"
    by (rule heap_do_returns [OF Cons.prems(1)])
  have "(q + sum_list (map op_pages ops)) * PAGING64_PAGESZ < 2 ^ 31" "sum_list (map op_host ops) \<le> w_hostmem w1"
    using Cons.prems(3,4) s(4,5) by (simp_all add: macro_defs)
  then have "\<exists>rs w' q. heap_run k ops w1 = Some (rs, w') \<and> list_all2 op_code ops rs \<and> proc_ok k mp q w'"
    using Cons.IH [OF s(3)] Cons.prems(2) by simp
  then show ?case using s(1,2) by auto
qed auto

section \<open>Properties\<close>

text \<open>C13: \<open>__alloc\<close> serves every request: on a well-formed address space it returns, from the free
  list or by growing the area, whether or not frames are left, and gives the symbol a region of
  exactly the requested size that is disjoint from the regions of all other symbols; the address
  space stays well formed.\<close>

theorem alloc_serves_request:
  assumes "heap_ok k c mp p w" and "request_ok p sz w" and "sint rgid = int i" and "i < PAGING_MAX_SYMTBL_SZ"
  shows "\<exists>addr w' q. vm_alloc (Some c) 0 rgid sz a0 w = Some (0, addr, w') \<and> heap_ok k c mp q w'
    \<and> rg_span (symrg w' mp i) = {unat addr..<unat addr + unat sz}
    \<and> (\<forall>j < PAGING_MAX_SYMTBL_SZ. j \<noteq> i \<longrightarrow> rg_span (symrg w' mp j) \<inter> rg_span (symrg w' mp i) = {})"
proof -
  obtain addr w' q where al: "vm_alloc (Some c) 0 rgid sz a0 w = Some (0, addr, w')" "heap_ok k c mp q w'"
    "rg_span (symrg w' mp i) = {unat addr..<unat addr + unat sz}"
    by (rule vm_alloc_serves [OF assms])
  have "region_inv w' mp" using al(2) by (simp add: heap_ok_def)
  then show ?thesis using al region_inv_disjoint [of w' mp] assms(4) by blast
qed

lemma ex_heap_proc: "heap_ok 7 ex_caller 0 0 ex_heap" "length (p_regs ex_caller) = 10"
proof -
  have "mram ex_heap = Some ex_dev" "pool_ok ex_dev"
    by (simp_all add: ex_heap_def ex_vm_def ex_dev_def pool_ok_def frame_valid_def)
  moreover have "caller_ok ex_caller 0 ex_heap" unfolding ex_heap_def by (rule ex_caller_ok) (simp add: ex_mm0_def)
  ultimately show "heap_ok 7 ex_caller 0 0 ex_heap"
    using ex_heap_ok by (simp add: heap_ok_def known_def backed_def area_at_def)
  show "length (p_regs ex_caller) = 10" by (simp add: ex_caller_def)
qed

theorem alloc_serves_request_witness:
  "\<exists>a w'. vm_alloc (Some ex_caller) 0 3 300 0 ex_heap = Some (0, a, w')
     \<and> rg_span (symrg w' 0 3) = {unat a..<unat a + 300}"
proof -
  have "request_ok 0 300 ex_heap" by (simp add: request_ok_def pages_for_def macro_defs ex_heap_def ex_vm_def)
  moreover have "sint (3 :: cint) = int 3" "3 < PAGING_MAX_SYMTBL_SZ" by (simp_all add: PAGING_MAX_SYMTBL_SZ_def)
  ultimately have "\<exists>a w'. vm_alloc (Some ex_caller) 0 3 300 0 ex_heap = Some (0, a, w')
      \<and> rg_span (symrg w' 0 3) = {unat a..<unat a + unat (300 :: addr_t)}"
    using alloc_serves_request [OF ex_heap_proc(1), of 300 3 3 0] by blast
  then show ?thesis by simp
qed

text \<open>C12: Every sequence of \<open>alloc\<close> and \<open>free\<close> requests of a program is served to its end, as long
  as the requested pages stay below 2 GB and the host has memory: all allocations succeed, every
  other request returns a code, and afterwards the regions of different symbols are disjoint.\<close>

theorem heap_requests_served:
  assumes "heap_ok k c mp p w" and "length (p_regs c) = 10" and "\<forall>op \<in> set ops. op_reg op < 10"
    and "(p + sum_list (map op_pages ops)) * PAGING64_PAGESZ < 2 ^ 31"
    and "sum_list (map op_host ops) \<le> w_hostmem w"
  shows "\<exists>rs w'. heap_run k ops w = Some (rs, w') \<and> list_all2 op_code ops rs \<and> region_inv w' mp
    \<and> (\<forall>i < PAGING_MAX_SYMTBL_SZ. \<forall>j < PAGING_MAX_SYMTBL_SZ. i \<noteq> j \<longrightarrow>
        rg_span (symrg w' mp i) \<inter> rg_span (symrg w' mp j) = {})"
proof -
  have "proc_ok k mp p w" using assms(1,2) by (auto simp: proc_ok_def)
  from heap_run_returns [OF this assms(3-5)] obtain rs w' q where
    r: "heap_run k ops w = Some (rs, w')" "list_all2 op_code ops rs" "proc_ok k mp q w'" by blast
  have "region_inv w' mp" using r(3) by (auto simp: proc_ok_def heap_ok_def)
  then show ?thesis using r(1,2) region_inv_disjoint [of w' mp] by blast
qed

theorem heap_requests_served_witness:
  "\<exists>r s t u w'. heap_run 7 [Alloc 3 300, Alloc 4 5000, Free 3, Alloc 5 100] ex_heap = Some ([r, s, t, u], w')
     \<and> r = 0 \<and> s = 0 \<and> u = 0 \<and> region_inv w' 0"
proof -
  let ?ops = "[Alloc 3 300, Alloc 4 5000, Free 3, Alloc 5 100]"
  have o: "\<forall>op \<in> set ?ops. op_reg op < 10" "(0 + sum_list (map op_pages ?ops)) * PAGING64_PAGESZ < 2 ^ 31"
    "sum_list (map op_host ?ops) \<le> w_hostmem ex_heap"
    by (simp_all add: pages_for_def macro_defs ex_heap_def ex_vm_def)
  show ?thesis
    using heap_requests_served [OF ex_heap_proc o] by (auto simp: list_all2_Cons1)
qed

end
