(* ===== verification/Access.thy ===== *)
theory Access
  imports Isolation Returns
begin

text \<open>
  The instructions of a program that touch user memory, one by one: \<open>alloc\<close>, \<open>free\<close>, \<open>read\<close> and
  \<open>write\<close> return on a well-formed address space, leave it well formed, and touch nothing that
  belongs to another process: not its control block, not its descriptor, not the contents of its
  pages.
\<close>

section \<open>What stays outside\<close>

text \<open>The other descriptors, and the areas and symbols of the descriptor itself: what page table
  operations leave alone.\<close>

definition outside :: "mm_ptr \<Rightarrow> world \<Rightarrow>
  (mm_ptr \<Rightarrow> mm_struct option) \<times> (vm_area_struct list \<times> vm_rg_struct list) option" where
  "outside mp w = ((w_mms w)(mp := None), areas w mp)"

named_theorems page_dest \<open>operations that only change page tables and devices\<close>

lemma outside_set [simp]:
  "outside mp (set_mram w d) = outside mp w" "outside mp (set_mswp w d) = outside mp w"
  "outside mp (w\<lparr>w_hostmem := h\<rparr>) = outside mp w"
  by (simp_all add: outside_def areas_def)

lemma outside_set_mm [simp]:
  "w_mms w mp = Some m \<Longrightarrow> mm_mmap m' = mm_mmap m \<Longrightarrow> mm_symrgtbl m' = mm_symrgtbl m \<Longrightarrow>
   outside mp (set_mm w mp m') = outside mp w"
  by (auto simp: outside_def areas_def)

lemma outside_host [page_dest]: "host_alloc w = (b, w') \<Longrightarrow> (\<forall>mp. outside mp w' = outside mp w) \<and> w_mms w' = w_mms w"
  by (auto simp: host_alloc_def)

lemma outside_get_pte_ptr [page_dest]:
  "get_pte_ptr (Some c) pgn al w = Some (p, w') \<Longrightarrow> p_mm c = Some mp \<Longrightarrow>
   outside mp w' = outside mp w \<and> (p = None \<or> fst (the p) = mp)"
  by (auto simp: get_pte_ptr_def Let_def split: area_splits)

lemma outside_pte_write [page_dest]: "pte_write w p v = Some w' \<Longrightarrow> fst p = mp \<Longrightarrow> outside mp w' = outside mp w"
  by (auto simp: pte_write_def split: bind_splits)

lemma outside_count_write [page_dest]: "count_write w mp = Some w' \<Longrightarrow> outside mp w' = outside mp w"
  by (auto simp: count_write_def Let_def split: bind_splits)

lemma outside_pte_get_entry [page_dest]:
  "pte_get_entry (Some c) pgn w = Some (v, w') \<Longrightarrow> p_mm c = Some mp \<Longrightarrow> outside mp w' = outside mp w"
  by (auto simp: pte_get_entry_def dest!: page_dest split: area_splits)

lemma outside_pte_set_fpn [page_dest]:
  "pte_set_fpn (Some c) pgn fpn w = Some (r, w') \<Longrightarrow> p_mm c = Some mp \<Longrightarrow> outside mp w' = outside mp w"
  by (auto simp: pte_set_fpn_def dest!: page_dest split: area_splits)

lemma outside_pte_set_swap [page_dest]:
  "pte_set_swap (Some c) pgn t off w = Some (r, w') \<Longrightarrow> p_mm c = Some mp \<Longrightarrow> outside mp w' = outside mp w"
  by (auto simp: pte_set_swap_def dest!: page_dest split: area_splits)

lemma outside_enlist_pgn_node [page_dest]: "enlist_pgn_node mp pgn w = Some w' \<Longrightarrow> outside mp w' = outside mp w"
  by (auto simp: enlist_pgn_node_def Let_def dest!: page_dest split: area_splits)

lemma outside_find_victim_page [page_dest]:
  "find_victim_page mp w = Some (r, pg, w') \<Longrightarrow> outside mp w' = outside mp w"
  by (auto simp: find_victim_page_def split: area_splits)

text \<open>The system calls of a page fault and of a byte access.\<close>

lemma outside_mem_call [page_dest]:
  "do_syscall k pid 17 \<lparr>a1 = of_int SYSMEM_SWP_OP, a2 = x, a3 = y\<rparr> w = Some (r, rg, w') \<Longrightarrow>
    \<forall>mp. outside mp w' = outside mp w"
  "do_syscall k pid 17 \<lparr>a1 = of_int SYSMEM_IO_READ, a2 = x, a3 = y\<rparr> w = Some (r, rg, w') \<Longrightarrow>
    \<forall>mp. outside mp w' = outside mp w"
  "do_syscall k pid 17 \<lparr>a1 = of_int SYSMEM_IO_WRITE, a2 = x, a3 = y\<rparr> w = Some (r, rg, w') \<Longrightarrow>
    \<forall>mp. outside mp w' = outside mp w"
  by (auto simp: do_syscall_mem sys_memmap_def mm_swap_page_def Let_def macro_defs split: area_splits)

lemma outside_get_target_frame [page_dest]:
  "get_target_frame c w = Some (t, w') \<Longrightarrow> p_mm c = Some mp \<Longrightarrow> outside mp w' = outside mp w"
  by (auto simp: get_target_frame_def Let_def dest!: page_dest split: area_splits)

lemma outside_swap_in_page [page_dest]: "swap_in_page pte f w = Some w' \<Longrightarrow> \<forall>mp. outside mp w' = outside mp w"
  by (auto simp: swap_in_page_def Let_def split: area_splits)

lemma outside_pg_getpage [page_dest]:
  "pg_getpage pgn f c w = Some (r, f', w') \<Longrightarrow> p_mm c = Some mp \<Longrightarrow> outside mp w' = outside mp w"
  by (auto simp: pg_getpage_def Let_def dest!: page_dest split: area_splits)

lemma outside_pg_getval [page_dest]:
  "pg_getval a d c w = Some (r, d', w') \<Longrightarrow> p_mm c = Some mp \<Longrightarrow> outside mp w' = outside mp w"
  by (auto simp: pg_getval_def Let_def dest!: page_dest split: area_splits)

lemma outside_pg_setval [page_dest]:
  "pg_setval a v c w = Some (r, w') \<Longrightarrow> p_mm c = Some mp \<Longrightarrow> outside mp w' = outside mp w"
  by (auto simp: pg_setval_def Let_def dest!: page_dest split: area_splits)

section \<open>Confinement\<close>

text \<open>A step of a process with descriptor \<open>mp\<close> that is confined to it: the paging invariant
  holds afterwards, no other descriptor changes, and no page of another descriptor changes its
  contents.  \<open>calm\<close> steps keep the contents of the pages of the descriptor itself too.\<close>

definition confined :: "mm_ptr \<Rightarrow> world \<Rightarrow> world \<Rightarrow> bool" where
  "confined mp w w' \<longleftrightarrow> vm_inv w' \<and> (\<forall>q. q \<noteq> mp \<longrightarrow> w_mms w' q = w_mms w q \<and> page_bytes w' q = page_bytes w q)"

definition calm :: "mm_ptr \<Rightarrow> world \<Rightarrow> world \<Rightarrow> bool" where
  "calm mp w w' \<longleftrightarrow> (\<forall>p. page_bytes w mp p \<noteq> None \<longrightarrow> page_bytes w' mp p = page_bytes w mp p)"

lemma confined_refl [simp]: "vm_inv w \<Longrightarrow> confined mp w w" "calm mp w w"
  by (simp_all add: confined_def calm_def)

lemma confined_trans: "confined mp u v \<Longrightarrow> confined mp v w \<Longrightarrow> confined mp u w"
  by (simp add: confined_def)

lemma calm_trans: "calm mp u v \<Longrightarrow> calm mp v w \<Longrightarrow> calm mp u w"
  by (simp add: calm_def)

lemma outside_mms: "outside mp w' = outside mp w \<Longrightarrow> q \<noteq> mp \<Longrightarrow> w_mms w' q = w_mms w q"
  by (auto simp: outside_def dest!: fun_cong [of "(w_mms w')(mp := None)" _ q])

lemma outside_areas: "outside mp w' = outside mp w \<Longrightarrow> areas w' mp = areas w mp"
  by (simp add: outside_def)

text \<open>A page operation that keeps the contents of all pages but one.\<close>

lemma confined_page:
  assumes "outside mp w' = outside mp w" and "vm_inv w'"
    and "\<And>mq q. mq \<noteq> mp \<Longrightarrow> page_bytes w' mq q = page_bytes w mq q"
  shows "confined mp w w'"
proof -
  have "page_bytes w' q = page_bytes w q" if "q \<noteq> mp" for q by (rule ext) (rule assms(3) [OF that])
  then show ?thesis unfolding confined_def using assms(2) outside_mms [OF assms(1)] by blast
qed

lemma page_op_space:
  assumes "outside mp w' = outside mp w"
  shows "region_inv w' mp = region_inv w mp" and "area_at mp p w' = area_at mp p w" and "symrg w' mp = symrg w mp"
proof -
  have a: "areas w' mp = areas w mp" by (rule outside_areas [OF assms])
  then show "region_inv w' mp = region_inv w mp" and "area_at mp p w' = area_at mp p w"
    by (simp_all add: region_inv_def area_at_def)
  show "symrg w' mp = symrg w mp"
    using a by (auto simp: symrg_def areas_def fun_eq_iff map_option_case split: option.splits)
qed

section \<open>The address space\<close>

text \<open>A well-formed address space of \<open>p\<close> pages: the pages that have contents lie inside the area,
  and addresses fit into an \<open>int\<close>.\<close>

definition space_ok :: "pcb_ptr \<Rightarrow> pcb_t \<Rightarrow> mm_ptr \<Rightarrow> nat \<Rightarrow> world \<Rightarrow> bool" where
  "space_ok k c mp p w \<longleftrightarrow> heap_ok k c mp p w \<and> vm_inv w \<and> p * PAGING64_PAGESZ < 2 ^ 31
     \<and> (\<forall>q. page_bytes w mp q \<noteq> None \<longrightarrow> q < p)"

lemma known_registered:
  assumes "known k c w" and "p_krnl c"
  shows "registered c w"
proof -
  have "unat (p_pid c) \<le> PID_MAX"
    using assms by (simp add: known_def get_proc_from_PID_def split: if_splits)
  moreover have "arr_get (k_proc_table (w_os w)) (unat (p_pid c)) = Some (Some k)" "w_pcbs w k = Some c"
    using assms by (simp_all add: known_def get_proc_from_PID_def split: if_splits)
  ultimately show ?thesis unfolding registered_def using assms(2) by blast
qed

lemma space_caller:
  assumes "space_ok k c mp p w"
  shows "caller_ok c mp w" and "registered c w" and "vm_inv w" and "p_krnl c" and "p_mm c = Some mp"
    and "region_inv w mp" and "heap_ok k c mp p w"
  using assms known_registered by (auto simp: space_ok_def heap_ok_def backed_def caller_ok_def)

lemma vm_inv_pool: "vm_inv w \<Longrightarrow> \<exists>d. mram w = Some d \<and> pool_ok d"
  by (auto elim!: vm_invE simp: paging_ok_def dest: dev_ok_pool)

lemma space_page_op:
  assumes ok: "space_ok k c mp p w" and w': "outside mp w' = outside mp w" "snap w' = snap w" "same_ctx w w'" "vm_inv w'"
    and pg: "\<And>q. page_bytes w' mp q \<noteq> None \<Longrightarrow> page_bytes w mp q \<noteq> None \<or> q < p"
  shows "space_ok k c mp p w'"
proof -
  have h: "heap_ok k c mp p w" and lim: "p * PAGING64_PAGESZ < 2 ^ 31" "\<And>q. page_bytes w mp q \<noteq> None \<Longrightarrow> q < p"
    using ok unfolding space_ok_def by blast+
  have "caller_ok c mp w'" using space_caller(1) [OF ok] same_ctx_keeps(2) [OF w'(3)] by blast
  then have "backed c mp w'" unfolding backed_def using vm_inv_pool [OF w'(4)] by blast
  moreover have "region_inv w' mp" "area_at mp p w'"
    using h page_op_space [OF w'(1)] unfolding heap_ok_def by blast+
  ultimately have "heap_ok k c mp p w'" by (intro heap_step [OF h w'(2)])
  then show ?thesis unfolding space_ok_def using w'(4) lim pg by blast
qed

text \<open>The address of an offset in a region that passes the bounds check lies inside the area.\<close>

lemma region_address:
  assumes ok: "space_ok k c mp p w" and i: "i < PAGING_MAX_SYMTBL_SZ"
    and b: "rg_start (symrg w mp i) + offset < rg_end (symrg w mp i)"
  obtains a where "sint (ucast (rg_start (symrg w mp i) + offset) :: cint) = int a"
    and "a div PAGING64_PAGESZ < p" and "a = unat (rg_start (symrg w mp i) + offset)"
proof -
  obtain m vma where m: "w_mms w mp = Some m" "mm_mmap m = [vma]" "length (mm_symrgtbl m) = PAGING_MAX_SYMTBL_SZ"
    "regions_ok (unat (vm_sbrk vma)) (mm_symrgtbl m @ vm_freerg_list vma)"
    using space_caller(6) [OF ok] by (rule region_invE)
  have rg: "rg_wf (unat (vm_sbrk vma)) (symrg w mp i)"
    using regions_ok_wf [of "unat (vm_sbrk vma)" "mm_symrgtbl m"] m i by (simp add: symrg_def regions_ok_append)
  have pl: "p * PAGING64_PAGESZ < 2 ^ 31" using ok by (simp add: space_ok_def)
  have "vm_sbrk vma = of_nat (p * PAGING64_PAGESZ)"
    using ok m by (auto simp: space_ok_def heap_ok_def area_at_def areas_def)
  then have "unat (vm_sbrk vma) = p * 4096" using page_addr_unat [OF pl] by simp
  then have lt: "unat (rg_start (symrg w mp i) + offset) < p * 4096"
    using rg b by (simp add: rg_wf_def word_less_nat_alt)
  have small: "unat (rg_start (symrg w mp i) + offset) < 2 ^ 31" using lt pl by (simp add: macro_defs)
  have "sint (ucast (rg_start (symrg w mp i) + offset) :: cint) = int (unat (rg_start (symrg w mp i) + offset))"
    using sint_small [of "ucast (rg_start (symrg w mp i) + offset)"] unat_ucast_lt [of "rg_start (symrg w mp i) + offset"]
      small by simp (metis uint_nat)
  then show thesis by (rule that) (use lt in \<open>auto simp: macro_defs less_mult_imp_div_less\<close>)
qed

section \<open>Byte access\<close>

lemma getpage_space:
  assumes ok: "space_ok k c mp p w" and h: "9 \<le> w_hostmem w" and q: "sint pgn = int q" "q < p"
  obtains r fpn w' where "pg_getpage pgn f0 c w = Some (r, fpn, w')" and "space_ok k c mp p w'"
    and "confined mp w w'" and "calm mp w w'" and "w_hostmem w \<le> w_hostmem w' + 9" and "outside mp w' = outside mp w"
    and "snap w' = snap w"
    and "r = 0 \<and> epresent (vpage w' mp q) \<and> fpn = PAGING_FPN (ucast (vpage w' mp q)) \<or> r = - 1"
    and "epresent (vpage w mp q) \<longrightarrow> r = 0 \<and> vpage w' = vpage w"
proof -
  note c = space_caller [OF ok] and finish = that
  have fin: thesis if run: "pg_getpage pgn f0 c w = Some (r, fpn, w')" and w': "same_ctx w w'" "vm_inv w'"
      "\<And>mq p. (mq, p) \<noteq> (mp, q) \<or> page_bytes w mp q \<noteq> None \<Longrightarrow> page_bytes w' mq p = page_bytes w mq p"
      and hm: "w_hostmem w \<le> w_hostmem w' + 9"
      and r: "r = 0 \<and> epresent (vpage w' mp q) \<and> fpn = PAGING_FPN (ucast (vpage w' mp q)) \<or> r = - 1"
      and v: "epresent (vpage w mp q) \<longrightarrow> r = 0 \<and> vpage w' = vpage w" for r fpn w'
  proof -
    have o: "outside mp w' = outside mp w" by (rule outside_pg_getpage [OF run c(5)])
    have s: "snap w' = snap w" by (rule snap_pg_getpage [OF run])
    have "space_ok k c mp p w'"
      by (rule space_page_op [OF ok o s w'(1,2)]) (metis Pair_inject q(2) w'(3))
    moreover have "confined mp w w'" by (rule confined_page [OF o w'(2)]) (simp add: w'(3))
    moreover have "calm mp w w'" unfolding calm_def by (metis Pair_inject w'(3))
    ultimately show thesis using finish run hm o s r v by blast
  qed
  from c(1-3) h q(1) show thesis
  proof (cases rule: pg_getpage_cases [of c mp w pgn q f0])
    case (mapped w')
    show ?thesis by (rule fin [OF mapped(1-3,5,6)]) (use mapped(4,7) in auto)
  next
    case (refused w')
    have "page_bytes w' = page_bytes w" "same_ctx w w'" "vm_inv w'" using refused(2) by (auto simp: vm_kept_def)
    then show ?thesis by (intro fin [OF refused(1)]) (use refused(3,7) in auto)
  qed
qed

text \<open>The byte \<open>v\<close> stored at address \<open>a\<close>; a page that had contents keeps its other bytes.\<close>

definition stored :: "mm_ptr \<Rightarrow> nat \<Rightarrow> byte \<Rightarrow> world \<Rightarrow> world \<Rightarrow> bool" where
  "stored mp a v w w' \<longleftrightarrow> (\<exists>bs. page_bytes w' mp (a div PAGING64_PAGESZ) = Some bs \<and> bs ! (a mod PAGING64_PAGESZ) = v
     \<and> (\<forall>cs. page_bytes w mp (a div PAGING64_PAGESZ) = Some cs \<longrightarrow> bs = cs[a mod PAGING64_PAGESZ := v]))"

lemma setval_space:
  assumes ok: "space_ok k c mp p w" and h: "9 \<le> w_hostmem w" and a: "sint addr = int a" "a div PAGING64_PAGESZ < p"
  obtains r w' where "pg_setval addr v c w = Some (r, w')" and "r = 0 \<or> r = - 1" and "space_ok k c mp p w'"
    and "confined mp w w'" and "w_hostmem w \<le> w_hostmem w' + 9" and "snap w' = snap w" and "r = 0 \<Longrightarrow> stored mp a v w w'"
    and "\<And>q. q \<noteq> a div PAGING64_PAGESZ \<or> r = - 1 \<Longrightarrow> page_bytes w mp q \<noteq> None \<Longrightarrow> page_bytes w' mp q = page_bytes w mp q"
proof -
  let ?q = "a div PAGING64_PAGESZ"
  have q: "sint (int_pgn addr) = int ?q" by (rule int_pgn_nat [OF a(1)])
  obtain r fpn w1 where g: "pg_getpage (int_pgn addr) 0 c w = Some (r, fpn, w1)" "space_ok k c mp p w1"
    "confined mp w w1" "calm mp w w1" "w_hostmem w \<le> w_hostmem w1 + 9" "outside mp w1 = outside mp w" "snap w1 = snap w"
    "r = 0 \<and> epresent (vpage w1 mp ?q) \<and> fpn = PAGING_FPN (ucast (vpage w1 mp ?q)) \<or> r = - 1"
    by (rule getpage_space [OF ok h q a(2)])
  show thesis
  proof (cases "r = 0")
    case False
    then have "pg_setval addr v c w = Some (- 1, w1)" using g(1) by (simp add: pg_setval_def)
    then show ?thesis using that g(2-5,7) by (auto simp: calm_def)
  next
    case True
    note c1 = space_caller [OF g(2)]
    have io: "unat (int_off addr) = a mod PAGING64_PAGESZ" by (rule int_off_nat [OF a(1)])
    then have off: "unat (int_off addr) < PAGING64_PAGESZ" by (simp add: macro_defs)
    obtain rg w2 where s: "do_syscall (p_krnl c) (p_pid c) 17 \<lparr>a1 = of_int SYSMEM_IO_WRITE,
          a2 = scast (int_phyaddr fpn (int_off addr)), a3 = scast v\<rparr> w1 = Some (0, rg, w2)"
      and w2: "same_ctx w1 w2" "vm_inv w2"
        "page_bytes w2 mp ?q = map_option (\<lambda>bs. bs[unat (int_off addr) := v]) (page_bytes w1 mp ?q)"
        "\<And>mq q. (mq, q) \<noteq> (mp, ?q) \<Longrightarrow> page_bytes w2 mq q = page_bytes w1 mq q" "w_hostmem w2 = w_hostmem w1"
      by (rule write_syscall [OF c1(2,4,3), of mp ?q "int_off addr" fpn v]) (use g(8) True off in auto)
    have run: "pg_setval addr v c w = Some (0, w2)" using g(1) True s by (simp add: pg_setval_def)
    have o: "outside mp w2 = outside mp w1" using outside_mem_call(3) [OF s] by blast
    have sn: "snap w2 = snap w" using snap_do_syscall [OF s] g(7) by simp
    have "space_ok k c mp p w2"
      by (rule space_page_op [OF g(2) o snap_do_syscall [OF s] w2(1,2)]) (metis a(2) Pair_inject w2(4))
    moreover have "confined mp w w2"
      by (rule confined_trans [OF g(3) confined_page [OF o w2(2)]]) (simp add: w2(4))
    moreover have "page_bytes w2 mp q = page_bytes w mp q" if "q \<noteq> ?q" "page_bytes w mp q \<noteq> None" for q
      using that g(4) w2(4) [of mp q] by (simp add: calm_def)
    moreover have "stored mp a v w w2"
    proof -
      obtain bs where bs: "page_bytes w1 mp ?q = Some bs" "length bs = PAGING64_PAGESZ"
        using g(8) True by (auto simp: page_bytes_def contents_def frame_bytes_def)
      then have "cs = bs" if "page_bytes w mp ?q = Some cs" for cs using that g(4) by (simp add: calm_def)
      then show ?thesis using w2(3) bs off io by (simp add: stored_def)
    qed
    ultimately show ?thesis using that [OF run] g(5) w2(5) sn by auto
  qed
qed

lemma read_syscall:
  assumes reg: "registered c w" "p_krnl c" and inv: "vm_inv w" and e: "epresent (vpage w mp p)"
    and off: "unat off < PAGING64_PAGESZ" and fpn: "fpn = PAGING_FPN (ucast (vpage w mp p))"
  obtains rg where "do_syscall (p_krnl c) (p_pid c) 17
      \<lparr>a1 = of_int SYSMEM_IO_READ, a2 = scast (int_phyaddr fpn off), a3 = x\<rparr> w = Some (0, rg, w)"
proof -
  obtain ram n where n: "mram w = Some ram" "rdmflg ram" "n < length (storage ram)"
    "scast (int_phyaddr fpn off) = (of_nat n :: addr_t)" "unat (of_nat n :: addr_t) = n" "sysmem_addr (of_nat n) = of_nat n"
    by (rule mapped_address [OF inv e off fpn])
  obtain k c' where k: "get_proc_from_PID (p_krnl c) (p_pid c) w = Some (Some k)" "w_pcbs w k = Some c'"
    using registered_proc [OF reg] by blast
  have same: "set_mram w (Some ram) = w" using n(1) by (simp add: set_mram_def)
  show thesis
    using n same by (intro that [of "\<lparr>a1 = of_int SYSMEM_IO_READ, a2 = of_nat n, a3 = scast (storage ram ! n)\<rparr>"])
      (simp add: do_syscall_mem sys_memmap_ops(2) [OF k] MEMPHY_read_ram)
qed

lemma getval_space:
  assumes ok: "space_ok k c mp p w" and h: "9 \<le> w_hostmem w" and a: "sint addr = int a" "a div PAGING64_PAGESZ < p"
  obtains r w' where "pg_getval addr d c w = Some (r, d, w')" and "r = 0 \<or> r = - 1" and "space_ok k c mp p w'"
    and "confined mp w w'" and "calm mp w w'" and "w_hostmem w \<le> w_hostmem w' + 9" and "snap w' = snap w"
proof -
  let ?q = "a div PAGING64_PAGESZ"
  have q: "sint (int_pgn addr) = int ?q" by (rule int_pgn_nat [OF a(1)])
  obtain r fpn w1 where g: "pg_getpage (int_pgn addr) 0 c w = Some (r, fpn, w1)" "space_ok k c mp p w1"
    "confined mp w w1" "calm mp w w1" "w_hostmem w \<le> w_hostmem w1 + 9" "outside mp w1 = outside mp w" "snap w1 = snap w"
    "r = 0 \<and> epresent (vpage w1 mp ?q) \<and> fpn = PAGING_FPN (ucast (vpage w1 mp ?q)) \<or> r = - 1"
    by (rule getpage_space [OF ok h q a(2)])
  show thesis
  proof (cases "r = 0")
    case False
    then have "pg_getval addr d c w = Some (- 1, d, w1)" using g(1) by (simp add: pg_getval_def)
    then show ?thesis using that g(2-5,7) by auto
  next
    case True
    note c1 = space_caller [OF g(2)]
    have off: "unat (int_off addr) < PAGING64_PAGESZ" using int_off_nat [OF a(1)] by (simp add: macro_defs)
    obtain rg where "do_syscall (p_krnl c) (p_pid c) 17 \<lparr>a1 = of_int SYSMEM_IO_READ,
          a2 = scast (int_phyaddr fpn (int_off addr)), a3 = 0\<rparr> w1 = Some (0, rg, w1)"
      by (rule read_syscall [OF c1(2,4,3), of mp ?q "int_off addr" fpn 0]) (use g(8) True off in auto)
    then have "pg_getval addr d c w = Some (0, d, w1)" using g(1) True by (simp add: pg_getval_def)
    then show ?thesis using that g(2-5,7) by auto
  qed
qed

lemma region_fields:
  assumes "space_ok k c mp p w" and "i < PAGING_MAX_SYMTBL_SZ"
  obtains m where "w_mms w mp = Some m" and "arr_get (mm_symrgtbl m) i = Some (symrg w mp i)"
proof -
  obtain m where "w_mms w mp = Some m" "length (mm_symrgtbl m) = PAGING_MAX_SYMTBL_SZ"
    using space_caller(6) [OF assms(1)] by (rule region_invE)
  then show thesis using that assms(2) by (simp add: symrg_def)
qed

text \<open>The address \<open>__write\<close> stores to, if it passes the checks.\<close>

definition write_target :: "mm_ptr \<Rightarrow> cint \<Rightarrow> addr_t \<Rightarrow> world \<Rightarrow> nat option" where
  "write_target mp rgid offset w =
     (if sint rgid < 0 \<or> sint rgid \<ge> int PAGING_MAX_SYMTBL_SZ then None
      else let rg = symrg w mp (nat (sint rgid))
           in if rg_start rg = 0 \<and> rg_end rg = 0 \<or> rg_start rg + offset \<ge> rg_end rg then None
              else Some (unat (rg_start rg + offset)))"

lemma write_target_cases:
  assumes ok: "space_ok k c mp p w"
  obtains (outside) "sint rgid < 0 \<or> sint rgid \<ge> int PAGING_MAX_SYMTBL_SZ" and "write_target mp rgid offset w = None"
  | (region) m i where "sint rgid = int i" and "i < PAGING_MAX_SYMTBL_SZ" and "w_mms w mp = Some m"
      and "arr_get (mm_symrgtbl m) i = Some (symrg w mp i)"
proof (cases "sint rgid < 0 \<or> sint rgid \<ge> int PAGING_MAX_SYMTBL_SZ")
  case True
  then show thesis using outside by (auto simp: write_target_def)
next
  case False
  then have i: "sint rgid = int (nat (sint rgid))" "nat (sint rgid) < PAGING_MAX_SYMTBL_SZ" by linarith+
  show thesis using region_fields [OF ok i(2)] region [OF i] by metis
qed

lemma write_target_some:
  assumes ok: "space_ok k c mp p w" and i: "sint rgid = int i" "i < PAGING_MAX_SYMTBL_SZ"
    and a: "write_target mp rgid offset w = Some a"
  shows "\<not> (rg_start (symrg w mp i) = 0 \<and> rg_end (symrg w mp i) = 0)"
    and "rg_start (symrg w mp i) + offset < rg_end (symrg w mp i)"
    and "sint (ucast (rg_start (symrg w mp i) + offset) :: cint) = int a" and "a div PAGING64_PAGESZ < p"
proof -
  show r: "\<not> (rg_start (symrg w mp i) = 0 \<and> rg_end (symrg w mp i) = 0)"
    "rg_start (symrg w mp i) + offset < rg_end (symrg w mp i)"
    using a i by (auto simp: write_target_def Let_def not_le split: if_splits)
  have "a = unat (rg_start (symrg w mp i) + offset)"
    using a i by (auto simp: write_target_def Let_def split: if_splits)
  then show "sint (ucast (rg_start (symrg w mp i) + offset) :: cint) = int a" and "a div PAGING64_PAGESZ < p"
    using region_address [OF ok i(2) r(2)] by metis+
qed

lemma write_target_none:
  "write_target mp rgid offset w = None \<Longrightarrow> sint rgid = int i \<Longrightarrow> i < PAGING_MAX_SYMTBL_SZ \<Longrightarrow>
   rg_start (symrg w mp i) = 0 \<and> rg_end (symrg w mp i) = 0 \<or> rg_start (symrg w mp i) + offset \<ge> rg_end (symrg w mp i)"
  by (auto simp: write_target_def Let_def split: if_splits)

lemma vm_write_space:
  assumes ok: "space_ok k c mp p w" and h: "9 \<le> w_hostmem w"
  obtains r w' where "vm_write (Some c) 0 rgid offset v w = Some (r, w')" and "r = 0 \<or> r = - 1"
    and "space_ok k c mp p w'" and "confined mp w w'" and "w_hostmem w \<le> w_hostmem w' + 9" and "snap w' = snap w"
    and "r = 0 \<Longrightarrow> \<exists>a. write_target mp rgid offset w = Some a \<and> stored mp a v w w'"
    and "\<And>q. r = - 1 \<or> map_option (\<lambda>a. a div PAGING64_PAGESZ) (write_target mp rgid offset w) \<noteq> Some q \<Longrightarrow>
       page_bytes w mp q \<noteq> None \<Longrightarrow> page_bytes w' mp q = page_bytes w mp q"
  using ok
proof (cases rule: write_target_cases [where rgid = rgid and offset = offset])
  case outside
  then have "vm_write (Some c) 0 rgid offset v w = Some (- 1, w)" by (auto simp: vm_write_def)
  then show ?thesis using that ok space_caller(3) [OF ok] by simp
next
  case (region m i)
  note c = space_caller [OF ok]
  show ?thesis
  proof (cases "write_target mp rgid offset w")
    case None
    then have "vm_write (Some c) 0 rgid offset v w = Some (- 1, w)"
      using region c(4,5) write_target_none [OF None region(1,2)] by (auto simp: vm_write_def get_symrg_byid_def)
    then show ?thesis using that ok c(3) by simp
  next
    case (Some a)
    note t = write_target_some [OF ok region(1,2) Some]
    obtain r' w' where s: "pg_setval (ucast (rg_start (symrg w mp i) + offset)) v c w = Some (r', w')" "r' = 0 \<or> r' = - 1"
      "space_ok k c mp p w'" "confined mp w w'" "w_hostmem w \<le> w_hostmem w' + 9" "snap w' = snap w" "r' = 0 \<Longrightarrow> stored mp a v w w'"
      "\<And>q. q \<noteq> a div PAGING64_PAGESZ \<or> r' = - 1 \<Longrightarrow> page_bytes w mp q \<noteq> None \<Longrightarrow> page_bytes w' mp q = page_bytes w mp q"
      by (rule setval_space [OF ok h t(3,4), of v]) blast
    have run: "vm_write (Some c) 0 rgid offset v w = Some (r', w')"
      using region c(4,5) t(1,2) s(1) by (auto simp: vm_write_def get_symrg_byid_def not_le)
    show ?thesis by (rule that [OF run s(2-6)]) (use s(7,8) Some in auto)
  qed
qed

lemma vm_read_space:
  assumes ok: "space_ok k c mp p w" and h: "9 \<le> w_hostmem w"
  obtains r w' where "vm_read (Some c) 0 rgid offset d w = Some (r, d, w')" and "space_ok k c mp p w'"
    and "confined mp w w'" and "calm mp w w'" and "w_hostmem w \<le> w_hostmem w' + 9" and "snap w' = snap w"
  using ok
proof (cases rule: write_target_cases [where rgid = rgid and offset = offset])
  case outside
  then have "vm_read (Some c) 0 rgid offset d w = Some (- 1, d, w)" by (auto simp: vm_read_def)
  then show ?thesis using that ok space_caller(3) [OF ok] by simp
next
  case (region m i)
  note c = space_caller [OF ok]
  show ?thesis
  proof (cases "write_target mp rgid offset w")
    case None
    then have "vm_read (Some c) 0 rgid offset d w = Some (- 1, d, w)"
      using region c(4,5) write_target_none [OF None region(1,2)] by (auto simp: vm_read_def get_symrg_byid_def)
    then show ?thesis using that ok c(3) by simp
  next
    case (Some a)
    note t = write_target_some [OF ok region(1,2) Some]
    obtain r' w' where s: "pg_getval (ucast (rg_start (symrg w mp i) + offset)) d c w = Some (r', d, w')"
      "space_ok k c mp p w'" "confined mp w w'" "calm mp w w'" "w_hostmem w \<le> w_hostmem w' + 9" "snap w' = snap w"
      by (rule getval_space [OF ok h t(3,4), of d])
    have "vm_read (Some c) 0 rgid offset d w = Some (r', d, w')"
      using region c(4,5) t(1,2) s(1) by (auto simp: vm_read_def get_symrg_byid_def not_le)
    then show ?thesis using that s(2-6) by simp
  qed
qed

section \<open>Growing\<close>

text \<open>Mapping a range of pages that have no contents to free frames.\<close>

lemma paging_map_range:
  assumes "paging_ok P fi ram swp" and "fp.get_n N ram = (fs, ram')" and "length fs = N" and "p0 + N \<le> page_limit"
    and "\<And>q. p0 \<le> q \<Longrightarrow> q < p0 + N \<Longrightarrow> \<not> epresent (P mp q) \<and> \<not> eswapped (P mp q)"
  shows "paging_ok (P(mp := map_pages (P mp) p0 fs)) (fi(mp := rev (map of_nat [p0..<p0 + N]) @ fi mp)) ram' swp
    \<and> (\<forall>mq q. mq \<noteq> mp \<or> q < p0 \<or> p0 + N \<le> q \<longrightarrow>
        contents (P(mp := map_pages (P mp) p0 fs)) ram' swp mq q = contents P ram swp mq q)"
  using assms
proof (induction N arbitrary: P fi ram fs p0)
  case 0
  then show ?case by auto
next
  case (Suc N)
  obtain f ram1 gs where g: "fp_get ram = Some (f, ram1)" "fp.get_n N ram1 = (gs, ram')" "fs = f # gs"
    using Suc.prems(2,3) by (auto split: option.splits prod.splits)
  note tk = paging_take [OF Suc.prems(1) g(1)]
  let ?P = "set_entry P mp p0 (pte_online (P mp p0) f)" let ?fi = "fi(mp := of_nat p0 # fi mp)"
  have p0: "p0 < page_limit" "\<not> epresent (P mp p0)" "\<not> eswapped (P mp p0)" using Suc.prems(4,5) by auto
  note ins = paging_install_fresh [where e = "P mp p0", OF tk(1) p0 tk(3,2) refl]
  have P': "(?P)(mp := map_pages (?P mp) (p0 + 1) gs) = P(mp := map_pages (P mp) p0 fs)"
    by (simp add: g(3) map_pages_Cons set_entry_def)
  have "[p0..<p0 + Suc N] = p0 # [p0 + 1..<p0 + 1 + N]" by (simp add: upt_conv_Cons del: upt_Suc)
  then have fi': "(?fi)(mp := rev (map of_nat [p0 + 1..<p0 + 1 + N]) @ ?fi mp)
      = fi(mp := rev (map of_nat [p0..<p0 + Suc N]) @ fi mp)" by simp
  have ih: "paging_ok ((?P)(mp := map_pages (?P mp) (p0 + 1) gs)) ((?fi)(mp := rev (map of_nat [p0 + 1..<p0 + 1 + N]) @ ?fi mp)) ram' swp
    \<and> (\<forall>mq q. mq \<noteq> mp \<or> q < p0 + 1 \<or> p0 + 1 + N \<le> q \<longrightarrow>
        contents ((?P)(mp := map_pages (?P mp) (p0 + 1) gs)) ram' swp mq q = contents ?P ram1 swp mq q)"
    by (rule Suc.IH [OF ins(1) g(2)]) (use Suc.prems(3-5) g(3) in \<open>auto simp: set_entry_app\<close>)
  have c: "contents ?P ram1 swp mq q = contents P ram swp mq q" if "mq \<noteq> mp \<or> q < p0 \<or> p0 + Suc N \<le> q" for mq q
    using ins(2) [of mq q] tk(4) that by auto
  show ?case
  proof (intro conjI allI impI)
    show "paging_ok (P(mp := map_pages (P mp) p0 fs)) (fi(mp := rev (map of_nat [p0..<p0 + Suc N]) @ fi mp)) ram' swp"
      using conjunct1 [OF ih] unfolding P' fi' .
    fix mq q
    assume q: "mq \<noteq> mp \<or> q < p0 \<or> p0 + Suc N \<le> q"
    then have "mq \<noteq> mp \<or> q < p0 + 1 \<or> p0 + 1 + N \<le> q" by auto
    then show "contents (P(mp := map_pages (P mp) p0 fs)) ram' swp mq q = contents P ram swp mq q"
      using conjunct2 [OF ih] c [OF q] unfolding P' by metis
  qed
qed

text \<open>A device that holds the same frames in another order.\<close>

lemma dev_ok_reorder:
  assumes "dev_ok b d" and "mset (free_fp_list d') = mset (free_fp_list d)" and "mset (used_fp_list d') = mset (used_fp_list d)"
    and "storage d' = storage d" and "rdmflg d' = rdmflg d"
  shows "dev_ok b d'" and "set (used_fp_list d') = set (used_fp_list d)"
proof -
  have "mset (free_fp_list d' @ used_fp_list d') = mset (free_fp_list d @ used_fp_list d)" using assms(2,3) by simp
  note e = mset_eq_setD [OF this] mset_eq_imp_distinct_iff [OF this]
  show "set (used_fp_list d') = set (used_fp_list d)" using assms(3) by (rule mset_eq_setD)
  show "dev_ok b d'" using assms(1,4,5) e unfolding dev_ok_def frame_fits_def by simp
qed

lemma vm_map_ram_confined:
  assumes b: "backed c mp w" and inv: "vm_inv w" and n: "sint n = int N" "6 * N \<le> w_hostmem w"
    and lim: "p0 + N \<le> page_limit" "N * PAGING64_PAGESZ < 2 ^ 31"
    and free: "\<And>q. page_bytes w mp q \<noteq> None \<Longrightarrow> q < p0"
    and run: "vm_map_ram (Some c) a e (of_nat (p0 * PAGING64_PAGESZ)) n rg w = Some (r, rg', w')"
  shows "vm_inv w'" and "\<And>q. q \<noteq> mp \<Longrightarrow> page_bytes w' q = page_bytes w q" and "calm mp w w'"
    and "\<And>q. page_bytes w' mp q \<noteq> None \<Longrightarrow> q < p0 + N"
proof -
  obtain ram swp where dev: "mram w = Some ram" "mswp w = Some swp" and pok: "paging_ok (vpage w) (fifo w) ram swp"
    using inv by (rule vm_invE)
  have d: "caller_ok c mp w" "pool_ok ram" "p_krnl c" "dev_ok 13 ram"
    using b pok dev by (auto simp: backed_def caller_ok_def paging_ok_def)
  have fr: "\<not> epresent (vpage w mp q) \<and> \<not> eswapped (vpage w mp q)" if "p0 \<le> q" for q
    using free [of q] that dev
    by (cases "epresent (vpage w mp q)"; cases "eswapped (vpage w mp q)") (simp_all add: page_bytes_def contents_def)
  have "vm_inv w' \<and> (\<forall>mq q. mq \<noteq> mp \<or> q < p0 \<or> p0 + N \<le> q \<longrightarrow> page_bytes w' mq q = page_bytes w mq q)"
    using d(3) dev(1) d(2)
  proof (cases rule: alloc_pages_range_cases [of c w ram n])
    case (granted fs d' h)
    have fs: "fs = take N (free_fp_list ram)" "length fs = N" "N \<le> length (free_fp_list ram)"
      using fp.get_n_spec [OF granted(2)] granted(3) n(1) by simp_all
    have pm: "paging_ok ((vpage w)(mp := map_pages (vpage w mp) p0 fs))
        ((fifo w)(mp := rev (map of_nat [p0..<p0 + N]) @ fifo w mp)) d' swp
      \<and> (\<forall>mq q. mq \<noteq> mp \<or> q < p0 \<or> p0 + N \<le> q \<longrightarrow>
        contents ((vpage w)(mp := map_pages (vpage w mp) p0 fs)) d' swp mq q = contents (vpage w) ram swp mq q)"
      by (rule paging_map_range [OF pok _ fs(2) lim(1)]) (use granted(2) n(1) fr in auto)
    show ?thesis
    proof (rule vm_map_ram_success [OF d(1) dev(1) d(2) n(1) fs(3) n(2) lim, of a e rg])
      fix w2 d2 rg2
      assume r2: "vm_map_ram (Some c) a e (of_nat (p0 * PAGING64_PAGESZ)) n rg w = Some (0, rg2, w2)"
        and v: "vpage w2 mp = map_pages (vpage w mp) p0 (take N (free_fp_list ram))" "\<And>q. q \<noteq> mp \<Longrightarrow> vpage w2 q = vpage w q"
        and f: "fifo w2 mp = rev (map of_nat [p0..<p0 + N]) @ fifo w mp" "\<And>q. q \<noteq> mp \<Longrightarrow> fifo w2 q = fifo w q"
        and m: "mram w2 = Some d2" "fp.get_n N ram = (take N (free_fp_list ram), d2)" "mswp w2 = mswp w"
      have "w' = w2" using run r2 by simp
      moreover have "vpage w2 = (vpage w)(mp := map_pages (vpage w mp) p0 fs)" using v fs(1) by (auto simp: fun_eq_iff)
      moreover have "fifo w2 = (fifo w)(mp := rev (map of_nat [p0..<p0 + N]) @ fifo w mp)" using f by (auto simp: fun_eq_iff)
      moreover have "d2 = d'" using m(2) granted(2) n(1) by simp
      ultimately show ?thesis using pm m dev by (auto simp: vm_inv_def page_bytes_def)
    qed
  next
    case (rollback d' h)
    have "sint (ucast (- 3000 :: addr_t) :: cint) = - 3000" by code_simp
    then have w': "w' = dev_with w d' h" using rollback(1) d(3) dev(1) run by (simp add: vm_map_ram_def)
    note rd = dev_ok_reorder [OF d(4) rollback(3,4,8,9)]
    have "vpage w' = vpage w" "fifo w' = fifo w" by (simp_all add: w' fun_eq_iff)
    moreover have "paging_ok (vpage w) (fifo w) d' swp" using pok rd by (simp add: paging_ok_def)
    ultimately show ?thesis
      using dev frame_bytes_storage [OF rollback(8)] by (simp add: w' vm_inv_def page_bytes_def contents_def)
  qed
  then show "vm_inv w'" and "\<And>q. q \<noteq> mp \<Longrightarrow> page_bytes w' q = page_bytes w q" and "calm mp w w'"
    and "\<And>q. page_bytes w' mp q \<noteq> None \<Longrightarrow> q < p0 + N"
    using free by (auto simp: calm_def fun_eq_iff) (metis not_le option.distinct(1) trans_less_add1)
qed

lemma outside_vmap_loop [page_dest]:
  "vmap_loop c a i n fs w = Some (e, k, w') \<Longrightarrow> p_mm c = Some mp \<Longrightarrow> outside mp w' = outside mp w"
proof (induction c a i n fs w rule: vmap_loop.induct)
  case (2 c a i n fs w)
  then show ?case by (auto simp: Let_def dest!: page_dest split: area_splits)
qed simp

lemma outside_alloc_loop [page_dest]: "alloc_loop n fs w = (b, fs', w') \<Longrightarrow> \<forall>mp. outside mp w' = outside mp w"
proof (induction n fs w rule: alloc_loop.induct)
  case (2 n fs w)
  then show ?case by (auto dest!: page_dest split: area_splits)
qed simp

lemma outside_put_frames [simp]: "outside mp (put_frames fs w) = outside mp w"
  by (induction fs w rule: put_frames.induct) simp_all

lemma outside_vm_map_ram [page_dest]:
  "vm_map_ram (Some c) a b e n rg w = Some (r, rg', w') \<Longrightarrow> p_mm c = Some mp \<Longrightarrow> outside mp w' = outside mp w"
  by (auto simp: vm_map_ram_def vmap_page_range_def alloc_pages_range_def Let_def dest!: page_dest split: area_splits)

text \<open>Steps that change only the areas and symbols of the descriptor.\<close>

lemma view_keeps:
  assumes "paging_view mp w' = paging_view mp w"
  shows "vm_inv w' = vm_inv w" and "page_bytes w' = page_bytes w" and "q \<noteq> mp \<Longrightarrow> w_mms w' q = w_mms w q"
proof -
  have v: "(w_mms w')(mp := None) = (w_mms w)(mp := None)" "vpage w' = vpage w" "fifo w' = fifo w" "mram w' = mram w"
    "mswp w' = mswp w"
    using assms by (simp_all add: paging_view_def)
  show "vm_inv w' = vm_inv w" and "page_bytes w' = page_bytes w" by (simp_all only: vm_inv_def page_bytes_def v(2-5))
  show "q \<noteq> mp \<Longrightarrow> w_mms w' q = w_mms w q" using fun_cong [OF v(1), of q] by simp
qed

text \<open>The pages of the descriptor after a step that may add some.\<close>

definition grown :: "mm_ptr \<Rightarrow> nat \<Rightarrow> world \<Rightarrow> world \<Rightarrow> bool" where
  "grown mp q w w' \<longleftrightarrow> confined mp w w' \<and> calm mp w w' \<and> (\<forall>p. page_bytes w' mp p \<noteq> None \<longrightarrow> p < q)"

lemma grown_view:
  assumes "paging_view mp w' = paging_view mp w"
  shows "grown mp q u w' = grown mp q u w"
proof -
  note k = view_keeps [OF assms]
  have "confined mp u w' = confined mp u w" unfolding confined_def k(1,2) using k(3) by metis
  then show ?thesis unfolding grown_def calm_def k(2) by blast
qed

lemma grown_refl: "space_ok k c mp p w \<Longrightarrow> grown mp p w w"
  by (auto simp: grown_def space_ok_def)

text \<open>What growing an area by \<open>N\<close> pages comes down to: mapping them, once the limits of the area are set.\<close>

lemma inc_vma_limit_maps:
  assumes ok: "space_ok k c mp p w" and inc: "unat inc = N * 4096" "0 < N" "(p + N) * PAGING64_PAGESZ < 2 ^ 31"
    and h: "6 * N + 1 \<le> w_hostmem w" and run: "inc_vma_limit (Some c) 0 inc w = Some (r, w')"
  obtains w1 a e n rg r1 rg' where "vm_map_ram (Some c) a e (of_nat (p * PAGING64_PAGESZ)) n rg w1 = Some (r1, rg', w')"
    and "paging_view mp w1 = paging_view mp w" and "backed c mp w1" and "sint n = int N" and "6 * N \<le> w_hostmem w1"
    and "p + N \<le> page_limit" and "N * PAGING64_PAGESZ < 2 ^ 31"
proof -
  note c = space_caller [OF ok]
  obtain m vma where m: "w_mms w mp = Some m" "mm_mmap m = [vma]" "vm_id vma = 0" using c(6) by (rule region_invE)
  have e: "vm_end vma = of_nat (p * PAGING64_PAGESZ)" using c(7) m by (auto simp: heap_ok_def area_at_def areas_def)
  have pl: "p * PAGING64_PAGESZ < 2 ^ 31" "N * PAGING64_PAGESZ < 2 ^ 31" "p + N \<le> page_limit"
    using inc(3) by (auto simp: macro_defs page_limit_def)
  have "unat (PAGING64_PAGE_ALIGNSZ inc) = unat inc"
    using page_align_unat [of inc] pl(2) inc(1) by (simp add: macro_defs)
  then have al: "PAGING64_PAGE_ALIGNSZ inc = inc" by (simp add: word_unat_eq_iff)
  let ?e = "vm_end vma + inc" and ?n = "ucast (inc div of_nat PAGING64_PAGESZ) :: cint"
  have "unat ?e = p * 4096 + N * 4096"
    using inc(1,3) page_addr_unat [OF pl(1)] by (subst unat_add_small) (simp_all add: e macro_defs)
  then have lt: "vm_end vma < ?e" using page_addr_unat [OF pl(1)] inc(2) by (simp add: e word_less_nat_alt)
  have walk: "get_vma_by_num (Some mp) 0 w = Some (Some 0)" using m by (simp add: get_vma_by_num_def)
  have ov: "validate_overlap_vm_area (Some c) 0 (vm_end vma) ?e w = Some 0"
    using m lt c(4,5) by (simp add: validate_overlap_vm_area_def not_le)
  define w1 where "w1 = set_mm (w\<lparr>w_hostmem := w_hostmem w - 1\<rparr>) mp
    (m\<lparr>mm_mmap := [vma\<lparr>vm_end := ?e, vm_sbrk := vm_sbrk vma + inc\<rparr>]\<rparr>)"
  have sl: "set_vma_limits mp 0 ?e (vm_sbrk vma + inc) (w\<lparr>w_hostmem := w_hostmem w - 1\<rparr>) = Some w1"
    using m by (simp add: set_vma_limits_def w1_def)
  have "inc \<noteq> 0" using inc by auto
  then obtain r1 rg' where mp: "vm_map_ram (Some c) (vm_end vma) ?e (of_nat (p * PAGING64_PAGESZ)) ?n
      (Some \<lparr>rg_vmaid = 0, rg_start = vm_end vma, rg_end = ?e\<rparr>) w1 = Some (r1, rg', w')"
    using run c(4,5) walk m ov h sl al
    by (auto simp: inc_vma_limit_def host_alloc_def Let_def e split: bind_splits prod.splits)
  have "unat (inc div of_nat PAGING64_PAGESZ) = N" using inc(1) by (simp add: unat_div_distrib macro_defs)
  then have n: "sint ?n = int N"
    using pl(2) sint_small [of ?n] unat_ucast_lt [of "inc div of_nat PAGING64_PAGESZ"]
    by (simp add: macro_defs) (metis uint_nat)
  have "paging_view mp w1 = paging_view mp w" using m by (simp add: w1_def)
  moreover have "backed c mp w1" using c(7) m by (simp add: heap_ok_def backed_def caller_ok_def w1_def)
  moreover have "6 * N \<le> w_hostmem w1" using h by (simp add: w1_def)
  ultimately show thesis using that [OF mp] n pl(2,3) by blast
qed

lemma inc_vma_limit_grown:
  assumes ok: "space_ok k c mp p w" and inc: "unat inc = N * 4096" "0 < N" "(p + N) * PAGING64_PAGESZ < 2 ^ 31"
    and h: "6 * N + 1 \<le> w_hostmem w" and run: "inc_vma_limit (Some c) 0 inc w = Some (r, w')"
  shows "grown mp (p + N) w w'"
proof -
  note c = space_caller [OF ok]
  obtain w1 a e n rg r1 rg' where m: "vm_map_ram (Some c) a e (of_nat (p * PAGING64_PAGESZ)) n rg w1 = Some (r1, rg', w')"
    "paging_view mp w1 = paging_view mp w" "backed c mp w1" "sint n = int N" "6 * N \<le> w_hostmem w1"
    "p + N \<le> page_limit" "N * PAGING64_PAGESZ < 2 ^ 31"
    by (rule inc_vma_limit_maps [OF assms])
  note k1 = view_keeps [OF m(2)]
  have p1: "q < p" if "page_bytes w1 mp q \<noteq> None" for q using ok that k1(2) by (simp add: space_ok_def)
  have i1: "vm_inv w1" using c(3) k1(1) by simp
  note g = vm_map_ram_confined [OF m(3) i1 m(4-7) p1 m(1)]
  have "outside mp w' = outside mp w1" by (rule outside_vm_map_ram [OF m(1) c(5)])
  then have "confined mp w1 w'" unfolding confined_def using g(1,2) outside_mms by blast
  then show ?thesis unfolding grown_def using g(3,4) k1(2,3) by (auto simp: confined_def calm_def)
qed

lemma grow_call:
  assumes ok: "space_ok k c mp p w" "request_ok p sz w" and al: "al = PAGING64_PAGE_ALIGNSZ sz"
    and run: "do_syscall (p_krnl c) (p_pid c) 17 \<lparr>a1 = of_int SYSMEM_INC_OP, a2 = 0, a3 = al\<rparr> w = Some (r, regs, w2)"
  shows "grown mp (p + pages_for sz) w w2"
proof -
  note c = space_caller [OF ok(1)]
  let ?N = "pages_for sz"
  have k: "get_proc_from_PID (p_krnl c) (p_pid c) w = Some (Some k)" "w_pcbs w k = Some c"
    using c(7) by (simp_all add: heap_ok_def known_def)
  have r: "(p + ?N) * PAGING64_PAGESZ < 2 ^ 31" "6 * ?N + 1 \<le> w_hostmem w" using ok(2) by (simp_all add: request_ok_def)
  have ua: "unat al = ?N * 4096"
    using r(1) pages_for_ge [of sz] page_align_unat [of sz] by (simp add: al pages_for_def macro_defs)
  then have "sysmem_addr al = al" using r(1) by (intro sysmem_addr_small) (simp add: macro_defs)
  then obtain r1 where inc: "inc_vma_limit (Some c) 0 al w = Some (r1, w2)"
    using run by (auto simp: do_syscall_mem sys_memmap_inc [OF k])
  show ?thesis
  proof (cases "?N = 0")
    case True
    then have "al = 0" using ua by (simp add: unat_eq_0)
    then have "w2 = w" using inc c(4,5) by (simp add: inc_vma_limit_def)
    then show ?thesis using grown_refl [OF ok(1)] True by simp
  next
    case False
    then show ?thesis using inc_vma_limit_grown [OF ok(1) ua _ r inc] by simp
  qed
qed

lemma served_grown:
  assumes "space_ok k c mp p w" and "request_ok p sz w" and "served_from c mp sz p q w w'"
  shows "grown mp q w w'"
  using assms(3) unfolding served_from_def
proof (elim disjE conjE exE)
  assume "q = p" and "paging_view mp w' = paging_view mp w"
  then show ?thesis using grown_view grown_refl [OF assms(1)] by blast
next
  fix r regs w2
  assume "q = p + pages_for sz" and "paging_view mp w' = paging_view mp w2"
    and "do_syscall (p_krnl c) (p_pid c) 17
      \<lparr>a1 = of_int SYSMEM_INC_OP, a2 = 0, a3 = PAGING64_PAGE_ALIGNSZ sz\<rparr> w = Some (r, regs, w2)"
  then show ?thesis using grown_view grow_call [OF assms(1,2) refl] by blast
qed

lemma grown_space:
  assumes "grown mp q w w'" and "heap_ok k c mp q w'" and "q * PAGING64_PAGESZ < 2 ^ 31"
  shows "space_ok k c mp q w'"
  using assms unfolding space_ok_def grown_def confined_def by blast

section \<open>The operations of a program\<close>

text \<open>A new value of the control block of the process leaves the memory alone.\<close>

lemma pcbs_keep [simp]:
  "vpage (w\<lparr>w_pcbs := x\<rparr>) = vpage w" "fifo (w\<lparr>w_pcbs := x\<rparr>) = fifo w"
  by (simp_all add: fun_eq_iff vpage_def pte_view_def fifo_def)

lemma pcbs_keep_pages [simp]: "vm_inv (w\<lparr>w_pcbs := x\<rparr>) = vm_inv w" "page_bytes (w\<lparr>w_pcbs := x\<rparr>) = page_bytes w"
  by (simp_all add: vm_inv_def page_bytes_def split: option.splits)

lemma space_pcb:
  assumes "space_ok k c mp p w" and "p_krnl c' = p_krnl c" and "p_mm c' = p_mm c" and "p_pid c' = p_pid c"
  shows "space_ok k c' mp p (w\<lparr>w_pcbs := (w_pcbs w)(k \<mapsto> c')\<rparr>)"
proof -
  have "heap_ok k c' mp p (w\<lparr>w_pcbs := (w_pcbs w)(k \<mapsto> c')\<rparr>)"
    using assms by (auto simp: space_ok_def heap_ok_def known_def get_proc_from_PID_def backed_def caller_ok_def
        region_inv_def area_at_def areas_def)
  then show ?thesis using assms(1) by (simp add: space_ok_def)
qed

text \<open>The descriptor of the kernel: its tables exist, and its regions and pools lie in the range that five levels of
  tables cover.\<close>

definition pool_low :: "kcache_pool_struct \<Rightarrow> bool" where
  "pool_low p \<longleftrightarrow> unat (kc_size p) < 2 ^ 31 \<and> unat (kc_align p) < 2 ^ 31
     \<and> unat (kc_storage p) + unat (kc_size p) \<le> page_limit * PAGING64_PAGESZ"

definition kernel_mm_ok :: "mm_struct \<Rightarrow> bool" where
  "kernel_mm_ok m \<longleftrightarrow> mm_pgd m \<noteq> None \<and> length (mm_symrgtbl m) = PAGING_MAX_SYMTBL_SZ
     \<and> list_all (\<lambda>rg. unat (rg_end rg) \<le> page_limit * PAGING64_PAGESZ) (mm_symrgtbl m)
     \<and> (case mm_kcpooltbl m of None \<Rightarrow> True | Some t \<Rightarrow> length t = PAGING_MAX_KCACHE_POOLS \<and> list_all pool_low t)"

definition kernel_ok :: "mm_ptr \<Rightarrow> world \<Rightarrow> bool" where
  "kernel_ok kmp w \<longleftrightarrow> k_mm (w_os w) = Some kmp \<and> (\<exists>m. w_mms w kmp = Some m \<and> kernel_mm_ok m)"

definition pools_up :: "mm_ptr \<Rightarrow> world \<Rightarrow> bool" where
  "pools_up kmp w \<longleftrightarrow> (\<exists>m. w_mms w kmp = Some m \<and> mm_kcpooltbl m \<noteq> None)"

text \<open>A descriptor keeps what the kernel needs of it: well-formed before, well-formed after, and its pool table stays.\<close>

definition kernel_kept :: "mm_ptr \<Rightarrow> world \<Rightarrow> world \<Rightarrow> bool" where
  "kernel_kept kmp w w' \<longleftrightarrow> (kernel_ok kmp w \<longrightarrow> kernel_ok kmp w') \<and> (pools_up kmp w \<longrightarrow> pools_up kmp w')"

lemma kernel_kept_same:
  "k_mm (w_os w') = k_mm (w_os w) \<Longrightarrow> w_mms w' kmp = w_mms w kmp \<Longrightarrow> kernel_kept kmp w w'"
  by (simp add: kernel_kept_def kernel_ok_def pools_up_def)

lemma kernel_kept_trans: "kernel_kept kmp u v \<Longrightarrow> kernel_kept kmp v w \<Longrightarrow> kernel_kept kmp u w"
  by (simp add: kernel_kept_def)

text \<open>A step of the process \<open>k\<close> that stays within its control block, its descriptor and that of the kernel.\<close>

definition own_step :: "pcb_ptr \<Rightarrow> mm_ptr \<Rightarrow> world \<Rightarrow> world \<Rightarrow> bool" where
  "own_step k mp w w' \<longleftrightarrow> vm_inv w' \<and> (\<forall>j. j \<noteq> k \<longrightarrow> w_pcbs w' j = w_pcbs w j)
     \<and> k_proc_table (w_os w') = k_proc_table (w_os w) \<and> k_mm (w_os w') = k_mm (w_os w)
     \<and> (\<forall>q. q \<noteq> mp \<longrightarrow> kernel_kept q w w' \<and>
          (k_mm (w_os w) \<noteq> Some q \<longrightarrow> w_mms w' q = w_mms w q \<and> page_bytes w' q = page_bytes w q))"

lemma own_step_trans: "own_step k mp u v \<Longrightarrow> own_step k mp v w \<Longrightarrow> own_step k mp u w"
  unfolding own_step_def using kernel_kept_trans by metis

lemma own_step_confined:
  assumes "confined mp w w'" and "\<And>j. j \<noteq> k \<Longrightarrow> w_pcbs w' j = w_pcbs w j"
    and "k_proc_table (w_os w') = k_proc_table (w_os w)" and "k_mm (w_os w') = k_mm (w_os w)"
  shows "own_step k mp w w'"
  unfolding own_step_def using assms kernel_kept_same unfolding confined_def by blast

lemma own_step_pcb: "vm_inv w \<Longrightarrow> own_step k mp w (w\<lparr>w_pcbs := (w_pcbs w)(k \<mapsto> c)\<rparr>)"
  by (rule own_step_confined) (simp_all add: confined_def)

lemma own_step_snap: "confined mp w w' \<Longrightarrow> snap w' = snap w \<Longrightarrow> own_step k mp w w'"
  by (rule own_step_confined) (auto dest: snapD)

lemma calm_pcb [simp]: "calm mp w (w'\<lparr>w_pcbs := x\<rparr>) = calm mp w w'"
  by (simp add: calm_def)

text \<open>An address space depends on the process, its entry in the process table, its descriptor and its
  pages only; a step of another process leaves these alone.\<close>

lemma space_keep:
  assumes ok: "space_ok j c mq p w" and inv: "vm_inv w'"
    and e: "w_pcbs w' j = w_pcbs w j" "w_mms w' mq = w_mms w mq" "page_bytes w' mq = page_bytes w mq"
    and t: "arr_get (k_proc_table (w_os w')) (unat (p_pid c)) = arr_get (k_proc_table (w_os w)) (unat (p_pid c))"
  shows "space_ok j c mq p w'"
proof -
  have "caller_ok c mq w'" using space_caller(1) [OF ok] e(2) by (simp add: caller_ok_def)
  then have "backed c mq w'" unfolding backed_def using vm_inv_pool [OF inv] by blast
  moreover have "areas w' mq = areas w mq" using e(2) by (simp add: areas_def)
  moreover have "known j c w' = known j c w" by (simp add: known_def get_proc_from_PID_def e(1) t)
  ultimately have "heap_ok j c mq p w'"
    using space_caller(7) [OF ok] by (simp add: heap_ok_def region_inv_def area_at_def)
  then show ?thesis using ok e(3) inv by (simp add: space_ok_def)
qed

lemma space_other:
  assumes "space_ok j c mq p w" and st: "own_step k mp w w'" and ne: "j \<noteq> k" "mq \<noteq> mp" "k_mm (w_os w) \<noteq> Some mq"
  shows "space_ok j c mq p w'"
  by (rule space_keep [OF assms(1)]) (use st ne in \<open>auto simp: own_step_def\<close>)

lemma set_reg_space:
  assumes "space_ok k c mp p w" and "i < length (p_regs c)"
  obtains c' where "set_reg k i v w = Some (w\<lparr>w_pcbs := (w_pcbs w)(k \<mapsto> c')\<rparr>)"
    and "c' = c\<lparr>p_regs := (p_regs c)[i := v]\<rparr>" and "space_ok k c' mp p (w\<lparr>w_pcbs := (w_pcbs w)(k \<mapsto> c')\<rparr>)"
proof -
  let ?c = "c\<lparr>p_regs := (p_regs c)[i := v]\<rparr>"
  have "w_pcbs w k = Some c" using assms(1) by (simp add: space_ok_def heap_ok_def known_def)
  then have "set_reg k i v w = Some (w\<lparr>w_pcbs := (w_pcbs w)(k \<mapsto> ?c)\<rparr>)" using assms(2) by (simp add: set_reg_def)
  then show thesis using that space_pcb [OF assms(1), of ?c] by simp
qed

text \<open>The state after an instruction of the process \<open>k\<close>: the address space has \<open>n\<close> pages at most, of the control
  block only registers changed, and no other process is touched.  An operation on user memory leaves the pages of the kernel
  alone too.\<close>

definition inst_done :: "pcb_ptr \<Rightarrow> pcb_t \<Rightarrow> mm_ptr \<Rightarrow> nat \<Rightarrow> nat \<Rightarrow> world \<Rightarrow> world \<Rightarrow> bool" where
  "inst_done k c mp n h w w' \<longleftrightarrow> own_step k mp w w' \<and> w_hostmem w \<le> w_hostmem w' + h
     \<and> (\<exists>c' q. space_ok k c' mp q w' \<and> q \<le> n \<and> length (p_regs c') = length (p_regs c)
          \<and> c' = c\<lparr>p_regs := p_regs c'\<rparr>)"

definition op_done :: "pcb_ptr \<Rightarrow> pcb_t \<Rightarrow> mm_ptr \<Rightarrow> nat \<Rightarrow> nat \<Rightarrow> world \<Rightarrow> world \<Rightarrow> bool" where
  "op_done k c mp n h w w' \<longleftrightarrow> inst_done k c mp n h w w' \<and> confined mp w w'"

lemma inst_doneI:
  "own_step k mp w w' \<Longrightarrow> w_hostmem w \<le> w_hostmem w' + h \<Longrightarrow> space_ok k c mp q w' \<Longrightarrow> q \<le> n \<Longrightarrow> inst_done k c mp n h w w'"
  unfolding inst_done_def by (intro conjI exI [of _ c] exI [of _ q]) auto

lemma op_doneI:
  "confined mp w w' \<Longrightarrow> snap w' = snap w \<Longrightarrow> w_hostmem w \<le> w_hostmem w' + h \<Longrightarrow> space_ok k c mp q w' \<Longrightarrow> q \<le> n \<Longrightarrow>
   op_done k c mp n h w w'"
  unfolding op_done_def using inst_doneI [OF own_step_snap] by blast

text \<open>An operation that ends by storing a register.\<close>

lemma op_done_reg:
  assumes w1: "confined mp w w1" "snap w1 = snap w" "w_hostmem w \<le> w_hostmem w1 + h" "space_ok k c mp q w1" "q \<le> n"
    and i: "i < length (p_regs c)"
  obtains w' where "set_reg k i v w1 = Some w'" and "op_done k c mp n h w w'" and "page_bytes w' = page_bytes w1"
proof -
  obtain c' where c': "set_reg k i v w1 = Some (w1\<lparr>w_pcbs := (w_pcbs w1)(k \<mapsto> c')\<rparr>)"
    "c' = c\<lparr>p_regs := (p_regs c)[i := v]\<rparr>" "space_ok k c' mp q (w1\<lparr>w_pcbs := (w_pcbs w1)(k \<mapsto> c')\<rparr>)"
    by (rule set_reg_space [OF w1(4) i])
  have "own_step k mp w (w1\<lparr>w_pcbs := (w_pcbs w1)(k \<mapsto> c')\<rparr>)"
    using own_step_trans [OF own_step_snap [OF w1(1,2)] own_step_pcb] space_caller(3) [OF w1(4)] by blast
  then have "inst_done k c mp n h w (w1\<lparr>w_pcbs := (w_pcbs w1)(k \<mapsto> c')\<rparr>)"
    unfolding inst_done_def using w1(3,5) c'(3) by (intro conjI exI [of _ c'] exI [of _ q]) (auto simp: c'(2))
  moreover have "confined mp w (w1\<lparr>w_pcbs := (w_pcbs w1)(k \<mapsto> c')\<rparr>)" using w1(1) by (simp add: confined_def)
  ultimately show thesis using that [OF c'(1)] by (simp add: op_done_def)
qed

lemma liballoc_space:
  assumes ok: "space_ok k c mp p w" "request_ok p sz w" and i: "unat i < 10" "length (p_regs c) = 10"
  obtains w' where "liballoc k sz i w = Some (0, w')" and "calm mp w w'"
    and "op_done k c mp (p + pages_for sz) (6 * pages_for sz + 2) w w'"
proof -
  have h: "heap_ok k c mp p w" using ok(1) by (simp add: space_ok_def)
  obtain addr w1 q where al: "vm_alloc (Some c) 0 i sz 0 w = Some (0, addr, w1)" "heap_ok k c mp q w1"
    "served_from c mp sz p q w w1" "w_hostmem w \<le> w_hostmem w1 + 6 * pages_for sz + 2"
    by (rule vm_alloc_serves [OF h ok(2) sint_reg [OF i(1)]])
  have g: "grown mp q w w1" by (rule served_grown [OF ok al(3)])
  note qp = served_bound [OF al(3)]
  have "q * PAGING64_PAGESZ < 2 ^ 31" using qp ok(2) by (simp add: request_ok_def macro_defs)
  then have s: "space_ok k c mp q w1" by (rule grown_space [OF g al(2)])
  have pr: "confined mp w w1" using g by (simp add: grown_def)
  have "w_hostmem w \<le> w_hostmem w1 + (6 * pages_for sz + 2)" "unat i < length (p_regs c)" using al(4) i by simp_all
  then obtain w' where st: "set_reg k (unat i) addr w1 = Some w'"
    "op_done k c mp (p + pages_for sz) (6 * pages_for sz + 2) w w'" "page_bytes w' = page_bytes w1"
    by (rule op_done_reg [OF pr snap_vm_alloc [OF al(1)] _ s qp])
  have "w_pcbs w k = Some c" using h by (simp add: heap_ok_def known_def)
  then have "liballoc k sz i w = Some (0, w')" using al(1) st(1) by (simp add: liballoc_def)
  moreover have "calm mp w w'" using g st(3) by (simp add: grown_def calm_def)
  ultimately show thesis using that st(2) by blast
qed

lemma libfree_space:
  assumes ok: "space_ok k c mp p w" "0 < w_hostmem w" and i: "unat i < 10" "length (p_regs c) = 10"
  obtains r w' where "libfree k i w = Some (r, w')" and "calm mp w w'" and "op_done k c mp p 1 w w'"
proof -
  have h: "heap_ok k c mp p w" using ok(1) by (simp add: space_ok_def)
  obtain r w1 where fr: "vm_free (Some c) 0 i w = Some (r, w1)" "r = 0 \<or> r = - 1" "heap_ok k c mp p w1"
    "w_hostmem w \<le> w_hostmem w1 + 1" "paging_view mp w1 = paging_view mp w"
    by (rule vm_free_serves [OF h ok(2) sint_reg [OF i(1)]])
  have g: "grown mp p w w1" using grown_view [OF fr(5)] grown_refl [OF ok(1)] by blast
  have s: "space_ok k c mp p w1" by (rule grown_space [OF g fr(3)]) (use ok(1) in \<open>simp add: space_ok_def\<close>)
  have pr: "confined mp w w1" "snap w1 = snap w" using g snap_vm_free [OF fr(1)] by (simp_all add: grown_def)
  obtain w' where st: "set_reg k (unat i) 0 w1 = Some w'" "op_done k c mp p 1 w w'" "page_bytes w' = page_bytes w1"
    by (rule op_done_reg [OF pr fr(4) s order_refl, of "unat i" 0]) (use i in simp)
  have "w_pcbs w k = Some c" using h by (simp add: heap_ok_def known_def)
  then have "libfree k i w = Some (r, if r = - 1 then w1 else w')"
    using fr(1,2) st(1) by (auto simp: libfree_def)
  moreover have "calm mp w w'" "calm mp w w1" using g st(3) by (simp_all add: grown_def calm_def)
  moreover have "op_done k c mp p 1 w w1" by (rule op_doneI [OF pr fr(4) s order_refl])
  ultimately show thesis using that st(2) by (cases "r = - 1") auto
qed

lemma libread_space:
  assumes ok: "space_ok k c mp p w" and h: "9 \<le> w_hostmem w"
  obtains r v w' where "libread junk k i offset w = Some (r, v, w')" and "calm mp w w'" and "op_done k c mp p 9 w w'"
proof -
  obtain r w' where rd: "vm_read (Some c) 0 i offset junk w = Some (r, junk, w')" "space_ok k c mp p w'" "confined mp w w'"
    "calm mp w w'" "w_hostmem w \<le> w_hostmem w' + 9" "snap w' = snap w"
    by (rule vm_read_space [OF ok h])
  have "w_pcbs w k = Some c" using ok by (simp add: space_ok_def heap_ok_def known_def)
  then have "libread junk k i offset w = Some (r, scast junk, w')" using rd(1) by (simp add: libread_def)
  then show thesis using that rd(4) op_doneI [OF rd(3,6,5,2) order_refl] by blast
qed

lemma libwrite_space:
  assumes ok: "space_ok k c mp p w" and h: "9 \<le> w_hostmem w"
  obtains r w' where "libwrite k v i offset w = Some (r, w')" and "r = 0 \<or> r = - 1" and "op_done k c mp p 9 w w'"
    and "r = 0 \<Longrightarrow> \<exists>a. write_target mp i offset w = Some a \<and> stored mp a v w w'"
    and "\<And>q. r = - 1 \<or> map_option (\<lambda>a. a div PAGING64_PAGESZ) (write_target mp i offset w) \<noteq> Some q \<Longrightarrow>
       page_bytes w mp q \<noteq> None \<Longrightarrow> page_bytes w' mp q = page_bytes w mp q"
proof -
  obtain r w' where wr: "vm_write (Some c) 0 i offset v w = Some (r, w')" "r = 0 \<or> r = - 1" "space_ok k c mp p w'"
    "confined mp w w'" "w_hostmem w \<le> w_hostmem w' + 9" "snap w' = snap w"
    "r = 0 \<Longrightarrow> \<exists>a. write_target mp i offset w = Some a \<and> stored mp a v w w'"
    "\<And>q. r = - 1 \<or> map_option (\<lambda>a. a div PAGING64_PAGESZ) (write_target mp i offset w) \<noteq> Some q \<Longrightarrow>
       page_bytes w mp q \<noteq> None \<Longrightarrow> page_bytes w' mp q = page_bytes w mp q"
    by (rule vm_write_space [OF ok h, of i offset v]) blast
  have "w_pcbs w k = Some c" using ok by (simp add: space_ok_def heap_ok_def known_def)
  then have run: "libwrite k v i offset w = Some (r, w')" using wr(1) by (auto simp: libwrite_def)
  show thesis by (rule that [OF run wr(2) op_doneI [OF wr(4,6,5,3) order_refl]]) (fact wr(7), fact wr(8))
qed

end
