(* ===== verification/KmemProps.thy ===== *)
theory KmemProps
  imports Kmem
begin

text \<open>
  Properties of the kernel memory library: the slots a cache pool hands out, what the instruction
  built on it reports, the pages \<open>__kmalloc\<close> maps, and byte access to kernel regions.
\<close>

section \<open>Cache pools\<close>

text \<open>Pool \<open>i\<close> of the descriptor \<open>mp\<close> has \<open>S\<close> bytes left from address
  \<open>st\<close> on, to be handed out in slots of \<open>A\<close> bytes.\<close>

definition pool_at :: "world \<Rightarrow> mm_ptr \<Rightarrow> nat \<Rightarrow> nat \<Rightarrow> nat \<Rightarrow> addr_t \<Rightarrow> bool" where
  "pool_at w mp i S A st \<longleftrightarrow> (case w_mms w mp of None \<Rightarrow> False | Some m \<Rightarrow>
     length (mm_symrgtbl m) = PAGING_MAX_SYMTBL_SZ \<and>
     (case mm_kcpooltbl m of None \<Rightarrow> False | Some t \<Rightarrow>
        i < length t \<and> sint (kc_size (t ! i)) = int S \<and> sint (kc_align (t ! i)) = int A \<and> kc_storage (t ! i) = st))"

lemma pool_atE:
  assumes "pool_at w mp i S A st"
  obtains m t where "w_mms w mp = Some m" and "mm_kcpooltbl m = Some t" and "i < length t"
    and "length (mm_symrgtbl m) = PAGING_MAX_SYMTBL_SZ"
    and "sint (kc_size (t ! i)) = int S" and "sint (kc_align (t ! i)) = int A" and "kc_storage (t ! i) = st"
  using assms by (auto simp: pool_at_def split: option.splits)

lemma sint_bound: "sint (x :: cint) = int n \<Longrightarrow> n < 2 ^ 31"
  using sint_lt [of x] by simp

lemma sint_of_nat_small: "n < 2 ^ 31 \<Longrightarrow> sint (of_nat n :: cint) = int n"
  by (simp add: sint_uint uint_nat unat_of_nat signed_take_bit_int_eq_self_iff)

lemma scast_int: "sint (x :: cint) = int n \<Longrightarrow> (scast x :: addr_t) = of_nat n"
  by (simp add: scast_eq)

text \<open>One allocation: the next slot while one is left, and a refusal afterwards.\<close>

lemma kmem_cache_alloc_step:
  assumes c: "p_krnl c" "k_mm (w_os w) = Some mp" and p: "pool_at w mp i S A st" and A: "0 < A"
    and i: "sint pool_id = int i" "i < PAGING_MAX_KCACHE_POOLS"
    and r: "0 \<le> sint rgid" "sint rgid < int PAGING_MAX_SYMTBL_SZ"
  shows "if A \<le> S
    then \<exists>w'. kmem_cache_alloc (Some c) vmaid rgid pool_id a0 w = Some (0, st, w')
      \<and> pool_at w' mp i (S - A) A (st + of_nat A) \<and> w_os w' = w_os w
      \<and> (\<exists>m. w_mms w' mp = Some m \<and> mm_symrgtbl m ! nat (sint rgid)
          = \<lparr>rg_vmaid = vmaid, rg_start = st, rg_end = st + of_nat A\<rparr>)
    else kmem_cache_alloc (Some c) vmaid rgid pool_id a0 w = Some (- 1, a0, w)"
proof (rule pool_atE [OF p])
  fix m t
  assume m: "w_mms w mp = Some m" "mm_kcpooltbl m = Some t" "i < length t"
    "length (mm_symrgtbl m) = PAGING_MAX_SYMTBL_SZ"
    "sint (kc_size (t ! i)) = int S" "sint (kc_align (t ! i)) = int A" "kc_storage (t ! i) = st"
  have A0: "kc_align (t ! i) \<noteq> 0" using m(6) A by auto
  have bnd: "S < 2 ^ 31" using sint_bound [OF m(5)] .
  show ?thesis
  proof (cases "A \<le> S")
    case True
    have left: "c_int (int S - int A) = Some (int S - int A)" using True bnd by (simp add: c_int_def)
    have wd: "(of_nat S - of_nat A :: cint) = of_nat (S - A)" using True by (simp add: of_nat_diff)
    have rn: "nat (sint rgid) < PAGING_MAX_SYMTBL_SZ" using r by simp
    have s: "sint (of_nat (S - A) :: cint) = int (S - A)" using bnd by (intro sint_of_nat_small) simp
    show ?thesis
      using True c i r rn m A0 left s
      by (simp add: kmem_cache_alloc_def set_kcpool_def pool_at_def wd scast_int [OF m(6)] arr_get_def arr_set_def
          Let_def del: of_nat_diff)
  next
    case False
    then show ?thesis using c i m A0 by (simp add: kmem_cache_alloc_def arr_get_def)
  qed
qed

text \<open>Successive allocations from one pool, for the regions of a list: the codes and addresses.\<close>

fun cache_allocs :: "pcb_t \<Rightarrow> cint \<Rightarrow> cint list \<Rightarrow> world \<Rightarrow> ((addr_t \<times> addr_t) list \<times> world) option" where
  "cache_allocs c pool_id [] w = Some ([], w)"
| "cache_allocs c pool_id (rgid # rgids) w = do {
     (r, a, w) \<leftarrow> kmem_cache_alloc (Some c) (- 1) rgid pool_id 0 w;
     (xs, w) \<leftarrow> cache_allocs c pool_id rgids w;
     Some ((r, a) # xs, w)
   }"

definition rgid_ok :: "cint \<Rightarrow> bool" where
  "rgid_ok rgid \<longleftrightarrow> 0 \<le> sint rgid \<and> sint rgid < int PAGING_MAX_SYMTBL_SZ"

text \<open>The slots of a pool in the order they are handed out, then refusals.\<close>

definition slot :: "nat \<Rightarrow> nat \<Rightarrow> addr_t \<Rightarrow> nat \<Rightarrow> addr_t \<times> addr_t" where
  "slot S A st j = (if (j + 1) * A \<le> S then (0, st + of_nat (j * A)) else (- 1, 0))"

lemma slot_Suc: "A \<le> S \<Longrightarrow> slot S A st (Suc j) = slot (S - A) A (st + of_nat A) j"
  by (auto simp: slot_def algebra_simps)

lemma cache_allocs_spec:
  assumes "p_krnl c" and "k_mm (w_os w) = Some mp" and "pool_at w mp i S A st" and "0 < A"
    and "sint pool_id = int i" and "i < PAGING_MAX_KCACHE_POOLS" and "list_all rgid_ok rgids"
  shows "\<exists>w'. cache_allocs c pool_id rgids w = Some (map (slot S A st) [0..<length rgids], w')"
  using assms
proof (induction rgids arbitrary: w S st)
  case (Cons rgid rgids)
  have up: "map (slot S A st) [0..<length (rgid # rgids)]
      = slot S A st 0 # map (\<lambda>j. slot S A st (Suc j)) [0..<length rgids]"
    by (simp add: upt_conv_Cons map_Suc_upt [symmetric] del: upt_Suc)
  have r: "0 \<le> sint rgid" "sint rgid < int PAGING_MAX_SYMTBL_SZ" using Cons.prems(7) by (simp_all add: rgid_ok_def)
  note step = kmem_cache_alloc_step [OF Cons.prems(1-6) r, of "- 1" 0]
  show ?case
  proof (cases "A \<le> S")
    case True
    then obtain w1 where a: "kmem_cache_alloc (Some c) (- 1) rgid pool_id 0 w = Some (0, st, w1)"
      and w1: "pool_at w1 mp i (S - A) A (st + of_nat A)" "w_os w1 = w_os w"
      using step by auto
    have s0: "slot S A st 0 = (0, st)" using True by (simp add: slot_def)
    show ?thesis
      unfolding up s0 using Cons.IH [OF Cons.prems(1) _ w1(1) Cons.prems(4-6)] w1(2) Cons.prems(2,7) a
      by (auto simp: slot_Suc [OF True])
  next
    case False
    then have a: "kmem_cache_alloc (Some c) (- 1) rgid pool_id 0 w = Some (- 1, 0, w)" using step by simp
    have s: "slot S A st j = (- 1, 0)" for j using False by (simp add: slot_def)
    show ?thesis
      unfolding up using Cons.IH [OF Cons.prems(1-6)] Cons.prems(7) a by (auto simp: s)
  qed
qed simp

text \<open>Slots do not overlap and lie inside the pool.\<close>

lemma slots_apart:
  assumes "slot S A st j = (0, a)" and "slot S A st k = (0, b)" and "j < k" and "unat st + S < 2 ^ 64"
  shows "unat a + A \<le> unat b" and "unat st \<le> unat a" and "unat b + A \<le> unat st + S"
proof -
  have jk: "(j + 1) * A \<le> S" "(k + 1) * A \<le> S" "a = st + of_nat (j * A)" "b = st + of_nat (k * A)"
    using assms(1,2) by (auto simp: slot_def split: if_splits)
  have u: "unat (st + of_nat (l * A)) = unat st + l * A" if "(l + 1) * A \<le> S" for l
  proof -
    have "l * A \<le> S" using that by simp
    then have "unat st + l * A < 2 ^ 64" using assms(4) by linarith
    then have "unat (of_nat (unat st + l * A) :: addr_t) = unat st + l * A" by (simp only: unat_of_nat) simp
    then show ?thesis by simp
  qed
  have "(j + 1) * A \<le> k * A" using assms(3) by (intro mult_le_mono1) simp
  then show "unat a + A \<le> unat b" "unat st \<le> unat a" "unat b + A \<le> unat st + S"
    using u [OF jk(1)] u [OF jk(2)] jk by simp_all
qed

section \<open>Kernel allocation\<close>

text \<open>Setting the present bit of an entry that is online changes nothing.\<close>

lemma set_present_online: "PAGING_PTE_SET_PRESENT (pte_online v f) = pte_online v f"
  by (rule bit_eqI) (auto simp: PAGING_PTE_SET_PRESENT_def PAGING_PTE_PRESENT_MASK_def pte_simps bit_pte_online)

lemma pte_online_nonzero: "pte_online v f \<noteq> 0"
proof
  assume "pte_online v f = 0"
  then show False using online_present [of v f] by (simp add: pte_simps)
qed

text \<open>Writing an entry back through its pointer.\<close>

lemma pte_write_back:
  assumes "pte_view w mp ix = v" and "v \<noteq> 0" and "w_mms w mp \<noteq> None"
  obtains w' where "pte_load w (mp, ix) = Some v" and "pte_write w (mp, ix) v = Some w'"
    and "pt_changed mp w w'" and "pte_view w' mp = pte_view w mp" and "w_hostmem w' = w_hostmem w"
proof -
  obtain m where m: "w_mms w mp = Some m" using assms(3) by blast
  then obtain pgd where pgd: "mm_pgd m = Some pgd" "pt_lookup pgd ix = Some v"
    using assms(1,2) by (auto simp: pte_view_def pt_view_def entry_val_def split: option.splits)
  obtain pgd' where pgd': "pt_store pgd ix v = Some pgd'" using pt_store_iff [of pgd ix v] pgd(2) by auto
  define w' where "w' = set_mm w mp (m\<lparr>mm_pgd := Some pgd'\<rparr>)"
  show thesis
  proof (rule that)
    show "pte_load w (mp, ix) = Some v" "pte_write w (mp, ix) v = Some w'"
      by (simp_all add: pte_load_def pte_write_def m pgd pgd' w'_def)
    show "pt_changed mp w w'"
      unfolding pt_changed_def
      by (rule exI [of _ m], rule exI [of _ pgd'], rule exI [of _ "mm_stats m"], rule exI [of _ "w_hostmem w"])
        (simp add: m pgd w'_def set_mm_def)
    show "pte_view w' mp = pte_view w mp"
      using pt.view_store [OF pgd'] m pgd by (auto simp: pte_view_def w'_def pt_view_def fun_eq_iff)
  qed (simp add: w'_def)
qed

text \<open>What \<open>__kmalloc\<close> does to the entry of one page.\<close>

definition kmalloc_entry :: "pcb_t \<Rightarrow> addr_t \<Rightarrow> addr_t \<Rightarrow> world \<Rightarrow> (int \<times> world) option" where
  "kmalloc_entry kcaller pgn fpn w = do {
     (pte, w) \<leftarrow> get_pte_ptr (Some kcaller) pgn True w;
     (case pte of
        None \<Rightarrow> Some (- 1, w)
      | Some pte \<Rightarrow> do {
          (r, w) \<leftarrow> pte_set_fpn (Some kcaller) pgn fpn w;
          if r \<noteq> 0 then Some (- 1, w)
          else do {
            v \<leftarrow> pte_load w pte;
            w \<leftarrow> pte_write w pte (PAGING_PTE_SET_PRESENT v);
            Some (0, w)
          }
        })
   }"

lemma kmalloc_entry_page:
  assumes c: "caller_ok c mp w" and p: "p < page_limit" and h: "8 \<le> w_hostmem w"
  obtains w' where "kmalloc_entry c (of_nat p) f w = Some (0, w')" and "pt_changed mp w w'"
    and "vpage w' mp = (vpage w mp)(p := pte_online (vpage w mp p) f)" and "w_hostmem w \<le> w_hostmem w' + 8"
proof (rule get_pte_ptr_walk [OF c page_ix_get [OF p], of True])
  fix q w1
  assume g: "get_pte_ptr (Some c) (of_nat p) True w = Some (q, w1)" and ch1: "pt_changed mp w w1"
    and v1: "pte_view w1 mp = pte_view w mp"
    and q: "q = None \<or> q = Some (mp, page_ix p) \<and> pte_load w1 (mp, page_ix p) = Some (pte_view w mp (page_ix p))"
    and ne: "True \<Longrightarrow> 4 \<le> w_hostmem w \<Longrightarrow> q \<noteq> None" and h1: "w_hostmem w \<le> w_hostmem w1 + 4"
  have q': "q = Some (mp, page_ix p)" using q ne h by auto
  have c1: "caller_ok c mp w1" using c pt_changed_frame(5) [OF ch1] by simp
  have h4: "4 \<le> w_hostmem w1" using h h1 by simp
  obtain w2 where s: "pte_set_fpn (Some c) (of_nat p) f w1 = Some (0, w2)" and ch2: "pt_changed mp w1 w2"
    and v2: "vpage w2 mp = (vpage w1 mp)(p := pte_online (vpage w1 mp p) f)" and h2: "w_hostmem w1 \<le> w_hostmem w2 + 4"
    by (rule pte_set_fpn_page [OF c1 p, of f]) (use h4 in auto)
  have "pte_view w2 mp (page_ix p) = pte_online (vpage w1 mp p) f" using fun_cong [OF v2, of p] p by (simp add: vpage_def)
  moreover have "w_mms w2 mp \<noteq> None" using ch2 by (auto simp: pt_changed_def)
  ultimately obtain w3 where l: "pte_load w2 (mp, page_ix p) = Some (pte_online (vpage w1 mp p) f)"
    and wr: "pte_write w2 (mp, page_ix p) (pte_online (vpage w1 mp p) f) = Some w3"
    and ch3: "pt_changed mp w2 w3" and v3: "pte_view w3 mp = pte_view w2 mp" and h3: "w_hostmem w3 = w_hostmem w2"
    using pte_write_back [OF _ pte_online_nonzero] by metis
  have "kmalloc_entry c (of_nat p) f w = Some (0, w3)"
    by (simp add: kmalloc_entry_def g q' s l set_present_online wr)
  moreover have "pt_changed mp w w3" using pt_changed_trans ch1 ch2 ch3 by blast
  moreover have "vpage w3 mp = (vpage w mp)(p := pte_online (vpage w mp p) f)"
    using v2 vpage_eq [OF v1] vpage_eq [OF v3] by simp
  ultimately show thesis using that h1 h2 h3 by simp
qed

lemma kmalloc_loop_Suc:
  assumes "c_int (int i * int PAGING64_PAGESZ) = Some off"
    and "drop_bit PAGING64_ADDR_PT_SHIFT (vaddr + of_int off) = pgn"
  shows "kmalloc_loop c vaddr i (Suc n) w =
    (case MEMPHY_get_freefp (mram w) 0 of (r, dev, fpn) \<Rightarrow>
       if r = - 1 then Some (- 1, set_mram w dev)
       else do {
         (r, w') \<leftarrow> kmalloc_entry c pgn fpn (set_mram w dev);
         if r \<noteq> 0 then Some (- 1, w') else kmalloc_loop c vaddr (i + 1) n w'
       })"
  using assms
  by (auto simp: kmalloc_entry_def Let_def split: bind_splits option.splits prod.splits)

text \<open>The loop at page \<open>i\<close> of a region that starts at page \<open>p0\<close>.\<close>

lemma kmalloc_loop_page:
  assumes "p0 + i < page_limit" and "i * PAGING64_PAGESZ < 2 ^ 31"
  shows "kmalloc_loop c (of_nat (p0 * PAGING64_PAGESZ)) i (Suc n) w =
    (case MEMPHY_get_freefp (mram w) 0 of (r, dev, fpn) \<Rightarrow>
       if r = - 1 then Some (- 1, set_mram w dev)
       else do {
         (r, w') \<leftarrow> kmalloc_entry c (of_nat (p0 + i)) fpn (set_mram w dev);
         if r \<noteq> 0 then Some (- 1, w') else kmalloc_loop c (of_nat (p0 * PAGING64_PAGESZ)) (i + 1) n w'
       })"
proof (rule kmalloc_loop_Suc)
  show "c_int (int i * int PAGING64_PAGESZ) = Some (int i * int PAGING64_PAGESZ)"
    using assms(2) by (simp add: c_int_def macro_defs)
  have "of_nat (p0 * PAGING64_PAGESZ) + of_int (int i * int PAGING64_PAGESZ) = (of_nat ((p0 + i) * PAGING64_PAGESZ) :: u64)"
    by (simp add: algebra_simps)
  then show "drop_bit PAGING64_ADDR_PT_SHIFT (of_nat (p0 * PAGING64_PAGESZ) + of_int (int i * int PAGING64_PAGESZ) :: u64)
      = of_nat (p0 + i)"
    using page_of_addr [OF assms(1)] by simp
qed

lemma vpage_set_mram: "vpage (set_mram w d) = vpage w"
  by (simp add: vpage_def pte_view_def fun_eq_iff)

text \<open>The loop with enough host memory: it maps pages while frames last.\<close>

lemma kmalloc_loop_spec:
  assumes "caller_ok c mp w" and "mram w = Some d" and "p0 + i + n \<le> page_limit" and "(i + n) * PAGING64_PAGESZ < 2 ^ 31"
    and "8 * n \<le> w_hostmem w"
  shows "\<exists>w' d'. kmalloc_loop c (of_nat (p0 * PAGING64_PAGESZ)) i n w
      = Some (if n \<le> length (free_fp_list d) then 0 else - 1, w')
    \<and> mram w' = Some d' \<and> free_fp_list d' = drop n (free_fp_list d)
    \<and> vpage w' mp = map_pages (vpage w mp) (p0 + i) (take n (free_fp_list d))
    \<and> (\<forall>q. q \<noteq> mp \<longrightarrow> vpage w' q = vpage w q)"
  using assms
proof (induction n arbitrary: i w d)
  case 0
  then show ?case by simp
next
  case (Suc n)
  have pl: "p0 + i < page_limit" "i * PAGING64_PAGESZ < 2 ^ 31" using Suc.prems(3,4) by (simp_all add: macro_defs)
  note unfold = kmalloc_loop_page [OF pl]
  show ?case
  proof (cases "free_fp_list d")
    case Nil
    then show ?thesis
      using Suc.prems(2) by (intro exI [of _ "set_mram w (Some d)"] exI [of _ d])
        (simp add: unfold MEMPHY_get_freefp_def vpage_set_mram)
  next
    case (Cons f rest)
    define d1 where "d1 = d\<lparr>free_fp_list := rest, used_fp_list := f # used_fp_list d\<rparr>"
    define w1 where "w1 = set_mram w (Some d1)"
    have g: "MEMPHY_get_freefp (mram w) 0 = (0, Some d1, f)"
      using Suc.prems(2) Cons by (simp add: MEMPHY_get_freefp_def d1_def)
    have c1: "caller_ok c mp w1" using Suc.prems(1) by (simp add: caller_ok_def w1_def)
    have vw: "vpage w1 = vpage w" by (simp add: w1_def vpage_set_mram)
    obtain w2 where e: "kmalloc_entry c (of_nat (p0 + i)) f w1 = Some (0, w2)" and ch: "pt_changed mp w1 w2"
      and v2: "vpage w2 mp = (vpage w1 mp)(p0 + i := pte_online (vpage w1 mp (p0 + i)) f)"
      and h2: "w_hostmem w1 \<le> w_hostmem w2 + 8"
      by (rule kmalloc_entry_page [OF c1 pl(1), of f]) (use Suc.prems(5) in \<open>auto simp: w1_def\<close>)
    have c2: "caller_ok c mp w2" using c1 pt_changed_frame(5) [OF ch] by simp
    have m2: "mram w2 = Some d1" using pt_changed_frame(1) [OF ch] by (simp add: w1_def)
    have "kmalloc_loop c (of_nat (p0 * PAGING64_PAGESZ)) i (Suc n) w
        = kmalloc_loop c (of_nat (p0 * PAGING64_PAGESZ)) (i + 1) n w2"
      unfolding unfold g using e by (simp add: w1_def del: kmalloc_loop.simps)
    moreover have "p0 + (i + 1) + n \<le> page_limit" "(i + 1 + n) * PAGING64_PAGESZ < 2 ^ 31" "8 * n \<le> w_hostmem w2"
      using Suc.prems(3-5) h2 by (simp_all add: w1_def)
    ultimately obtain w' d' where r: "kmalloc_loop c (of_nat (p0 * PAGING64_PAGESZ)) i (Suc n) w
          = Some (if n \<le> length (free_fp_list d1) then 0 else - 1, w')"
      "mram w' = Some d'" "free_fp_list d' = drop n (free_fp_list d1)"
      "vpage w' mp = map_pages (vpage w2 mp) (p0 + (i + 1)) (take n (free_fp_list d1))"
      "\<forall>q. q \<noteq> mp \<longrightarrow> vpage w' q = vpage w2 q"
      using Suc.IH [OF c2 m2, of "i + 1"] by auto
    have "vpage w' mp = map_pages (vpage w mp) (p0 + i) (take (Suc n) (free_fp_list d))"
      using r(4) v2 vw Cons by (simp add: map_pages_Cons d1_def)
    moreover have "\<forall>q. q \<noteq> mp \<longrightarrow> vpage w' q = vpage w q" using r(5) vpage_other [OF ch] vw by simp
    ultimately show ?thesis
      using r(1-3) Cons by (intro exI [of _ w'] exI [of _ d']) (simp add: d1_def)
  qed
qed

lemma kmalloc_pages:
  assumes "0 < unat (sz :: addr_t)" and "unat sz + 4096 \<le> 2 ^ 31"
  shows "nat (sint (ucast ((sz + of_nat PAGING64_PAGESZ - 1) div of_nat PAGING64_PAGESZ) :: cint)) = (unat sz + 4095) div 4096"
proof -
  have "sz + 4096 - 1 = of_nat (unat sz + 4095)" by simp
  then have s: "unat (sz + 4096 - 1) = unat sz + 4095" using assms(2) by (simp only: unat_of_nat) simp
  then have u: "unat ((sz + 4096 - 1) div 4096) = (unat sz + 4095) div 4096"
    by (simp only: unat_div_distrib) simp
  have "of_nat (unat ((sz + 4096 - 1) div 4096)) = (sz + 4096 - 1) div 4096" by simp
  then have "(sz + 4096 - 1) div 4096 = of_nat ((unat sz + 4095) div 4096)" by (simp only: u)
  then have "(ucast ((sz + 4096 - 1) div 4096) :: cint) = of_nat ((unat sz + 4095) div 4096)"
    using assms(2) by (simp add: unsigned_of_nat take_bit_nat_eq_self)
  then show ?thesis using assms(2) by (simp add: macro_defs sint_of_nat_small)
qed

section \<open>Kernel addresses\<close>

lemma page_of_word: "drop_bit PAGING64_ADDR_PT_SHIFT va = of_nat (unat (va :: addr_t) div 4096)"
proof -
  have "unat (drop_bit 12 va) = unat va div 4096"
    by (simp add: drop_bit_eq_div unat_div_distrib)
  moreover have "of_nat (unat (drop_bit 12 va)) = drop_bit 12 va" by simp
  ultimately show ?thesis by (simp add: macro_defs)
qed

text \<open>The entry of a kernel address and the physical address it is translated to.\<close>

definition kentry :: "world \<Rightarrow> mm_ptr \<Rightarrow> addr_t \<Rightarrow> u32" where
  "kentry w mp va = ucast (vpage w mp (unat va div 4096))"

definition kphys :: "world \<Rightarrow> mm_ptr \<Rightarrow> addr_t \<Rightarrow> addr_t" where
  "kphys w mp va = push_bit PAGING64_ADDR_PT_SHIFT (ucast (PAGING_FPN (kentry w mp va))) + page_off va"

text \<open>The byte at an offset of a kernel region can be accessed: the region covers it and its page is
  mapped to a frame inside the RAM.\<close>

definition kernel_cell :: "world \<Rightarrow> mm_ptr \<Rightarrow> cint \<Rightarrow> addr_t \<Rightarrow> addr_t \<Rightarrow> bool" where
  "kernel_cell w mp rgid off va \<longleftrightarrow> rgid_ok rgid \<and> region_addr mp rgid off w = Some (Some va)
     \<and> unat va div 4096 < page_limit \<and> PAGING_PAGE_PRESENT (kentry w mp va)
     \<and> (case mram w of None \<Rightarrow> False | Some d \<Rightarrow> rdmflg d \<and> unat (kphys w mp va) < length (storage d))"

lemma kernel_phyaddr_run:
  assumes "caller_ok kc mp w" and "unat va div 4096 < page_limit" and "PAGING_PAGE_PRESENT (kentry w mp va)"
  obtains w' where "kernel_phyaddr kc va w = Some (Some (kphys w mp va), w')" and "pt_changed mp w w'"
    and "vpage w' mp = vpage w mp"
proof (rule pte_get_entry_page [OF assms(1,2)])
  fix w'
  assume g: "pte_get_entry (Some kc) (of_nat (unat va div 4096)) w = Some (ucast (vpage w mp (unat va div 4096)), w')"
    and w': "pt_changed mp w w'" "vpage w' mp = vpage w mp"
  have "kernel_phyaddr kc va w = Some (Some (kphys w mp va), w')"
    using g assms(3) by (simp add: kernel_phyaddr_def page_of_word kphys_def kentry_def)
  then show thesis using w' by (rule that)
qed

lemma region_addr_changed:
  "pt_changed mp w w' \<Longrightarrow> region_addr mp rgid off w' = region_addr mp rgid off w"
  by (auto simp: pt_changed_def region_addr_def)

lemma region_addr_mram [simp]: "region_addr mp rgid off (set_mram w d) = region_addr mp rgid off w"
  by (simp add: region_addr_def)

text \<open>A read of an accessible byte.\<close>

lemma read_kernel_mem_run:
  assumes c: "caller_ok (as_kernel c w) mp w" and k: "kernel_cell w mp rgid off va" and d: "mram w = Some d"
  obtains w' where "read_kernel_mem (Some c) vmaid rgid off x w = Some (0, storage d ! unat (kphys w mp va), w')"
    and "vpage w' mp = vpage w mp" and "mram w' = Some d"
proof -
  have k': "rgid_ok rgid" "region_addr mp rgid off w = Some (Some va)" "rdmflg d" "unat (kphys w mp va) < length (storage d)"
    and pg: "unat va div 4096 < page_limit" "PAGING_PAGE_PRESENT (kentry w mp va)"
    using k d by (auto simp: kernel_cell_def)
  have km: "p_krnl c" "k_mm (w_os w) = Some mp" using c by (auto simp: caller_ok_def as_kernel_def)
  obtain w1 where ph: "kernel_phyaddr (as_kernel c w) va w = Some (Some (kphys w mp va), w1)"
    and ch: "pt_changed mp w w1" "vpage w1 mp = vpage w mp"
    by (rule kernel_phyaddr_run [OF c pg]) blast
  have "mram w1 = Some d" using pt_changed_frame(1) [OF ch(1)] d by simp
  then show thesis
    using k' km ph ch(2)
    by (intro that [of "set_mram w1 (Some d)"])
      (simp_all add: read_kernel_mem_def rgid_ok_def MEMPHY_read_def arr_get_def vpage_set_mram)
qed

lemma write_kernel_mem_run:
  assumes c: "caller_ok (as_kernel c w) mp w" and k: "kernel_cell w mp rgid off va" and d: "mram w = Some d"
  obtains w1 w' where "write_kernel_mem (Some c) vmaid rgid off v w = Some (0, w')" and "pt_changed mp w w1"
    and "w' = set_mram w1 (Some (d\<lparr>storage := (storage d)[unat (kphys w mp va) := v]\<rparr>))" and "vpage w1 mp = vpage w mp"
proof -
  have k': "rgid_ok rgid" "region_addr mp rgid off w = Some (Some va)" "rdmflg d" "unat (kphys w mp va) < length (storage d)"
    and pg: "unat va div 4096 < page_limit" "PAGING_PAGE_PRESENT (kentry w mp va)"
    using k d by (auto simp: kernel_cell_def)
  have km: "p_krnl c" "k_mm (w_os w) = Some mp" using c by (auto simp: caller_ok_def as_kernel_def)
  obtain w1 where ph: "kernel_phyaddr (as_kernel c w) va w = Some (Some (kphys w mp va), w1)"
    and ch: "pt_changed mp w w1" "vpage w1 mp = vpage w mp"
    by (rule kernel_phyaddr_run [OF c pg]) blast
  have "mram w1 = Some d" using pt_changed_frame(1) [OF ch(1)] d by simp
  then show thesis
    using k' km ph ch
    by (intro that [of "set_mram w1 (Some (d\<lparr>storage := (storage d)[unat (kphys w mp va) := v]\<rparr>))" w1])
      (simp_all add: write_kernel_mem_def rgid_ok_def MEMPHY_write_def arr_set_def)
qed

section \<open>Properties\<close>

text \<open>C21: \<open>__kmalloc\<close> maps the pages of a kernel region, one after the other from page
  1000 times the region number on, to the first frames of the free list.  When the frames do not
  suffice it fails, but the frames there were have been taken and stay mapped; no page of any other
  descriptor is touched.\<close>

theorem kmalloc_maps_pages:
  assumes "caller_ok (as_kernel c w) kmp w" and "mram w = Some d"
    and "sint rgid = int r" and "0 < unat sz" and "unat sz + 4096 \<le> 2 ^ 31"
    and "N = (unat sz + 4095) div 4096" and "8 * N \<le> w_hostmem w"
  shows "\<exists>w' d'. kmalloc c vmaid rgid sz a0 w =
        (if N \<le> length (free_fp_list d) then Some (0, of_nat (r * 1000 * PAGING64_PAGESZ), w') else Some (- 1, a0, w'))
    \<and> mram w' = Some d' \<and> free_fp_list d' = drop N (free_fp_list d)
    \<and> (\<forall>i < N. i < length (free_fp_list d) \<longrightarrow>
        vpage w' kmp (r * 1000 + i) = pte_online (vpage w kmp (r * 1000 + i)) (free_fp_list d ! i))
    \<and> (\<forall>p. p < r * 1000 \<or> r * 1000 + N \<le> p \<longrightarrow> vpage w' kmp p = vpage w kmp p)
    \<and> (\<forall>q. q \<noteq> kmp \<longrightarrow> vpage w' q = vpage w q)"
proof -
  have N: "N * PAGING64_PAGESZ < 2 ^ 31" using assms(5,6) by (simp add: macro_defs)
  have r: "r < 2 ^ 31" by (rule sint_bound [OF assms(3)])
  have lim: "r * 1000 + 0 + N \<le> page_limit" using r N by (simp add: page_limit_def macro_defs)
  have va: "kmalloc_vaddr rgid = of_nat (r * 1000 * PAGING64_PAGESZ)"
    by (simp add: kmalloc_vaddr_def scast_int [OF assms(3)] macro_defs)
  obtain w' d' where l: "kmalloc_loop (as_kernel c w) (of_nat (r * 1000 * PAGING64_PAGESZ)) 0 N w
      = Some (if N \<le> length (free_fp_list d) then 0 else - 1, w')"
    "mram w' = Some d'" "free_fp_list d' = drop N (free_fp_list d)"
    "vpage w' kmp = map_pages (vpage w kmp) (r * 1000) (take N (free_fp_list d))"
    "\<forall>q. q \<noteq> kmp \<longrightarrow> vpage w' q = vpage w q"
    using kmalloc_loop_spec [OF assms(1,2) lim] N assms(7) by auto
  have "p_krnl c" "sz \<noteq> 0" using assms(1,4) by (auto simp: caller_ok_def as_kernel_def)
  then have "kmalloc c vmaid rgid sz a0 w =
      (if N \<le> length (free_fp_list d) then Some (0, of_nat (r * 1000 * PAGING64_PAGESZ), w') else Some (- 1, a0, w'))"
    using l(1) kmalloc_pages [OF assms(4,5)] by (simp add: kmalloc_def va assms(6))
  then show ?thesis
    using l(2-5) by (intro exI [of _ w'] exI [of _ d']) (auto simp: map_pages_def)
qed

definition ex_kernel :: world where
  "ex_kernel = (ex_vm (ex_mm0\<lparr>mm_symrgtbl := replicate PAGING_MAX_SYMTBL_SZ \<lparr>rg_vmaid = 0, rg_start = 0, rg_end = 0\<rparr>,
       mm_kcpooltbl := Some (replicate PAGING_MAX_KCACHE_POOLS \<lparr>kc_size = 100, kc_align = 40, kc_storage = 8192000\<rparr>)\<rparr>) ex_dev ex_dev)
     \<lparr>w_os := (w_os ex_w)\<lparr>k_mm := Some 0\<rparr>\<rparr>"

lemma ex_kernel_ok: "caller_ok (as_kernel ex_caller ex_kernel) 0 ex_kernel" "mram ex_kernel = Some ex_dev"
  "w_hostmem ex_kernel = 100" "k_mm (w_os ex_kernel) = Some 0" "p_krnl ex_caller" "pool_at ex_kernel 0 2 100 40 8192000"
  by (simp_all add: ex_kernel_def ex_vm_def ex_w_def caller_ok_def as_kernel_def ex_caller_def ex_mm0_def
      pool_at_def PAGING_MAX_KCACHE_POOLS_def)

theorem kmalloc_maps_pages_witness:
  "\<exists>w' d'. kmalloc ex_caller (- 1) 2 5000 0 ex_kernel = Some (0, of_nat (2 * 1000 * PAGING64_PAGESZ), w')
    \<and> mram w' = Some d' \<and> free_fp_list d' = [2]"
proof -
  have "sint (2 :: cint) = int 2" "0 < unat (5000 :: addr_t)" "unat (5000 :: addr_t) + 4096 \<le> 2 ^ 31"
    "(2 :: nat) = (unat (5000 :: addr_t) + 4095) div 4096" "8 * 2 \<le> w_hostmem ex_kernel"
    using ex_kernel_ok(3) by simp_all
  from kmalloc_maps_pages [OF ex_kernel_ok(1,2) this, of "- 1" 0] show ?thesis
    by (auto simp: ex_dev_def)
qed

text \<open>C25: A cache pool of \<open>S\<close> bytes hands out exactly \<open>S div A\<close> slots of its
  slot size \<open>A\<close>, one after the other from the start of its storage, and refuses from then on;
  the slots do not overlap and lie inside the pool.\<close>

theorem cache_pool_slots:
  assumes "p_krnl c" and "k_mm (w_os w) = Some mp" and "pool_at w mp i S A st" and "0 < A"
    and "sint pool_id = int i" and "i < PAGING_MAX_KCACHE_POOLS" and "list_all rgid_ok rgids" and "unat st + S < 2 ^ 64"
  shows "\<exists>w' xs. cache_allocs c pool_id rgids w = Some (xs, w') \<and> length xs = length rgids
    \<and> (\<forall>j < length rgids. fst (xs ! j) = (if j < S div A then 0 else - 1))
    \<and> (\<forall>k < length rgids. \<forall>j < k. k < S div A \<longrightarrow>
        unat (snd (xs ! j)) + A \<le> unat (snd (xs ! k)) \<and> unat st \<le> unat (snd (xs ! j))
        \<and> unat (snd (xs ! k)) + A \<le> unat st + S)"
proof -
  let ?xs = "map (slot S A st) [0..<length rgids]"
  obtain w' where run: "cache_allocs c pool_id rgids w = Some (?xs, w')" using cache_allocs_spec [OF assms(1-7)] by blast
  have fit: "(j + 1) * A \<le> S \<longleftrightarrow> j < S div A" for j
    using assms(4) by (metis Suc_eq_plus1 Suc_le_eq div_le_mono less_eq_div_iff_mult_less_eq mult.commute)
  have code: "fst (slot S A st j) = (if j < S div A then 0 else - 1)" for j
    using fit [of j] by (simp add: slot_def)
  have ok: "slot S A st j = (0, snd (slot S A st j))" if "j < S div A" for j
    using code [of j] that by (simp add: prod_eq_iff)
  have "unat (snd (?xs ! j)) + A \<le> unat (snd (?xs ! k)) \<and> unat st \<le> unat (snd (?xs ! j))
      \<and> unat (snd (?xs ! k)) + A \<le> unat st + S"
    if "k < length rgids" "j < k" "k < S div A" for j k
    using slots_apart [OF ok [of j] ok [of k] that(2) assms(8)] that by simp
  then show ?thesis using run code by (intro exI [of _ w'] exI [of _ ?xs]) simp
qed

theorem cache_pool_slots_witness:
  "\<exists>w' xs. cache_allocs ex_caller 2 [0, 1, 2] ex_kernel = Some (xs, w') \<and> length xs = 3
    \<and> fst (xs ! 0) = 0 \<and> fst (xs ! 1) = 0 \<and> fst (xs ! 2) = - 1
    \<and> unat (snd (xs ! 0)) + 40 \<le> unat (snd (xs ! 1))"
proof -
  have "sint (2 :: cint) = int 2" "(2 :: nat) < PAGING_MAX_KCACHE_POOLS" "list_all rgid_ok [0, 1, 2]"
    "unat (8192000 :: addr_t) + 100 < 2 ^ 64"
    by (simp_all add: PAGING_MAX_KCACHE_POOLS_def rgid_ok_def PAGING_MAX_SYMTBL_SZ_def)
  from cache_pool_slots [OF ex_kernel_ok(5,4,6) _ this]
  obtain w' xs where xs: "cache_allocs ex_caller 2 [0, 1, 2] ex_kernel = Some (xs, w')" "length xs = 3"
    "\<forall>j < 3. fst (xs ! j) = (if j < (2 :: nat) then 0 else - 1)"
    "\<forall>k < 3. \<forall>j < k. k < 2 \<longrightarrow> unat (snd (xs ! j)) + 40 \<le> unat (snd (xs ! k))"
    by auto
  then show ?thesis using xs(3) [rule_format, of 0] xs(3) [rule_format, of 1] xs(3) [rule_format, of 2]
      xs(4) [rule_format, of 1 0] by auto
qed

text \<open>C40: The instruction that allocates from a cache pool always reports failure, also when the slot
  has been handed out and entered in the symbol table: the wrapper takes the success code 0 of
  \<open>__kmem_cache_alloc\<close> for a null address.\<close>

theorem cache_alloc_reports_failure:
  assumes "p_krnl c" and "k_mm (w_os w) = Some mp" and "pool_at w mp i S A st" and "0 < A" and "A \<le> S"
    and "sint pool_id = int i" and "i < PAGING_MAX_KCACHE_POOLS" and "rgid_ok rgid"
  shows "\<exists>w'. libkmem_cache_alloc (Some c) pool_id rgid w = Some (- 1, w') \<and> pool_at w' mp i (S - A) A (st + of_nat A)
    \<and> (\<exists>m. w_mms w' mp = Some m \<and> mm_symrgtbl m ! nat (sint rgid)
        = \<lparr>rg_vmaid = - 1, rg_start = st, rg_end = st + of_nat A\<rparr>)"
proof -
  have r: "0 \<le> sint rgid" "sint rgid < int PAGING_MAX_SYMTBL_SZ" using assms(8) by (simp_all add: rgid_ok_def)
  from kmem_cache_alloc_step [OF assms(1-4,6,7) r, of "- 1" 0] assms(5)
  obtain w' where "kmem_cache_alloc (Some c) (- 1) rgid pool_id 0 w = Some (0, st, w')"
    "pool_at w' mp i (S - A) A (st + of_nat A)"
    "\<exists>m. w_mms w' mp = Some m \<and> mm_symrgtbl m ! nat (sint rgid)
        = \<lparr>rg_vmaid = - 1, rg_start = st, rg_end = st + of_nat A\<rparr>"
    by auto
  then show ?thesis using assms(1,2) by (intro exI [of _ w']) (simp add: libkmem_cache_alloc_def)
qed

theorem cache_alloc_reports_failure_witness:
  "\<exists>w'. libkmem_cache_alloc (Some ex_caller) 2 5 ex_kernel = Some (- 1, w') \<and> pool_at w' 0 2 (100 - 40) 40 (8192000 + of_nat 40)"
  using cache_alloc_reports_failure [OF ex_kernel_ok(5,4,6), of 2 5]
  by (auto simp: PAGING_MAX_KCACHE_POOLS_def rgid_ok_def PAGING_MAX_SYMTBL_SZ_def)

text \<open>C22: A byte written to a kernel region is read back at its address, through the symbol table, the
  page tables and the RAM, and every other accessible byte of every kernel region still reads as
  before.\<close>

theorem kernel_write_read:
  assumes "caller_ok (as_kernel c w) mp w" and "mram w = Some d" and "kernel_cell w mp rgid off va"
  shows "\<exists>w'. write_kernel_mem (Some c) vmaid rgid off v w = Some (0, w')
    \<and> (\<forall>rgid' off' va' x. kernel_cell w mp rgid' off' va' \<longrightarrow>
        (\<exists>w''. read_kernel_mem (Some c) vmaid' rgid' off' x w' =
          Some (0, if kphys w mp va' = kphys w mp va then v else storage d ! unat (kphys w mp va'), w'')))"
proof (rule write_kernel_mem_run [OF assms(1,3,2), of vmaid v])
  fix w1 w'
  define d' where "d' = d\<lparr>storage := (storage d)[unat (kphys w mp va) := v]\<rparr>"
  assume wr: "write_kernel_mem (Some c) vmaid rgid off v w = Some (0, w')" and ch: "pt_changed mp w w1"
    and w': "w' = set_mram w1 (Some (d\<lparr>storage := (storage d)[unat (kphys w mp va) := v]\<rparr>))"
    and vp: "vpage w1 mp = vpage w mp"
  have w'': "w' = set_mram w1 (Some d')" using w' by (simp add: d'_def)
  have k: "kphys w' mp = kphys w mp" "kentry w' mp = kentry w mp"
    using vp by (simp_all add: w'' kphys_def kentry_def vpage_set_mram fun_eq_iff)
  have "caller_ok (as_kernel c w) mp w1" using assms(1) pt_changed_frame(5) [OF ch] by simp
  moreover have "as_kernel c w' = as_kernel c w" using pt_changed_frame(1) [OF ch] by (simp add: w'' as_kernel_def)
  ultimately have c': "caller_ok (as_kernel c w') mp w'" by (simp add: w'' caller_ok_def)
  have "\<exists>w''. read_kernel_mem (Some c) vmaid' rgid' off' x w' =
      Some (0, if kphys w mp va' = kphys w mp va then v else storage d ! unat (kphys w mp va'), w'')"
    if cell: "kernel_cell w mp rgid' off' va'" for rgid' off' va' x
  proof -
    have d'w: "mram w' = Some d'" and "region_addr mp rgid' off' w' = region_addr mp rgid' off' w"
      using region_addr_changed [OF ch] by (simp_all add: w'')
    then have cell': "kernel_cell w' mp rgid' off' va'"
      using cell assms(2) by (simp add: kernel_cell_def k) (simp add: d'_def)
    have st: "storage d' ! unat (kphys w mp va')
        = (if kphys w mp va' = kphys w mp va then v else storage d ! unat (kphys w mp va'))"
      using cell assms(2) by (simp add: d'_def kernel_cell_def nth_list_update word_unat_eq_iff)
    show ?thesis
      by (rule read_kernel_mem_run [OF c' cell' d'w, of vmaid' x]) (use k(1) st in auto)
  qed
  then show ?thesis using wr by blast
qed

text \<open>A kernel with a region on its page 2, which is mapped to frame 0.\<close>

definition ex_region :: world where
  "ex_region = set_mm ex_kernel 0 (ex_mm0\<lparr>mm_symrgtbl :=
     (replicate PAGING_MAX_SYMTBL_SZ \<lparr>rg_vmaid = 0, rg_start = 0, rg_end = 0\<rparr>)
       [5 := \<lparr>rg_vmaid = 0, rg_start = 8192, rg_end = 8200\<rparr>]\<rparr>)"

lemma ex_region_mapped:
  obtains w where "caller_ok (as_kernel ex_caller w) 0 w" and "mram w = Some ex_dev" and "kernel_cell w 0 5 3 8195"
proof -
  have c: "caller_ok ex_caller 0 ex_region"
    by (simp add: caller_ok_def ex_region_def ex_caller_def ex_mm0_def)
  have p: "2 < page_limit" by (simp add: page_limit_def)
  have h: "w_hostmem ex_region = 100" using ex_kernel_ok(3) by (simp add: ex_region_def)
  obtain w where ch: "pt_changed 0 ex_region w" and v: "vpage w 0 = (vpage ex_region 0)(2 := pte_online (vpage ex_region 0 2) 0)"
    by (rule pte_set_fpn_page [OF c p, of 0]) (use h in auto)
  have os: "mram w = Some ex_dev" "k_mm (w_os w) = Some 0"
    using pt_changed_frame(1) [OF ch] ex_kernel_ok(2,4) by (simp_all add: ex_region_def)
  have e: "kentry w 0 8195 = ucast (pte_online (vpage ex_region 0 2) 0)" by (simp add: kentry_def v)
  have "kphys w 0 8195 = 3"
    unfolding kphys_def e online_fpn by (simp add: page_off_def macro_defs)
  moreover have "region_addr 0 5 3 w = Some (Some 8195)"
    unfolding region_addr_changed [OF ch]
    by (simp add: region_addr_def ex_region_def arr_get_def PAGING_MAX_SYMTBL_SZ_def)
  ultimately have "kernel_cell w 0 5 3 8195"
    using os online_present p by (simp add: kernel_cell_def e rgid_ok_def PAGING_MAX_SYMTBL_SZ_def ex_dev_def page_limit_def)
  moreover have "caller_ok (as_kernel ex_caller w) 0 w"
    using c pt_changed_frame(5) [OF ch, of ex_caller 0] os by (simp add: caller_ok_def as_kernel_def)
  ultimately show thesis using os(1) that by blast
qed

theorem kernel_write_read_witness:
  "\<exists>w w' w''. write_kernel_mem (Some ex_caller) (- 1) 5 3 9 w = Some (0, w')
     \<and> read_kernel_mem (Some ex_caller) (- 1) 5 3 0 w' = Some (0, 9, w'')"
proof (rule ex_region_mapped)
  fix w
  assume a: "caller_ok (as_kernel ex_caller w) 0 w" "mram w = Some ex_dev" and cell: "kernel_cell w 0 5 3 8195"
  from kernel_write_read [OF a cell, of "- 1" 9 "- 1"] cell show ?thesis by fastforce
qed

end
