(* ===== verification/KernelCalls.thy ===== *)
theory KernelCalls
  imports Access KmemProps
begin

text \<open>
  The instructions on kernel memory (\<open>kmalloc\<close>, the cache pools and the copies of \<open>src/src/libmem.c\<close>) as steps
  of a process among others: whatever their operands, they return on a well-formed kernel descriptor, keep
  it and the paging invariant, and touch no process but the caller.
\<close>

section \<open>Bytes\<close>

text \<open>The byte at a virtual address, wherever its page is.\<close>

definition byte_at :: "world \<Rightarrow> mm_ptr \<Rightarrow> nat \<Rightarrow> byte option" where
  "byte_at w mp a = map_option (\<lambda>bs. bs ! (a mod PAGING64_PAGESZ)) (page_bytes w mp (a div PAGING64_PAGESZ))"

lemma stored_byte: "stored mp a v w w' \<Longrightarrow> byte_at w' mp a = Some v"
  by (auto simp: stored_def byte_at_def)

lemma stored_keeps:
  assumes st: "stored mp a v w w'"
    and oth: "\<And>q. q \<noteq> a div PAGING64_PAGESZ \<Longrightarrow> page_bytes w mp q \<noteq> None \<Longrightarrow> page_bytes w' mp q = page_bytes w mp q"
    and b: "byte_at w mp x \<noteq> None" "x \<noteq> a"
  shows "byte_at w' mp x = byte_at w mp x"
proof (cases "x div PAGING64_PAGESZ = a div PAGING64_PAGESZ")
  case True
  obtain cs where cs: "page_bytes w mp (a div PAGING64_PAGESZ) = Some cs" using b(1) True by (auto simp: byte_at_def)
  have "x mod PAGING64_PAGESZ \<noteq> a mod PAGING64_PAGESZ" using True b(2) by (metis div_mult_mod_eq)
  then show ?thesis using st cs True by (auto simp: byte_at_def stored_def)
next
  case False
  then show ?thesis using oth [OF False] b(1) by (auto simp: byte_at_def)
qed

lemma calm_byte: "calm mp w w' \<Longrightarrow> byte_at w mp x \<noteq> None \<Longrightarrow> byte_at w' mp x = byte_at w mp x"
  by (auto simp: calm_def byte_at_def)

lemma page_off_nat: "unat (page_off va) = unat va mod 4096" "unat (ucast (page_off va) :: cint) = unat va mod 4096"
proof -
  have "page_off va = take_bit 12 va"
    by (simp add: page_off_def macro_defs take_bit_eq_mask mask_eq_exp_minus_1 push_bit_of_1)
  then show u: "unat (page_off va) = unat va mod 4096"
    by (simp only: unsigned_take_bit_eq) (simp add: take_bit_eq_mod)
  have "unat va mod 4096 < 4096" by simp
  then show "unat (ucast (page_off va) :: cint) = unat va mod 4096" using u unat_ucast_lt [of "page_off va"] by simp
qed

section \<open>Reading a kernel byte\<close>

text \<open>The byte at an offset of a kernel region can be read: the region covers the offset and its page is
  resident.\<close>

definition kernel_source :: "world \<Rightarrow> mm_ptr \<Rightarrow> cint \<Rightarrow> addr_t \<Rightarrow> nat \<Rightarrow> bool" where
  "kernel_source w kmp rgid off a \<longleftrightarrow> rgid_ok rgid \<and> region_addr kmp rgid off w = Some (Some (of_nat a))
     \<and> a < 2 ^ 64 \<and> epresent (vpage w kmp (a div PAGING64_PAGESZ))"

lemma present_page:
  assumes "epresent (vpage w mp q)"
  shows "q < page_limit" and "\<exists>m. w_mms w mp = Some m \<and> mm_pgd m \<noteq> None"
  using assms by (auto simp: vpage_def pte_view_def split: if_splits option.splits)

lemma read_kernel_space:
  assumes ok: "space_ok k c mp p w" and km: "k_mm (w_os w) = Some kmp" "kmp \<noteq> mp" and src: "kernel_source w kmp rgid off a"
  obtains v w' where "read_kernel_mem (Some c) vm rgid off x w = Some (0, v, w')" and "byte_at w kmp a = Some v"
    and "space_ok k c mp p w'" and "vpage w' = vpage w" and "page_bytes w' = page_bytes w" and "snap w' = snap w"
    and "outside kmp w' = outside kmp w" and "w_hostmem w' = w_hostmem w" and "pt_changed kmp w w'"
proof -
  let ?va = "of_nat a :: addr_t" and ?q = "a div PAGING64_PAGESZ"
  have s: "rgid_ok rgid" "region_addr kmp rgid off w = Some (Some ?va)" "unat ?va = a" "epresent (vpage w kmp ?q)"
    using src by (simp_all add: kernel_source_def unat_of_nat)
  note c = space_caller [OF ok]
  have kc: "caller_ok (as_kernel c w) kmp w" using present_page(2) [OF s(4)] c(4) km(1) by (simp add: caller_ok_def as_kernel_def)
  obtain w1 where ge: "pte_get_entry (Some (as_kernel c w)) (of_nat ?q) w = Some (ucast (vpage w kmp ?q), w1)"
    and w1: "vm_kept w w1" "vpage w1 = vpage w" "w_os w1 = w_os w" "w_hostmem w1 = w_hostmem w"
    by (rule pte_get_entry_kept [OF kc present_page(1) [OF s(4)] c(3)]) blast
  have ch: "pt_changed kmp w w1" by (rule pte_get_entry_page [OF kc present_page(1) [OF s(4)]]) (use ge in auto)
  let ?f = "eframe (vpage w kmp ?q)"
  define ph where "ph = push_bit PAGING64_ADDR_PT_SHIFT (ucast (PAGING_FPN (ucast (vpage w kmp ?q)))) + page_off ?va"
  obtain ram swp where dev: "mram w = Some ram" "mswp w = Some swp" and pok: "paging_ok (vpage w) (fifo w) ram swp"
    using c(3) by (rule vm_invE)
  have d: "rdmflg ram" "frame_fits ram ?f" "unat ?f < 2 ^ 13"
    using pok s(4) dev_ok_used [of 13 ram ?f] by (auto simp: paging_ok_def owned_def dev_ok_def)
  have "page_off ?va = of_nat (unat (page_off ?va))" by simp
  then have "page_off ?va = of_nat (a mod PAGING64_PAGESZ)" using page_off_nat(1) [of ?va] s(3) by (simp add: macro_defs)
  then have "ph = ?f * of_nat PAGING64_PAGESZ + of_nat (a mod PAGING64_PAGESZ)"
    by (simp only: ph_def eframe_def) (simp add: push_bit_eq_mult macro_defs)
  then have un: "unat ph = unat ?f * PAGING64_PAGESZ + a mod PAGING64_PAGESZ"
    using unat_frame_addr [of ?f "a mod PAGING64_PAGESZ"] d(2) by (simp add: frame_fits_def macro_defs)
  have "drop_bit PAGING64_ADDR_PT_SHIFT ?va = of_nat ?q" using page_of_word [of ?va] s(3) by (simp add: PAGING64_PAGESZ_def)
  then have kp: "kernel_phyaddr (as_kernel c w) ?va w = Some (Some ph, w1)"
    using ge s(4) by (simp add: kernel_phyaddr_def ph_def epresent_def)
  have "a mod PAGING64_PAGESZ < PAGING64_PAGESZ" by (simp add: PAGING64_PAGESZ_def)
  then have lt: "unat ph < length (storage ram)" using d(2) un by (auto simp: frame_fits_def algebra_simps)
  have m1: "mram w1 = Some ram" "set_mram w1 (Some ram) = w1" using w1(3) dev(1) by (simp_all add: set_mram_def)
  have run: "read_kernel_mem (Some c) vm rgid off x w = Some (0, storage ram ! unat ph, w1)"
    using s(1,2) c(4) km(1) kp m1 d(1) lt by (simp add: read_kernel_mem_def rgid_ok_def MEMPHY_read_ram)
  have bt: "byte_at w kmp a = Some (storage ram ! unat ph)"
    using s(4) dev un by (simp add: byte_at_def page_bytes_def contents_def frame_bytes_def frame_byte_def macro_defs)
  have pb: "page_bytes w1 = page_bytes w" "vm_inv w1" using w1(1) by (simp_all add: vm_kept_def)
  have sn: "snap w1 = snap w" by (rule snap_pte_get_entry [OF ge])
  have o: "outside kmp w1 = outside kmp w" by (rule outside_pte_get_entry [OF ge]) (simp add: as_kernel_def km)
  have "own_step (Suc k) kmp w w1"
    by (rule own_step_snap [OF confined_page [OF o pb(2)] sn]) (simp add: pb(1))
  then have "space_ok k c mp p w1" by (rule space_other [OF ok]) (use km in auto)
  then show thesis by (rule that [OF run bt _ w1(2) pb(1) sn o w1(4) ch])
qed

section \<open>Writing a user byte\<close>

lemma region_addr_target:
  assumes ok: "space_ok k c mp p w" and t: "write_target mp rgid off w = Some a"
  shows "\<not> (sint rgid < 0 \<or> sint rgid \<ge> int PAGING_MAX_SYMTBL_SZ)" and "region_addr mp rgid off w = Some (Some (of_nat a))"
    and "a < 2 ^ 31" and "a div PAGING64_PAGESZ < p"
proof -
  show g: "\<not> (sint rgid < 0 \<or> sint rgid \<ge> int PAGING_MAX_SYMTBL_SZ)"
    using t by (auto simp: write_target_def split: if_splits)
  then have i: "sint rgid = int (nat (sint rgid))" "nat (sint rgid) < PAGING_MAX_SYMTBL_SZ" by linarith+
  note s = write_target_some [OF ok i t]
  show pg: "a div PAGING64_PAGESZ < p" by (rule s(4))
  have "a < p * PAGING64_PAGESZ" using pg by (simp add: PAGING64_PAGESZ_def div_less_iff_less_mult)
  then show "a < 2 ^ 31" using ok unfolding space_ok_def by linarith
  obtain m where m: "w_mms w mp = Some m" "arr_get (mm_symrgtbl m) (nat (sint rgid)) = Some (symrg w mp (nat (sint rgid)))"
    by (rule region_fields [OF ok i(2)])
  have "a = unat (rg_start (symrg w mp (nat (sint rgid))) + off)"
    using t g by (auto simp: write_target_def Let_def split: if_splits)
  then show "region_addr mp rgid off w = Some (Some (of_nat a))"
    using m s(1,2) by (auto simp: region_addr_def)
qed

lemma stored_calm: "calm mp w w1 \<Longrightarrow> stored mp a v w1 w' \<Longrightarrow> stored mp a v w w'"
  by (auto simp: calm_def stored_def)

lemma user_page:
  assumes "a < 2 ^ 31"
  shows "sint (ucast (drop_bit PAGING64_ADDR_PT_SHIFT (of_nat a :: addr_t)) :: cint) = int (a div PAGING64_PAGESZ)"
proof -
  let ?q = "a div PAGING64_PAGESZ"
  have "unat (of_nat a :: addr_t) = a" using assms by (simp add: unat_of_nat)
  then have "drop_bit PAGING64_ADDR_PT_SHIFT (of_nat a :: addr_t) = of_nat ?q"
    using page_of_word [of "of_nat a"] by (simp add: PAGING64_PAGESZ_def)
  moreover have q: "?q < 2 ^ 31" using assms by (rule le_less_trans [OF div_le_dividend])
  ultimately have "(ucast (drop_bit PAGING64_ADDR_PT_SHIFT (of_nat a :: addr_t)) :: cint) = of_nat ?q"
    by (simp only: unsigned_of_nat) (simp add: take_bit_nat_eq_self)
  then show ?thesis using sint_of_nat_small [OF q] by simp
qed

lemma write_user_space:
  assumes ok: "space_ok k c mp p w" and h: "9 \<le> w_hostmem w" and t: "write_target mp rgid off w = Some a"
  obtains r w' where "write_user_mem (Some c) vm rgid off v w = Some (r, w')" and "r = 0 \<or> r = - 1" and "space_ok k c mp p w'"
    and "confined mp w w'" and "w_hostmem w \<le> w_hostmem w' + 9" and "snap w' = snap w" and "outside mp w' = outside mp w"
    and "r = 0 \<longrightarrow> byte_at w' mp a = Some v"
    and "\<forall>x. x \<noteq> a \<and> byte_at w mp x \<noteq> None \<longrightarrow> byte_at w' mp x = byte_at w mp x"
    and "epresent (vpage w mp (a div PAGING64_PAGESZ)) \<longrightarrow> r = 0 \<and> vpage w' = vpage w"
proof -
  let ?va = "of_nat a :: addr_t" and ?q = "a div PAGING64_PAGESZ"
  note c = space_caller [OF ok] and ra = region_addr_target [OF ok t]
  have ua: "unat ?va = a" using ra(3) by (simp add: unat_of_nat)
  let ?pg = "ucast (drop_bit PAGING64_ADDR_PT_SHIFT ?va) :: cint" and ?off = "ucast (page_off ?va) :: cint"
  note pg = user_page [OF ra(3)]
  have off: "unat ?off = a mod PAGING64_PAGESZ" using page_off_nat(2) [of ?va] ua by (simp add: macro_defs)
  then have lt: "unat ?off < PAGING64_PAGESZ" by (simp add: macro_defs)
  obtain r fpn w1 where g: "pg_getpage ?pg 0 c w = Some (r, fpn, w1)" "space_ok k c mp p w1" "confined mp w w1" "calm mp w w1"
    "w_hostmem w \<le> w_hostmem w1 + 9" "outside mp w1 = outside mp w" "snap w1 = snap w"
    "r = 0 \<and> epresent (vpage w1 mp ?q) \<and> fpn = PAGING_FPN (ucast (vpage w1 mp ?q)) \<or> r = - 1"
    "epresent (vpage w mp ?q) \<longrightarrow> r = 0 \<and> vpage w1 = vpage w"
    by (rule getpage_space [OF ok h pg ra(4)])
  have calm: "byte_at w1 mp x = byte_at w mp x" if "byte_at w mp x \<noteq> None" for x by (rule calm_byte [OF g(4) that])
  show thesis
  proof (cases "r = 0")
    case False
    then have "write_user_mem (Some c) vm rgid off v w = Some (- 1, w1)"
      using c(4,5) ra(1,2) g(1) by (simp add: write_user_mem_def)
    then show ?thesis by (rule that [OF _ _ g(2,3,5,7,6)]) (use calm g(9) False in auto)
  next
    case True
    note c1 = space_caller [OF g(2)]
    have e: "epresent (vpage w1 mp ?q)" "fpn = PAGING_FPN (ucast (vpage w1 mp ?q))" using g(8) True by simp_all
    obtain ram' w2 where s: "MEMPHY_write (mram w1) (scast (int_phyaddr fpn ?off)) v = Some (0, Some ram')"
        "w2 = set_mram w1 (Some ram')"
      and w2: "same_ctx w1 w2" "vm_inv w2" "vpage w2 = vpage w1"
        "page_bytes w2 mp ?q = map_option (\<lambda>bs. bs[unat ?off := v]) (page_bytes w1 mp ?q)"
        "\<And>mq q. (mq, q) \<noteq> (mp, ?q) \<Longrightarrow> page_bytes w2 mq q = page_bytes w1 mq q" "w_hostmem w2 = w_hostmem w1"
      by (rule write_mapped [OF c1(3) e(1) lt e(2)]) blast
    have run: "write_user_mem (Some c) vm rgid off v w = Some (0, w2)"
      using c(4,5) ra(1,2) g(1) s True by (simp add: write_user_mem_def)
    have o: "outside mp w2 = outside mp w1" and sn: "snap w2 = snap w1" by (simp_all add: s(2))
    have sp: "space_ok k c mp p w2" by (rule space_page_op [OF g(2) o sn w2(1,2)]) (metis ra(4) Pair_inject w2(5))
    have cf: "confined mp w w2" by (rule confined_trans [OF g(3) confined_page [OF o w2(2)]]) (simp add: w2(5))
    obtain bs where bs: "page_bytes w1 mp ?q = Some bs" "length bs = PAGING64_PAGESZ"
      using g(8) True by (auto simp: page_bytes_def contents_def frame_bytes_def)
    have st: "stored mp a v w1 w2" using w2(4) bs lt off by (simp add: stored_def)
    have keep: "byte_at w2 mp x = byte_at w mp x" if "x \<noteq> a" "byte_at w mp x \<noteq> None" for x
      using stored_keeps [OF st, of x] w2(5) [of mp] calm [OF that(2)] that by auto
    show ?thesis
      by (rule that [OF run _ sp cf]) (use g(5-7,9) w2(3,6) o sn stored_byte [OF st] keep in auto)
  qed
qed

section \<open>Kernel allocation\<close>

text \<open>Mapping a page to a frame that is in use and that no page is mapped to; the page may have been mapped before.\<close>

lemma paging_remap:
  assumes ok: "paging_ok P fi ram swp" and f: "f \<in> set (used_fp_list ram)" "unmapped P f"
    and P': "P' = set_entry P mp p (pte_online e f)"
  shows "paging_ok P' fi ram swp" and "(mq, q) \<noteq> (mp, p) \<Longrightarrow> contents P' ram swp mq q = contents P ram swp mq q"
proof -
  have own: "owned epresent eframe P (set (used_fp_list ram))" "owned eswapped eslot P (set (used_fp_list swp))" and li: "listed P fi"
    using ok by (auto simp: paging_ok_def)
  have "unat f < 2 ^ 13" using ok f(1) dev_ok_used [of 13 ram f] by (simp add: paging_ok_def)
  then have fr: "eframe (pte_online e f) = f" by simp
  have "owned epresent eframe P' (set (used_fp_list ram))"
    unfolding P' by (rule owned_add [OF own(1), where a = f]) (use f fr in \<open>auto simp: unmapped_def\<close>)
  moreover have "owned eswapped eslot P' (set (used_fp_list swp))"
    unfolding P' by (rule owned_drop [OF own(2)]) simp
  moreover have "listed P' fi" using li by (auto simp: listed_def P' set_entry_app)
  ultimately show "paging_ok P' fi ram swp" using ok by (simp add: paging_ok_def)
  show "(mq, q) \<noteq> (mp, p) \<Longrightarrow> contents P' ram swp mq q = contents P ram swp mq q"
    by (auto simp: contents_def P' set_entry_app)
qed

text \<open>A step that changes only the page tables of a descriptor, and the devices.\<close>

definition tables_step :: "mm_ptr \<Rightarrow> world \<Rightarrow> world \<Rightarrow> bool" where
  "tables_step mp w w' \<longleftrightarrow> (\<exists>m m'. w_mms w mp = Some m \<and> w_mms w' mp = Some m' \<and> (\<forall>q. q \<noteq> mp \<longrightarrow> w_mms w' q = w_mms w q)
     \<and> mm_pgd m' \<noteq> None \<and> mm_symrgtbl m' = mm_symrgtbl m \<and> mm_kcpooltbl m' = mm_kcpooltbl m)"

lemma tables_step_refl: "caller_ok c mp w \<Longrightarrow> tables_step mp w (set_mram w d)" "caller_ok c mp w \<Longrightarrow> tables_step mp w w"
  by (auto simp: tables_step_def caller_ok_def)

lemma tables_step_trans: "tables_step mp u v \<Longrightarrow> tables_step mp v w \<Longrightarrow> tables_step mp u w"
  by (auto simp: tables_step_def)

lemma tables_step_changed: "pt_changed mp w w' \<Longrightarrow> tables_step mp w w'"
  by (auto simp: tables_step_def pt_changed_def)

lemma tables_step_kernel:
  assumes "tables_step kmp w w'" and "k_mm (w_os w') = k_mm (w_os w)"
  shows "kernel_ok kmp w \<Longrightarrow> kernel_ok kmp w'" and "pools_up kmp w' = pools_up kmp w"
  using assms by (auto simp: tables_step_def kernel_ok_def pools_up_def kernel_mm_ok_def)

lemma kmalloc_loop_confined:
  assumes "caller_ok c mp w" and "vm_inv w" and "p0 + i + n \<le> page_limit" and "(i + n) * PAGING64_PAGESZ < 2 ^ 31"
    and "8 * n \<le> w_hostmem w"
  shows "\<exists>r w'. kmalloc_loop c (of_nat (p0 * PAGING64_PAGESZ)) i n w = Some (r, w') \<and> (r = 0 \<or> r = - 1)
    \<and> vm_inv w' \<and> tables_step mp w w' \<and> (\<forall>q. q \<noteq> mp \<longrightarrow> page_bytes w' q = page_bytes w q) \<and> w_hostmem w \<le> w_hostmem w' + 8 * n"
  using assms
proof (induction n arbitrary: i w)
  case 0
  then show ?case using tables_step_refl(2) by simp
next
  case (Suc n)
  have pl: "p0 + i < page_limit" "i * PAGING64_PAGESZ < 2 ^ 31" using Suc.prems(3,4) by (simp_all add: macro_defs)
  note unfold = kmalloc_loop_page [OF pl]
  obtain ram swp where dev: "mram w = Some ram" "mswp w = Some swp" and pok: "paging_ok (vpage w) (fifo w) ram swp"
    using Suc.prems(2) by (rule vm_invE)
  show ?case
  proof (cases "free_fp_list ram")
    case Nil
    have "set_mram w (Some ram) = w" using dev(1) by (simp add: set_mram_def)
    then have "kmalloc_loop c (of_nat (p0 * PAGING64_PAGESZ)) i (Suc n) w = Some (- 1, w)"
      unfolding unfold using dev(1) Nil by (simp add: MEMPHY_get_freefp_def)
    then show ?thesis using Suc.prems(2) tables_step_refl(2) [OF Suc.prems(1)] by (simp del: kmalloc_loop.simps)
  next
    case (Cons f rest)
    define d1 where "d1 = ram\<lparr>free_fp_list := rest, used_fp_list := f # used_fp_list ram\<rparr>"
    define w1 where "w1 = set_mram w (Some d1)"
    have g: "MEMPHY_get_freefp (mram w) 0 = (0, Some d1, f)" and fg: "fp_get ram = Some (f, d1)"
      using dev(1) Cons by (simp_all add: MEMPHY_get_freefp_def fp_get_eq d1_def)
    note tk = paging_take [OF pok fg]
    have c1: "caller_ok c mp w1" using Suc.prems(1) by (simp add: caller_ok_def w1_def)
    obtain w2 where e: "kmalloc_entry c (of_nat (p0 + i)) f w1 = Some (0, w2)" and ch: "pt_changed mp w1 w2"
      and v2: "vpage w2 mp = (vpage w1 mp)(p0 + i := pte_online (vpage w1 mp (p0 + i)) f)"
      and h2: "w_hostmem w1 \<le> w_hostmem w2 + 8"
      by (rule kmalloc_entry_page [OF c1 pl(1), of f]) (use Suc.prems(5) in \<open>auto simp: w1_def\<close>)
    note cw = pt_changed_world [OF ch]
    have v: "vpage w2 = set_entry (vpage w) mp (p0 + i) (pte_online (vpage w mp (p0 + i)) f)"
      using cw(4) [OF v2] by (simp add: w1_def)
    note rm = paging_remap [OF tk(1,3,2) v]
    have os: "mram w2 = Some d1" "mswp w2 = Some swp" "fifo w2 = fifo w" using cw(2,3) dev by (simp_all add: w1_def)
    have inv2: "vm_inv w2" using rm(1) os by (intro vm_invI) auto
    have pb: "page_bytes w2 q = page_bytes w q" if "q \<noteq> mp" for q
      using rm(2) [of q] that tk(4) os dev by (auto simp: page_bytes_def fun_eq_iff)
    have c2: "caller_ok c mp w2" using c1 pt_changed_frame(5) [OF ch] by simp
    have t2: "tables_step mp w w2"
      using tables_step_trans [OF tables_step_refl(1) [OF Suc.prems(1)] tables_step_changed [OF ch [unfolded w1_def]]] .
    have "p0 + (i + 1) + n \<le> page_limit" "(i + 1 + n) * PAGING64_PAGESZ < 2 ^ 31" "8 * n \<le> w_hostmem w2"
      using Suc.prems(3-5) h2 by (simp_all add: w1_def)
    then obtain r w' where ih: "kmalloc_loop c (of_nat (p0 * PAGING64_PAGESZ)) (i + 1) n w2 = Some (r, w')" "r = 0 \<or> r = - 1"
      "vm_inv w'" "tables_step mp w2 w'" "\<forall>q. q \<noteq> mp \<longrightarrow> page_bytes w' q = page_bytes w2 q" "w_hostmem w2 \<le> w_hostmem w' + 8 * n"
      using Suc.IH [OF c2 inv2, of "i + 1"] by auto
    have "kmalloc_loop c (of_nat (p0 * PAGING64_PAGESZ)) i (Suc n) w = Some (r, w')"
      unfolding unfold g using e ih(1) by (simp add: w1_def del: kmalloc_loop.simps)
    moreover have "w_hostmem w \<le> w_hostmem w' + 8 * Suc n" using ih(6) h2 by (simp add: w1_def)
    ultimately show ?thesis using ih(2,3,5) tables_step_trans [OF t2 ih(4)] pb by (intro exI [of _ r] exI [of _ w'] conjI) auto
  qed
qed

text \<open>Steps on the descriptor of the kernel: nothing else changes, and the descriptor stays well formed.\<close>

definition kernel_step :: "mm_ptr \<Rightarrow> nat \<Rightarrow> world \<Rightarrow> world \<Rightarrow> bool" where
  "kernel_step kmp h w w' \<longleftrightarrow> confined kmp w w' \<and> snap w' = snap w \<and> kernel_ok kmp w' \<and> (pools_up kmp w \<longrightarrow> pools_up kmp w')
     \<and> w_hostmem w \<le> w_hostmem w' + h"

lemma kernel_step_refl: "vm_inv w \<Longrightarrow> kernel_ok kmp w \<Longrightarrow> kernel_step kmp h w w"
  by (simp add: kernel_step_def)

lemma kernel_step_trans: "kernel_step kmp h u v \<Longrightarrow> kernel_step kmp h' v w \<Longrightarrow> kernel_step kmp (h + h') u w"
  unfolding kernel_step_def using confined_trans by fastforce

lemma kernel_step_tables:
  assumes "tables_step kmp w w'" and "snap w' = snap w" and "vm_inv w'" and "\<And>q. q \<noteq> kmp \<Longrightarrow> page_bytes w' q = page_bytes w q"
    and "kernel_ok kmp w" and "w_hostmem w \<le> w_hostmem w' + h"
  shows "kernel_step kmp h w w'" and "pools_up kmp w' = pools_up kmp w"
proof -
  have k: "k_mm (w_os w') = k_mm (w_os w)" using snapD [OF assms(2)] by simp
  note tk = tables_step_kernel [OF assms(1) k]
  have "\<forall>q. q \<noteq> kmp \<longrightarrow> w_mms w' q = w_mms w q" using assms(1) by (auto simp: tables_step_def)
  then show "kernel_step kmp h w w'" unfolding kernel_step_def confined_def using assms(2-6) tk by blast
  show "pools_up kmp w' = pools_up kmp w" by (rule tk(2))
qed

text \<open>A new value of the descriptor with the same page tables.\<close>

lemma kernel_step_set:
  assumes "vm_inv w" and "k_mm (w_os w) = Some kmp" and "w_mms w kmp = Some m" and "mm_pgd m' = mm_pgd m" and "mm_fifo_pgn m' = mm_fifo_pgn m"
    and "kernel_mm_ok m'" and "mm_kcpooltbl m \<noteq> None \<Longrightarrow> mm_kcpooltbl m' \<noteq> None"
  shows "kernel_step kmp h w (set_mm w kmp m')"
proof -
  note v = view_keeps [OF paging_view_set_mm [OF assms(3-5)]]
  have "confined kmp w (set_mm w kmp m')" using v assms(1) by (simp add: confined_def)
  moreover have "snap (set_mm w kmp m') = snap w" using assms(3) by (auto simp: snap_def)
  ultimately show ?thesis using assms(2,3,6,7) by (auto simp: kernel_step_def kernel_ok_def pools_up_def)
qed

lemma kmalloc_start:
  assumes "unat (rgid :: cint) < 2 ^ 31"
  shows "kmalloc_vaddr rgid = of_nat (unat rgid * 1000 * PAGING64_PAGESZ)"
proof -
  have "(scast rgid :: addr_t) = of_nat (unat rgid)" by (rule scast_int [OF sint_small [OF assms]])
  then show ?thesis unfolding kmalloc_vaddr_def by (simp only: of_nat_mult of_nat_numeral ac_simps)
qed

lemma kmalloc_kernel:
  assumes c: "p_krnl c" and k: "kernel_ok kmp w" and inv: "vm_inv w" and rg: "unat rgid < 2 ^ 31" and sz: "unat sz + 4096 \<le> 2 ^ 31"
    and h: "8 * pages_for sz \<le> w_hostmem w"
  obtains r a w' where "kmalloc c v rgid sz a0 w = Some (r, a, w')" and "r = 0 \<and> a = kmalloc_vaddr rgid \<or> r = - 1"
    and "kernel_step kmp (8 * pages_for sz) w w'" and "pools_up kmp w' = pools_up kmp w"
proof (cases "sz = 0")
  case True
  then show thesis using that [of "- 1" a0 w] kernel_step_refl [OF inv k] by (simp add: kmalloc_def)
next
  case False
  have n: "nat (sint (ucast ((sz + of_nat PAGING64_PAGESZ - 1) div of_nat PAGING64_PAGESZ) :: cint)) = pages_for sz"
    using kmalloc_pages [of sz] False sz by (simp add: pages_for_def unat_gt_0)
  have kc: "caller_ok (as_kernel c w) kmp w" using k c by (auto simp: caller_ok_def as_kernel_def kernel_ok_def kernel_mm_ok_def)
  have "pages_for sz * PAGING64_PAGESZ < 2 ^ 31" "pages_for sz < 2 ^ 31" using sz by (simp_all add: pages_for_def macro_defs)
  moreover from this have "unat rgid * 1000 + 0 + pages_for sz \<le> page_limit" using rg by (simp add: page_limit_def)
  ultimately obtain r w' where l: "kmalloc_loop (as_kernel c w) (kmalloc_vaddr rgid) 0 (pages_for sz) w = Some (r, w')" "r = 0 \<or> r = - 1"
    and w': "vm_inv w'" "tables_step kmp w w'" "\<forall>q. q \<noteq> kmp \<longrightarrow> page_bytes w' q = page_bytes w q" "w_hostmem w \<le> w_hostmem w' + 8 * pages_for sz"
    using kmalloc_loop_confined [OF kc inv, of "unat rgid * 1000" 0 "pages_for sz"] h kmalloc_start [OF rg] by auto
  note ks = kernel_step_tables [OF w'(2) snap_kmalloc_loop [OF l(1)] w'(1) _ k w'(4)]
  have "kmalloc c v rgid sz a0 w = Some (r, if r = 0 then kmalloc_vaddr rgid else a0, w')"
    using c False n l(1) by (simp add: kmalloc_def Let_def)
  then show thesis by (rule that) (use l(2) ks w'(3) in auto)
qed

lemma unat_size: "unat (ucast (x :: u32) :: addr_t) = unat x"
  using unsigned_less [of x, where ?'a = nat] by (simp add: unsigned_ucast_eq take_bit_nat_eq_self)

lemma libkmem_malloc_kernel:
  assumes c: "p_krnl c" and k: "kernel_ok kmp w" and inv: "vm_inv w" and rg: "unat rgid < 2 ^ 31" and sz: "unat sz + 4096 \<le> 2 ^ 31"
    and h: "8 * pages_for (ucast sz) \<le> w_hostmem w"
  obtains r w' where "libkmem_malloc (Some c) sz rgid w = Some (r, w')" and "kernel_step kmp (8 * pages_for (ucast sz)) w w'"
proof (cases "sz = 0")
  case True
  then show thesis using that kernel_step_refl [OF inv k] by (simp add: libkmem_malloc_def)
next
  case False
  have "unat (ucast sz :: addr_t) + 4096 \<le> 2 ^ 31" using sz by (simp add: unat_size)
  then obtain r a w' where "kmalloc c (- 1) rgid (ucast sz) 0 w = Some (r, a, w')" "kernel_step kmp (8 * pages_for (ucast sz)) w w'"
    by (rule kmalloc_kernel [OF c k inv rg _ h])
  then show thesis using that [of "if (ucast r :: cint) \<noteq> 0 then - 1 else 0" w'] False by (simp add: libkmem_malloc_def)
qed

section \<open>Cache pools\<close>

lemma set_kcpool_kernel:
  assumes inv: "vm_inv w" and k: "kernel_ok kmp w" "pools_up kmp w" and i: "i < PAGING_MAX_KCACHE_POOLS" and p: "pool_low p"
  obtains w' where "set_kcpool kmp i p w = Some w'" and "kernel_step kmp 0 w w'" and "pools_up kmp w'"
proof -
  obtain m t where m: "w_mms w kmp = Some m" "mm_kcpooltbl m = Some t" "k_mm (w_os w) = Some kmp" "kernel_mm_ok m"
    using k by (auto simp: kernel_ok_def pools_up_def)
  then have t: "length t = PAGING_MAX_KCACHE_POOLS" "list_all pool_low t" by (simp_all add: kernel_mm_ok_def)
  have "list_all pool_low (t[i := p])" using t(2) p set_update_subset_insert [of t i p] by (auto simp: list_all_iff)
  then have "kernel_mm_ok (m\<lparr>mm_kcpooltbl := Some (t[i := p])\<rparr>)" using m(4) t(1) by (simp add: kernel_mm_ok_def)
  then have ks: "kernel_step kmp 0 w (set_mm w kmp (m\<lparr>mm_kcpooltbl := Some (t[i := p])\<rparr>))"
    by (intro kernel_step_set [OF inv m(3,1)]) simp_all
  have "set_kcpool kmp i p w = Some (set_mm w kmp (m\<lparr>mm_kcpooltbl := Some (t[i := p])\<rparr>))"
    using m t(1) i by (simp add: set_kcpool_def arr_set_def)
  then show thesis by (rule that [OF _ ks]) (simp add: pools_up_def)
qed

lemma ensure_kcpooltbl_kernel:
  assumes inv: "vm_inv w" and k: "kernel_ok kmp w" and h: "0 < w_hostmem w"
  obtains w' where "ensure_kcpooltbl kmp w = Some (True, w')" and "kernel_step kmp 1 w w'" and "pools_up kmp w'"
proof -
  obtain m where m: "w_mms w kmp = Some m" "k_mm (w_os w) = Some kmp" "kernel_mm_ok m" using k by (auto simp: kernel_ok_def)
  show thesis
  proof (cases "mm_kcpooltbl m")
    case (Some t)
    then show ?thesis using that [of w] m kernel_step_refl [OF inv k] by (simp add: ensure_kcpooltbl_def pools_up_def)
  next
    case None
    let ?m = "m\<lparr>mm_kcpooltbl := Some (replicate PAGING_MAX_KCACHE_POOLS \<lparr>kc_size = 0, kc_align = 0, kc_storage = 0\<rparr>)\<rparr>"
    let ?w = "w\<lparr>w_hostmem := w_hostmem w - 1\<rparr>"
    have "kernel_mm_ok ?m" using m(3) by (simp add: kernel_mm_ok_def pool_low_def list_all_iff)
    moreover have v: "vm_inv ?w" "page_bytes ?w = page_bytes w"
      using view_keeps [OF paging_view_hostmem [of kmp "w_hostmem w - 1" w]] inv by simp_all
    ultimately have "kernel_step kmp 0 ?w (set_mm ?w kmp ?m)" using m by (intro kernel_step_set [of ?w kmp m]) simp_all
    moreover have "kernel_step kmp 1 w ?w"
      using v h k by (auto simp: kernel_step_def confined_def kernel_ok_def pools_up_def)
    ultimately have "kernel_step kmp 1 w (set_mm ?w kmp ?m)" using kernel_step_trans [of kmp 1 w ?w 0 "set_mm ?w kmp ?m"] by simp
    moreover have "ensure_kcpooltbl kmp w = Some (True, set_mm ?w kmp ?m)"
      using m(1) None h by (simp add: ensure_kcpooltbl_def host_alloc_def)
    ultimately show ?thesis using that by (simp add: pools_up_def)
  qed
qed

lemma pool_create_kernel:
  assumes c: "p_krnl c" and k: "kernel_ok kmp w" and inv: "vm_inv w" and sz: "unat sz + 4096 \<le> 2 ^ 31"
    and h: "8 * pages_for (ucast sz) + 1 \<le> w_hostmem w"
  obtains r w' where "libkmem_cache_pool_create (Some c) sz al i w = Some (r, w')"
    and "kernel_step kmp (8 * pages_for (ucast sz) + 1) w w'" and "sz \<noteq> 0 \<and> al \<noteq> 0 \<and> al \<le> sz \<longrightarrow> pools_up kmp w'"
proof -
  have km: "k_mm (w_os w) = Some kmp" using k by (simp add: kernel_ok_def)
  show thesis
  proof (cases "sz = 0 \<or> al = 0 \<or> sz < al")
    case True
    then have "libkmem_cache_pool_create (Some c) sz al i w = Some (- 1, w)" using c km by (auto simp: libkmem_cache_pool_create_def)
    then show ?thesis by (rule that) (use True kernel_step_refl [OF inv k] in \<open>auto simp: not_le\<close>)
  next
    case False
    obtain w1 where e: "ensure_kcpooltbl kmp w = Some (True, w1)" "kernel_step kmp 1 w w1" "pools_up kmp w1"
      by (rule ensure_kcpooltbl_kernel [OF inv k]) (use h in simp)
    have k1: "vm_inv w1" "kernel_ok kmp w1" "w_hostmem w \<le> w_hostmem w1 + 1"
      using e(2) by (simp_all add: kernel_step_def confined_def)
    show ?thesis
    proof (cases "unat i \<ge> PAGING_MAX_KCACHE_POOLS")
      case True
      then have "libkmem_cache_pool_create (Some c) sz al i w = Some (- 1, w1)"
        using False c km e(1) by (auto simp: libkmem_cache_pool_create_def)
      then show ?thesis
        by (rule that) (use e kernel_step_trans [OF e(2) kernel_step_refl [OF k1(1,2), of "8 * pages_for (ucast sz)"]] in \<open>simp_all add: add.commute\<close>)
    next
      case i: False
      have i31: "unat i < 2 ^ 31" "unat i < PAGING_MAX_KCACHE_POOLS" using i by (simp_all add: PAGING_MAX_KCACHE_POOLS_def)
      have sz': "unat (ucast sz :: addr_t) + 4096 \<le> 2 ^ 31" "8 * pages_for (ucast sz) \<le> w_hostmem w1" using sz h k1(3) by (simp_all add: unat_size)
      obtain r a w2 where
        r: "kmalloc c (- 1) i (ucast sz) 0 w1 = Some (r, a, w2)" "r = 0 \<and> a = kmalloc_vaddr i \<or> r = - 1"
          "kernel_step kmp (8 * pages_for (ucast sz)) w1 w2" "pools_up kmp w2 = pools_up kmp w1"
        by (rule kmalloc_kernel [OF c k1(2,1) i31(1) sz'])
      note s2 = kernel_step_trans [OF e(2) r(3)]
      have k2: "vm_inv w2" "kernel_ok kmp w2" "pools_up kmp w2" using s2 r(4) e(3) by (simp_all add: kernel_step_def confined_def)
      show ?thesis
      proof (cases "r = 0")
        case True
        have "unat (kmalloc_vaddr i) = unat i * 1000 * PAGING64_PAGESZ"
          unfolding kmalloc_start [OF i31(1)] using i31(2) by (simp add: unat_of_nat macro_defs del: of_nat_mult)
        then have "pool_low \<lparr>kc_size = sz, kc_align = al, kc_storage = a\<rparr>"
          using r(2) True False sz i31(2)
          by (simp add: pool_low_def not_less word_le_nat_alt page_limit_def macro_defs)
        then obtain w3 where w3: "set_kcpool kmp (unat i) \<lparr>kc_size = sz, kc_align = al, kc_storage = a\<rparr> w2 = Some w3"
          "kernel_step kmp 0 w2 w3" "pools_up kmp w3"
          by (rule set_kcpool_kernel [OF k2 i31(2)])
        have "libkmem_cache_pool_create (Some c) sz al i w = Some (0, w3)"
          using False i c km e(1) r(1) True w3(1) by (auto simp: libkmem_cache_pool_create_def)
        then show ?thesis by (rule that) (use kernel_step_trans [OF s2 w3(2)] w3(3) in \<open>simp_all add: add.commute\<close>)
      next
        case no: False
        then have "r = - 1" using r(2) by blast
        moreover have "(ucast (- 1 :: addr_t) :: cint) \<noteq> 0" by code_simp
        ultimately have "libkmem_cache_pool_create (Some c) sz al i w = Some (- 1, w2)"
          using False i c km e(1) r(1) by (auto simp: libkmem_cache_pool_create_def)
        then show ?thesis by (rule that) (use s2 k2(3) in \<open>simp_all add: add.commute\<close>)
      qed
    qed
  qed
qed

text \<open>Taking a slot out of a pool, and putting it back.\<close>

lemma pool_low_take:
  assumes p: "pool_low p" and A: "sint (kc_align p) \<le> sint (kc_size p)"
  defines "q \<equiv> p\<lparr>kc_storage := kc_storage p + scast (kc_align p), kc_size := of_int (sint (kc_size p) - sint (kc_align p))\<rparr>"
  shows "c_int (sint (kc_size p) - sint (kc_align p)) = Some (sint (kc_size p) - sint (kc_align p))" and "pool_low q"
    and "unat (kc_storage p + scast (kc_align p)) \<le> page_limit * PAGING64_PAGESZ"
    and "q\<lparr>kc_storage := kc_storage q - scast (kc_align q), kc_size := kc_size q + kc_align q\<rparr> = p"
proof -
  let ?S = "unat (kc_size p)" and ?A = "unat (kc_align p)" and ?B = "unat (kc_storage p)"
  have l: "?S < 2 ^ 31" "?A < 2 ^ 31" "?B + ?S \<le> page_limit * PAGING64_PAGESZ" using p by (simp_all add: pool_low_def)
  note s = sint_small [OF l(1)] sint_small [OF l(2)]
  have AS: "?A \<le> ?S" using A s by linarith
  have "0 \<le> sint (kc_align p)" unfolding s(2) by (rule of_nat_0_le_iff)
  then have "0 \<le> sint (kc_size p) - sint (kc_align p)" "sint (kc_size p) - sint (kc_align p) < 2 ^ 31"
    using A sint_lt [of "kc_size p"] by simp_all
  then show "c_int (sint (kc_size p) - sint (kc_align p)) = Some (sint (kc_size p) - sint (kc_align p))" by (simp add: c_int_def)
  have al: "(scast (kc_align p) :: addr_t) = of_nat ?A" by (rule scast_int [OF s(2)])
  have "page_limit * PAGING64_PAGESZ < 2 ^ 64" by (simp add: page_limit_def macro_defs)
  then have "?B + ?A < 2 ^ 64" using l(3) AS by linarith
  then have "unat (of_nat (?B + ?A) :: addr_t) = ?B + ?A" by (simp only: unat_of_nat) simp
  then have st: "unat (kc_storage p + scast (kc_align p)) = ?B + ?A" by (simp add: al)
  then show "unat (kc_storage p + scast (kc_align p)) \<le> page_limit * PAGING64_PAGESZ" using l(3) AS by linarith
  have sz: "(of_int (sint (kc_size p) - sint (kc_align p)) :: cint) = kc_size p - kc_align p" by simp
  have "unat (kc_size p - kc_align p) = ?S - ?A" using AS by (simp add: unat_sub word_le_nat_alt)
  then show "pool_low q" using l st AS by (simp add: q_def pool_low_def sz)
  show "q\<lparr>kc_storage := kc_storage q - scast (kc_align q), kc_size := kc_size q + kc_align q\<rparr> = p"
    by (simp add: q_def)
qed

lemma cache_alloc_kernel:
  assumes c: "p_krnl c" and k: "kernel_ok kmp w" and inv: "vm_inv w" and up: "pools_up kmp w"
  obtains r w' where "libkmem_cache_alloc (Some c) pid rg w = Some (r, w')" and "kernel_step kmp 0 w w'"
proof -
  obtain m t where m: "w_mms w kmp = Some m" "mm_kcpooltbl m = Some t" "k_mm (w_os w) = Some kmp" "kernel_mm_ok m"
    using k up by (auto simp: kernel_ok_def pools_up_def)
  have t: "length t = PAGING_MAX_KCACHE_POOLS" "list_all pool_low t" using m by (simp_all add: kernel_mm_ok_def)
  have idle: "kernel_step kmp 0 w w" by (rule kernel_step_refl [OF inv k])
  have "\<exists>r a w'. kmem_cache_alloc (Some c) (- 1) rg pid 0 w = Some (r, a, w') \<and> kernel_step kmp 0 w w'"
  proof (cases "sint pid < 0 \<or> sint pid \<ge> int PAGING_MAX_KCACHE_POOLS")
    case True
    then show ?thesis using c m(3) idle by (auto simp: kmem_cache_alloc_def)
  next
    case False
    let ?i = "nat (sint pid)" let ?p = "t ! ?i"
    let ?q = "?p\<lparr>kc_storage := kc_storage ?p + scast (kc_align ?p), kc_size := of_int (sint (kc_size ?p) - sint (kc_align ?p))\<rparr>"
    have i: "?i < PAGING_MAX_KCACHE_POOLS" using False by linarith
    have ag: "arr_get t ?i = Some ?p" and low: "pool_low ?p" using i t by (simp_all add: arr_get_def list_all_length)
    show ?thesis
    proof (cases "kc_align ?p = 0 \<or> sint (kc_size ?p) < sint (kc_align ?p)")
      case True
      then show ?thesis using False c m ag idle by (auto simp: kmem_cache_alloc_def)
    next
      case slot: False
      then have "sint (kc_align ?p) \<le> sint (kc_size ?p)" by linarith
      note tk = pool_low_take [OF low this]
      obtain w1 where w1: "set_kcpool kmp ?i ?q w = Some w1" "kernel_step kmp 0 w w1" "pools_up kmp w1"
        by (rule set_kcpool_kernel [OF inv k up i tk(2)])
      have k1: "vm_inv w1" "kernel_ok kmp w1" using w1(2) by (simp_all add: kernel_step_def confined_def)
      obtain m1 where m1: "w_mms w1 kmp = Some m1" "kernel_mm_ok m1" "k_mm (w_os w1) = Some kmp" using k1(2) by (auto simp: kernel_ok_def)
      have run: "kmem_cache_alloc (Some c) (- 1) rg pid 0 w =
          (if 0 \<le> sint rg \<and> sint rg < int PAGING_MAX_SYMTBL_SZ then do {
             tb \<leftarrow> arr_set (mm_symrgtbl m1) (nat (sint rg))
               \<lparr>rg_vmaid = - 1, rg_start = kc_storage ?p, rg_end = kc_storage ?p + scast (kc_align ?p)\<rparr>;
             Some (0, kc_storage ?p, set_mm w1 kmp (m1\<lparr>mm_symrgtbl := tb\<rparr>))
           } else do {
             w \<leftarrow> set_kcpool kmp ?i ?p w1;
             Some (- 1, 0, w)
           })"
        using False slot c m ag tk(1) w1(1) m1(1) by (simp add: kmem_cache_alloc_def Let_def tk(4))
      show ?thesis
      proof (cases "0 \<le> sint rg \<and> sint rg < int PAGING_MAX_SYMTBL_SZ")
        case True
        let ?tb = "(mm_symrgtbl m1)[nat (sint rg) := \<lparr>rg_vmaid = - 1, rg_start = kc_storage ?p, rg_end = kc_storage ?p + scast (kc_align ?p)\<rparr>]"
        have "nat (sint rg) < PAGING_MAX_SYMTBL_SZ" using True by linarith
        then have "nat (sint rg) < length (mm_symrgtbl m1)" using m1(2) by (simp add: kernel_mm_ok_def)
        then have "kmem_cache_alloc (Some c) (- 1) rg pid 0 w = Some (0, kc_storage ?p, set_mm w1 kmp (m1\<lparr>mm_symrgtbl := ?tb\<rparr>))"
          using run True by (simp add: arr_set_def)
        moreover have "kernel_mm_ok (m1\<lparr>mm_symrgtbl := ?tb\<rparr>)"
          using m1(2) tk(3) by (auto simp: kernel_mm_ok_def list_all_iff dest!: set_update_subset_insert [THEN subsetD])
        then have "kernel_step kmp 0 w1 (set_mm w1 kmp (m1\<lparr>mm_symrgtbl := ?tb\<rparr>))"
          by (intro kernel_step_set [OF k1(1) m1(3,1)]) simp_all
        ultimately show ?thesis using kernel_step_trans [OF w1(2)] by fastforce
      next
        case out: False
        obtain w2 where w2: "set_kcpool kmp ?i ?p w1 = Some w2" "kernel_step kmp 0 w1 w2"
          by (rule set_kcpool_kernel [OF k1 w1(3) i low])
        then have "kmem_cache_alloc (Some c) (- 1) rg pid 0 w = Some (- 1, 0, w2)" using run out by auto
        then show ?thesis using kernel_step_trans [OF w1(2) w2(2)] by auto
      qed
    qed
  qed
  then obtain r a w' where "kmem_cache_alloc (Some c) (- 1) rg pid 0 w = Some (r, a, w')" "kernel_step kmp 0 w w'" by blast
  then show thesis using that [of "if r = - 1 \<or> r = 0 then - 1 else 0" w'] c m(3) by (simp add: libkmem_cache_alloc_def)
qed

section \<open>Copies\<close>

text \<open>Reading a kernel byte, whatever the region: the code is an error or a byte was read.\<close>

lemma read_kernel_total:
  assumes ok: "space_ok k c mp p w" and k: "kernel_ok kmp w" "kmp \<noteq> mp"
  obtains r v w' where "read_kernel_mem (Some c) vm rgid off x w = Some (r, v, w')" and "space_ok k c mp p w'" and "kernel_step kmp 0 w w'"
    and "vpage w' = vpage w"
proof -
  note c = space_caller [OF ok]
  obtain m where m: "k_mm (w_os w) = Some kmp" "w_mms w kmp = Some m" "kernel_mm_ok m" using k(1) by (auto simp: kernel_ok_def)
  have idle: "kernel_step kmp 0 w w" by (rule kernel_step_refl [OF c(3) k(1)])
  show thesis
  proof (cases "sint rgid < 0 \<or> sint rgid \<ge> int PAGING_MAX_SYMTBL_SZ")
    case True
    then show ?thesis using that [OF _ ok idle refl] c(4) by (auto simp: read_kernel_mem_def)
  next
    case False
    let ?i = "nat (sint rgid)"
    have "?i < PAGING_MAX_SYMTBL_SZ" using False by linarith
    then have rg: "arr_get (mm_symrgtbl m) ?i = Some (mm_symrgtbl m ! ?i)" "unat (rg_end (mm_symrgtbl m ! ?i)) \<le> page_limit * PAGING64_PAGESZ"
      using m(3) by (auto simp: kernel_mm_ok_def arr_get_def list_all_length)
    obtain a where a: "region_addr kmp rgid off w = Some a" using m(2) rg(1) by (simp add: region_addr_def)
    have low: "unat va < page_limit * PAGING64_PAGESZ" if "a = Some va" for va
      using a that m(2) rg by (auto simp: region_addr_def word_less_nat_alt not_le split: if_splits)
    show ?thesis
    proof (cases a)
      case None
      then show ?thesis using that [OF _ ok idle refl] c(4) m(1) a False by (simp add: read_kernel_mem_def)
    next
      case (Some va)
      let ?q = "unat va div PAGING64_PAGESZ"
      have q: "?q < page_limit" using low [OF Some] by (simp add: less_mult_imp_div_less)
      have kc: "caller_ok (as_kernel c w) kmp w" using m c(4) by (auto simp: caller_ok_def as_kernel_def kernel_mm_ok_def)
      have pg: "drop_bit PAGING64_ADDR_PT_SHIFT va = of_nat ?q" using page_of_word [of va] by (simp add: PAGING64_PAGESZ_def)
      have step: "kernel_step kmp 0 w w1" "space_ok k c mp p w1"
        if ch: "pt_changed kmp w w1" "vpage w1 kmp = vpage w kmp" and sn: "snap w1 = snap w" "w_hostmem w1 = w_hostmem w" for w1
      proof -
        note cw = pt_changed_world [OF ch(1)]
        have kp: "vm_kept w w1" by (rule vm_kept_view [OF c(3) cw(1) cw(5) [OF ch(2)] cw(2,3)])
        show s: "kernel_step kmp 0 w w1"
          by (rule kernel_step_tables(1) [OF tables_step_changed [OF ch(1)] sn(1)]) (use kp k(1) sn(2) in \<open>simp_all add: vm_kept_def\<close>)
        show "space_ok k c mp p w1"
          by (rule space_other [OF ok own_step_snap [of kmp _ _ "Suc k"]]) (use s k(2) m(1) in \<open>auto simp: kernel_step_def\<close>)
      qed
      show ?thesis
      proof (cases "epresent (vpage w kmp ?q)")
        case True
        have "kernel_source w kmp rgid off (unat va)"
          using False a Some True unsigned_less [of va, where ?'a = nat] by (simp add: kernel_source_def rgid_ok_def)
        then obtain v w1 where r: "read_kernel_mem (Some c) vm rgid off x w = Some (0, v, w1)" "vpage w1 = vpage w" "snap w1 = snap w"
          "w_hostmem w1 = w_hostmem w" "pt_changed kmp w w1"
          by (rule read_kernel_space [OF ok m(1) k(2)])
        show ?thesis by (rule that [OF r(1) step(2,1) r(2)]) (use r in simp_all)
      next
        case absent: False
        obtain w1 where ge: "pte_get_entry (Some (as_kernel c w)) (of_nat ?q) w = Some (ucast (vpage w kmp ?q), w1)"
          and w1: "pt_changed kmp w w1" "vpage w1 kmp = vpage w kmp" "w_hostmem w1 = w_hostmem w"
          by (rule pte_get_entry_page [OF kc q])
        have "read_kernel_mem (Some c) vm rgid off x w = Some (- 1, x, w1)"
          using c(4) m(1) a Some False ge absent by (simp add: read_kernel_mem_def kernel_phyaddr_def pg epresent_def)
        then show ?thesis by (rule that [OF _ step(2,1) pt_changed_world(5) [OF w1(1,2)]]) (use w1 snap_pte_get_entry [OF ge] in simp_all)
      qed
    qed
  qed
qed

text \<open>Writing a user byte, whatever the region.\<close>

lemma write_user_total:
  assumes ok: "space_ok k c mp p w" and h: "9 \<le> w_hostmem w"
  obtains r w' where "write_user_mem (Some c) vm rgid off v w = Some (r, w')" and "space_ok k c mp p w'"
    and "confined mp w w'" and "w_hostmem w \<le> w_hostmem w' + 9" and "snap w' = snap w"
proof (cases "write_target mp rgid off w")
  case (Some a)
  show thesis by (rule write_user_space [OF ok h Some]) (rule that)
next
  case None
  note c = space_caller [OF ok]
  have "write_user_mem (Some c) vm rgid off v w = Some (- 1, w)"
  proof (rule write_target_cases [OF ok, of rgid off])
    fix m i
    assume i: "sint rgid = int i" "i < PAGING_MAX_SYMTBL_SZ" "w_mms w mp = Some m" "arr_get (mm_symrgtbl m) i = Some (symrg w mp i)"
    have "region_addr mp rgid off w = Some None"
      using i write_target_none [OF None i(1,2)] by (auto simp: region_addr_def)
    then show ?thesis using c(5) by (simp add: write_user_mem_def)
  qed (use c(5) in \<open>simp add: write_user_mem_def\<close>)
  then show thesis by (rule that [OF _ ok]) (use confined_refl(1) [OF c(3)] in simp_all)
qed

text \<open>A step on the kernel's descriptor as a step of a process.\<close>

lemma kernel_step_own:
  assumes "kernel_step kmp h w w'" and "k_mm (w_os w) = Some kmp"
  shows "own_step k mp w w'"
proof -
  have cf: "confined kmp w w'" and sn: "snap w' = snap w" and k: "kernel_kept kmp w w'"
    using assms(1) by (simp_all add: kernel_step_def kernel_kept_def)
  note snapD [OF sn]
  moreover have "kernel_kept q w w'" for q
    using k kernel_kept_same [of w' w q] snapD [OF sn] cf by (cases "q = kmp") (simp_all add: confined_def)
  ultimately show ?thesis using cf assms(2) by (auto simp: own_step_def confined_def)
qed

lemma kernel_inst_done:
  assumes ok: "space_ok k c mp p w" and k: "kernel_ok kmp w" "kmp \<noteq> mp" and st: "kernel_step kmp h w w'"
  shows "inst_done k c mp p h w w'"
proof -
  have km: "k_mm (w_os w) = Some kmp" using k(1) by (simp add: kernel_ok_def)
  have "own_step (Suc k) kmp w w'" by (rule own_step_snap) (use st in \<open>simp_all add: kernel_step_def\<close>)
  then have "space_ok k c mp p w'" by (rule space_other [OF ok]) (use km k(2) in auto)
  then show ?thesis by (rule inst_doneI [OF kernel_step_own [OF st km] _ _ order_refl, rotated]) (use st in \<open>simp add: kernel_step_def\<close>)
qed

lemma copy_loop_total:
  assumes "space_ok k c mp p w" and "kernel_ok kmp w" and "kmp \<noteq> mp" and "9 * n \<le> w_hostmem w"
  shows "\<exists>r w'. copy_loop c s d off i n w = Some (r, w') \<and> space_ok k c mp p w' \<and> own_step k mp w w' \<and> w_hostmem w \<le> w_hostmem w' + 9 * n"
  using assms
proof (induction n arbitrary: i w)
  case 0
  then show ?case using own_step_snap [OF confined_refl(1) refl] space_caller(3) by simp
next
  case (Suc n)
  obtain r1 v w1 where rd: "read_kernel_mem (Some c) (- 1) s (ucast (off + i)) 0 w = Some (r1, v, w1)" "space_ok k c mp p w1" "kernel_step kmp 0 w w1"
    by (rule read_kernel_total [OF Suc.prems(1-3)])
  have k1: "own_step k mp w w1" "kernel_ok kmp w1" "w_hostmem w \<le> w_hostmem w1"
    using kernel_step_own [OF rd(3)] Suc.prems(2) rd(3) by (simp_all add: kernel_ok_def kernel_step_def)
  obtain r2 w2 where wr: "write_user_mem (Some c) (- 1) d (ucast (off + i)) v w1 = Some (r2, w2)" "space_ok k c mp p w2" "confined mp w1 w2"
    "w_hostmem w1 \<le> w_hostmem w2 + 9" "snap w2 = snap w1"
    by (rule write_user_total [OF rd(2)]) (use Suc.prems(4) k1(3) in simp)
  have o2: "own_step k mp w1 w2" by (rule own_step_snap [OF wr(3,5)])
  have k2: "kernel_ok kmp w2" using o2 k1(2) Suc.prems(3) by (simp add: own_step_def kernel_kept_def)
  have h2: "9 * n \<le> w_hostmem w2" using Suc.prems(4) k1(3) wr(4) by simp
  obtain r w' where ih: "copy_loop c s d off (i + 1) n w2 = Some (r, w')" "space_ok k c mp p w'" "own_step k mp w2 w'" "w_hostmem w2 \<le> w_hostmem w' + 9 * n"
    using Suc.IH [OF wr(2) k2 Suc.prems(3) h2] by blast
  show ?case
  proof (cases "r1 = 0 \<and> r2 = 0")
    case True
    then show ?thesis using rd(1) wr(1,4) ih k1(1,3) own_step_trans [OF own_step_trans [OF k1(1) o2] ih(3)] by auto
  next
    case False
    then show ?thesis using rd(1,2) wr(1,2,4) k1(1,3) own_step_trans [OF k1(1) o2] by (cases "r1 = 0") auto
  qed
qed

end
