(* ===== verification/Programs.thy ===== *)
theory Programs
  imports KernelCalls
begin

text \<open>
  Programs, run instruction by instruction through \<open>run\<close> in any order the scheduler chooses.  An interface of separated domains gives what follows from the behaviour of
  single instructions: every interleaving runs to its end, each process executes as many instructions as
  it was given turns, and nothing a process owns changes except in its own turns.
\<close>

section \<open>One instruction\<close>

text \<open>The instructions on user memory, with a register of the register file for
  the result of \<open>alloc\<close> and \<open>free\<close>, and the system calls other than the memory call.\<close>

definition user_inst :: "inst_t \<Rightarrow> bool" where
  "user_inst ins = (case opcode ins of
     CALC \<Rightarrow> True
   | ALLOC \<Rightarrow> unat (ucast (arg_1 ins) :: u32) < 10
   | FREE \<Rightarrow> unat (ucast (arg_0 ins) :: u32) < 10
   | READ \<Rightarrow> True
   | WRITE \<Rightarrow> True
   | SYSCALL \<Rightarrow> (ucast (arg_0 ins) :: u32) \<noteq> 17
   | _ \<Rightarrow> False)"

text \<open>The instructions on kernel memory: requests below 2 GB, for an identifier that is not negative as an \<open>int\<close>.\<close>

definition kernel_inst :: "inst_t \<Rightarrow> bool" where
  "kernel_inst ins = (case opcode ins of
     KMALLOC \<Rightarrow> unat (ucast (arg_0 ins) :: u32) + 4096 \<le> 2 ^ 31 \<and> unat (ucast (arg_1 ins) :: u32) < 2 ^ 31
   | KMEM_CACHE_CREATE \<Rightarrow> unat (ucast (arg_0 ins) :: u32) + 4096 \<le> 2 ^ 31
   | KMEM_CACHE_ALLOC \<Rightarrow> True
   | COPY_FROM_USER \<Rightarrow> True
   | COPY_TO_USER \<Rightarrow> True
   | _ \<Rightarrow> False)"

definition program_inst :: "inst_t \<Rightarrow> bool" where
  "program_inst ins \<longleftrightarrow> user_inst ins \<or> kernel_inst ins"

text \<open>\<open>kmem_cache_alloc\<close> reads the pool table without a test, so a program has to set it up first: it creates a
  pool with acceptable operands before it allocates from one.\<close>

definition creates_pool :: "inst_t \<Rightarrow> bool" where
  "creates_pool ins \<longleftrightarrow> opcode ins = KMEM_CACHE_CREATE \<and> (ucast (arg_0 ins) :: u32) \<noteq> 0 \<and> (ucast (arg_1 ins) :: u32) \<noteq> 0
     \<and> (ucast (arg_1 ins) :: u32) \<le> ucast (arg_0 ins)"

fun creates_first :: "inst_t list \<Rightarrow> bool" where
  "creates_first [] = True"
| "creates_first (ins # rest) \<longleftrightarrow> creates_pool ins \<or> opcode ins \<noteq> KMEM_CACHE_ALLOC \<and> creates_first rest"

lemma creates_first_user: "list_all user_inst code \<Longrightarrow> creates_first code"
  by (induction code) (auto simp: user_inst_def split: ins_opcode_t.splits)

text \<open>The pages an instruction can add to the address space, and the calls of the host's allocator
  it can take.\<close>

definition inst_pages :: "inst_t \<Rightarrow> nat" where
  "inst_pages ins = (if opcode ins = ALLOC then pages_for (arg_0 ins) else 0)"

definition inst_host :: "inst_t \<Rightarrow> nat" where
  "inst_host ins = (case opcode ins of
     ALLOC \<Rightarrow> 6 * pages_for (arg_0 ins) + 2 | FREE \<Rightarrow> 1 | READ \<Rightarrow> 9 | WRITE \<Rightarrow> 9
   | KMALLOC \<Rightarrow> 8 * pages_for (ucast (ucast (arg_0 ins) :: u32))
   | KMEM_CACHE_CREATE \<Rightarrow> 8 * pages_for (ucast (ucast (arg_0 ins) :: u32)) + 1
   | COPY_FROM_USER \<Rightarrow> 9 * unat (ucast (arg_3 ins) :: u32)
   | COPY_TO_USER \<Rightarrow> 9 * unat (ucast (arg_3 ins) :: u32)
   | _ \<Rightarrow> 0)"

text \<open>The store an instruction asks for, an address and a byte; and what a store does to the pages
  of the descriptor when the instruction returns \<open>r\<close>.\<close>

definition inst_store :: "inst_t \<Rightarrow> mm_ptr \<Rightarrow> world \<Rightarrow> (nat \<times> byte) option" where
  "inst_store ins mp w = (if opcode ins = WRITE
     then map_option (\<lambda>a. (a, ucast (arg_0 ins))) (write_target mp (ucast (arg_1 ins)) (arg_2 ins) w) else None)"

definition stores :: "mm_ptr \<Rightarrow> (nat \<times> byte) option \<Rightarrow> int \<Rightarrow> world \<Rightarrow> world \<Rightarrow> bool" where
  "stores mp e r w w' = (case e of
     None \<Rightarrow> calm mp w w'
   | Some (a, v) \<Rightarrow>
       if r = 0 then stored mp a v w w'
         \<and> (\<forall>q. q \<noteq> a div PAGING64_PAGESZ \<and> page_bytes w mp q \<noteq> None \<longrightarrow> page_bytes w' mp q = page_bytes w mp q)
       else calm mp w w')"

lemma inst_store_pcb [simp]: "inst_store ins mp (w\<lparr>w_pcbs := x\<rparr>) = inst_store ins mp w"
  by (simp add: inst_store_def write_target_def symrg_def)

lemma stores_pcb [simp]: "stores mp e r (w\<lparr>w_pcbs := x\<rparr>) w' = stores mp e r w w'"
  by (simp add: stores_def calm_def stored_def split: option.splits)

lemma stores_calm [simp]: "stores mp e r w w"  if "e = None"
  using that by (simp add: stores_def)

lemma other_syscall:
  assumes "nr \<noteq> 17"
  shows "\<exists>r. libsyscall c nr a b d w = Some (r, w)"
proof -
  have "unat nr \<noteq> 17" using assms by (auto simp: word_unat_eq_iff)
  then show ?thesis by (auto simp: libsyscall_def do_syscall_def syscall_tbl_def split: option.splits sys_entry.splits)
qed

lemma exec_user_inst:
  assumes ok: "space_ok k c mp p w" and rg: "length (p_regs c) = 10" and u: "user_inst ins"
    and b: "(p + inst_pages ins) * PAGING64_PAGESZ < 2 ^ 31" "inst_host ins \<le> w_hostmem w"
  obtains r w' where "exec_inst ins k c w = Some (r, w')" and "op_done k c mp (p + inst_pages ins) (inst_host ins) w w'"
    and "stores mp (inst_store ins mp w) r w w'" and "opcode ins = WRITE \<and> inst_store ins mp w = None \<longrightarrow> r = - 1"
proof -
  have idle: "op_done k c mp (p + inst_pages ins) (inst_host ins) w w"
    by (rule op_doneI [OF confined_refl(1) [OF space_caller(3) [OF ok]] refl _ ok]) simp_all
  show thesis
  proof (cases "opcode ins")
    case CALC
    then show ?thesis using that [of _ w] idle by (simp add: exec_inst_def inst_store_def)
  next
    case ALLOC
    have "request_ok p (arg_0 ins) w" "unat (ucast (arg_1 ins) :: u32) < 10"
      using b u ALLOC by (simp_all add: request_ok_def inst_pages_def inst_host_def user_inst_def)
    then show ?thesis
      by (rule liballoc_space [OF ok _ _ rg]) (use that ALLOC in \<open>simp add: exec_inst_def inst_pages_def inst_host_def inst_store_def stores_def\<close>)
  next
    case FREE
    have "0 < w_hostmem w" "unat (ucast (arg_0 ins) :: u32) < 10"
      using b u FREE by (simp_all add: inst_host_def user_inst_def)
    then show ?thesis
      by (rule libfree_space [OF ok _ _ rg]) (use that FREE in \<open>simp add: exec_inst_def inst_pages_def inst_host_def inst_store_def stores_def\<close>)
  next
    case READ
    then have "9 \<le> w_hostmem w" using b by (simp add: inst_host_def)
    then show ?thesis
      by (rule libread_space [OF ok, of 0 "ucast (arg_0 ins)" "arg_1 ins"])
        (use that READ in \<open>simp add: exec_inst_def inst_pages_def inst_host_def inst_store_def stores_def\<close>)
  next
    case WRITE
    let ?t = "write_target mp (ucast (arg_1 ins)) (arg_2 ins) w"
    have "9 \<le> w_hostmem w" using b WRITE by (simp add: inst_host_def)
    then obtain r w' where s: "libwrite k (ucast (arg_0 ins)) (ucast (arg_1 ins)) (arg_2 ins) w = Some (r, w')"
      "r = 0 \<or> r = - 1" "op_done k c mp p 9 w w'" "r = 0 \<Longrightarrow> \<exists>a. ?t = Some a \<and> stored mp a (ucast (arg_0 ins)) w w'"
      "\<And>q. r = - 1 \<or> map_option (\<lambda>a. a div PAGING64_PAGESZ) ?t \<noteq> Some q \<Longrightarrow>
         page_bytes w mp q \<noteq> None \<Longrightarrow> page_bytes w' mp q = page_bytes w mp q"
      by (rule libwrite_space [OF ok, of "ucast (arg_0 ins)" "ucast (arg_1 ins)" "arg_2 ins"]) blast
    have run: "exec_inst ins k c w = Some (r, w')" and e: "inst_store ins mp w = map_option (\<lambda>a. (a, ucast (arg_0 ins))) ?t"
      using s(1) WRITE by (simp_all add: exec_inst_def inst_store_def)
    have "stores mp (inst_store ins mp w) r w w'"
      using s(2,4,5) by (cases ?t) (auto simp: e stores_def calm_def)
    moreover have "inst_store ins mp w = None \<longrightarrow> r = - 1" using s(2,4) by (auto simp: e)
    ultimately show ?thesis using that [OF run] s(3) WRITE by (simp add: inst_pages_def inst_host_def)
  next
    case SYSCALL
    then have "(ucast (arg_0 ins) :: u32) \<noteq> 17" using u by (simp add: user_inst_def)
    from other_syscall [OF this, of c "arg_1 ins" "arg_2 ins" "arg_3 ins" w]
    obtain r where "exec_inst ins k c w = Some (r, w)" using SYSCALL by (auto simp: exec_inst_def)
    then show ?thesis using that idle SYSCALL by (simp add: inst_store_def)
  qed (use u in \<open>simp_all add: user_inst_def\<close>)
qed

text \<open>An instruction on kernel memory returns when the kernel's descriptor is in order, and keeps it so.\<close>

lemma exec_kernel_inst:
  assumes ok: "space_ok k c mp p w" and kn: "kernel_ok kmp w" "kmp \<noteq> mp" and u: "kernel_inst ins"
    and h: "inst_host ins \<le> w_hostmem w" and up: "opcode ins = KMEM_CACHE_ALLOC \<Longrightarrow> pools_up kmp w"
  obtains r w' where "exec_inst ins k c w = Some (r, w')" and "inst_done k c mp p (inst_host ins) w w'"
    and "pools_up kmp w \<or> creates_pool ins \<longrightarrow> pools_up kmp w'"
proof -
  note c = space_caller [OF ok] and dn = kernel_inst_done [OF ok kn] and that' = that
  have idle: "kernel_step kmp 0 w w" by (rule kernel_step_refl [OF c(3) kn(1)])
  have finish: thesis if "exec_inst ins k c w = Some (r, w')" "inst_done k c mp p (inst_host ins) w w'" "creates_pool ins \<Longrightarrow> pools_up kmp w'" for r w'
    by (rule that' [OF that(1,2)]) (use that(2,3) kn(2) in \<open>auto simp: inst_done_def own_step_def kernel_kept_def\<close>)
  have copy: thesis
    if o: "opcode ins \<noteq> KMEM_CACHE_CREATE" "inst_host ins = 9 * unat (ucast (arg_3 ins) :: u32)"
      and run: "exec_inst ins k c w = (if (ucast (arg_3 ins) :: u32) = 0 then Some (- 1, w)
        else copy_loop c (ucast (arg_0 ins)) (ucast (arg_1 ins)) (ucast (arg_2 ins)) 0 (unat (ucast (arg_3 ins) :: u32)) w)"
  proof (cases "(ucast (arg_3 ins) :: u32) = 0")
    case True
    then have "exec_inst ins k c w = Some (- 1, w)" "inst_host ins = 0" using run o(2) by simp_all
    then show ?thesis using finish dn [OF idle] o(1) by (simp add: creates_pool_def)
  next
    case False
    have "9 * unat (ucast (arg_3 ins) :: u32) \<le> w_hostmem w" using h o(2) by simp
    then obtain r w' where cl: "copy_loop c (ucast (arg_0 ins)) (ucast (arg_1 ins)) (ucast (arg_2 ins)) 0 (unat (ucast (arg_3 ins) :: u32)) w = Some (r, w')"
      "space_ok k c mp p w'" "own_step k mp w w'" "w_hostmem w \<le> w_hostmem w' + inst_host ins"
      using copy_loop_total [OF ok kn] o(2) by metis
    have "inst_done k c mp p (inst_host ins) w w'" by (rule inst_doneI [OF cl(3,4,2) order_refl])
    then show ?thesis using run False cl(1) o(1) by (intro finish) (simp_all add: creates_pool_def)
  qed
  show thesis
  proof (cases "opcode ins")
    case KMALLOC
    have a: "unat (ucast (arg_0 ins) :: u32) + 4096 \<le> 2 ^ 31" "unat (ucast (arg_1 ins) :: u32) < 2 ^ 31"
      "8 * pages_for (ucast (ucast (arg_0 ins) :: u32)) \<le> w_hostmem w"
      using u h KMALLOC by (simp_all add: kernel_inst_def inst_host_def)
    obtain r w' where r: "libkmem_malloc (Some c) (ucast (arg_0 ins)) (ucast (arg_1 ins)) w = Some (r, w')"
      "kernel_step kmp (8 * pages_for (ucast (ucast (arg_0 ins) :: u32))) w w'"
      by (rule libkmem_malloc_kernel [OF c(4) kn(1) c(3) a(2,1,3)])
    show ?thesis by (rule finish) (use r(1) dn [OF r(2)] KMALLOC in \<open>simp_all add: exec_inst_def inst_host_def creates_pool_def\<close>)
  next
    case KMEM_CACHE_CREATE
    have a: "unat (ucast (arg_0 ins) :: u32) + 4096 \<le> 2 ^ 31" "8 * pages_for (ucast (ucast (arg_0 ins) :: u32)) + 1 \<le> w_hostmem w"
      using u h KMEM_CACHE_CREATE by (simp_all add: kernel_inst_def inst_host_def)
    show ?thesis
      by (rule pool_create_kernel [OF c(4) kn(1) c(3) a, of "ucast (arg_1 ins)" "ucast (arg_2 ins)"], rule finish)
        (use dn KMEM_CACHE_CREATE in \<open>auto simp: exec_inst_def inst_host_def creates_pool_def\<close>)
  next
    case KMEM_CACHE_ALLOC
    show ?thesis
      by (rule cache_alloc_kernel [OF c(4) kn(1) c(3) up [OF KMEM_CACHE_ALLOC], of "ucast (arg_0 ins)" "ucast (arg_1 ins)"], rule finish)
        (use dn KMEM_CACHE_ALLOC in \<open>auto simp: exec_inst_def inst_host_def creates_pool_def\<close>)
  next
    case COPY_FROM_USER
    then show ?thesis by (intro copy) (simp_all add: exec_inst_def libkmem_copy_from_user_def inst_host_def)
  next
    case COPY_TO_USER
    then show ?thesis by (intro copy) (simp_all add: exec_inst_def libkmem_copy_to_user_def inst_host_def)
  qed (use u in \<open>simp_all add: kernel_inst_def\<close>)
qed

text \<open>Both kinds of instructions: the kernel's descriptor stays in order, and its pool table exists once it was
  created.\<close>

lemma exec_program_inst:
  assumes ok: "space_ok k c mp p w" and rg: "length (p_regs c) = 10" and u: "program_inst ins"
    and b: "(p + inst_pages ins) * PAGING64_PAGESZ < 2 ^ 31" "inst_host ins \<le> w_hostmem w"
    and kn: "kernel_ok kmp w" "kmp \<noteq> mp" and cr: "pools_up kmp w \<or> creates_first (ins # rest)"
  obtains r w' where "exec_inst ins k c w = Some (r, w')" and "inst_done k c mp (p + inst_pages ins) (inst_host ins) w w'"
    and "user_inst ins \<longrightarrow> confined mp w w' \<and> stores mp (inst_store ins mp w) r w w' \<and> (opcode ins = WRITE \<and> inst_store ins mp w = None \<longrightarrow> r = - 1)"
    and "kernel_ok kmp w'" and "pools_up kmp w' \<or> creates_first rest"
proof -
  have kernel: "kernel_ok kmp w'" "pools_up kmp w \<Longrightarrow> pools_up kmp w'" if "inst_done k c mp n h w w'" for n h w'
    using that kn by (simp_all add: inst_done_def own_step_def kernel_kept_def)
  show thesis
  proof (cases "user_inst ins")
    case True
    then have "\<not> creates_pool ins" by (auto simp: user_inst_def creates_pool_def)
    then have cr': "pools_up kmp w \<or> creates_first rest" using cr by auto
    obtain r w' where e: "exec_inst ins k c w = Some (r, w')" "op_done k c mp (p + inst_pages ins) (inst_host ins) w w'"
      "stores mp (inst_store ins mp w) r w w'" "opcode ins = WRITE \<and> inst_store ins mp w = None \<longrightarrow> r = - 1"
      by (rule exec_user_inst [OF ok rg True b])
    then have d: "inst_done k c mp (p + inst_pages ins) (inst_host ins) w w'" "confined mp w w'" by (simp_all add: op_done_def)
    show ?thesis by (rule that [OF e(1) d(1)]) (use d(2) e(3,4) kernel [OF d(1)] cr' in auto)
  next
    case False
    then have ki: "kernel_inst ins" "inst_pages ins = 0" using u by (auto simp: program_inst_def kernel_inst_def inst_pages_def)
    have up: "pools_up kmp w" if "opcode ins = KMEM_CACHE_ALLOC" using cr that by (auto simp: creates_pool_def)
    obtain r w' where e: "exec_inst ins k c w = Some (r, w')" "inst_done k c mp p (inst_host ins) w w'"
      "pools_up kmp w \<or> creates_pool ins \<longrightarrow> pools_up kmp w'"
      by (rule exec_kernel_inst [OF ok kn ki(1) b(2) up])
    show ?thesis by (rule that [OF e(1)]) (use e(2,3) ki(2) False cr kernel [OF e(2)] in auto)
  qed
qed

section \<open>One turn\<close>

text \<open>The instructions a process has left.\<close>

definition code_left :: "pcb_t \<Rightarrow> inst_t list" where
  "code_left c = drop (unat (p_pc c)) (p_code c)"

text \<open>A process whose remaining program fits into its address space, beside a kernel whose descriptor is in order and has
  a pool table when the program needs one.\<close>

definition kernel_ready :: "mm_ptr \<Rightarrow> inst_t list \<Rightarrow> world \<Rightarrow> bool" where
  "kernel_ready mp code w \<longleftrightarrow> (\<exists>kmp. kernel_ok kmp w \<and> kmp \<noteq> mp \<and> (pools_up kmp w \<or> creates_first code))"

definition runnable :: "pcb_ptr \<Rightarrow> mm_ptr \<Rightarrow> world \<Rightarrow> bool" where
  "runnable k mp w \<longleftrightarrow> (\<exists>c p. space_ok k c mp p w \<and> length (p_regs c) = 10 \<and> list_all program_inst (code_left c)
     \<and> (p + sum_list (map inst_pages (code_left c))) * PAGING64_PAGESZ < 2 ^ 31 \<and> length (p_code c) < 2 ^ 32
     \<and> kernel_ready mp (code_left c) w)"

definition left_of :: "world \<Rightarrow> pcb_ptr \<Rightarrow> inst_t list" where
  "left_of w k = (case w_pcbs w k of None \<Rightarrow> [] | Some c \<Rightarrow> code_left c)"

text \<open>The calls of the host's allocator the rest of its program can take.\<close>

definition host_need :: "world \<Rightarrow> pcb_ptr \<Rightarrow> nat" where
  "host_need w k = sum_list (map inst_host (left_of w k))"

lemma space_known: "space_ok k c mp p w \<Longrightarrow> w_pcbs w k = Some c"
  by (simp add: space_ok_def heap_ok_def known_def)

lemma runnable_inv: "runnable k mp w \<Longrightarrow> vm_inv w"
  by (auto simp: runnable_def space_ok_def)

lemma fetch:
  assumes "unat (p_pc c) < length (p_code c)" and "length (p_code c) < 2 ^ 32"
  shows "code_left c = p_code c ! unat (p_pc c) # code_left (c\<lparr>p_pc := p_pc c + 1\<rparr>)"
proof -
  have "unat (p_pc c + 1) = unat (p_pc c) + 1" using assms by (simp add: unat_word_ariths)
  then show ?thesis using assms(1) by (simp add: code_left_def Cons_nth_drop_Suc)
qed

lemma run_user:
  assumes rd: "runnable k mp w" and h: "host_need w k \<le> w_hostmem w"
  obtains r w' where "run k w = Some (r, w')" and "runnable k mp w'" and "own_step k mp w w'" and "left_of w' k = tl (left_of w k)"
    and "host_need w k + w_hostmem w' \<ge> host_need w' k + w_hostmem w"
    and "\<And>ins rest. left_of w k = ins # rest \<Longrightarrow> user_inst ins \<Longrightarrow> confined mp w w' \<and> stores mp (inst_store ins mp w) r w w'
       \<and> (opcode ins = WRITE \<and> inst_store ins mp w = None \<longrightarrow> r = - 1)"
proof -
  obtain c p kmp where c: "space_ok k c mp p w" "length (p_regs c) = 10" "list_all program_inst (code_left c)"
    "(p + sum_list (map inst_pages (code_left c))) * PAGING64_PAGESZ < 2 ^ 31" "length (p_code c) < 2 ^ 32"
    and kn: "kernel_ok kmp w" "kmp \<noteq> mp" "pools_up kmp w \<or> creates_first (code_left c)"
    using rd by (auto simp: runnable_def kernel_ready_def)
  have k: "w_pcbs w k = Some c" by (rule space_known [OF c(1)])
  show thesis
  proof (cases "unat (p_pc c) < length (p_code c)")
    case False
    then have "run k w = Some (1, w)" "left_of w k = []" using k by (simp_all add: run_def left_of_def code_left_def)
    then show ?thesis using that rd runnable_inv [OF rd] by (simp add: own_step_snap)
  next
    case True
    let ?i = "p_code c ! unat (p_pc c)" and ?c = "c\<lparr>p_pc := p_pc c + 1\<rparr>"
    let ?w = "w\<lparr>w_pcbs := (w_pcbs w)(k \<mapsto> ?c)\<rparr>"
    have cl: "code_left c = ?i # code_left ?c" by (rule fetch [OF True c(5)])
    have l: "left_of w k = ?i # code_left ?c" using k cl by (simp add: left_of_def)
    have s: "space_ok k ?c mp p ?w" by (rule space_pcb [OF c(1)]) simp_all
    have u: "program_inst ?i" "(p + inst_pages ?i) * PAGING64_PAGESZ < 2 ^ 31" "inst_host ?i \<le> w_hostmem ?w"
      using c(3,4) cl h l by (simp_all add: host_need_def macro_defs)
    have r: "length (p_regs ?c) = 10" using c(2) by simp
    have kw: "kernel_ok kmp ?w" "pools_up kmp ?w \<or> creates_first (?i # code_left ?c)"
      using kn(1,3) cl by (simp_all add: kernel_ok_def pools_up_def)
    obtain r w' where ex: "exec_inst ?i k ?c ?w = Some (r, w')" "inst_done k ?c mp (p + inst_pages ?i) (inst_host ?i) ?w w'"
      "user_inst ?i \<longrightarrow> confined mp ?w w' \<and> stores mp (inst_store ?i mp ?w) r ?w w' \<and> (opcode ?i = WRITE \<and> inst_store ?i mp ?w = None \<longrightarrow> r = - 1)"
      "kernel_ok kmp w'" "pools_up kmp w' \<or> creates_first (code_left ?c)"
      by (rule exec_program_inst [OF s r u kw(1) kn(2) kw(2)])
    have kr: "kernel_ready mp (code_left ?c) w'" unfolding kernel_ready_def using ex(4,5) kn(2) by blast
    obtain c' q where c': "own_step k mp ?w w'" "w_hostmem w \<le> w_hostmem w' + inst_host ?i" "space_ok k c' mp q w'"
      "q \<le> p + inst_pages ?i" "length (p_regs c') = 10" "c' = ?c\<lparr>p_regs := p_regs c'\<rparr>"
      using ex(2) r by (auto simp: inst_done_def)
    have "p_code c' = p_code c" "p_pc c' = p_pc c + 1"
      using arg_cong [OF c'(6), of p_code] arg_cong [OF c'(6), of p_pc] by simp_all
    then have code: "code_left c' = code_left ?c" "length (p_code c') < 2 ^ 32" using c(5) by (simp_all add: code_left_def)
    have "runnable k mp w'" unfolding runnable_def
      using c'(3-5) code c(3,4) cl kr by (intro exI [of _ c'] exI [of _ q]) (simp add: macro_defs)
    moreover have "own_step k mp w w'"
      by (rule own_step_trans [OF own_step_pcb [OF space_caller(3) [OF c(1)]] c'(1)])
    moreover have lf: "left_of w' k = code_left ?c" using space_known [OF c'(3)] code by (simp add: left_of_def)
    moreover have "host_need w k + w_hostmem w' \<ge> host_need w' k + w_hostmem w"
      using c'(2) by (simp add: host_need_def l lf)
    moreover have "run k w = Some (r, w')" using k True ex(1) by (simp add: run_def Let_def)
    moreover have "confined mp w w'" if "confined mp ?w w'" using that by (simp add: confined_def)
    ultimately show ?thesis using that l ex(3) by simp
  qed
qed

section \<open>Separated domains\<close>

text \<open>A sequence of turns.\<close>

fun turns :: "('d \<Rightarrow> 's \<Rightarrow> 's option) \<Rightarrow> 'd list \<Rightarrow> 's \<Rightarrow> 's option" where
  "turns st [] s = Some s"
| "turns st (d # ds) s = Option.bind (st d s) (turns st ds)"

lemma turns_append: "turns st (ds @ es) s = Option.bind (turns st ds s) (turns st es)"
  by (induction ds arbitrary: s) (auto split: bind_splits)

text \<open>Domains that take turns on a shared state: a turn succeeds and keeps the invariant, and it
  leaves the view of every other domain as it is.\<close>

locale separated =
  fixes D :: "'d set" and st :: "'d \<Rightarrow> 's \<Rightarrow> 's option" and good :: "'s \<Rightarrow> bool" and view :: "'d \<Rightarrow> 's \<Rightarrow> 'v"
  assumes progress: "d \<in> D \<Longrightarrow> good s \<Longrightarrow> \<exists>s'. st d s = Some s' \<and> good s'"
    and respects: "d \<in> D \<Longrightarrow> e \<in> D \<Longrightarrow> e \<noteq> d \<Longrightarrow> good s \<Longrightarrow> st d s = Some s' \<Longrightarrow> view e s' = view e s"
begin

lemma turns_respect:
  assumes "set ds \<subseteq> D" and "good s"
  shows "\<exists>s'. turns st ds s = Some s' \<and> good s' \<and> (\<forall>e \<in> D - set ds. view e s' = view e s)"
  using assms
proof (induction ds arbitrary: s)
  case (Cons d ds)
  obtain s1 where s1: "st d s = Some s1" "good s1" using progress [of d s] Cons.prems by auto
  obtain s' where "turns st ds s1 = Some s'" "good s'" "\<forall>e \<in> D - set ds. view e s' = view e s1"
    using Cons.IH [OF _ s1(2)] Cons.prems(1) by auto
  then show ?case using s1(1) respects [of d _ s s1] Cons.prems by auto
qed simp

text \<open>The view of a domain after its last turn is final.\<close>

lemma last_turn_final:
  assumes "set (ds @ es) \<subseteq> D" and "good s" and "e \<in> D - set es"
  obtains s1 s' where "turns st ds s = Some s1" and "turns st (ds @ es) s = Some s'" and "good s'" and "view e s' = view e s1"
proof -
  obtain s1 where s1: "turns st ds s = Some s1" "good s1" using turns_respect [of ds s] assms(1,2) by auto
  then obtain s' where "turns st es s1 = Some s'" "good s'" "view e s' = view e s1"
    using turns_respect [of es s1] assms(1,3) by auto
  then show thesis using that s1(1) by (simp add: turns_append)
qed

end

text \<open>Domains with a number of turns left that their own turns count down.\<close>

locale counted = separated D st good view
  for D :: "'d set" and st :: "'d \<Rightarrow> 's \<Rightarrow> 's option" and good :: "'s \<Rightarrow> bool" and view :: "'d \<Rightarrow> 's \<Rightarrow> 'v" +
  fixes todo :: "'v \<Rightarrow> nat"
  assumes counts: "d \<in> D \<Longrightarrow> good s \<Longrightarrow> st d s = Some s' \<Longrightarrow> todo (view d s') = todo (view d s) - 1"
begin

lemma turns_count:
  assumes "set ds \<subseteq> D" and "good s" and "e \<in> D" and "turns st ds s = Some s'"
  shows "todo (view e s') = todo (view e s) - count_list ds e"
  using assms
proof (induction ds arbitrary: s)
  case (Cons d ds)
  obtain s1 where s1: "st d s = Some s1" "good s1" using progress [of d s] Cons.prems(1,2) by auto
  then have "todo (view e s') = todo (view e s1) - count_list ds e" using Cons by simp
  then show ?case
    using s1(1) counts [of d s s1] respects [of d e s s1] Cons.prems(1-3) by (cases "e = d") auto
qed simp

end

section \<open>The processes as separated domains\<close>

definition turn :: "pcb_ptr \<Rightarrow> world \<Rightarrow> world option" where
  "turn k w = map_option snd (run k w)"

text \<open>A population of processes with descriptors of their own, all runnable, and a host with memory
  for what is left of their programs.\<close>

definition population :: "pcb_ptr set \<Rightarrow> (pcb_ptr \<Rightarrow> mm_ptr) \<Rightarrow> world \<Rightarrow> bool" where
  "population D desc w \<longleftrightarrow> finite D \<and> inj_on desc D \<and> (\<forall>k \<in> D. runnable k (desc k) w)
     \<and> (\<Sum>k \<in> D. host_need w k) \<le> w_hostmem w"

text \<open>What a process owns: its control block, its descriptor with page tables, areas and symbols,
  and the contents of its pages.\<close>

type_synonym process_view = "pcb_t option \<times> mm_struct option \<times> (nat \<Rightarrow> byte list option)"

definition process_view :: "(pcb_ptr \<Rightarrow> mm_ptr) \<Rightarrow> pcb_ptr \<Rightarrow> world \<Rightarrow> process_view" where
  "process_view desc k w = (w_pcbs w k, w_mms w (desc k), page_bytes w (desc k))"

definition view_todo :: "process_view \<Rightarrow> nat" where
  "view_todo v = (case fst v of None \<Rightarrow> 0 | Some c \<Rightarrow> length (code_left c))"

lemma view_todo_left: "view_todo (process_view desc k w) = length (left_of w k)"
  by (simp add: view_todo_def process_view_def left_of_def split: option.splits)

lemma runnable_user: "runnable k mp w \<Longrightarrow> k_mm (w_os w) \<noteq> Some mp"
  by (auto simp: runnable_def kernel_ready_def kernel_ok_def)

lemma own_step_view:
  "own_step k (desc k) w w' \<Longrightarrow> runnable j (desc j) w \<Longrightarrow> j \<noteq> k \<Longrightarrow> desc j \<noteq> desc k \<Longrightarrow>
   process_view desc j w' = process_view desc j w"
  using runnable_user [of j "desc j" w] unfolding own_step_def process_view_def by metis

lemma kernel_ready_keep: "kernel_ready mq code w \<Longrightarrow> (\<And>kmp. kernel_ok kmp w \<Longrightarrow> kernel_kept kmp w w') \<Longrightarrow> kernel_ready mq code w'"
  unfolding kernel_ready_def kernel_kept_def by blast

lemma runnable_other:
  assumes rd: "runnable j mq w" and st: "own_step k mp w w'" "runnable k mp w" and ne: "j \<noteq> k" "mq \<noteq> mp"
  shows "runnable j mq w'"
proof -
  note u = runnable_user [OF rd] runnable_user [OF st(2)]
  have "kernel_kept kmp w w'" if "kernel_ok kmp w" for kmp
    using that st(1) u(2) by (cases "kmp = mp") (simp_all add: own_step_def kernel_ok_def)
  then have "kernel_ready mq code w'" if "kernel_ready mq code w" for code by (rule kernel_ready_keep [OF that])
  then show ?thesis using rd space_other [OF _ st(1) ne u(1)] unfolding runnable_def by blast
qed

lemma population_turn:
  assumes pop: "population D desc w" and k: "k \<in> D"
  obtains w' where "turn k w = Some w'" and "population D desc w'" and "left_of w' k = tl (left_of w k)"
    and "own_step k (desc k) w w'"
    and "(\<Sum>j \<in> D. host_need w j) + w_hostmem w' \<ge> (\<Sum>j \<in> D. host_need w' j) + w_hostmem w"
proof -
  have f: "finite D" "inj_on desc D" and rd: "\<And>j. j \<in> D \<Longrightarrow> runnable j (desc j) w"
    and hn: "host_need w k + (\<Sum>j \<in> D - {k}. host_need w j) \<le> w_hostmem w"
    using pop k by (simp_all add: population_def flip: sum.remove)
  obtain r w' where s: "run k w = Some (r, w')" "runnable k (desc k) w'" "own_step k (desc k) w w'"
    "left_of w' k = tl (left_of w k)" "host_need w k + w_hostmem w' \<ge> host_need w' k + w_hostmem w"
    by (rule run_user [OF rd [OF k]]) (use hn in auto)
  have o: "j \<noteq> k" "desc j \<noteq> desc k" if "j \<in> D - {k}" for j using that k f(2) by (auto simp: inj_on_def)
  have "host_need w' j = host_need w j" if "j \<in> D - {k}" for j
    using own_step_view [OF s(3) rd o [OF that]] that by (simp add: host_need_def left_of_def process_view_def)
  then have "(\<Sum>j \<in> D - {k}. host_need w' j) = (\<Sum>j \<in> D - {k}. host_need w j)" by (rule sum.cong [OF refl])
  then have sm: "(\<Sum>j \<in> D. host_need w j) + w_hostmem w' \<ge> (\<Sum>j \<in> D. host_need w' j) + w_hostmem w"
    using s(5) by (simp add: sum.remove [OF f(1) k])
  then have "(\<Sum>j \<in> D. host_need w' j) \<le> w_hostmem w'" using hn by (simp add: sum.remove [OF f(1) k])
  moreover have "runnable j (desc j) w'" if "j \<in> D" for j
    using s(2) runnable_other [OF rd [OF that] s(3) rd [OF k]] o [of j] that by (cases "j = k") auto
  ultimately have "population D desc w'" using f by (simp add: population_def)
  then show thesis using that s sm by (simp add: turn_def)
qed

interpretation procs: counted D turn "population D desc" "process_view desc" view_todo
  for D :: "pcb_ptr set" and desc :: "pcb_ptr \<Rightarrow> mm_ptr"
proof unfold_locales
  fix k w
  assume "k \<in> D" and "population D desc w"
  then show "\<exists>w'. turn k w = Some w' \<and> population D desc w'" by (metis population_turn)
next
  fix k j w w'
  assume "k \<in> D" "j \<in> D" "j \<noteq> k" "population D desc w" and run: "turn k w = Some w'"
  then have "own_step k (desc k) w w'" "runnable j (desc j) w" "desc j \<noteq> desc k"
    by (metis option.inject population_turn) (use \<open>k \<in> D\<close> \<open>j \<in> D\<close> \<open>j \<noteq> k\<close> \<open>population D desc w\<close> in \<open>auto simp: population_def inj_on_def\<close>)
  then show "process_view desc j w' = process_view desc j w" using own_step_view \<open>j \<noteq> k\<close> by blast
next
  fix k w w'
  assume "k \<in> D" "population D desc w" "turn k w = Some w'"
  then have "left_of w' k = tl (left_of w k)" by (metis option.inject population_turn)
  then show "view_todo (process_view desc k w') = view_todo (process_view desc k w) - 1" by (simp add: view_todo_left)
qed

section \<open>Two processes\<close>

text \<open>Two processes, each with an area of one page that is not mapped yet and a region of 300 bytes in it,
  on a machine with two frames of RAM and of swap: one writes to its region and allocates another, the
  other allocates one, sets up a cache pool of the kernel, takes a slot and copies it to its region.\<close>

definition ex_user :: "ins_opcode_t \<Rightarrow> arg_t \<Rightarrow> arg_t \<Rightarrow> arg_t \<Rightarrow> inst_t" where
  "ex_user op x y z = \<lparr>opcode = op, arg_0 = x, arg_1 = y, arg_2 = z, arg_3 = 0\<rparr>"

definition ex_proc_a :: pcb_t where
  "ex_proc_a = ex_caller\<lparr>p_code := [ex_user WRITE 9 0 5, ex_user ALLOC 300 1 0]\<rparr>"

definition ex_proc_b :: pcb_t where
  "ex_proc_b = ex_caller\<lparr>p_pid := 2, p_mm := Some 1, p_code := [ex_user ALLOC 100 1 0, ex_user KMEM_CACHE_CREATE 64 16 0,
     ex_user KMEM_CACHE_ALLOC 0 3 0, (ex_user COPY_TO_USER 3 1 0)\<lparr>arg_3 := 4\<rparr>]\<rparr>"

definition ex_mm1 :: mm_struct where
  "ex_mm1 = ex_mm0\<lparr>mm_mmap := [\<lparr>vm_id = 0, vm_start = 0, vm_end = 4096, vm_sbrk = 4096, vm_freerg_list = []\<rparr>],
     mm_symrgtbl := \<lparr>rg_vmaid = 0, rg_start = 0, rg_end = 300\<rparr> # replicate 29 \<lparr>rg_vmaid = 0, rg_start = 0, rg_end = 0\<rparr>\<rparr>"

definition ex_duo :: world where
  "ex_duo = \<lparr>w_mms = (\<lambda>_. None)(0 \<mapsto> ex_mm1, 1 \<mapsto> ex_mm1, 2 \<mapsto> ex_mm1), w_pcbs = (\<lambda>_. None)(7 \<mapsto> ex_proc_a, 8 \<mapsto> ex_proc_b),
     w_os = \<lparr>k_ready_queue = False, k_mlq_ready_queue = False, k_running_list = False,
       k_proc_table = (replicate PID_MAX None)[1 := Some 7, 2 := Some 8], k_mm = Some 2, k_mram = Some ex_page_dev,
       k_active_mswp = Some ex_page_dev\<rparr>,
     w_hostmem = 100\<rparr>"

definition ex_desc :: "pcb_ptr \<Rightarrow> mm_ptr" where
  "ex_desc k = k - 7"

lemma ex_duo_pages: "vm_inv ex_duo" "page_bytes ex_duo mp q = None"
proof -
  have v: "vpage ex_duo mp p = 0" for mp p
    by (simp add: ex_duo_def vpage_def pte_view_def ex_mm1_def ex_mm0_def pt_view_def pt_lookup_def)
  have "dev_ok 13 ex_page_dev" "dev_ok 21 ex_page_dev"
    by (auto simp: dev_ok_def ex_page_dev_def frame_fits_def frame_valid_def macro_defs)
  moreover have "fifo ex_duo q = []" for q
    by (simp add: fifo_def ex_duo_def ex_mm1_def ex_mm0_def)
  ultimately show "vm_inv ex_duo"
    by (intro vm_invI [of _ ex_page_dev ex_page_dev])
      (simp_all add: paging_ok_def owned_def listed_def v, simp_all add: ex_duo_def)
  show "page_bytes ex_duo mp q = None" by (simp add: page_bytes_def contents_def v)
qed

lemma ex_duo_space: "space_ok 7 ex_proc_a 0 1 ex_duo" "space_ok 8 ex_proc_b 1 1 ex_duo"
proof -
  have r: "regions_ok b (replicate n \<lparr>rg_vmaid = 0, rg_start = 0, rg_end = 0\<rparr>)"
    "spans (replicate n \<lparr>rg_vmaid = 0, rg_start = 0, rg_end = 0\<rparr>) = {}" for b n
    by (induction n) (auto simp: rg_wf_def rg_span_def)
  have s: "region_inv ex_duo mp" "area_at mp 1 ex_duo" if "w_mms ex_duo mp = Some ex_mm1" for mp
    using r that by (auto simp: region_inv_def area_at_def areas_def ex_mm1_def rg_wf_def macro_defs)
  have "caller_ok ex_proc_a 0 ex_duo" "caller_ok ex_proc_b 1 ex_duo"
    by (simp_all add: caller_ok_def ex_duo_def ex_proc_a_def ex_proc_b_def ex_caller_def ex_mm1_def ex_mm0_def)
  then have b: "backed ex_proc_a 0 ex_duo" "backed ex_proc_b 1 ex_duo"
    unfolding backed_def using vm_inv_pool [OF ex_duo_pages(1)] by blast+
  have k: "known 7 ex_proc_a ex_duo" "known 8 ex_proc_b ex_duo"
    by (simp_all add: known_def get_proc_from_PID_def ex_duo_def ex_proc_a_def ex_proc_b_def ex_caller_def PID_MAX_def)
  have m: "w_mms ex_duo 0 = Some ex_mm1" "w_mms ex_duo 1 = Some ex_mm1" by (simp_all add: ex_duo_def)
  show "space_ok 7 ex_proc_a 0 1 ex_duo" "space_ok 8 ex_proc_b 1 1 ex_duo"
    using k b s m ex_duo_pages by (simp_all add: space_ok_def heap_ok_def macro_defs)
qed

lemma ex_duo_left: "left_of ex_duo 7 = p_code ex_proc_a" "left_of ex_duo 8 = p_code ex_proc_b"
  by (simp_all add: left_of_def ex_duo_def code_left_def ex_proc_a_def ex_proc_b_def ex_caller_def)

lemma ex_duo_kernel: "kernel_ok 2 ex_duo" "mp \<noteq> 2 \<Longrightarrow> creates_first code \<Longrightarrow> kernel_ready mp code ex_duo"
proof -
  show k: "kernel_ok 2 ex_duo" by (simp add: kernel_ok_def kernel_mm_ok_def ex_duo_def ex_mm1_def ex_mm0_def page_limit_def macro_defs list_all_iff)
  show "mp \<noteq> 2 \<Longrightarrow> creates_first code \<Longrightarrow> kernel_ready mp code ex_duo" using k by (auto simp: kernel_ready_def)
qed

lemma ex_duo_runnable: "runnable 7 0 ex_duo" "runnable 8 1 ex_duo"
  unfolding runnable_def
  by (intro exI [of _ ex_proc_a] exI [of _ "1 :: nat"], use ex_duo_space in
      \<open>simp add: code_left_def ex_proc_a_def ex_caller_def ex_user_def program_inst_def user_inst_def inst_pages_def pages_for_def
        ex_duo_kernel(2) macro_defs\<close>)
    (intro exI [of _ ex_proc_b] exI [of _ "1 :: nat"], use ex_duo_space in
      \<open>simp add: code_left_def ex_proc_b_def ex_caller_def ex_user_def program_inst_def user_inst_def kernel_inst_def
        inst_pages_def pages_for_def creates_pool_def ex_duo_kernel(2) macro_defs\<close>)

lemma ex_duo_need: "host_need ex_duo 7 = 17" "host_need ex_duo 8 = 53" "w_hostmem ex_duo = 100"
  by (simp_all add: host_need_def ex_duo_left ex_proc_a_def ex_proc_b_def ex_user_def inst_host_def pages_for_def)
    (simp add: ex_duo_def)

lemma ex_duo_population: "population {7, 8} ex_desc ex_duo"
  using ex_duo_runnable ex_duo_need by (simp add: population_def ex_desc_def inj_on_def)

section \<open>Properties\<close>

text \<open>C5: Processes do not interfere.  In a population of processes with descriptors of their own,
  whose programs use user memory and kernel memory within the budget (and create a cache pool before they allocate from
  one), every interleaving of instructions runs to its end; each process has then executed as many of its instructions as it had turns; and what a process
  owns (control block, page tables, regions, contents of its pages) is, at the end, what it was after
  its last turn, however often the others ran, faulted and swapped since.\<close>

theorem interleaving_isolated:
  assumes "population D desc w" and "set (ds @ es) \<subseteq> D"
  shows "\<exists>w1 w'. turns turn ds w = Some w1 \<and> turns turn (ds @ es) w = Some w' \<and> population D desc w'
    \<and> (\<forall>k \<in> D. length (left_of w' k) = length (left_of w k) - count_list (ds @ es) k)
    \<and> (\<forall>k \<in> D - set es. process_view desc k w' = process_view desc k w1)"
proof -
  obtain w1 where w1: "turns turn ds w = Some w1" "population D desc w1"
    using procs.turns_respect [of ds D desc w] assms by auto
  then obtain w' where w': "turns turn es w1 = Some w'" "population D desc w'"
    "\<forall>k \<in> D - set es. process_view desc k w' = process_view desc k w1"
    using procs.turns_respect [of es D desc w1] assms(2) by auto
  then have all: "turns turn (ds @ es) w = Some w'" using w1(1) by (simp add: turns_append)
  then show ?thesis
    using w1(1) w'(2,3) procs.turns_count [OF assms(2,1) _ all] by (auto simp: view_todo_left)
qed

theorem interleaving_isolated_witness:
  "\<exists>w1 w'. turns turn [7, 8, 8, 7] ex_duo = Some w1 \<and> turns turn [7, 8, 8, 7, 8, 8] ex_duo = Some w'
     \<and> left_of w' 7 = [] \<and> left_of w' 8 = [] \<and> process_view ex_desc 7 w' = process_view ex_desc 7 w1"
proof -
  have "set ([7, 8, 8, 7] @ [8, 8]) \<subseteq> {7, 8 :: pcb_ptr}" by simp
  from interleaving_isolated [OF ex_duo_population this] show ?thesis
    by (auto simp: ex_duo_left ex_proc_a_def ex_proc_b_def)
qed

text \<open>C6: The memory a program sees is changed by its stores only.  An instruction on user memory of a runnable process
  returns, and afterwards all pages that had contents, of all processes and the kernel, have the same contents, except
  that a \<open>write\<close> that passes the bounds check and returns 0 has put its byte at its address; a
  \<open>write\<close> that fails the check returns \<open>- 1\<close>.\<close>

theorem memory_changed_by_stores:
  assumes "runnable k mp w" and "host_need w k \<le> w_hostmem w" and "left_of w k = ins # rest" and "user_inst ins"
  shows "\<exists>r w'. run k w = Some (r, w') \<and> runnable k mp w' \<and> left_of w' k = rest \<and> stores mp (inst_store ins mp w) r w w'
    \<and> (opcode ins = WRITE \<and> inst_store ins mp w = None \<longrightarrow> r = - 1)
    \<and> (\<forall>mq. mq \<noteq> mp \<longrightarrow> page_bytes w' mq = page_bytes w mq)"
proof (rule run_user [OF assms(1,2)])
  fix r w'
  assume "run k w = Some (r, w')" and "runnable k mp w'" and "own_step k mp w w'" and "left_of w' k = tl (left_of w k)"
    and "\<And>ins rest. left_of w k = ins # rest \<Longrightarrow> user_inst ins \<Longrightarrow> confined mp w w' \<and> stores mp (inst_store ins mp w) r w w'
       \<and> (opcode ins = WRITE \<and> inst_store ins mp w = None \<longrightarrow> r = - 1)"
  then show ?thesis using assms(3,4) by (auto simp: confined_def)
qed

theorem memory_changed_by_stores_witness:
  "\<exists>r w'. run 7 ex_duo = Some (r, w') \<and> runnable 7 0 w' \<and> stores 0 (Some (5, 9)) r ex_duo w'
     \<and> page_bytes w' 1 = page_bytes ex_duo 1"
proof -
  let ?i = "ex_user WRITE 9 0 5"
  have "host_need ex_duo 7 \<le> w_hostmem ex_duo" using ex_duo_need by simp
  moreover have "left_of ex_duo 7 = ?i # [ex_user ALLOC 300 1 0]" by (simp add: ex_duo_left ex_proc_a_def)
  moreover have "inst_store ?i 0 ex_duo = Some (5, 9)"
    by (simp add: inst_store_def ex_user_def write_target_def symrg_def ex_duo_def ex_mm1_def macro_defs)
  moreover have "user_inst ?i" by (simp add: user_inst_def ex_user_def)
  ultimately show ?thesis using memory_changed_by_stores [OF ex_duo_runnable(1), of ?i "[ex_user ALLOC 300 1 0]"] by auto
qed

text \<open>The memory call is excluded above for a reason.\<close>

definition raw_store :: "u32 \<Rightarrow> cint \<Rightarrow> byte \<Rightarrow> inst_t" where
  "raw_store fpn off v = \<lparr>opcode = SYSCALL, arg_0 = 17, arg_1 = of_int SYSMEM_IO_WRITE,
     arg_2 = scast (int_phyaddr fpn off), arg_3 = scast v\<rparr>"

text \<open>C24: The instruction \<open>syscall 17\<close> breaks the separation: with the operation \<open>SYSMEM_IO_WRITE\<close> and
  the physical address of a resident page, of whichever process, it stores its byte there and returns 0,
  without a check that the page belongs to the caller.\<close>

theorem memory_call_breaks_separation:
  assumes "known k c w" and "p_krnl c" and "vm_inv w" and "epresent (vpage w mq q)" and "unat off < PAGING64_PAGESZ"
    and "unat (p_pc c) < length (p_code c)"
    and "p_code c ! unat (p_pc c) = raw_store (PAGING_FPN (ucast (vpage w mq q))) off v"
  shows "\<exists>w'. run k w = Some (0, w') \<and> page_bytes w' mq q = map_option (\<lambda>bs. bs[unat off := v]) (page_bytes w mq q)
    \<and> page_bytes w mq q \<noteq> None"
proof -
  let ?c = "c\<lparr>p_pc := p_pc c + 1\<rparr>" and ?f = "PAGING_FPN (ucast (vpage w mq q))"
  let ?w = "w\<lparr>w_pcbs := (w_pcbs w)(k \<mapsto> ?c)\<rparr>"
  have k: "w_pcbs w k = Some c" using assms(1) by (simp add: known_def)
  have "known k ?c ?w" using assms(1) by (auto simp: known_def get_proc_from_PID_def split: if_splits)
  then have r: "registered ?c ?w" "p_krnl ?c" using known_registered assms(2) by simp_all
  obtain rg w' where s: "do_syscall (p_krnl ?c) (p_pid ?c) 17
      \<lparr>a1 = of_int SYSMEM_IO_WRITE, a2 = scast (int_phyaddr ?f off), a3 = scast v\<rparr> ?w = Some (0, rg, w')"
    "page_bytes w' mq q = map_option (\<lambda>bs. bs[unat off := v]) (page_bytes ?w mq q)"
    by (rule write_syscall [OF r, of mq q off ?f v]) (use assms(3-5) in auto)
  have "run k w = Some (0, w')"
    using k assms(6,7) s(1) by (simp add: run_def Let_def exec_inst_def raw_store_def libsyscall_def)
  then show ?thesis using s(2) assms(4) by (simp add: page_bytes_def contents_def)
qed

text \<open>The page of the second process, once resident, is overwritten by the first.\<close>

theorem memory_call_breaks_separation_witness:
  "\<exists>w w' c bs. w_pcbs w 7 = Some c \<and> p_mm c = Some 0 \<and> page_bytes w 1 0 = Some bs \<and> run 7 w = Some (0, w')
     \<and> page_bytes w' 1 0 = Some (bs[5 := 9])"
proof -
  note b = space_caller [OF ex_duo_space(2)]
  have h: "9 \<le> w_hostmem ex_duo" and p: "sint (0 :: cint) = int 0" using ex_duo_need by simp_all
  obtain w1 where w1: "same_ctx ex_duo w1" "vm_inv w1" "epresent (vpage w1 1 0)"
    using b(1-3) h p
  proof (cases rule: pg_getpage_cases [of ex_proc_b 1 ex_duo 0 0 0])
    case (mapped w')
    then show thesis using that by blast
  next
    case (refused w')
    then show thesis by (simp add: ex_duo_def ex_page_dev_def)
  qed
  let ?c = "ex_proc_a\<lparr>p_code := [raw_store (PAGING_FPN (ucast (vpage w1 1 0))) 5 9]\<rparr>"
  let ?w = "w1\<lparr>w_pcbs := (w_pcbs w1)(7 \<mapsto> ?c)\<rparr>"
  have "known 7 ?c ?w"
    using w1(1) by (simp add: same_ctx_def known_def get_proc_from_PID_def ex_duo_def ex_proc_a_def ex_caller_def PID_MAX_def)
  moreover have "p_krnl ?c" "unat (5 :: cint) < PAGING64_PAGESZ" "unat (p_pc ?c) < length (p_code ?c)" "p_mm ?c = Some 0"
    "p_code ?c ! unat (p_pc ?c) = raw_store (PAGING_FPN (ucast (vpage ?w 1 0))) 5 9"
    by (simp_all add: ex_proc_a_def ex_caller_def macro_defs)
  ultimately have "\<exists>w'. run 7 ?w = Some (0, w') \<and> page_bytes w' 1 0 = map_option (\<lambda>bs. bs[unat (5 :: cint) := 9]) (page_bytes ?w 1 0)
      \<and> page_bytes ?w 1 0 \<noteq> None"
    using w1(2,3) by (intro memory_call_breaks_separation [where c = ?c]) simp_all
  moreover have "w_pcbs ?w 7 = Some ?c" by simp
  ultimately show ?thesis using \<open>p_mm ?c = Some 0\<close> by fastforce
qed

end
