(* ===== verification/Start.thy ===== *)
theory Start
  imports Returns Os
begin

text \<open>
  A process that the loader has registered can use its memory at once: the descriptor that
  \<open>init_mm\<close> sets up and the entries that \<open>ld_routine\<close> makes are the well-formed address space
  on which the allocator serves every sequence of requests.
\<close>

section \<open>The descriptor of a new process\<close>

lemma blank_regions:
  "regions_ok b (map blank_vm_rg rgs)" "spans (map blank_vm_rg rgs) = {}"
  by (induction rgs) (auto simp: blank_vm_rg_def rg_wf_def rg_span_def)

lemma init_mm_ready:
  assumes "init_mm (Some mp) (Some c) w = Some (0, w')" and "w_mms w mp = Some raw"
  obtains m where "w_mms w' mp = Some m" and "mm_pgd m \<noteq> None" and "mm_symrgtbl m = map blank_vm_rg (mm_symrgtbl raw)"
    and "mm_mmap m = [\<lparr>vm_id = 0, vm_start = 0, vm_end = 0, vm_sbrk = 0,
      vm_freerg_list = [\<lparr>rg_vmaid = 0, rg_start = 0, rg_end = 0\<rparr>]\<rparr>]"
    and "w_os w' = w_os w"
  using assms
  by (auto simp: init_mm_def init_vm_rg_def enlist_vm_rg_node_def host_alloc_def Let_def split: if_splits)

lemma new_mm_ready:
  assumes "new_mm mp raw c w = Some (r, True, w')" and "length (mm_symrgtbl raw) = PAGING_MAX_SYMTBL_SZ"
  shows "r = Some mp" and "w_os w' = w_os w" and "region_inv w' mp" and "area_at mp 0 w'"
    and "\<exists>m. w_mms w' mp = Some m \<and> mm_pgd m \<noteq> None"
proof -
  obtain h where i: "init_mm (Some mp) (Some c) (set_mm (w\<lparr>w_hostmem := h\<rparr>) mp raw) = Some (0, w')" and "r = Some mp"
    using assms(1) by (auto simp: new_mm_def host_alloc_def Let_def split: if_splits bind_splits)
  then show "r = Some mp" by simp
  have raw: "w_mms (set_mm (w\<lparr>w_hostmem := h\<rparr>) mp raw) mp = Some raw" by simp
  show "w_os w' = w_os w" and "region_inv w' mp" and "area_at mp 0 w'" and "\<exists>m. w_mms w' mp = Some m \<and> mm_pgd m \<noteq> None"
    by (rule init_mm_ready [OF i raw];
        use assms(2) in \<open>simp add: region_inv_def area_at_def areas_def regions_ok_append blank_regions rg_wf_def rg_span_def\<close>)+
qed

lemma ld_kernel_mm_os:
  "ld_kernel_mm kmp raw c w = Some (b, w') \<Longrightarrow> k_proc_table (w_os w') = k_proc_table (w_os w) \<and> mram w' = mram w"
  by (auto simp: ld_kernel_mm_def new_mm_def init_mm_def init_vm_rg_def host_alloc_def Let_def split: frame_splits)

section \<open>Registration\<close>

lemma ld_register_ready:
  assumes reg: "ld_register kmp ump raw ram swp p w s = Some (True, w', s')"
    and c: "w_pcbs w p = Some c" "p_krnl c" and raw: "length (mm_symrgtbl raw) = PAGING_MAX_SYMTBL_SZ"
    and os: "length (k_proc_table (w_os w)) = PID_MAX" and dev: "pool_ok (case mram w of None \<Rightarrow> ram | Some d \<Rightarrow> d)"
  shows "heap_ok p (c\<lparr>p_mm := Some ump\<rparr>) ump 0 w'"
proof -
  obtain w1 where k: "ld_kernel_mm kmp raw c w = Some (True, w1)"
    using reg c by (auto simp: ld_register_def split: bind_splits if_splits)
  define w2 where "w2 = set_mswp (set_mram w1 (Some (case mram w1 of None \<Rightarrow> ram | Some d \<Rightarrow> d)))
    (Some (case mswp w1 of None \<Rightarrow> swp | Some d \<Rightarrow> d))"
  obtain mp w3 where n: "new_mm ump raw c w2 = Some (mp, True, w3)"
    using reg c k by (auto simp: ld_register_def Let_def w2_def split: bind_splits if_splits)
  note r = new_mm_ready [OF n raw]
  let ?c = "c\<lparr>p_mm := Some ump\<rparr>"
  define w4 where "w4 = w3\<lparr>w_pcbs := (w_pcbs w3)(p \<mapsto> ?c)\<rparr>"
  have pt: "k_proc_table (w_os w4) = k_proc_table (w_os w)" and ram: "mram w4 = Some (case mram w of None \<Rightarrow> ram | Some d \<Rightarrow> d)"
    using ld_kernel_mm_os [OF k] by (simp_all add: w4_def r(2) w2_def)
  have os4: "w_os w3 = w_os w4" by (simp add: w4_def)
  obtain t where t: "arr_set (k_proc_table (w_os w)) (unat (p_pid c)) (Some p) = Some t"
    and w': "add_proc p (w4\<lparr>w_os := (w_os w4)\<lparr>k_proc_table := t\<rparr>\<rparr>) s = Some (w', s')"
    using reg c k n r(1) pt
    by (auto simp: ld_register_def Let_def w2_def [symmetric] w4_def [symmetric] os4 split: bind_splits)
  have pid: "unat (p_pid c) < PID_MAX" "t = (k_proc_table (w_os w))[unat (p_pid c) := Some p]"
    using t os by (auto simp: arr_set_def split: if_splits)
  have fin: "w' = w4\<lparr>w_os := (w_os w4)\<lparr>k_proc_table := t, k_ready_queue := True, k_mlq_ready_queue := True,
      k_running_list := True\<rparr>\<rparr>"
    using w' c(2) by (auto simp: add_proc_def add_mlq_proc_def publish_queues_def w4_def split: bind_splits)
  have "known p ?c w'"
    using c(2) pid os by (simp add: known_def fin w4_def get_proc_from_PID_def)
  moreover have "backed ?c ump w'"
    using c(2) r(5) ram dev by (auto simp: backed_def caller_ok_def fin w4_def)
  moreover have "region_inv w' ump" "area_at ump 0 w'"
    using r(3,4) by (simp_all add: region_inv_def area_at_def areas_def fin w4_def)
  ultimately show ?thesis by (simp add: heap_ok_def)
qed

section \<open>Properties\<close>

text \<open>Once \<open>ld_routine\<close> has registered a process, whatever \<open>alloc\<close> and \<open>free\<close> requests its
  program makes are served: its address space is well formed, every sequence of requests that stays
  below 2 GB runs to its end with all allocations granted, and its regions are disjoint.\<close>

theorem loaded_process_served:
  assumes "ld_register kmp ump raw ram swp p w s = Some (True, w', s')"
    and "w_pcbs w p = Some c" and "p_krnl c" and "length (mm_symrgtbl raw) = PAGING_MAX_SYMTBL_SZ"
    and "length (k_proc_table (w_os w)) = PID_MAX" and "pool_ok (case mram w of None \<Rightarrow> ram | Some d \<Rightarrow> d)"
    and "length (p_regs c) = 10" and "\<forall>op \<in> set ops. op_reg op < 10"
    and "sum_list (map op_pages ops) * PAGING64_PAGESZ < 2 ^ 31" and "sum_list (map op_host ops) \<le> w_hostmem w'"
  shows "heap_ok p (c\<lparr>p_mm := Some ump\<rparr>) ump 0 w'
    \<and> (\<exists>rs w''. heap_run p ops w' = Some (rs, w'') \<and> list_all2 op_code ops rs \<and> region_inv w'' ump)"
proof -
  have ok: "heap_ok p (c\<lparr>p_mm := Some ump\<rparr>) ump 0 w'" by (rule ld_register_ready [OF assms(1-6)])
  moreover have "length (p_regs (c\<lparr>p_mm := Some ump\<rparr>)) = 10" using assms(7) by simp
  ultimately have "proc_ok p ump 0 w'" unfolding proc_ok_def by blast
  then have "\<exists>rs w'' q. heap_run p ops w' = Some (rs, w'') \<and> list_all2 op_code ops rs \<and> proc_ok p ump q w''"
    by (rule heap_run_returns) (use assms in simp_all)
  then show ?thesis using ok by (auto simp: proc_ok_def heap_ok_def)
qed

text \<open>A machine without processes yet, and the descriptor of the first one.\<close>

definition ex_boot :: world where
  "ex_boot = (world_init 60)\<lparr>w_pcbs := (\<lambda>_. None)(7 \<mapsto> ex_caller\<lparr>p_mm := None\<rparr>)\<rparr>"

definition ex_rawmm :: mm_struct where
  "ex_rawmm = ex_mm\<lparr>mm_symrgtbl := replicate PAGING_MAX_SYMTBL_SZ \<lparr>rg_vmaid = 0, rg_start = 8, rg_end = 9\<rparr>\<rparr>"

lemma ex_boot_registers:
  obtains w' s' where "ld_register 0 1 ex_rawmm ex_dev ex_dev 7 ex_boot sched_init = Some (True, w', s')"
    and "w_hostmem w' = 52"
proof -
  have "sched_ok sched_init" by (rule sched_ok_init)
  note sched_okD(2) [OF this]
  then show thesis
    using that
    by (simp add: ld_register_def ld_kernel_mm_def new_mm_def init_mm_def init_vm_rg_def host_alloc_def ex_boot_def
        world_init_def ex_caller_def Let_def add_proc_def add_mlq_proc_def publish_queues_def mlq_enqueue_def
        MAX_PRIO_def PID_MAX_def)
qed

theorem loaded_process_served_witness:
  "\<exists>w' s' r t w''. ld_register 0 1 ex_rawmm ex_dev ex_dev 7 ex_boot sched_init = Some (True, w', s')
     \<and> heap_run 7 [Alloc 3 300, Free 3] w' = Some ([r, t], w'') \<and> r = 0 \<and> region_inv w'' 1"
proof -
  obtain w' s' where reg: "ld_register 0 1 ex_rawmm ex_dev ex_dev 7 ex_boot sched_init = Some (True, w', s')"
    and h: "w_hostmem w' = 52" by (rule ex_boot_registers)
  have c: "w_pcbs ex_boot 7 = Some (ex_caller\<lparr>p_mm := None\<rparr>)" "p_krnl (ex_caller\<lparr>p_mm := None\<rparr>)"
    "length (mm_symrgtbl ex_rawmm) = PAGING_MAX_SYMTBL_SZ" "length (k_proc_table (w_os ex_boot)) = PID_MAX"
    "pool_ok (case mram ex_boot of None \<Rightarrow> ex_dev | Some d \<Rightarrow> d)" "length (p_regs (ex_caller\<lparr>p_mm := None\<rparr>)) = 10"
    by (simp_all add: ex_boot_def ex_rawmm_def world_init_def ex_caller_def ex_dev_def pool_ok_def frame_valid_def)
  let ?ops = "[Alloc 3 300, Free 3]"
  have o: "\<forall>op \<in> set ?ops. op_reg op < 10" "sum_list (map op_pages ?ops) * PAGING64_PAGESZ < 2 ^ 31"
    "sum_list (map op_host ?ops) \<le> w_hostmem w'"
    by (simp_all add: pages_for_def macro_defs h)
  show ?thesis
    using reg loaded_process_served [OF reg c o] by (auto simp: list_all2_Cons1)
qed

end
