(* ===== verification/Machine.thy ===== *)
theory Machine
  imports Programs Start Progress
begin

text \<open>
  The whole machine with paging: processors, scheduler, loader and memory together.  For a configuration
  whose programs use user and kernel memory within the budget of the host, every reachable state of the threads keeps the
  address spaces of all processes well formed and apart, so that no processor ever executes an instruction
  with an undefined outcome, and the memory of a process changes only when a processor runs that process.
\<close>

section \<open>Registering a process\<close>

text \<open>\<open>new_mm\<close> with memory at hand adds an empty descriptor and changes nothing else.\<close>

lemma new_mm_adds:
  assumes "new_mm mp raw c w = Some (r, ok, w')" and "p_krnl c" and "4 \<le> w_hostmem w"
  obtains m where "ok" and "w_mms w' = (w_mms w)(mp \<mapsto> m)" and "mm_pgd m = Some (\<lambda>_. None)" and "mm_fifo_pgn m = []"
    and "w_os w' = w_os w" and "w_pcbs w' = w_pcbs w" and "w_hostmem w = w_hostmem w' + 4"
    and "length (mm_symrgtbl raw) = PAGING_MAX_SYMTBL_SZ \<longrightarrow> kernel_mm_ok m" and "r = Some mp"
  using assms
  by (auto simp: new_mm_def init_mm_def init_vm_rg_def host_alloc_def Let_def enlist_vm_rg_node_def kernel_mm_ok_def
      list_all_iff blank_vm_rg_def split: if_splits)

lemma new_mm_pages:
  assumes "w_mms w' = (w_mms w)(mp \<mapsto> m)" and "mm_pgd m = Some (\<lambda>_. None)" and "mm_fifo_pgn m = []" and "w_mms w mp = None"
  shows "vpage w' = vpage w" and "fifo w' = fifo w"
  using assms by (auto simp: fun_eq_iff vpage_def pte_view_def pt_view_def pt_lookup_def fifo_def)

lemma pages_of_mms: "w_mms w' = w_mms w \<Longrightarrow> vpage w' = vpage w" "w_mms w' = w_mms w \<Longrightarrow> fifo w' = fifo w"
  by (auto simp: fun_eq_iff vpage_def pte_view_def fifo_def)

text \<open>The memory before the first process is registered: no devices attached, nothing mapped.\<close>

definition no_memory :: "world \<Rightarrow> bool" where
  "no_memory w \<longleftrightarrow> mram w = None \<and> mswp w = None \<and> (\<forall>mp q. vpage w mp q = 0) \<and> (\<forall>mp. fifo w mp = [])"

definition memory_ok :: "world \<Rightarrow> bool" where
  "memory_ok w \<longleftrightarrow> vm_inv w \<or> no_memory w"

lemma memory_attach:
  assumes "memory_ok w" and ram: "dev_ok 13 ram" "used_fp_list ram = []" and swp: "dev_ok 21 swp" "used_fp_list swp = []"
    and w': "mram w' = Some (case mram w of None \<Rightarrow> ram | Some d \<Rightarrow> d)" "mswp w' = Some (case mswp w of None \<Rightarrow> swp | Some d \<Rightarrow> d)"
      "vpage w' = vpage w" "fifo w' = fifo w"
  shows "vm_inv w'" and "vm_inv w \<Longrightarrow> page_bytes w' = page_bytes w"
proof -
  show "vm_inv w'"
    using assms(1) unfolding memory_ok_def
  proof
    assume "vm_inv w"
    then show ?thesis by (rule vm_invE) (use w' in \<open>auto intro!: vm_invI simp: w'\<close>)
  next
    assume "no_memory w"
    then have n: "mram w = None" "mswp w = None" "\<And>mp q. vpage w mp q = 0" "\<And>mp. fifo w mp = []" by (simp_all add: no_memory_def)
    have "paging_ok (vpage w') (fifo w') ram swp"
      using ram swp by (simp add: paging_ok_def owned_def listed_def w' n)
    then show ?thesis using w' n by (intro vm_invI) auto
  qed
  show "page_bytes w' = page_bytes w" if "vm_inv w"
    using that by (rule vm_invE) (simp add: page_bytes_def w')
qed

text \<open>The kernel has no descriptor yet, or one that is in order.\<close>

definition kernel_set :: "world \<Rightarrow> bool" where
  "kernel_set w \<longleftrightarrow> k_mm (w_os w) = None \<or> (\<exists>kmp. kernel_ok kmp w)"

lemma ld_kernel_mm_adds:
  assumes "ld_kernel_mm kmp raw c w = Some (ok, w')" and "p_krnl c" and "4 \<le> w_hostmem w" and "w_mms w kmp = None"
    and "length (mm_symrgtbl raw) = PAGING_MAX_SYMTBL_SZ" and "kernel_set w"
  shows "ok" and "vpage w' = vpage w" and "fifo w' = fifo w" and "w_pcbs w' = w_pcbs w" and "mram w' = mram w" and "mswp w' = mswp w"
    and "k_proc_table (w_os w') = k_proc_table (w_os w)" and "w_hostmem w \<le> w_hostmem w' + 4"
    and "mp \<noteq> kmp \<Longrightarrow> w_mms w' mp = w_mms w mp" and "\<exists>k. kernel_ok k w' \<and> (w_mms w k \<noteq> None \<or> k = kmp)"
    and "kernel_ok k w \<Longrightarrow> w' = w"
proof -
  show "kernel_ok k w \<Longrightarrow> w' = w" using assms(1) by (simp add: ld_kernel_mm_def kernel_ok_def)
  have "ok \<and> vpage w' = vpage w \<and> fifo w' = fifo w \<and> w_pcbs w' = w_pcbs w \<and> mram w' = mram w \<and> mswp w' = mswp w
    \<and> k_proc_table (w_os w') = k_proc_table (w_os w) \<and> w_hostmem w \<le> w_hostmem w' + 4
    \<and> (\<forall>mp. mp \<noteq> kmp \<longrightarrow> w_mms w' mp = w_mms w mp) \<and> (\<exists>k. kernel_ok k w' \<and> (w_mms w k \<noteq> None \<or> k = kmp))"
  proof (cases "k_mm (w_os w)")
    case (Some k)
    then show ?thesis using assms(1,6) by (auto simp: ld_kernel_mm_def kernel_set_def kernel_ok_def)
  next
    case None
    then obtain mp w1 where n: "new_mm kmp raw c w = Some (mp, ok, w1)" and w': "w' = w1\<lparr>w_os := (w_os w1)\<lparr>k_mm := mp\<rparr>\<rparr>"
      using assms(1) by (auto simp: ld_kernel_mm_def split: bind_splits)
    obtain m where m: "ok" "w_mms w1 = (w_mms w)(kmp \<mapsto> m)" "mm_pgd m = Some (\<lambda>_. None)" "mm_fifo_pgn m = []"
      "w_os w1 = w_os w" "w_pcbs w1 = w_pcbs w" "w_hostmem w = w_hostmem w1 + 4" "kernel_mm_ok m" "mp = Some kmp"
      by (rule new_mm_adds [OF n assms(2,3)]) (use assms(5) in auto)
    have "vpage w' = vpage w" "fifo w' = fifo w"
      by (rule new_mm_pages [of w' w kmp m]; use m assms(4) in \<open>simp add: w'\<close>)+
    then show ?thesis using m by (auto simp: w' kernel_ok_def)
  qed
  then show "ok" and "vpage w' = vpage w" and "fifo w' = fifo w" and "w_pcbs w' = w_pcbs w" and "mram w' = mram w"
    and "mswp w' = mswp w" and "k_proc_table (w_os w') = k_proc_table (w_os w)" and "w_hostmem w \<le> w_hostmem w' + 4"
    and "mp \<noteq> kmp \<Longrightarrow> w_mms w' mp = w_mms w mp" and "\<exists>k. kernel_ok k w' \<and> (w_mms w k \<noteq> None \<or> k = kmp)" by blast+
qed

lemma ld_register_adds:
  assumes reg: "ld_register kmp ump raw ram swp p w s = Some (ok, w', s')" and c: "w_pcbs w p = Some c" "p_krnl c"
    and h: "8 \<le> w_hostmem w" and fresh: "w_mms w kmp = None" "w_mms w ump = None" "kmp \<noteq> ump"
    and pt: "length (k_proc_table (w_os w)) = PID_MAX" and s: "sched_ok s"
    and raw: "length (mm_symrgtbl raw) = PAGING_MAX_SYMTBL_SZ" and ks: "kernel_set w"
  shows "ok" and "vpage w' = vpage w" and "fifo w' = fifo w" and "w_pcbs w' = (w_pcbs w)(p \<mapsto> c\<lparr>p_mm := Some ump\<rparr>)"
    and "mram w' = Some (case mram w of None \<Rightarrow> ram | Some d \<Rightarrow> d)" and "mswp w' = Some (case mswp w of None \<Rightarrow> swp | Some d \<Rightarrow> d)"
    and "unat (p_pid c) < PID_MAX" and "k_proc_table (w_os w') = (k_proc_table (w_os w))[unat (p_pid c) := Some p]"
    and "w_hostmem w \<le> w_hostmem w' + 8" and "w_mms w mq \<noteq> None \<Longrightarrow> w_mms w' mq = w_mms w mq" and "unat (p_prio c) < MAX_PRIO"
    and "\<exists>k. kernel_ok k w' \<and> k \<noteq> ump" and "\<And>k. kernel_ok k w \<Longrightarrow> kernel_kept k w w'"
proof -
  obtain b w1 where k: "ld_kernel_mm kmp raw c w = Some (b, w1)"
    using reg c by (auto simp: ld_register_def split: bind_splits)
  have h4: "4 \<le> w_hostmem w" using h by simp
  note k1 = ld_kernel_mm_adds [OF k c(2) h4 fresh(1) raw ks]
  define w2 where "w2 = set_mswp (set_mram w1 (Some (case mram w1 of None \<Rightarrow> ram | Some d \<Rightarrow> d)))
    (Some (case mswp w1 of None \<Rightarrow> swp | Some d \<Rightarrow> d))"
  obtain mp ok3 w3 where n: "new_mm ump raw c w2 = Some (mp, ok3, w3)"
    using reg c k k1(1) by (auto simp: ld_register_def Let_def w2_def split: bind_splits if_splits)
  have h2: "4 \<le> w_hostmem w2" using h k1(8) by (simp add: w2_def)
  obtain m where m: "ok3" "w_mms w3 = (w_mms w2)(ump \<mapsto> m)" "mm_pgd m = Some (\<lambda>_. None)" "mm_fifo_pgn m = []"
    "w_os w3 = w_os w2" "w_pcbs w3 = w_pcbs w2" "w_hostmem w2 = w_hostmem w3 + 4"
    by (rule new_mm_adds [OF n c(2) h2])
  have u2: "w_mms w2 ump = None" using k1(9) [of ump] fresh by (simp add: w2_def)
  note p3 = new_mm_pages [OF m(2-4) u2]
  have mp: "mp = Some ump" using n m(1) by (auto simp: new_mm_def host_alloc_def Let_def split: if_splits bind_splits)
  define w4 where "w4 = w3\<lparr>w_pcbs := (w_pcbs w3)(p \<mapsto> c\<lparr>p_mm := Some ump\<rparr>)\<rparr>"
  have pt4: "k_proc_table (w_os w4) = k_proc_table (w_os w)" using k1(7) m(5) by (simp add: w4_def w2_def)
  have os4: "w_os w3 = w_os w4" by (simp add: w4_def)
  obtain t where t: "arr_set (k_proc_table (w_os w)) (unat (p_pid c)) (Some p) = Some t"
    and ad: "add_proc p (w4\<lparr>w_os := (w_os w4)\<lparr>k_proc_table := t\<rparr>\<rparr>) s = Some (w', s')" and ok: "ok"
    using reg c k k1(1) n m(1) mp pt4
    by (auto simp: ld_register_def Let_def w2_def [symmetric] w4_def [symmetric] os4 split: bind_splits)
  show "ok" by (rule ok)
  show "unat (p_pid c) < PID_MAX" using t pt by (auto simp: arr_set_def split: if_splits)
  then have tt: "t = (k_proc_table (w_os w))[unat (p_pid c) := Some p]" using t pt by (simp add: arr_set_def)
  have fin: "w' = w4\<lparr>w_os := (w_os w4)\<lparr>k_proc_table := t, k_ready_queue := True, k_mlq_ready_queue := True,
      k_running_list := True\<rparr>\<rparr>"
    using ad c(2) by (auto simp: add_proc_def add_mlq_proc_def publish_queues_def w4_def split: bind_splits)
  have kmm: "k_mm (w_os w') = k_mm (w_os w1)" using m(5) by (simp add: fin w4_def w2_def)
  have "w_mms w' = w_mms w3" "w_mms w2 = w_mms w1" by (simp_all add: fin w4_def w2_def)
  then have mm: "w_mms w' = (w_mms w1)(ump \<mapsto> m)" using m(2) by simp
  obtain q where q: "kernel_ok q w1" "w_mms w q \<noteq> None \<or> q = kmp" using k1(10) by blast
  then have "q \<noteq> ump" using fresh(2,3) by auto
  then show "\<exists>k. kernel_ok k w' \<and> k \<noteq> ump" using q(1) mm kmm by (auto simp: kernel_ok_def)
  show "kernel_kept k w w'" if "kernel_ok k w" for k
    using k1(11) [OF that] that mm kmm fresh(2) by (intro kernel_kept_same) (auto simp: kernel_ok_def)
  show "vpage w' = vpage w" and "fifo w' = fifo w"
    using \<open>w_mms w' = w_mms w3\<close> \<open>w_mms w2 = w_mms w1\<close> pages_of_mms [of w' w3] pages_of_mms [of w2 w1] p3 k1(2,3) by simp_all
  show "w_mms w mq \<noteq> None \<Longrightarrow> w_mms w' mq = w_mms w mq"
    using k1(9) [of mq] m(2) fresh \<open>w_mms w' = w_mms w3\<close> \<open>w_mms w2 = w_mms w1\<close> by (cases "mq = kmp"; cases "mq = ump") auto
  show "w_pcbs w' = (w_pcbs w)(p \<mapsto> c\<lparr>p_mm := Some ump\<rparr>)" using m(6) k1(4) by (simp add: fin w4_def w2_def)
  show "mram w' = Some (case mram w of None \<Rightarrow> ram | Some d \<Rightarrow> d)" and "mswp w' = Some (case mswp w of None \<Rightarrow> swp | Some d \<Rightarrow> d)"
    using m(5) k1(5,6) by (simp_all add: fin w4_def w2_def)
  show "k_proc_table (w_os w') = (k_proc_table (w_os w))[unat (p_pid c) := Some p]" by (simp add: fin tt)
  show "w_hostmem w \<le> w_hostmem w' + 8" using m(7) k1(8) by (simp add: fin w4_def w2_def)
  show "unat (p_prio c) < MAX_PRIO"
    using ad sched_okD(2) [OF s]
    by (auto simp: add_proc_def add_mlq_proc_def publish_queues_def mlq_enqueue_def arr_get_def w4_def split: bind_splits if_splits)
qed

section \<open>The invariant\<close>

text \<open>The processes in the queues and on the processors.\<close>

definition procs_of :: "sys_t \<Rightarrow> pcb_ptr set" where
  "procs_of y = set_mset (held_ready (sys_s y) + held_cpus (sys_cpus y))"

definition desc_of :: "world \<Rightarrow> pcb_ptr \<Rightarrow> mm_ptr" where
  "desc_of w p = the (p_mm (the (w_pcbs w p)))"

text \<open>A configured program of such instructions that creates a cache pool before it allocates from one, asks for less than
  2 GB, and calls the host's allocator at most \<open>b\<close> times, whatever the uninitialised memory it is loaded into holds.\<close>

definition user_program :: "inst_t list \<Rightarrow> nat \<Rightarrow> bool" where
  "user_program code b \<longleftrightarrow> list_all program_inst code \<and> creates_first code \<and> sum_list (map inst_pages code) * PAGING64_PAGESZ < 2 ^ 31
     \<and> sum_list (map inst_host code) \<le> b"

definition user_entry :: "ld_entry \<Rightarrow> nat \<Rightarrow> bool" where
  "user_entry e b \<longleftrightarrow> (\<forall>raw raw_text pid c pid'. length (p_regs raw) = 10 \<longrightarrow> (\<forall>n. length (raw_text n) = n) \<longrightarrow>
     load raw raw_text (le_file e) pid = Some (Some (c, pid')) \<longrightarrow> user_program (p_code c) b)"

text \<open>A configuration of such programs, on devices whose frames are all free, with \<open>b\<close> calls for each
  program and 8 for its descriptor and the kernel's.\<close>

definition user_config :: "sys_cfg \<Rightarrow> (ld_entry \<Rightarrow> nat) \<Rightarrow> bool" where
  "user_config cfg b \<longleftrightarrow> (\<forall>e \<in> set (cfg_entries cfg). user_entry e (b e)) \<and> dev_ok 13 (cfg_ram cfg) \<and> used_fp_list (cfg_ram cfg) = []
     \<and> dev_ok 21 (cfg_swp cfg) \<and> used_fp_list (cfg_swp cfg) = []"

definition entries_need :: "(ld_entry \<Rightarrow> nat) \<Rightarrow> ld_entry list \<Rightarrow> nat" where
  "entries_need b es = sum_list (map (\<lambda>e. 8 + b e) es)"

text \<open>The entries still to be registered, and the number of process identifiers given out to processes.\<close>

definition pending :: "sys_cfg \<Rightarrow> ld_t \<Rightarrow> ld_entry list" where
  "pending cfg l = (case l_pc l of
     L_Start \<Rightarrow> drop (l_i l) (cfg_entries cfg) | L_Load \<Rightarrow> drop (l_i l) (cfg_entries cfg) | L_Wait p \<Rightarrow> drop (l_i l) (cfg_entries cfg)
   | L_Slot \<Rightarrow> drop (Suc (l_i l)) (cfg_entries cfg) | L_Failed \<Rightarrow> [] | L_Done \<Rightarrow> [])"

definition pids_given :: "ld_t \<Rightarrow> nat" where
  "pids_given l = (if l_pc l = L_Slot then Suc (l_i l) else l_i l)"

definition ld_ok :: "sys_cfg \<Rightarrow> (ld_entry \<Rightarrow> nat) \<Rightarrow> sys_t \<Rightarrow> bool" where
  "ld_ok cfg b y \<longleftrightarrow> (let l = sys_ld y; w = sys_w y in
     pids_given l < PID_MAX
   \<and> (case l_pc l of
        L_Start \<Rightarrow> procs_of y = {} \<and> no_memory w \<and> l_avail_pid l = of_nat (l_i l + 1)
      | L_Load \<Rightarrow> l_avail_pid l = of_nat (l_i l + 1)
      | L_Slot \<Rightarrow> l_avail_pid l = of_nat (l_i l + 2)
      | L_Wait p \<Rightarrow> l_avail_pid l = of_nat (l_i l + 2) \<and> l_i l < length (cfg_entries cfg) \<and>
          (\<exists>c. w_pcbs w p = Some c \<and> p_krnl c \<and> p_pc c = 0 \<and> length (p_regs c) = 10 \<and> length (p_code c) < 2 ^ 32
             \<and> user_program (p_code c) (b (cfg_entries cfg ! l_i l)) \<and> p_pid c = of_nat (l_i l + 1))
      | _ \<Rightarrow> True))"

text \<open>Every process is runnable in an address space of its own, its priority is a level of the scheduler, its
  identifier has been given out, and the host has memory for what is left of all programs.\<close>

definition proc_fit :: "world \<Rightarrow> nat \<Rightarrow> pcb_ptr \<Rightarrow> bool" where
  "proc_fit w n p \<longleftrightarrow> runnable p (desc_of w p) w
     \<and> (\<exists>c. w_pcbs w p = Some c \<and> unat (p_prio c) < MAX_PRIO \<and> 0 < unat (p_pid c) \<and> unat (p_pid c) \<le> n)"

definition procs_ok :: "world \<Rightarrow> pcb_ptr set \<Rightarrow> nat \<Rightarrow> nat \<Rightarrow> bool" where
  "procs_ok w D n h \<longleftrightarrow> memory_ok w \<and> kernel_set w \<and> length (k_proc_table (w_os w)) = PID_MAX
     \<and> finite D \<and> (\<forall>p \<in> D. proc_fit w n p) \<and> inj_on (desc_of w) D \<and> (\<Sum>p \<in> D. host_need w p) + h \<le> w_hostmem w"

definition machine_inv :: "sys_cfg \<Rightarrow> (ld_entry \<Rightarrow> nat) \<Rightarrow> sys_t \<Rightarrow> bool" where
  "machine_inv cfg b y \<longleftrightarrow>
     procs_ok (sys_w y) (procs_of y) (pids_given (sys_ld y)) (entries_need b (pending cfg (sys_ld y))) \<and> ld_ok cfg b y"

section \<open>Steps that leave the memory alone\<close>

lemma runnable_keep:
  assumes "runnable p mp w" and "vm_inv w'" and "w_pcbs w' p = w_pcbs w p" and "w_mms w' mp = w_mms w mp"
    and "page_bytes w' mp = page_bytes w mp"
    and "\<And>c. w_pcbs w p = Some c \<Longrightarrow>
      arr_get (k_proc_table (w_os w')) (unat (p_pid c)) = arr_get (k_proc_table (w_os w)) (unat (p_pid c))"
    and kn: "\<And>k. kernel_ok k w \<Longrightarrow> kernel_kept k w w'"
  shows "runnable p mp w'"
proof -
  obtain c n where c: "space_ok p c mp n w" "length (p_regs c) = 10" "list_all program_inst (code_left c)"
    "(n + sum_list (map inst_pages (code_left c))) * PAGING64_PAGESZ < 2 ^ 31" "length (p_code c) < 2 ^ 32"
    "kernel_ready mp (code_left c) w"
    using assms(1) by (auto simp: runnable_def)
  note kr = kernel_ready_keep [OF c(6) kn]
  have "space_ok p c mp n w'" by (rule space_keep [OF c(1) assms(2-5) assms(6) [OF space_known [OF c(1)]]])
  then show ?thesis unfolding runnable_def using c(2-5) kr by blast
qed

lemma runnable_desc: "runnable p mp w \<Longrightarrow> desc_of w p = mp \<and> (\<exists>m. w_mms w mp = Some m)"
proof -
  assume "runnable p mp w"
  then obtain c n where "space_ok p c mp n w" by (auto simp: runnable_def)
  note this space_known [OF this] space_caller(1,5) [OF this]
  then show ?thesis by (auto simp: desc_of_def caller_ok_def)
qed

definition same_memory :: "world \<Rightarrow> world \<Rightarrow> bool" where
  "same_memory w w' \<longleftrightarrow> w_mms w' = w_mms w \<and> mram w' = mram w \<and> mswp w' = mswp w
     \<and> k_proc_table (w_os w') = k_proc_table (w_os w) \<and> k_mm (w_os w') = k_mm (w_os w) \<and> w_hostmem w' = w_hostmem w"

lemma same_memory_refl [simp]: "same_memory w w" "same_memory w (w\<lparr>w_pcbs := x\<rparr>)"
  by (simp_all add: same_memory_def)

lemma same_memory_put: "put_proc p w s = Some (w', s') \<Longrightarrow> same_memory w w' \<and> w_pcbs w' = w_pcbs w"
  by (auto simp: put_proc_def put_mlq_proc_def publish_queues_def same_memory_def split: bind_splits if_splits)

lemma same_memory_pages:
  assumes "same_memory w w'"
  shows "vm_inv w' = vm_inv w" and "page_bytes w' = page_bytes w" and "memory_ok w' = memory_ok w"
proof -
  have "w_mms w' = w_mms w" "mram w' = mram w" "mswp w' = mswp w" using assms by (simp_all add: same_memory_def)
  note e = this(2,3) pages_of_mms [OF this(1)]
  show "vm_inv w' = vm_inv w" and "page_bytes w' = page_bytes w" and "memory_ok w' = memory_ok w"
    by (simp_all only: vm_inv_def page_bytes_def memory_ok_def no_memory_def e)
qed

lemma same_memory_kernel: "same_memory w w' \<Longrightarrow> kernel_kept k w w' \<and> kernel_set w' = kernel_set w"
  by (simp add: same_memory_def kernel_kept_same kernel_set_def kernel_ok_def)

lemma finite_procs [simp]: "finite (procs_of y)"
  by (simp add: procs_of_def)

lemma procs_keep:
  assumes inv: "procs_ok w D n h" and sub: "D' \<subseteq> D" "n \<le> n'" "h' \<le> h"
    and pc: "\<And>p. p \<in> D' \<Longrightarrow> w_pcbs w' p = w_pcbs w p" and mem: "same_memory w w'"
  shows "procs_ok w' D' n' h'"
proof -
  note pg = same_memory_pages [OF mem]
  have m: "w_mms w' = w_mms w" "k_proc_table (w_os w') = k_proc_table (w_os w)" "w_hostmem w' = w_hostmem w"
    using mem by (simp_all add: same_memory_def)
  have fin: "finite D" using inv by (simp add: procs_ok_def)
  have d: "desc_of w' p = desc_of w p" "host_need w' p = host_need w p" if "p \<in> D'" for p
    using pc [of p] that by (simp_all add: desc_of_def host_need_def left_of_def)
  have fit: "proc_fit w' n' p" if p: "p \<in> D'" for p
  proof -
    have f: "proc_fit w n p" using inv sub(1) p by (auto simp: procs_ok_def)
    then have v: "vm_inv w" by (auto simp: proc_fit_def intro: runnable_inv)
    have "runnable p (desc_of w p) w'"
      by (rule runnable_keep [of _ _ w]) (use f v pg m pc [of p] p same_memory_kernel [OF mem] in \<open>auto simp: proc_fit_def\<close>)
    then show ?thesis using f d(1) [OF p] pc [OF p] sub(2) by (auto simp: proc_fit_def)
  qed
  have "(\<Sum>p \<in> D'. host_need w' p) \<le> (\<Sum>p \<in> D. host_need w p)"
    using d(2) by (simp add: sum_mono2 [OF fin sub(1)] cong: sum.cong)
  moreover have "inj_on (desc_of w') D'" using inv sub(1) d(1) by (simp add: procs_ok_def inj_on_def subset_iff)
  ultimately show ?thesis
    using inv fit pg(3) m sub(3) finite_subset [OF sub(1) fin] same_memory_kernel [OF mem] by (simp add: procs_ok_def)
qed

lemma machine_keep:
  assumes inv: "machine_inv cfg b y" and sub: "procs_of y' \<subseteq> procs_of y" and ld: "sys_ld y' = sys_ld y"
    and pc: "\<And>p. p \<in> procs_of y' \<or> l_pc (sys_ld y) = L_Wait p \<Longrightarrow> w_pcbs (sys_w y') p = w_pcbs (sys_w y) p"
    and mem: "same_memory (sys_w y) (sys_w y')"
  shows "machine_inv cfg b y'"
proof -
  have "procs_of y' = {}" if "procs_of y = {}" using sub that by simp
  moreover have "no_memory (sys_w y') = no_memory (sys_w y)"
    using mem pages_of_mms [of "sys_w y'" "sys_w y"] by (simp add: no_memory_def same_memory_def)
  ultimately have "ld_ok cfg b y'"
    using inv pc ld by (auto simp: machine_inv_def ld_ok_def Let_def split: ld_pc.splits)
  moreover have "procs_ok (sys_w y') (procs_of y') (pids_given (sys_ld y')) (entries_need b (pending cfg (sys_ld y')))"
    using inv by (intro procs_keep [OF _ sub _ _ _ mem]) (use pc ld in \<open>auto simp: machine_inv_def\<close>)
  ultimately show ?thesis by (simp add: machine_inv_def)
qed

lemma machine_fit: "machine_inv cfg b y \<Longrightarrow> p \<in> procs_of y \<Longrightarrow> proc_fit (sys_w y) (pids_given (sys_ld y)) p"
  by (simp add: machine_inv_def procs_ok_def)

section \<open>Processors\<close>

lemma procs_with_cpu:
  assumes i: "i < length (sys_cpus y)"
    and m: "held_ready s' + ptr_mset (c_proc c') \<subseteq># held_ready (sys_s y) + ptr_mset (c_proc (sys_cpus y ! i))"
  shows "procs_of (with_cpu y i c' w' s') \<subseteq> procs_of y"
proof -
  let ?P = "\<lambda>y. held_ready (sys_s y) + held_cpus (sys_cpus y)"
  have e: "?P (with_cpu y i c' w' s') + (held_ready (sys_s y) + ptr_mset (c_proc (sys_cpus y ! i)))
      = ?P y + (held_ready s' + ptr_mset (c_proc c'))"
    using held_cpus_upd [OF i, of c'] by (simp add: with_cpu_def ac_simps)
  have "?P (with_cpu y i c' w' s') + (held_ready (sys_s y) + ptr_mset (c_proc (sys_cpus y ! i)))
      \<subseteq># ?P y + (held_ready (sys_s y) + ptr_mset (c_proc (sys_cpus y ! i)))"
    unfolding e using m by simp
  then have "?P (with_cpu y i c' w' s') \<subseteq># ?P y" by simp
  then show ?thesis unfolding procs_of_def by (rule set_mset_mono)
qed

text \<open>A step of a processor that leaves memory and control blocks alone.\<close>

lemma machine_cpu_quiet:
  assumes inv: "machine_inv cfg b y" and i: "i < length (sys_cpus y)"
    and m: "held_ready s' + ptr_mset (c_proc c') \<subseteq># held_ready (sys_s y) + ptr_mset (c_proc (sys_cpus y ! i))"
    and w': "same_memory (sys_w y) w'" "w_pcbs w' = w_pcbs (sys_w y)"
  shows "machine_inv cfg b (with_cpu y i c' w' s')"
  by (rule machine_keep [OF inv procs_with_cpu [OF i m]]) (use w' in \<open>simp_all add: with_cpu_def\<close>)

lemma cpu_proc_mem: "i < length (sys_cpus y) \<Longrightarrow> c_proc (sys_cpus y ! i) = Some q \<Longrightarrow> q \<in> procs_of y"
  by (auto simp: procs_of_def dest: held_cpus_mem)

text \<open>The end of a process.\<close>

lemma machine_cpu_free:
  assumes inv: "machine_inv cfg b y" and sys: "sys_inv y" and i: "i < length (sys_cpus y)"
    and q: "c_proc (sys_cpus y ! i) = Some q" and c': "c_proc c' = None"
  shows "machine_inv cfg b (with_cpu y i c' ((sys_w y)\<lparr>w_pcbs := (w_pcbs (sys_w y))(q := None)\<rparr>) (sys_s y))"
    (is "machine_inv cfg b ?y")
proof (rule machine_keep [OF inv procs_with_cpu [OF i]])
  have "held ?y + {#q#} = held y"
    using held_with_cpu [OF i, of c' "(sys_w y)\<lparr>w_pcbs := (w_pcbs (sys_w y))(q := None)\<rparr>" "sys_s y"] q c' by (simp add: ac_simps)
  moreover have "count (held y) q \<le> 1" using sys by (simp add: sys_inv_def)
  ultimately have "q \<notin># held ?y" by (rule taken_once)
  then show "w_pcbs (sys_w ?y) p = w_pcbs (sys_w y) p" if "p \<in> procs_of ?y \<or> l_pc (sys_ld y) = L_Wait p" for p
    using that by (auto simp: procs_of_def held_def held_ld_def with_cpu_def)
qed (use c' in \<open>simp_all add: with_cpu_def\<close>)

text \<open>One instruction.\<close>

lemma machine_population: "machine_inv cfg b y \<Longrightarrow> population (procs_of y) (desc_of (sys_w y)) (sys_w y)"
  by (auto simp: machine_inv_def procs_ok_def population_def proc_fit_def)

lemma machine_cpu_run:
  assumes inv: "machine_inv cfg b y" and sys: "sys_inv y" and i: "i < length (sys_cpus y)"
    and q: "c_proc (sys_cpus y ! i) = Some q"
  obtains r w' where "run q (sys_w y) = Some (r, w')" and "own_step q (desc_of (sys_w y) q) (sys_w y) w'"
    and "\<And>c' :: cpu_t. c_proc c' = Some q \<Longrightarrow> machine_inv cfg b (with_cpu y i c' w' (sys_s y))"
proof -
  let ?w = "sys_w y" and ?D = "procs_of y"
  have mem: "q \<in> ?D" by (rule cpu_proc_mem [OF i q])
  obtain w' where t: "turn q ?w = Some w'" "population ?D (desc_of ?w) w'" "own_step q (desc_of ?w q) ?w w'"
    "(\<Sum>j \<in> ?D. host_need ?w j) + w_hostmem w' \<ge> (\<Sum>j \<in> ?D. host_need w' j) + w_hostmem ?w"
    by (rule population_turn [OF machine_population [OF inv] mem])
  obtain r where run: "run q ?w = Some (r, w')" using t(1) by (auto simp: turn_def)
  have o: "\<And>j. j \<noteq> q \<Longrightarrow> w_pcbs w' j = w_pcbs ?w j" "k_proc_table (w_os w') = k_proc_table (w_os ?w)" "vm_inv w'"
    using t(3) by (simp_all add: own_step_def)
  obtain kmp where kmp: "kernel_ok kmp ?w" "kmp \<noteq> desc_of ?w q"
    using machine_population [OF inv] mem by (auto simp: population_def runnable_def kernel_ready_def)
  then have "kernel_ok kmp w'" using t(3) by (simp add: own_step_def kernel_kept_def)
  then have kset: "kernel_set w'" by (auto simp: kernel_set_def)
  obtain d d' where d: "w_pcbs ?w q = Some d" "w_pcbs w' = (w_pcbs ?w)(q \<mapsto> d')" "pcb_kept (fetched d) d'"
    by (rule run_effect [OF run])
  then have dd: "p_mm d' = p_mm d" "p_prio d' = p_prio d" "p_pid d' = p_pid d" by (auto simp: pcb_kept_def)
  then have desc: "desc_of w' = desc_of ?w" using d by (simp add: desc_of_def fun_eq_iff)
  have wait: "l_pc (sys_ld y) \<noteq> L_Wait q" using held_once(1) [OF sys i q] by (auto simp: held_ld_def)
  show thesis
  proof (rule that [OF run t(3)])
    fix c' :: cpu_t assume c': "c_proc c' = Some q"
    let ?y = "with_cpu y i c' w' (sys_s y)"
    have "held_cpus (sys_cpus ?y) = held_cpus (sys_cpus y)" using held_cpus_upd [OF i, of c'] q c' by (simp add: with_cpu_def)
    then have D: "procs_of ?y = ?D" by (simp add: procs_of_def with_cpu_def)
    have y: "sys_w ?y = w'" "sys_ld ?y = sys_ld y" by (simp_all add: with_cpu_def)
    have "proc_fit w' (pids_given (sys_ld y)) p" if "p \<in> ?D" for p
    proof -
      have "proc_fit ?w (pids_given (sys_ld y)) p" by (rule machine_fit [OF inv that])
      moreover have "runnable p (desc_of w' p) w'" using t(2) that by (simp add: population_def desc)
      ultimately show ?thesis using d dd by (cases "p = q") (auto simp: proc_fit_def)
    qed
    moreover have "ld_ok cfg b ?y"
      using inv mem wait o(1) by (auto simp: machine_inv_def ld_ok_def Let_def D y split: ld_pc.splits)
    ultimately show "machine_inv cfg b ?y"
      using inv t(4) o(2,3) kset by (simp add: machine_inv_def procs_ok_def D y desc memory_ok_def)
  qed
qed

text \<open>Every step of a processor is defined, and keeps the invariant.\<close>

lemma put_proc_total:
  assumes "sched_ok s" and "w_pcbs w q = Some c" and "p_krnl c" and "unat (p_prio c) < MAX_PRIO"
  obtains w' s' where "put_proc q w s = Some (w', s')"
proof -
  have "sched_pcb w q (unat (p_prio c))" using assms(2-4) by (simp add: sched_pcb_def)
  then show thesis using that put_mlq_proc_spec [OF assms(1)] unfolding put_proc_def by metis
qed

lemma machine_cpu_head:
  assumes inv: "machine_inv cfg b y" and sys: "sys_inv y" and i: "i < length (sys_cpus y)"
  obtains c' w' s' where "cpu_head (sys_cpus y ! i) (sys_w y) (sys_s y) = Some (c', w', s')"
    and "machine_inv cfg b (with_cpu y i c' w' s')"
proof -
  let ?c = "sys_cpus y ! i" and ?w = "sys_w y" and ?s = "sys_s y"
  have ok: "sched_ok ?s" using sys by (simp add: sys_inv_def)
  note quiet = machine_cpu_quiet [OF inv i]
  show thesis
  proof (cases "c_proc ?c")
    case None
    obtain p s' where g: "get_proc ?s = (p, s')" by (cases "get_proc ?s")
    let ?c' = "?c\<lparr>c_proc := p, c_pc := if p = None then C_Slot else C_Check\<rparr>"
    have "machine_inv cfg b (with_cpu y i ?c' ?w s')" by (rule quiet) (use held_get [OF ok g] None in simp_all)
    then show ?thesis by (intro that [of ?c']) (use None g in \<open>simp_all add: cpu_head_def\<close>)
  next
    case (Some q)
    have "proc_fit ?w (pids_given (sys_ld y)) q" by (rule machine_fit [OF inv cpu_proc_mem [OF i Some]])
    then obtain d where d: "w_pcbs ?w q = Some d" "unat (p_prio d) < MAX_PRIO" by (auto simp: proc_fit_def)
    have "q \<in># held y" using held_cpus_mem [OF i Some] by (simp add: held_def)
    then have k: "p_krnl d" using sys d(1) by (auto simp: sys_inv_def)
    consider (fin) "unat (p_pc d) = length (p_code d)"
      | (expired) "unat (p_pc d) \<noteq> length (p_code d)" "c_time_left ?c = 0"
      | (goes_on) "unat (p_pc d) \<noteq> length (p_code d)" "c_time_left ?c \<noteq> 0" by blast
    then show ?thesis
    proof cases
      case fin
      let ?c' = "?c\<lparr>c_proc := None, c_time_left := 0, c_pc := C_Get\<rparr>"
      show ?thesis
        by (rule that [of ?c']) (use Some d fin machine_cpu_free [OF inv sys i Some, of ?c'] in \<open>simp_all add: cpu_head_def\<close>)
    next
      case expired
      obtain w' s' where put: "put_proc q ?w ?s = Some (w', s')" by (rule put_proc_total [OF ok d(1) k d(2)])
      let ?c' = "?c\<lparr>c_proc := None, c_pc := C_Get\<rparr>"
      have "machine_inv cfg b (with_cpu y i ?c' w' s')"
        by (rule quiet) (use same_memory_put [OF put] handed_put_add(1) [OF ok put] Some in \<open>simp_all add: handed_def\<close>)
      then show ?thesis by (intro that [of ?c' w' s']) (use Some d expired put in \<open>simp_all add: cpu_head_def\<close>)
    next
      case goes_on
      have "machine_inv cfg b (with_cpu y i (?c\<lparr>c_pc := C_Check\<rparr>) ?w ?s)" by (rule quiet) simp_all
      then show ?thesis by (intro that) (use Some d goes_on in \<open>simp_all add: cpu_head_def\<close>)
    qed
  qed
qed

lemma machine_cpu_step:
  assumes inv: "machine_inv cfg b y" and sys: "sys_inv y" and i: "i < length (sys_cpus y)"
    and wf: "c_pc (sys_cpus y ! i) = C_Run \<longrightarrow> c_proc (sys_cpus y ! i) \<noteq> None"
  shows "cpu_step ts fin (sys_cpus y ! i) (sys_w y) (sys_s y) \<noteq> None"
    and "cpu_step ts fin (sys_cpus y ! i) (sys_w y) (sys_s y) = Some (Some (c', w', s')) \<Longrightarrow>
      machine_inv cfg b (with_cpu y i c' w' s')"
proof -
  let ?c = "sys_cpus y ! i" and ?w = "sys_w y" and ?s = "sys_s y"
  have ok: "sched_ok ?s" using sys by (simp add: sys_inv_def)
  note quiet = machine_cpu_quiet [OF inv i]
  have "\<exists>r. cpu_step ts fin ?c ?w ?s = Some r \<and> (\<forall>c' w' s'. r = Some (c', w', s') \<longrightarrow> machine_inv cfg b (with_cpu y i c' w' s'))"
  proof (cases "c_pc ?c")
    case C_Head
    then show ?thesis by (auto simp: cpu_step_def intro: machine_cpu_head [OF inv sys i])
  next
    case C_Get
    obtain p s' where g: "get_proc ?s = (p, s')" by (cases "get_proc ?s")
    have "machine_inv cfg b (with_cpu y i (?c\<lparr>c_proc := p, c_pc := C_Check\<rparr>) ?w s')"
      by (rule quiet) (use held_get [OF ok g] in simp_all)
    then show ?thesis using C_Get g by (simp add: cpu_step_def)
  next
    case C_Check
    have "machine_inv cfg b (with_cpu y i (cpu_check ts fin ?c) ?w ?s)"
      by (rule quiet) (simp_all add: cpu_check_def)
    then show ?thesis using C_Check by (simp add: cpu_step_def)
  next
    case C_Run
    then obtain q where q: "c_proc ?c = Some q" using wf by auto
    obtain r w' where "run q ?w = Some (r, w')"
      "\<And>c' :: cpu_t. c_proc c' = Some q \<Longrightarrow> machine_inv cfg b (with_cpu y i c' w' ?s)"
      by (rule machine_cpu_run [OF inv sys i q]) blast
    then show ?thesis using C_Run q by (simp add: cpu_step_def)
  next
    case C_Slot
    have "machine_inv cfg b (with_cpu y i (?c\<lparr>c_pc := C_Head\<rparr>) ?w ?s)" by (rule quiet) simp_all
    then show ?thesis using C_Slot by (simp add: cpu_step_def)
  next
    case C_Stop
    then show ?thesis by (simp add: cpu_step_def)
  qed
  then show "cpu_step ts fin ?c ?w ?s \<noteq> None"
    and "cpu_step ts fin ?c ?w ?s = Some (Some (c', w', s')) \<Longrightarrow> machine_inv cfg b (with_cpu y i c' w' s')" by auto
qed

section \<open>The loader\<close>

text \<open>The new process joins the others, with an empty address space.\<close>

definition joined :: "pcb_ptr \<Rightarrow> world \<Rightarrow> world \<Rightarrow> bool" where
  "joined p w w' \<longleftrightarrow> (\<exists>c mp. w_pcbs w p = Some c \<and> w_pcbs w' = (w_pcbs w)(p \<mapsto> c\<lparr>p_mm := Some mp\<rparr>)
     \<and> space_ok p (c\<lparr>p_mm := Some mp\<rparr>) mp 0 w')"

lemma procs_register:
  assumes inv: "procs_ok w D n h" and new: "p \<notin> D" and c: "w_pcbs w p = Some c" "p_krnl c" "p_pc c = 0" "length (p_regs c) = 10"
      "length (p_code c) < 2 ^ 32" "user_program (p_code c) b" "unat (p_pid c) = Suc n"
    and h: "h = 8 + b + h'" and raw: "length (mm_symrgtbl raw) = PAGING_MAX_SYMTBL_SZ"
    and dev: "dev_ok 13 ram" "used_fp_list ram = []" "dev_ok 21 swp" "used_fp_list swp = []"
    and fresh: "w_mms w kmp = None" "w_mms w ump = None" "kmp \<noteq> ump" and s: "sched_ok s"
    and reg: "ld_register kmp ump raw ram swp p w s = Some (ok, w', s')"
  shows "ok" and "procs_ok w' (insert p D) (Suc n) h'" and "Suc n < PID_MAX"
    and "\<And>q. q \<in> D \<Longrightarrow> process_view (desc_of w) q w' = process_view (desc_of w) q w"
    and "joined p w w'" and "mram w' = Some (case mram w of None \<Rightarrow> ram | Some d \<Rightarrow> d)"
proof -
  have pt: "length (k_proc_table (w_os w)) = PID_MAX" and mo: "memory_ok w" and ks: "kernel_set w" and fin: "finite D"
    and hm: "(\<Sum>q \<in> D. host_need w q) + h \<le> w_hostmem w" and fit: "\<And>q. q \<in> D \<Longrightarrow> proc_fit w n q" and inj: "inj_on (desc_of w) D"
    using inv by (simp_all add: procs_ok_def)
  have h8: "8 \<le> w_hostmem w" using hm h by simp
  note r = ld_register_adds [OF reg c(1,2) h8 fresh pt s raw ks]
  show "ok" by (rule r(1))
  show lt: "Suc n < PID_MAX" using r(7) c(7) by simp
  let ?c = "c\<lparr>p_mm := Some ump\<rparr>"
  note vm = memory_attach [OF mo dev r(5,6,2,3)]
  have pcb: "w_pcbs w' q = w_pcbs w q" if "q \<in> D" for q using r(4) that new by auto
  then have same: "desc_of w' q = desc_of w q" "host_need w' q = host_need w q" if "q \<in> D" for q
    using that by (simp_all add: desc_of_def host_need_def left_of_def)
  have old: "page_bytes w' = page_bytes w" "w_mms w' (desc_of w q) = w_mms w (desc_of w q)" "desc_of w q \<noteq> ump"
    "unat (p_pid (the (w_pcbs w q))) \<le> n" if "q \<in> D" for q
  proof -
    have run: "runnable q (desc_of w q) w" using fit [OF that] by (simp add: proc_fit_def)
    show "page_bytes w' = page_bytes w" by (rule vm(2) [OF runnable_inv [OF run]])
    obtain m where "w_mms w (desc_of w q) = Some m" using runnable_desc [OF run] by blast
    then show "w_mms w' (desc_of w q) = w_mms w (desc_of w q)" and "desc_of w q \<noteq> ump" using r(10) fresh(2) by auto
    show "unat (p_pid (the (w_pcbs w q))) \<le> n" using fit [OF that] by (auto simp: proc_fit_def)
  qed
  show "process_view (desc_of w) q w' = process_view (desc_of w) q w" if "q \<in> D" for q
    using old(1,2) [OF that] pcb [OF that] by (simp add: process_view_def)
  have others: "proc_fit w' (Suc n) q" if q: "q \<in> D" for q
  proof -
    have "runnable q (desc_of w q) w'"
      by (rule runnable_keep [of _ _ w])
        (use fit [OF q] vm(1) old [OF q] pcb [OF q] r(8,13) c(7) in \<open>auto simp: proc_fit_def arr_get_def\<close>)
    then show ?thesis using fit [OF q] same [OF q] pcb [OF q] by (auto simp: proc_fit_def)
  qed
  have desc: "desc_of w' p = ump" using r(4) by (simp add: desc_of_def)
  show "mram w' = Some (case mram w of None \<Rightarrow> ram | Some d \<Rightarrow> d)" by (rule r(5))
  then have "pool_ok (case mram w of None \<Rightarrow> ram | Some d \<Rightarrow> d)" using vm_inv_pool [OF vm(1)] by auto
  then have "heap_ok p ?c ump 0 w'"
    using ld_register_ready [OF _ c(1,2) raw pt, of kmp ump ram swp s w' s'] reg r(1) by simp
  moreover have "page_bytes w' ump q = None" for q
    using r(2) fresh(2) by (simp add: page_bytes_def contents_def vpage_def pte_view_def)
  ultimately have sp: "space_ok p ?c ump 0 w'" using vm(1) by (simp add: space_ok_def)
  then show "joined p w w'" unfolding joined_def using c(1) r(4) by blast
  have cl: "code_left ?c = p_code c" using c(3) by (simp add: code_left_def)
  have "kernel_ready ump (p_code c) w'" using r(12) c(6) by (auto simp: kernel_ready_def user_program_def)
  then have "runnable p ump w'"
    unfolding runnable_def using sp c(4-6) cl by (intro exI [of _ ?c] exI [of _ "0 :: nat"]) (simp add: user_program_def)
  then have "proc_fit w' (Suc n) p" using r(4,11) c(7) desc by (simp add: proc_fit_def)
  moreover have "inj_on (desc_of w') D" using inj same(1) by (simp add: inj_on_def)
  moreover have "desc_of w' p \<noteq> desc_of w' q" if "q \<in> D" for q using same(1) [OF that] old(3) [OF that] desc by simp
  ultimately have "proc_fit w' (Suc n) p" "inj_on (desc_of w') (insert p D)" by auto
  moreover have "host_need w' p \<le> b" using r(4) cl c(6) by (simp add: host_need_def left_of_def user_program_def)
  then have "(\<Sum>q \<in> insert p D. host_need w' q) + h' \<le> w_hostmem w'"
    using hm h r(9) new fin same(2) by (simp cong: sum.cong)
  moreover have "length (k_proc_table (w_os w')) = PID_MAX" using r(8) pt by simp
  ultimately show "procs_ok w' (insert p D) (Suc n) h'"
    using others vm(1) fin r(12) by (auto simp: procs_ok_def memory_ok_def kernel_set_def)
qed

lemma load_fields:
  assumes "load raw raw_text file pid = Some (Some (c, pid'))"
  shows "p_pid c = pid" and "p_pc c = 0" and "p_regs c = p_regs raw" and "pid' = pid + 1"
  using assms by (auto simp: load_def Let_def split: option.splits prod.splits bind_splits if_splits)

lemma entries_drop: "i < length es \<Longrightarrow> entries_need b (drop i es) = 8 + b (es ! i) + entries_need b (drop (Suc i) es)"
  by (simp add: entries_need_def flip: Cons_nth_drop_Suc)

lemma procs_of_upd [simp]:
  "procs_of (y\<lparr>sys_w := w\<rparr>) = procs_of y" "procs_of (y\<lparr>sys_ld := l\<rparr>) = procs_of y"
  "procs_of (y\<lparr>sys_time := t\<rparr>) = procs_of y" "procs_of (y\<lparr>sys_done := d\<rparr>) = procs_of y"
  by (simp_all add: procs_of_def)

lemma machine_load:
  assumes inv: "machine_inv cfg b y" and cfg: "user_config cfg b" and pc: "l_pc (sys_ld y) = L_Load"
    and i: "l_i (sys_ld y) < length (cfg_entries cfg)" and fresh: "w_pcbs (sys_w y) p = None"
    and raw: "length (p_regs raw) = 10" "\<And>n. length (raw_text n) = n"
    and ld: "ld_load p raw raw_text (cfg_entries cfg ! l_i (sys_ld y)) (l_avail_pid (sys_ld y)) (sys_w y) = Some (Some (pid, w'))"
  shows "machine_inv cfg b (y\<lparr>sys_w := w', sys_ld := (sys_ld y)\<lparr>l_pc := L_Wait p, l_avail_pid := pid\<rparr>\<rparr>)" (is "machine_inv cfg b ?y")
proof -
  let ?e = "cfg_entries cfg ! l_i (sys_ld y)" and ?w = "sys_w y"
  obtain c where l: "load raw raw_text (le_file ?e) (l_avail_pid (sys_ld y)) = Some (Some (c, pid))"
    and w': "w' = ?w\<lparr>w_pcbs := (w_pcbs ?w)(p \<mapsto> c\<lparr>p_krnl := True, p_prio := ucast (le_prio ?e)\<rparr>)\<rparr>"
    using ld by (auto simp: ld_load_def split: bind_splits)
  note f = load_fields [OF l]
  have "user_program (p_code c) (b ?e)"
    using cfg nth_mem [OF i] l raw unfolding user_config_def user_entry_def by blast
  moreover have "pcb_wf c" by (rule load_wf [OF l raw])
  moreover have ok: "pids_given (sys_ld y) < PID_MAX" "l_avail_pid (sys_ld y) = of_nat (l_i (sys_ld y) + 1)"
    using inv pc by (simp_all add: machine_inv_def ld_ok_def Let_def)
  ultimately have "ld_ok cfg b ?y"
    using f i by (simp add: ld_ok_def pids_given_def pc w' pcb_wf_def)
  moreover have p: "p \<notin> procs_of y"
  proof
    assume "p \<in> procs_of y"
    then show False using machine_fit [OF inv, of p] fresh by (auto simp: proc_fit_def)
  qed
  moreover have "pids_given (sys_ld ?y) = pids_given (sys_ld y)" "pending cfg (sys_ld ?y) = pending cfg (sys_ld y)"
    by (simp_all add: pids_given_def pending_def pc)
  moreover have "procs_ok w' (procs_of y) (pids_given (sys_ld y)) (entries_need b (pending cfg (sys_ld y)))"
    by (rule procs_keep [of ?w "procs_of y"]) (use inv p in \<open>auto simp: machine_inv_def w'\<close>)
  ultimately show ?thesis by (simp add: machine_inv_def)
qed

lemma machine_register:
  assumes inv: "machine_inv cfg b y" and sys: "sys_inv y" and cfg: "user_config cfg b" and pc: "l_pc (sys_ld y) = L_Wait p"
    and fresh: "w_mms (sys_w y) kmp = None" "w_mms (sys_w y) ump = None" "kmp \<noteq> ump"
    and raw: "length (mm_symrgtbl raw) = PAGING_MAX_SYMTBL_SZ"
    and reg: "ld_register kmp ump raw (cfg_ram cfg) (cfg_swp cfg) p (sys_w y) (sys_s y) = Some (ok, w', s')"
  shows "machine_inv cfg b (y\<lparr>sys_w := w', sys_s := s', sys_ld := (sys_ld y)\<lparr>l_pc := if ok then L_Slot else L_Failed\<rparr>\<rparr>)"
      (is "machine_inv cfg b ?y")
    and "\<And>q. q \<in> procs_of y \<Longrightarrow> process_view (desc_of (sys_w y)) q w' = process_view (desc_of (sys_w y)) q (sys_w y)"
    and "ok" and "joined p (sys_w y) w'" and "mram w' = Some (case mram (sys_w y) of None \<Rightarrow> cfg_ram cfg | Some d \<Rightarrow> d)"
    and "procs_of (y\<lparr>sys_w := w', sys_s := s', sys_ld := (sys_ld y)\<lparr>l_pc := if ok then L_Slot else L_Failed\<rparr>\<rparr>) \<subseteq> insert p (procs_of y)"
    and "p \<notin> procs_of y"
proof -
  let ?w = "sys_w y" and ?i = "l_i (sys_ld y)"
  have ok_s: "sched_ok (sys_s y)" using sys by (simp add: sys_inv_def)
  have ldok: "ld_ok cfg b y" and po: "procs_ok ?w (procs_of y) ?i (entries_need b (drop ?i (cfg_entries cfg)))"
    using inv pc by (simp_all add: machine_inv_def pids_given_def pending_def)
  obtain c where c: "w_pcbs ?w p = Some c" "p_krnl c" "p_pc c = 0" "length (p_regs c) = 10" "length (p_code c) < 2 ^ 32"
    "user_program (p_code c) (b (cfg_entries cfg ! ?i))" "p_pid c = of_nat (?i + 1)"
    and l: "?i < length (cfg_entries cfg)" "?i < PID_MAX" "l_avail_pid (sys_ld y) = of_nat (?i + 2)"
    using ldok pc by (auto simp: ld_ok_def Let_def pids_given_def)
  have pid: "unat (p_pid c) = Suc ?i" using c(7) l(2) by (simp add: unat_of_nat PID_MAX_def del: of_nat_Suc of_nat_add)
  have "count (held y) p \<le> 1" using sys by (simp add: sys_inv_def)
  then have new: "p \<notin> procs_of y"
    using pc by (auto simp: procs_of_def held_def held_ld_def count_eq_zero_iff [symmetric])
  have dev: "dev_ok 13 (cfg_ram cfg)" "used_fp_list (cfg_ram cfg) = []" "dev_ok 21 (cfg_swp cfg)" "used_fp_list (cfg_swp cfg) = []"
    using cfg by (simp_all add: user_config_def)
  note r = procs_register [OF po new c(1-6) pid entries_drop [OF l(1)] raw dev fresh ok_s reg]
  show "\<And>q. q \<in> procs_of y \<Longrightarrow> process_view (desc_of ?w) q w' = process_view (desc_of ?w) q ?w" by (rule r(4))
  show "ok" by (rule r(1))
  show "joined p ?w w'" by (rule r(5))
  show "mram w' = Some (case mram ?w of None \<Rightarrow> cfg_ram cfg | Some d \<Rightarrow> d)" by (rule r(6))
  show "p \<notin> procs_of y" by (rule new)
  have "set_mset (held_ready s') \<subseteq> insert p (set_mset (held_ready (sys_s y)))"
    using ld_register_spec [OF ok_s reg, of p] set_mset_mono by fastforce
  then show sub: "procs_of ?y \<subseteq> insert p (procs_of y)" by (auto simp: procs_of_def)
  have "procs_ok w' (procs_of ?y) (Suc ?i) (entries_need b (drop (Suc ?i) (cfg_entries cfg)))"
    by (rule procs_keep [OF r(2) sub]) simp_all
  moreover have "ld_ok cfg b ?y" using r(1,3) l(3) by (simp add: ld_ok_def pids_given_def)
  ultimately show "machine_inv cfg b ?y" using r(1) by (simp add: machine_inv_def pids_given_def pending_def)
qed

section \<open>Reachable states\<close>

lemma machine_init:
  assumes "entries_need b (cfg_entries cfg) \<le> h"
  shows "machine_inv cfg b (sys_init n h)"
proof -
  let ?w = "world_init h"
  have "no_memory ?w" by (simp add: no_memory_def world_init_def vpage_def pte_view_def fifo_def)
  moreover have "procs_of (sys_init n h) = {}"
    by (simp add: procs_of_def held_ready_def sys_init_def held_cpus_def cpu_init_def)
  ultimately show ?thesis
    using assms by (simp add: machine_inv_def procs_ok_def ld_ok_def memory_ok_def sys_init_def ld_init_def pids_given_def
        pending_def PID_MAX_def world_init_def kernel_set_def)
qed

lemma machine_start:
  assumes inv: "machine_inv cfg b y" and pc: "l_pc (sys_ld y) = L_Start"
  shows "machine_inv cfg b (y\<lparr>sys_w := ld_start (sys_w y), sys_ld := (sys_ld y)\<lparr>l_pc := L_Load\<rparr>\<rparr>)"
proof -
  have n: "procs_of y = {}" "no_memory (sys_w y)" using inv pc by (simp_all add: machine_inv_def ld_ok_def Let_def)
  then have "no_memory (ld_start (sys_w y))"
    using pages_of_mms [of "ld_start (sys_w y)" "sys_w y"] by (simp add: no_memory_def ld_start_def)
  then show ?thesis
    using inv pc n by (simp add: machine_inv_def procs_ok_def ld_ok_def memory_ok_def pids_given_def pending_def ld_start_def Let_def kernel_set_def kernel_ok_def)
qed

lemma machine_step:
  assumes inv: "machine_inv cfg b y" and sys: "sys_inv y" and cfg: "user_config cfg b" and wf: "sys_wf (cfg_time_slot cfg) y"
    and step: "sys_step cfg y y'"
  shows "machine_inv cfg b y'"
  using step
proof cases
  case (Cpu i c' w' s')
  have "c_pc (sys_cpus y ! i) = C_Run \<longrightarrow> c_proc (sys_cpus y ! i) \<noteq> None" using wf Cpu(2) by (simp add: sys_wf_def cpu_wf_def)
  then show ?thesis using machine_cpu_step(2) [OF inv sys Cpu(2) _ Cpu(3)] Cpu(1) by (simp add: with_cpu_def)
next
  case Ld_Start
  then show ?thesis using machine_start [OF inv] by simp
next
  case (Ld_Load p raw raw_text pid w')
  show ?thesis unfolding Ld_Load(1) by (rule machine_load [OF inv cfg Ld_Load(2-7)])
next
  case (Ld_Register p kmp ump rawm ok w' s')
  show ?thesis unfolding Ld_Register(1) by (rule machine_register(1) [OF inv sys cfg Ld_Register(2,4-8)])
next
  case Tick
  show ?thesis unfolding Tick(1) by (rule machine_keep [OF inv]) simp_all
qed (use inv in \<open>simp_all add: machine_inv_def ld_ok_def pids_given_def pending_def Let_def procs_ok_def entries_need_def\<close>)

lemma machine_reach:
  assumes "sys_reach cfg n h y" and "user_config cfg b" and "entries_need b (cfg_entries cfg) \<le> h" and "0 < cfg_time_slot cfg"
  shows "machine_inv cfg b y"
  using assms(1)
proof induction
  case Init
  show ?case by (rule machine_init [OF assms(3)])
next
  case (Step y y')
  show ?case by (rule machine_step [OF Step.IH sys_reach_inv [OF Step.hyps(1)] assms(2) sys_reach_wf [OF assms(4) Step.hyps(1)] Step.hyps(2)])
qed

section \<open>What a step changes\<close>

lemma same_memory_view: "same_memory w w' \<Longrightarrow> w_pcbs w' p = w_pcbs w p \<Longrightarrow> process_view desc p w' = process_view desc p w"
  using same_memory_pages(2) [of w w'] by (simp add: process_view_def same_memory_def)

lemma cpu_step_memory:
  assumes "cpu_step ts fin c w s = Some (Some (c', w', s'))"
  shows "(\<exists>q r. c_pc c = C_Run \<and> c_proc c = Some q \<and> run q w = Some (r, w'))
    \<or> same_memory w w' \<and> (\<forall>p. w_pcbs w' p \<noteq> None \<longrightarrow> w_pcbs w' p = w_pcbs w p)"
proof (cases "c_pc c")
  case C_Head
  then show ?thesis
    using assms by (auto simp: cpu_step_def cpu_head_def dest!: same_memory_put split: option.splits prod.splits bind_splits if_splits)
qed (use assms in \<open>auto simp: cpu_step_def split: prod.splits bind_splits\<close>)

lemma machine_isolation:
  assumes "sys_reach cfg n h y" and "user_config cfg b" and "entries_need b (cfg_entries cfg) \<le> h" and "0 < cfg_time_slot cfg"
    and "sys_step cfg y y'" and "p \<in> procs_of y" and "p \<in> procs_of y'"
  shows "process_view (desc_of (sys_w y)) p (sys_w y') = process_view (desc_of (sys_w y)) p (sys_w y)
    \<or> (\<exists>i r. i < length (sys_cpus y) \<and> c_pc (sys_cpus y ! i) = C_Run \<and> c_proc (sys_cpus y ! i) = Some p
         \<and> run p (sys_w y) = Some (r, sys_w y'))"
proof -
  note inv = machine_reach [OF assms(1-4)] and sys = sys_reach_inv [OF assms(1)]
  have live: "w_pcbs (sys_w y') p \<noteq> None"
    using machine_reach [OF sys_reach.Step [OF assms(1,5)] assms(2-4)] assms(7) by (auto simp: proc_fit_def dest!: machine_fit)
  from assms(5) show ?thesis
  proof cases
    case (Cpu i c' w' s')
    from cpu_step_memory [OF Cpu(3)] show ?thesis
    proof (elim disjE exE conjE)
      fix q r
      assume q: "c_pc (sys_cpus y ! i) = C_Run" "c_proc (sys_cpus y ! i) = Some q" "run q (sys_w y) = Some (r, w')"
      obtain r2 w2 where "run q (sys_w y) = Some (r2, w2)" "own_step q (desc_of (sys_w y) q) (sys_w y) w2"
        by (rule machine_cpu_run [OF inv sys Cpu(2) q(2)])
      then have o: "own_step q (desc_of (sys_w y) q) (sys_w y) w'" using q(3) by simp
      have "desc_of (sys_w y) p \<noteq> desc_of (sys_w y) q" if "p \<noteq> q"
        using machine_population [OF inv] cpu_proc_mem [OF Cpu(2) q(2)] assms(6) that by (auto simp: population_def inj_on_def)
      moreover have "runnable p (desc_of (sys_w y) p) (sys_w y)" using machine_fit [OF inv assms(6)] by (simp add: proc_fit_def)
      ultimately show ?thesis using own_step_view [of q "desc_of (sys_w y)" "sys_w y" w' p] o q Cpu(1,2) by (cases "p = q") auto
    next
      assume "same_memory (sys_w y) w'" and "\<forall>p. w_pcbs w' p \<noteq> None \<longrightarrow> w_pcbs w' p = w_pcbs (sys_w y) p"
      then show ?thesis using live Cpu(1) same_memory_view by simp
    qed
  next
    case (Ld_Load q raw raw_text pid w')
    have "w_pcbs (sys_w y) p \<noteq> None" using machine_fit [OF inv assms(6)] by (auto simp: proc_fit_def)
    then have "w_pcbs w' p = w_pcbs (sys_w y) p" "same_memory (sys_w y) w'"
      using Ld_Load(4,7) by (auto simp: ld_load_def split: bind_splits)
    then show ?thesis using same_memory_view Ld_Load(1) by simp
  next
    case (Ld_Register q kmp ump rawm ok w' s')
    show ?thesis using machine_register(2) [OF inv sys assms(2) Ld_Register(2,4-8) assms(6)] Ld_Register(1) by simp
  next
    case Ld_Start
    then show ?thesis using inv assms(6) by (simp add: machine_inv_def ld_ok_def Let_def)
  qed simp_all
qed

section \<open>The small configuration\<close>

lemma ex_load_any:
  assumes "\<And>n. length (raw_text n) = n" and "load raw raw_text (Some ''1 2 calc calc'') pid = Some (Some (c, pid'))"
  shows "list_all (\<lambda>ins. opcode ins = CALC) (p_code c)"
proof -
  have "length (raw_text 2) = 2" by (rule assms(1))
  then obtain t u where tu: "raw_text 2 = [t, u]" by (auto simp: numeral_2_eq_2 length_Suc_conv)
  have sc: "scan_ulongs 2 ''1 2 calc calc'' = ([1, 2], '' calc calc'')" by code_simp
  have "read_text [t, u] None None '' calc calc'' = Some (Some [t\<lparr>opcode := CALC\<rparr>, u\<lparr>opcode := CALC\<rparr>])"
    by (cases t, cases u, simp only:, code_simp)
  then show ?thesis using assms(2) tu by (auto simp: load_def Let_def sc)
qed

lemma ex_user_config: "user_config ex_cfg (\<lambda>_. 0)" "entries_need (\<lambda>_. 0) (cfg_entries ex_cfg) \<le> 20" "0 < cfg_time_slot ex_cfg"
proof -
  have "user_program xs 0" if "list_all (\<lambda>ins. opcode ins = CALC) xs" for xs
    using that by (induction xs) (simp_all add: user_program_def inst_pages_def inst_host_def program_inst_def user_inst_def)
  then have "user_entry e 0" if "e \<in> set (cfg_entries ex_cfg)" for e
    using that ex_load_any unfolding user_entry_def by (simp add: ex_cfg_def) blast
  then show "user_config ex_cfg (\<lambda>_. 0)" by (simp add: user_config_def) (simp add: ex_cfg_def dev_ok_def)
  show "entries_need (\<lambda>_. 0) (cfg_entries ex_cfg) \<le> 20" "0 < cfg_time_slot ex_cfg" by (simp_all add: entries_need_def ex_cfg_def)
qed

section \<open>Properties\<close>

text \<open>C3: The machine never executes an instruction with an undefined outcome.  For a configuration of programs on
  user and kernel memory (no \<open>syscall 17\<close>, and a cache pool is created before the first slot is taken) that ask for less than
  2 GB each and together need no more host memory than there is, on devices
  all of whose frames lie inside their storage, in every
  reachable state of the threads every processor can take its next step (no null pointer, index out of range or
  freed block), every process in a queue or on a processor has a well-formed address space with room for the
  rest of its program, and no two of them share a descriptor.\<close>

theorem machine_never_stuck:
  assumes "sys_reach cfg n h y" and "user_config cfg b" and "entries_need b (cfg_entries cfg) \<le> h" and "0 < cfg_time_slot cfg"
  shows "(\<forall>i < length (sys_cpus y).
      cpu_step (cfg_time_slot cfg) (sys_done y) (sys_cpus y ! i) (sys_w y) (sys_s y) \<noteq> None)
    \<and> (\<forall>p \<in> procs_of y. runnable p (desc_of (sys_w y) p) (sys_w y)) \<and> inj_on (desc_of (sys_w y)) (procs_of y)"
proof -
  note inv = machine_reach [OF assms] and sys = sys_reach_inv [OF assms(1)] and wf = sys_reach_wf [OF assms(4,1)]
  have "cpu_step (cfg_time_slot cfg) (sys_done y) (sys_cpus y ! i) (sys_w y) (sys_s y) \<noteq> None" if "i < length (sys_cpus y)" for i
    by (rule machine_cpu_step(1) [OF inv sys that]) (use wf that in \<open>simp add: sys_wf_def cpu_wf_def\<close>)
  then show ?thesis using machine_population [OF inv] by (simp add: population_def)
qed

theorem machine_never_stuck_witness:
  "\<exists>y. sys_reach ex_cfg 1 20 y \<and> 7 \<in> procs_of y \<and> runnable 7 (desc_of (sys_w y) 7) (sys_w y)
     \<and> cpu_step 2 (sys_done y) (sys_cpus y ! 0) (sys_w y) (sys_s y) \<noteq> None"
proof -
  obtain y where y: "sys_reach ex_cfg 1 20 y" "ready (sys_s y) = (\<lambda>_. [])(3 := [7])" "sys_cpus y = [cpu_init]"
    using ex_reach by blast
  have "7 \<in> procs_of y" using held_ready_mem [of 7 "sys_s y" 3] y(2) by (simp add: procs_of_def)
  moreover have "cfg_time_slot ex_cfg = 2" by (simp add: ex_cfg_def)
  ultimately show ?thesis using machine_never_stuck [OF y(1) ex_user_config] y(1,3) by force
qed



end
