(* ===== verification/Reserve.thy ===== *)
theory Reserve
  imports Machine
begin

text \<open>
  The memory operations on devices that have more frames than the programs need.  \<open>pad\<close> appends frames to the
  free lists of the devices of a world.  Operations that do not use the devices commute with it, and so do
  allocations as long as the original list is not exhausted.  When every page of an address space is
  present no access takes a frame, so an instruction behaves the same with and without the additional
  frames and takes no more than the pages it allocates.
\<close>

section \<open>Operations that do not use the kernel structure\<close>

text \<open>The same world with another kernel structure.\<close>

definition with_os :: "krnl_t \<Rightarrow> world \<Rightarrow> world" where
  "with_os os w = w\<lparr>w_os := os\<rparr>"

lemma with_os_sel [simp]:
  "w_mms (with_os os w) = w_mms w" "w_pcbs (with_os os w) = w_pcbs w" "w_hostmem (with_os os w) = w_hostmem w"
  "w_os (with_os os w) = os"
  by (simp_all add: with_os_def)

lemma with_os_upd [simp]:
  "set_mm (with_os os w) mp m = with_os os (set_mm w mp m)"
  "(with_os os w)\<lparr>w_hostmem := h\<rparr> = with_os os (w\<lparr>w_hostmem := h\<rparr>)"
  "(with_os os w)\<lparr>w_pcbs := c\<rparr> = with_os os (w\<lparr>w_pcbs := c\<rparr>)"
  by (simp_all add: with_os_def set_mm_def)

lemma with_os_same [simp]: "with_os (w_os w) w = w"
  by (simp add: with_os_def)

abbreviation lift_os :: "krnl_t \<Rightarrow> 'a \<times> world \<Rightarrow> 'a \<times> world" where
  "lift_os os \<equiv> apsnd (with_os os)"

abbreviation lift_os2 :: "krnl_t \<Rightarrow> 'a \<times> 'b \<times> world \<Rightarrow> 'a \<times> 'b \<times> world" where
  "lift_os2 os \<equiv> apsnd (apsnd (with_os os))"

lemma with_os_eq: "with_os os w = w \<longleftrightarrow> os = w_os w"
  by (metis with_os_same with_os_sel(4))

text \<open>What commutes with the exchange of the kernel structure leaves it alone.\<close>

lemma os_keep:
  assumes "\<And>os w. f (with_os os w) = map_option (lift_os os) (f w)" and "f w = Some (r, w')"
  shows "w_os w' = w_os w" and "f (with_os os w) = Some (r, with_os os w')"
proof -
  have "f w = map_option (lift_os (w_os w)) (f w)" using assms(1) [of "w_os w" w] by simp
  then have "with_os (w_os w) w' = w'" using assms(2) by simp
  then show "w_os w' = w_os w" by (simp add: with_os_eq)
  show "f (with_os os w) = Some (r, with_os os w')" using assms by simp
qed

lemma os_keep2:
  assumes "\<And>os w. f (with_os os w) = map_option (lift_os2 os) (f w)" and "f w = Some (r, x, w')"
  shows "w_os w' = w_os w" and "f (with_os os w) = Some (r, x, with_os os w')"
proof -
  have "f w = map_option (lift_os2 (w_os w)) (f w)" using assms(1) [of "w_os w" w] by simp
  then have "with_os (w_os w) w' = w'" using assms(2) by simp
  then show "w_os w' = w_os w" by (simp add: with_os_eq)
  show "f (with_os os w) = Some (r, x, with_os os w')" using assms by simp
qed

named_theorems os_free \<open>operations that do not use the kernel structure\<close>

lemma host_alloc_os [os_free]: "host_alloc (with_os os w) = lift_os os (host_alloc w)"
  by (simp add: host_alloc_def)

lemma get_pte_ptr_os [os_free]: "get_pte_ptr c pgn al (with_os os w) = map_option (lift_os os) (get_pte_ptr c pgn al w)"
  by (auto simp: get_pte_ptr_def Let_def split: frame_splits)

lemma pte_write_os [os_free]: "pte_write (with_os os w) p v = map_option (with_os os) (pte_write w p v)"
  by (auto simp: pte_write_def split: bind_splits)

lemma count_write_os [os_free]: "count_write (with_os os w) mp = map_option (with_os os) (count_write w mp)"
  by (auto simp: count_write_def Let_def split: bind_splits)

lemma pte_load_os [os_free]: "pte_load (with_os os w) p = pte_load w p"
  by (simp add: pte_load_def)

lemma pte_get_entry_os [os_free]: "pte_get_entry c pgn (with_os os w) = map_option (lift_os os) (pte_get_entry c pgn w)"
  by (auto simp: pte_get_entry_def os_free split: frame_splits)

lemma pte_set_fpn_os [os_free]: "pte_set_fpn c pgn fpn (with_os os w) = map_option (lift_os os) (pte_set_fpn c pgn fpn w)"
  by (auto simp: pte_set_fpn_def os_free split: frame_splits)

lemma enlist_pgn_node_os [os_free]: "enlist_pgn_node mp pgn (with_os os w) = map_option (with_os os) (enlist_pgn_node mp pgn w)"
  by (auto simp: enlist_pgn_node_def Let_def os_free split: frame_splits)

lemma vmap_loop_os [os_free]: "vmap_loop c a i n fs (with_os os w) = map_option (lift_os2 os) (vmap_loop c a i n fs w)"
proof (induction c a i n fs w rule: vmap_loop.induct)
  case (2 c a i n fs w)
  then show ?case by (auto simp: Let_def os_free split: frame_splits)
qed simp

lemma vmap_page_range_os [os_free]:
  "vmap_page_range c a n fs rg (with_os os w) = map_option (lift_os2 os) (vmap_page_range c a n fs rg w)"
  by (auto simp: vmap_page_range_def Let_def os_free split: frame_splits)

lemma get_vma_by_num_os [os_free]: "get_vma_by_num mp v (with_os os w) = get_vma_by_num mp v w"
  by (simp add: get_vma_by_num_def split: option.splits)

lemma validate_overlap_os [os_free]: "validate_overlap_vm_area c v s e (with_os os w) = validate_overlap_vm_area c v s e w"
  by (simp add: validate_overlap_vm_area_def split: option.splits)

lemma set_vma_limits_os [os_free]: "set_vma_limits mp i e b (with_os os w) = map_option (with_os os) (set_vma_limits mp i e b w)"
  by (auto simp: set_vma_limits_def split: bind_splits)

lemma enlist_vm_freerg_list_os [os_free]:
  "enlist_vm_freerg_list mp rg (with_os os w) = map_option (lift_os os) (enlist_vm_freerg_list mp rg w)"
  by (auto simp: enlist_vm_freerg_list_def split: frame_splits)

lemma get_free_vmrg_area_os [os_free]:
  "get_free_vmrg_area c v sz rg (with_os os w) = map_option (lift_os2 os) (get_free_vmrg_area c v sz rg w)"
  by (auto simp: get_free_vmrg_area_def Let_def os_free split: frame_splits)

lemma set_symrg_os [os_free]: "set_symrg mp i a b (with_os os w) = map_option (with_os os) (set_symrg mp i a b w)"
  by (auto simp: set_symrg_def split: bind_splits)

lemma vm_free_os [os_free]: "vm_free c v rg (with_os os w) = map_option (lift_os os) (vm_free c v rg w)"
  by (auto simp: vm_free_def Let_def os_free split: frame_splits)

lemma set_reg_os [os_free]: "set_reg p i v (with_os os w) = map_option (with_os os) (set_reg p i v w)"
  by (auto simp: set_reg_def split: bind_splits)

lemma libfree_os [os_free]: "libfree p i (with_os os w) = map_option (lift_os os) (libfree p i w)"
  by (auto simp: libfree_def os_free split: frame_splits)

lemma init_mm_os [os_free]: "init_mm mp c (with_os os w) = map_option (lift_os os) (init_mm mp c w)"
  by (auto simp: init_mm_def init_vm_rg_def Let_def os_free split: frame_splits)

lemma new_mm_os [os_free]: "new_mm mp raw c (with_os os w) = map_option (lift_os2 os) (new_mm mp raw c w)"
  by (auto simp: new_mm_def Let_def os_free split: frame_splits)

section \<open>Devices with more frames\<close>

text \<open>The additional frames stand at the end of the free list, so they are taken last.\<close>

definition more_frames :: "addr_t list \<Rightarrow> memphy_struct \<Rightarrow> memphy_struct" where
  "more_frames xs d = d\<lparr>free_fp_list := free_fp_list d @ xs\<rparr>"

definition pad :: "addr_t list \<Rightarrow> addr_t list \<Rightarrow> world \<Rightarrow> world" where
  "pad xs zs w = with_os ((w_os w)\<lparr>k_mram := map_option (more_frames xs) (mram w),
     k_active_mswp := map_option (more_frames zs) (mswp w)\<rparr>) w"

definition frames_free :: "world \<Rightarrow> nat" where
  "frames_free w = (case mram w of None \<Rightarrow> 0 | Some d \<Rightarrow> length (free_fp_list d))"

lemma more_frames_sel [simp]:
  "storage (more_frames xs d) = storage d" "rdmflg (more_frames xs d) = rdmflg d" "used_fp_list (more_frames xs d) = used_fp_list d"
  "free_fp_list (more_frames xs d) = free_fp_list d @ xs" "maxsz (more_frames xs d) = maxsz d"
  by (simp_all add: more_frames_def)

lemma pad_sel [simp]:
  "w_mms (pad xs zs w) = w_mms w" "w_pcbs (pad xs zs w) = w_pcbs w" "w_hostmem (pad xs zs w) = w_hostmem w"
  "k_proc_table (w_os (pad xs zs w)) = k_proc_table (w_os w)" "k_mm (w_os (pad xs zs w)) = k_mm (w_os w)"
  "mram (pad xs zs w) = map_option (more_frames xs) (mram w)" "mswp (pad xs zs w) = map_option (more_frames zs) (mswp w)"
  by (simp_all add: pad_def)

lemma pad_upd [simp]:
  "(pad xs zs w)\<lparr>w_hostmem := h\<rparr> = pad xs zs (w\<lparr>w_hostmem := h\<rparr>)" "(pad xs zs w)\<lparr>w_pcbs := c\<rparr> = pad xs zs (w\<lparr>w_pcbs := c\<rparr>)"
  "set_mram (pad xs zs w) (map_option (more_frames xs) d) = pad xs zs (set_mram w d)"
  by (simp_all add: pad_def set_mram_def with_os_def)

lemma pad_free:
  assumes "\<And>os w. f (with_os os w) = map_option (lift_os os) (f w)"
  shows "f (pad xs zs w) = map_option (apsnd (pad xs zs)) (f w)"
proof (cases "f w")
  case (Some x)
  obtain r w' where x: "x = (r, w')" by (cases x)
  show ?thesis using os_keep [OF assms Some [unfolded x]] Some x by (simp add: pad_def)
qed (simp add: pad_def assms)

lemma pad_free2:
  assumes "\<And>os w. f (with_os os w) = map_option (lift_os2 os) (f w)"
  shows "f (pad xs zs w) = map_option (apsnd (apsnd (pad xs zs))) (f w)"
proof (cases "f w")
  case (Some x)
  obtain r v w' where x: "x = (r, v, w')" by (cases x)
  show ?thesis using os_keep2 [OF assms Some [unfolded x]] Some x by (simp add: pad_def)
qed (simp add: pad_def assms)

lemma pad_free0:
  assumes "\<And>os w. f (with_os os w) = map_option (with_os os) (f w)"
  shows "f (pad xs zs w) = map_option (pad xs zs) (f w)"
proof -
  let ?g = "\<lambda>w. map_option (Pair ()) (f w)"
  have "?g (pad xs zs w) = map_option (apsnd (pad xs zs)) (?g w)"
    by (rule pad_free) (simp add: assms option.map_comp comp_def)
  then show ?thesis by (cases "f w"; cases "f (pad xs zs w)") simp_all
qed

lemmas pad_simps =
  pad_free [where f = "pte_get_entry c pgn" for c pgn, OF pte_get_entry_os]
  pad_free2 [where f = "vmap_page_range c a n fs rg" for c a n fs rg, OF vmap_page_range_os]
  pad_free0 [where f = "set_vma_limits mp i e b" for mp i e b, OF set_vma_limits_os]
  pad_free [where f = "enlist_vm_freerg_list mp rg" for mp rg, OF enlist_vm_freerg_list_os]
  pad_free2 [where f = "get_free_vmrg_area c v sz rg" for c v sz rg, OF get_free_vmrg_area_os]
  pad_free0 [where f = "set_symrg mp i a b" for mp i a b, OF set_symrg_os]
  pad_free0 [where f = "set_reg p i v" for p i v, OF set_reg_os]
  pad_free [where f = "libfree p i" for p i, OF libfree_os]
  pad_free2 [where f = "new_mm mp raw c" for mp raw c, OF new_mm_os]

lemma host_alloc_pad: "host_alloc (pad xs zs w) = apsnd (pad xs zs) (host_alloc w)"
  by (simp add: host_alloc_def)

lemma get_proc_os: "w_os w' = w_os w \<Longrightarrow> get_proc_from_PID b pid w' = get_proc_from_PID b pid w"
  by (simp add: get_proc_from_PID_def)

lemma scans_pad:
  "get_vma_by_num mp v (pad xs zs w) = get_vma_by_num mp v w"
  "validate_overlap_vm_area c v s e (pad xs zs w) = validate_overlap_vm_area c v s e w"
  "get_proc_from_PID b pid (pad xs zs w) = get_proc_from_PID b pid w"
  by (simp_all add: pad_def os_free get_proc_from_PID_def)

lemma put_freefp_pad:
  "MEMPHY_put_freefp (map_option (more_frames xs) d) f = apsnd (map_option (more_frames xs)) (MEMPHY_put_freefp d f)"
  by (simp add: MEMPHY_put_freefp_def more_frames_def Let_def split: option.splits)

lemma io_pad:
  "MEMPHY_read (map_option (more_frames xs) d) a v =
     map_option (apsnd (apfst (map_option (more_frames xs)))) (MEMPHY_read d a v)"
  "MEMPHY_write (map_option (more_frames xs) d) a v = map_option (apsnd (map_option (more_frames xs))) (MEMPHY_write d a v)"
  by (auto simp: memphy_io_defs MEMPHY_mv_csr_def Let_def more_frames_def split: frame_splits)

lemma alloc_loop_pad:
  "n \<le> frames_free w \<Longrightarrow> alloc_loop n fs (pad xs zs w) = apsnd (apsnd (pad xs zs)) (alloc_loop n fs w)"
proof (induction n fs w rule: alloc_loop.induct)
  case (2 n fs w)
  obtain d f rest where d: "mram w = Some d" "free_fp_list d = f # rest"
    using "2.prems" by (auto simp: frames_free_def Suc_le_length_iff split: option.splits)
  let ?d = "d\<lparr>free_fp_list := rest, used_fp_list := f # used_fp_list d\<rparr>"
  have g: "MEMPHY_get_freefp (mram w) 0 = (0, Some ?d, f)"
    "MEMPHY_get_freefp (mram (pad xs zs w)) 0 = (0, map_option (more_frames xs) (Some ?d), f)"
    using d by (simp_all add: MEMPHY_get_freefp_def more_frames_def)
  obtain b w1 where h: "host_alloc (set_mram w (Some ?d)) = (b, w1)" by (cases "host_alloc (set_mram w (Some ?d))")
  have "n \<le> frames_free w1" using h "2.prems" d by (auto simp: host_alloc_def frames_free_def)
  then have ih: "b \<Longrightarrow> alloc_loop n (fs @ [f]) (pad xs zs w1) = apsnd (apsnd (pad xs zs)) (alloc_loop n (fs @ [f]) w1)"
    using "2.IH" [of 0 "(Some ?d, f)" "Some ?d" f b w1] g(1) h by simp
  show ?case
    unfolding alloc_loop.simps g prod.case pad_upd host_alloc_pad h
    using ih put_freefp_pad by (simp)
qed simp

lemma put_frames_pad: "put_frames fs (pad xs zs w) = pad xs zs (put_frames fs w)"
proof (induction fs w rule: put_frames.induct)
  case (2 f fs w)
  then show ?case unfolding put_frames.simps pad_sel put_freefp_pad by simp
qed simp

lemma vm_map_ram_pad:
  assumes "nat (sint n) \<le> frames_free w"
  shows "vm_map_ram (Some c) a e m n rg (pad xs zs w) = map_option (apsnd (apsnd (pad xs zs))) (vm_map_ram (Some c) a e m n rg w)"
  using alloc_loop_pad [OF assms, of "[]" xs zs]
  by (auto simp: vm_map_ram_def alloc_pages_range_def Let_def pad_simps put_frames_pad split: frame_splits)

text \<open>The pages that growing an area by a size asks for.\<close>

definition grow_pages :: "addr_t \<Rightarrow> nat" where
  "grow_pages inc = nat (sint (ucast (PAGING64_PAGE_ALIGNSZ inc div of_nat PAGING64_PAGESZ) :: cint))"

lemma inc_vma_limit_pad:
  assumes "grow_pages inc \<le> frames_free w"
  shows "inc_vma_limit (Some c) v inc (pad xs zs w) = map_option (apsnd (pad xs zs)) (inc_vma_limit (Some c) v inc w)"
proof -
  have f: "frames_free w' = frames_free w" if "set_vma_limits mp i e b (w\<lparr>w_hostmem := h\<rparr>) = Some w'" for mp i e b h w'
    using that by (auto simp: set_vma_limits_def frames_free_def split: bind_splits)
  have m: "vm_map_ram (Some c) a e m (ucast (PAGING64_PAGE_ALIGNSZ inc div of_nat PAGING64_PAGESZ)) rg (pad xs zs w')
      = map_option (apsnd (apsnd (pad xs zs)))
          (vm_map_ram (Some c) a e m (ucast (PAGING64_PAGE_ALIGNSZ inc div of_nat PAGING64_PAGESZ)) rg w')"
    if "set_vma_limits mp i e' b (w\<lparr>w_hostmem := h\<rparr>) = Some w'" for a e m rg mp i e' b h w'
    using f [OF that] assms by (intro vm_map_ram_pad) (simp add: grow_pages_def)
  show ?thesis
    by (auto simp: inc_vma_limit_def Let_def scans_pad host_alloc_pad host_alloc_def pad_simps m split: frame_splits)
qed

lemma sys_memmap_inc_pad:
  assumes "grow_pages (sysmem_addr y) \<le> frames_free w"
    and k: "get_proc_from_PID krnl pid w = Some (Some k)" "w_pcbs w k = Some c"
  shows "sys_memmap krnl pid \<lparr>a1 = of_int SYSMEM_INC_OP, a2 = x, a3 = y\<rparr> (pad xs zs w) =
      map_option (apsnd (apsnd (pad xs zs))) (sys_memmap krnl pid \<lparr>a1 = of_int SYSMEM_INC_OP, a2 = x, a3 = y\<rparr> w)"
proof -
  have k': "get_proc_from_PID krnl pid (pad xs zs w) = Some (Some k)" "w_pcbs (pad xs zs w) k = Some c"
    using k by (simp_all add: scans_pad)
  show ?thesis
    unfolding sys_memmap_inc [OF k] sys_memmap_inc [OF k'] inc_vma_limit_pad [OF assms(1)]
    by (simp add: option.map_comp comp_def split_def)
qed

lemma sys_memmap_io_pad:
  assumes k: "get_proc_from_PID krnl pid w = Some (Some k)" "w_pcbs w k = Some c"
  shows "sys_memmap krnl pid \<lparr>a1 = of_int SYSMEM_IO_READ, a2 = x, a3 = y\<rparr> (pad xs zs w) =
      map_option (apsnd (apsnd (pad xs zs))) (sys_memmap krnl pid \<lparr>a1 = of_int SYSMEM_IO_READ, a2 = x, a3 = y\<rparr> w)"
    and "sys_memmap krnl pid \<lparr>a1 = of_int SYSMEM_IO_WRITE, a2 = x, a3 = y\<rparr> (pad xs zs w) =
      map_option (apsnd (apsnd (pad xs zs))) (sys_memmap krnl pid \<lparr>a1 = of_int SYSMEM_IO_WRITE, a2 = x, a3 = y\<rparr> w)"
proof -
  have k': "get_proc_from_PID krnl pid (pad xs zs w) = Some (Some k)" "w_pcbs (pad xs zs w) k = Some c"
    using k by (simp_all add: scans_pad)
  show "sys_memmap krnl pid \<lparr>a1 = of_int SYSMEM_IO_READ, a2 = x, a3 = y\<rparr> (pad xs zs w) =
      map_option (apsnd (apsnd (pad xs zs))) (sys_memmap krnl pid \<lparr>a1 = of_int SYSMEM_IO_READ, a2 = x, a3 = y\<rparr> w)"
    unfolding sys_memmap_ops(2) [OF k] sys_memmap_ops(2) [OF k'] pad_sel io_pad by (auto split: frame_splits)
  show "sys_memmap krnl pid \<lparr>a1 = of_int SYSMEM_IO_WRITE, a2 = x, a3 = y\<rparr> (pad xs zs w) =
      map_option (apsnd (apsnd (pad xs zs))) (sys_memmap krnl pid \<lparr>a1 = of_int SYSMEM_IO_WRITE, a2 = x, a3 = y\<rparr> w)"
    unfolding sys_memmap_ops(3) [OF k] sys_memmap_ops(3) [OF k'] pad_sel io_pad by (auto split: frame_splits)
qed

lemma vm_alloc_pad:
  assumes "grow_pages (sysmem_addr (PAGING64_PAGE_ALIGNSZ sz)) \<le> frames_free w"
    and k: "get_proc_from_PID (p_krnl c) (p_pid c) w = Some (Some k)" "w_pcbs w k = Some c"
  shows "vm_alloc (Some c) v rg sz a (pad xs zs w) = map_option (apsnd (apsnd (pad xs zs))) (vm_alloc (Some c) v rg sz a w)"
proof -
  have m: "do_syscall (p_krnl c) (p_pid c) 17 \<lparr>a1 = of_int SYSMEM_INC_OP, a2 = x, a3 = PAGING64_PAGE_ALIGNSZ sz\<rparr> (pad xs zs w') =
      map_option (apsnd (apsnd (pad xs zs)))
        (do_syscall (p_krnl c) (p_pid c) 17 \<lparr>a1 = of_int SYSMEM_INC_OP, a2 = x, a3 = PAGING64_PAGE_ALIGNSZ sz\<rparr> w')"
    if "get_free_vmrg_area c v sz' rg0 w = Some (r, rg', w')" for x sz' rg0 r rg' w'
  proof -
    have "w_os w' = w_os w" by (rule os_keep2(1) [where f = "get_free_vmrg_area c v sz' rg0", OF get_free_vmrg_area_os that])
    moreover have "w_pcbs w' = w_pcbs w" using snapD [OF snap_get_free_vmrg_area [OF that]] by blast
    moreover have "get_proc_from_PID (p_krnl c) (p_pid c) w' = get_proc_from_PID (p_krnl c) (p_pid c) w"
      using calculation(1) by (rule get_proc_os)
    ultimately show ?thesis
      unfolding do_syscall_mem using assms by (intro sys_memmap_inc_pad [where k = k and c = c]) (simp_all add: frames_free_def)
  qed
  show ?thesis
  proof (cases "get_free_vmrg_area c v (ucast sz) (0, 0) w")
    case None
    then show ?thesis by (simp add: vm_alloc_def scans_pad pad_simps split: option.splits bind_splits)
  next
    case (Some x)
    obtain r b w1 where x: "x = (r, b, w1)" by (cases x)
    note m' = m [OF Some [unfolded x], of "scast v"]
    let ?s = "do_syscall (p_krnl c) (p_pid c) 17 \<lparr>a1 = of_int SYSMEM_INC_OP, a2 = scast v, a3 = PAGING64_PAGE_ALIGNSZ sz\<rparr> w1"
    show ?thesis
    proof (cases ?s)
      case None
      then show ?thesis using Some x m'
        by (simp add: vm_alloc_def Let_def scans_pad pad_simps split: option.splits bind_splits)
    next
      case (Some y)
      obtain r2 regs w2 where y: "y = (r2, regs, w2)" by (cases y)
      show ?thesis using \<open>get_free_vmrg_area c v (ucast sz) (0, 0) w = Some x\<close> x m' Some y
        by (auto simp: vm_alloc_def Let_def scans_pad pad_simps host_alloc_def split: option.splits bind_splits)
    qed
  qed
qed

lemma liballoc_pad:
  assumes "grow_pages (sysmem_addr (PAGING64_PAGE_ALIGNSZ sz)) \<le> frames_free w"
    and k: "get_proc_from_PID (p_krnl c) (p_pid c) w = Some (Some k)" "w_pcbs w k = Some c"
  shows "liballoc k sz i (pad xs zs w) = map_option (apsnd (pad xs zs)) (liballoc k sz i w)"
  using k(2) by (auto simp: liballoc_def vm_alloc_pad [OF assms] pad_simps split: frame_splits)

section \<open>Resident address spaces\<close>

text \<open>Every page of the area is present.  Then no access takes a frame.\<close>

definition resident :: "mm_ptr \<Rightarrow> nat \<Rightarrow> world \<Rightarrow> bool" where
  "resident mp p w \<longleftrightarrow> (\<forall>q < p. epresent (vpage w mp q))"

text \<open>A step that goes the same way on devices with more frames, takes no frame and keeps the page tables.\<close>

definition framed :: "(world \<Rightarrow> 'a option) \<Rightarrow> (world \<Rightarrow> 'a) \<Rightarrow> world \<Rightarrow> world \<Rightarrow> bool" where
  "framed f r w w' \<longleftrightarrow> (\<forall>xs zs. f (pad xs zs w) = Some (r (pad xs zs w'))) \<and> vpage w' = vpage w \<and> frames_free w' = frames_free w"

lemma known_proc:
  assumes "space_ok k c mp p w"
  shows "get_proc_from_PID (p_krnl c) (p_pid c) w = Some (Some k)" and "w_pcbs w k = Some c"
  using assms by (simp_all add: space_ok_def heap_ok_def known_def)

lemma getpage_resident:
  assumes ok: "space_ok k c mp p w" and rs: "resident mp p w" and q: "sint pgn = int q" "q < p"
  obtains fpn w1 where "pg_getpage pgn f c w = Some (0, fpn, w1)"
    and "\<And>xs zs. pg_getpage pgn f c (pad xs zs w) = Some (0, fpn, pad xs zs w1)"
    and "w_os w1 = w_os w" and "vpage w1 = vpage w" and "w_pcbs w1 = w_pcbs w"
proof -
  note c = space_caller [OF ok] and pn = scast_page [OF q(1)] and pl = sint_page_limit [OF q(1)]
  have e: "epresent (vpage w mp q)" using rs q(2) by (simp add: resident_def)
  obtain w1 where g: "pte_get_entry (Some c) (of_nat q) w = Some (ucast (vpage w mp q), w1)"
    and w1: "vm_kept w w1" "vpage w1 = vpage w" "w_os w1 = w_os w"
    by (rule pte_get_entry_kept [OF c(1) pl c(3)]) blast
  have k1: "same_ctx w w1" "vm_inv w1" using w1(1) by (auto simp: vm_kept_def)
  have c1: "caller_ok c mp w1" using same_ctx_keeps(2) [OF k1(1)] c(1) by simp
  obtain w2 where h: "pte_get_entry (Some c) (of_nat q) w1 = Some (ucast (vpage w1 mp q), w2)"
    and w2: "vm_kept w1 w2" "vpage w2 = vpage w1" "w_os w2 = w_os w1"
    by (rule pte_get_entry_kept [OF c1 pl k1(2)]) blast
  have pc: "w_pcbs w2 = w_pcbs w"
    using snapD [OF snap_pte_get_entry [OF g]] snapD [OF snap_pte_get_entry [OF h]] by simp
  show thesis
  proof (rule that)
    show "pg_getpage pgn f c w = Some (0, PAGING_FPN (ucast (vpage w mp q)), w2)"
      using g h e w1(2) by (simp add: pg_getpage_def pn epresent_def)
    show "pg_getpage pgn f c (pad xs zs w) = Some (0, PAGING_FPN (ucast (vpage w mp q)), pad xs zs w2)" for xs zs
      using g h e w1(2) by (simp add: pg_getpage_def pn epresent_def pad_simps)
  qed (use w1 w2 pc in simp_all)
qed

lemma write_free: "MEMPHY_write d a v = Some (r, d') \<Longrightarrow> map_option free_fp_list d' = map_option free_fp_list d"
  by (auto simp: memphy_io_defs MEMPHY_mv_csr_def Let_def split: frame_splits)

lemma read_free: "MEMPHY_read d a v = Some (r, d', x) \<Longrightarrow> map_option free_fp_list d' = map_option free_fp_list d"
  by (auto simp: memphy_io_defs MEMPHY_mv_csr_def Let_def split: frame_splits)

lemma frames_free_ram: "map_option free_fp_list d = map_option free_fp_list (mram w) \<Longrightarrow> frames_free (set_mram w d) = frames_free w"
  by (auto simp: frames_free_def split: option.splits)

lemma setval_resident:
  assumes ok: "space_ok k c mp p w" and rs: "resident mp p w" and a: "sint addr = int a" "a div PAGING64_PAGESZ < p"
    and run: "pg_setval addr v c w = Some (r, w')"
  shows "framed (pg_setval addr v c) (Pair r) w w'"
proof -
  obtain fpn w1 where g: "pg_getpage (int_pgn addr) 0 c w = Some (0, fpn, w1)"
    "\<And>xs zs. pg_getpage (int_pgn addr) 0 c (pad xs zs w) = Some (0, fpn, pad xs zs w1)"
    "w_os w1 = w_os w" "vpage w1 = vpage w" "w_pcbs w1 = w_pcbs w"
    by (rule getpage_resident [OF ok rs int_pgn_nat [OF a(1)] a(2)]) blast
  have k: "get_proc_from_PID (p_krnl c) (p_pid c) w1 = Some (Some k)" "w_pcbs w1 k = Some c"
    using known_proc [OF ok] g(5) by (simp_all add: get_proc_os [OF g(3)])
  let ?s = "\<lambda>w. do_syscall (p_krnl c) (p_pid c) 17
    \<lparr>a1 = of_int SYSMEM_IO_WRITE, a2 = scast (int_phyaddr fpn (int_off addr)), a3 = scast v\<rparr> w"
  obtain r' rg where s: "?s w1 = Some (r', rg, w')" "r = 0" using run g(1) by (auto simp: pg_setval_def split: bind_splits)
  obtain d x y where d: "MEMPHY_write (mram w1) (sysmem_addr (scast (int_phyaddr fpn (int_off addr)))) x = Some (y, d)" "w' = set_mram w1 d"
    using s(1) by (auto simp: do_syscall_mem sys_memmap_ops(3) [OF k] split: bind_splits)
  have "?s (pad xs zs w1) = Some (r', rg, pad xs zs w')" for xs zs
    using s(1) by (simp add: do_syscall_mem sys_memmap_io_pad(2) [OF k])
  moreover have "vpage w' = vpage w" using d(2) g(4) by simp
  moreover have "frames_free w' = frames_free w"
    using frames_free_ram [OF write_free [OF d(1)]] d(2) g(3) by (simp add: frames_free_def)
  ultimately show ?thesis using g(2) s(2) by (simp add: framed_def pg_setval_def)
qed

lemma getval_resident:
  assumes ok: "space_ok k c mp p w" and rs: "resident mp p w" and a: "sint addr = int a" "a div PAGING64_PAGESZ < p"
    and run: "pg_getval addr d c w = Some (r, d', w')"
  shows "framed (pg_getval addr d c) (\<lambda>w. (r, d', w)) w w'"
proof -
  obtain fpn w1 where g: "pg_getpage (int_pgn addr) 0 c w = Some (0, fpn, w1)"
    "\<And>xs zs. pg_getpage (int_pgn addr) 0 c (pad xs zs w) = Some (0, fpn, pad xs zs w1)"
    "w_os w1 = w_os w" "vpage w1 = vpage w" "w_pcbs w1 = w_pcbs w"
    by (rule getpage_resident [OF ok rs int_pgn_nat [OF a(1)] a(2)]) blast
  have k: "get_proc_from_PID (p_krnl c) (p_pid c) w1 = Some (Some k)" "w_pcbs w1 k = Some c"
    using known_proc [OF ok] g(5) by (simp_all add: get_proc_os [OF g(3)])
  let ?s = "\<lambda>w. do_syscall (p_krnl c) (p_pid c) 17
    \<lparr>a1 = of_int SYSMEM_IO_READ, a2 = scast (int_phyaddr fpn (int_off addr)), a3 = 0\<rparr> w"
  obtain r' rg where s: "?s w1 = Some (r', rg, w')" "r = 0" "d' = d" using run g(1) by (auto simp: pg_getval_def split: bind_splits)
  obtain e x where d: "MEMPHY_read (mram w1) (sysmem_addr (scast (int_phyaddr fpn (int_off addr)))) 0 = Some (0, e, x)" "w' = set_mram w1 e"
    using s(1) by (auto simp: do_syscall_mem sys_memmap_ops(2) [OF k] split: bind_splits if_splits)
  have "?s (pad xs zs w1) = Some (r', rg, pad xs zs w')" for xs zs
    using s(1) by (simp add: do_syscall_mem sys_memmap_io_pad(1) [OF k])
  moreover have "vpage w' = vpage w" using d(2) g(4) by simp
  moreover have "frames_free w' = frames_free w"
    using frames_free_ram [OF read_free [OF d(1)]] d(2) g(3) by (simp add: frames_free_def)
  ultimately show ?thesis using g(2) s(2,3) by (simp add: framed_def pg_getval_def)
qed

lemma vm_write_resident:
  assumes ok: "space_ok k c mp p w" and rs: "resident mp p w" and run: "vm_write (Some c) 0 rgid offset v w = Some (r, w')"
  shows "framed (vm_write (Some c) 0 rgid offset v) (Pair r) w w'"
  using ok
proof (cases rule: write_target_cases [where rgid = rgid and offset = offset])
  case outside
  then show ?thesis using run by (auto simp: vm_write_def framed_def)
next
  case (region m i)
  note c = space_caller [OF ok]
  show ?thesis
  proof (cases "write_target mp rgid offset w")
    case None
    then have "vm_write (Some c) 0 rgid offset v u = Some (- 1, u)" if "w_mms u mp = w_mms w mp" for u
      using region c(4,5) write_target_none [OF None region(1,2)] that by (auto simp: vm_write_def get_symrg_byid_def)
    then show ?thesis using run by (simp add: framed_def)
  next
    case (Some a)
    note t = write_target_some [OF ok region(1,2) Some]
    have e: "vm_write (Some c) 0 rgid offset v u = pg_setval (ucast (rg_start (symrg w mp i) + offset)) v c u"
      if "w_mms u mp = w_mms w mp" for u
      using region c(4,5) t(1,2) that by (auto simp: vm_write_def get_symrg_byid_def not_le)
    have "framed (pg_setval (ucast (rg_start (symrg w mp i) + offset)) v c) (Pair r) w w'"
      using run e [of w] by (intro setval_resident [OF ok rs t(3,4)]) simp
    then show ?thesis using e by (simp add: framed_def)
  qed
qed

lemma vm_read_resident:
  assumes ok: "space_ok k c mp p w" and rs: "resident mp p w" and run: "vm_read (Some c) 0 rgid offset d w = Some (r, d', w')"
  shows "framed (vm_read (Some c) 0 rgid offset d) (\<lambda>w. (r, d', w)) w w'"
  using ok
proof (cases rule: write_target_cases [where rgid = rgid and offset = offset])
  case outside
  then show ?thesis using run by (auto simp: vm_read_def framed_def)
next
  case (region m i)
  note c = space_caller [OF ok]
  show ?thesis
  proof (cases "write_target mp rgid offset w")
    case None
    then have "vm_read (Some c) 0 rgid offset d u = Some (- 1, d, u)" if "w_mms u mp = w_mms w mp" for u
      using region c(4,5) write_target_none [OF None region(1,2)] that by (auto simp: vm_read_def get_symrg_byid_def)
    then show ?thesis using run by (simp add: framed_def)
  next
    case (Some a)
    note t = write_target_some [OF ok region(1,2) Some]
    have e: "vm_read (Some c) 0 rgid offset d u = pg_getval (ucast (rg_start (symrg w mp i) + offset)) d c u"
      if "w_mms u mp = w_mms w mp" for u
      using region c(4,5) t(1,2) that by (auto simp: vm_read_def get_symrg_byid_def not_le)
    have "framed (pg_getval (ucast (rg_start (symrg w mp i) + offset)) d c) (\<lambda>w. (r, d', w)) w w'"
      using run e [of w] by (intro getval_resident [OF ok rs t(3,4)]) simp
    then show ?thesis using e by (simp add: framed_def)
  qed
qed

text \<open>Growing an area by pages for which there are frames makes them resident and takes one frame for each.\<close>

lemma inc_vma_limit_resident:
  assumes ok: "space_ok k c mp p w" and inc: "unat inc = N * 4096" "0 < N" "(p + N) * PAGING64_PAGESZ < 2 ^ 31"
    and h: "6 * N + 1 \<le> w_hostmem w" and run: "inc_vma_limit (Some c) 0 inc w = Some (r, w')"
    and rs: "resident mp p w" and f: "N \<le> frames_free w"
  shows "resident mp (p + N) w'" and "frames_free w = frames_free w' + N"
proof -
  obtain w1 a e n rg r1 rg' where m: "vm_map_ram (Some c) a e (of_nat (p * PAGING64_PAGESZ)) n rg w1 = Some (r1, rg', w')"
    "paging_view mp w1 = paging_view mp w" "backed c mp w1" "sint n = int N" "6 * N \<le> w_hostmem w1"
    "p + N \<le> page_limit" "N * PAGING64_PAGESZ < 2 ^ 31"
    by (rule inc_vma_limit_maps [OF ok inc h run])
  have v: "vpage w1 = vpage w" "frames_free w1 = frames_free w" using m(2) by (simp_all add: paging_view_def frames_free_def)
  obtain d where d: "caller_ok c mp w1" "mram w1 = Some d" "pool_ok d" using m(3) by (auto simp: backed_def)
  have n: "N \<le> length (free_fp_list d)" using f v(2) d(2) by (simp add: frames_free_def)
  show "resident mp (p + N) w'" and "frames_free w = frames_free w' + N"
  proof (atomize (full), rule vm_map_ram_success [OF d m(4) n m(5-7), of a e rg])
    fix w2 d2 rg2
    assume r: "vm_map_ram (Some c) a e (of_nat (p * PAGING64_PAGESZ)) n rg w1 = Some (0, rg2, w2)"
      and w2: "vpage w2 mp = map_pages (vpage w1 mp) p (take N (free_fp_list d))" "mram w2 = Some d2"
        "fp.get_n N d = (take N (free_fp_list d), d2)"
    have "w2 = w'" using r m(1) by simp
    moreover have "free_fp_list d2 = drop N (free_fp_list d)" using fp.get_n_spec [OF w2(3)] by simp
    ultimately show "resident mp (p + N) w' \<and> frames_free w = frames_free w' + N"
      using w2(1,2) v d(2) n rs by (auto simp: resident_def map_pages_def frames_free_def)
  qed
qed

section \<open>Instructions\<close>

lemma grow_pages_for:
  assumes "(p + pages_for sz) * PAGING64_PAGESZ < 2 ^ 31"
  shows "unat (PAGING64_PAGE_ALIGNSZ sz) = pages_for sz * 4096"
    and "sysmem_addr (PAGING64_PAGE_ALIGNSZ sz) = PAGING64_PAGE_ALIGNSZ sz"
    and "grow_pages (sysmem_addr (PAGING64_PAGE_ALIGNSZ sz)) = pages_for sz"
proof -
  let ?al = "PAGING64_PAGE_ALIGNSZ sz"
  show u: "unat ?al = pages_for sz * 4096"
    using assms pages_for_ge [of sz] page_align_unat [of sz] by (simp add: pages_for_def macro_defs)
  then show s: "sysmem_addr ?al = ?al" using assms by (intro sysmem_addr_small) (simp add: macro_defs)
  have "unat (PAGING64_PAGE_ALIGNSZ ?al) = unat ?al" using page_align_unat [of ?al] assms u by (simp add: macro_defs)
  then have "PAGING64_PAGE_ALIGNSZ ?al = ?al" by (simp add: word_unat_eq_iff)
  moreover have "unat (?al div of_nat PAGING64_PAGESZ) = pages_for sz" using u by (simp add: unat_div_distrib macro_defs)
  moreover from this have "sint (ucast (?al div of_nat PAGING64_PAGESZ) :: cint) = int (pages_for sz)"
    using assms sint_small [of "ucast (?al div of_nat PAGING64_PAGESZ)"] unat_ucast_lt [of "?al div of_nat PAGING64_PAGESZ"]
    by (simp add: macro_defs) (metis uint_nat)
  ultimately show "grow_pages (sysmem_addr ?al) = pages_for sz" by (simp add: grow_pages_def s)
qed

lemma area_unique:
  assumes "area_at mp p w" and "area_at mp q w" and "p * PAGING64_PAGESZ < 2 ^ 31" and "q * PAGING64_PAGESZ < 2 ^ 31"
  shows "p = q"
proof -
  have "(of_nat (p * PAGING64_PAGESZ) :: addr_t) = of_nat (q * PAGING64_PAGESZ)" using assms(1,2) by (auto simp: area_at_def)
  then have "p * 4096 = q * 4096" using page_addr_unat [OF assms(3)] page_addr_unat [OF assms(4)] by simp
  then show ?thesis by simp
qed

lemma resident_le: "resident mp p w \<Longrightarrow> vpage w' = vpage w \<Longrightarrow> q \<le> p \<Longrightarrow> resident mp q w'"
  by (simp add: resident_def)

lemma vm_alloc_resident:
  assumes ok: "space_ok k c mp p w" "request_ok p sz w" and sv: "served_from c mp sz p q w w'"
    and rs: "resident mp p w" and f: "pages_for sz \<le> frames_free w"
  shows "resident mp q w'" and "frames_free w \<le> frames_free w' + pages_for sz"
proof -
  note c = space_caller [OF ok(1)] and k = known_proc [OF ok(1)]
  have r: "(p + pages_for sz) * PAGING64_PAGESZ < 2 ^ 31" "6 * pages_for sz + 1 \<le> w_hostmem w"
    using ok(2) by (simp_all add: request_ok_def)
  note al = grow_pages_for [OF r(1)]
  have "resident mp q w' \<and> frames_free w \<le> frames_free w' + pages_for sz"
    using sv unfolding served_from_def
  proof (elim disjE conjE exE)
    assume "q = p" and "paging_view mp w' = paging_view mp w"
    then show ?thesis using rs by (simp add: paging_view_def resident_def frames_free_def)
  next
    fix r1 regs w2
    assume q: "q = p + pages_for sz" and v: "paging_view mp w' = paging_view mp w2"
      and run: "do_syscall (p_krnl c) (p_pid c) 17
        \<lparr>a1 = of_int SYSMEM_INC_OP, a2 = 0, a3 = PAGING64_PAGE_ALIGNSZ sz\<rparr> w = Some (r1, regs, w2)"
    then obtain r2 where inc: "inc_vma_limit (Some c) 0 (PAGING64_PAGE_ALIGNSZ sz) w = Some (r2, w2)"
      by (auto simp: do_syscall_mem sys_memmap_inc [OF k] al(2))
    have "resident mp q w2 \<and> frames_free w \<le> frames_free w2 + pages_for sz"
    proof (cases "pages_for sz = 0")
      case True
      then have "PAGING64_PAGE_ALIGNSZ sz = 0" using al(1) by (simp add: unat_eq_0)
      then have "w2 = w" using inc c(4,5) by (simp add: inc_vma_limit_def)
      then show ?thesis using rs q True by simp
    next
      case False
      then show ?thesis using inc_vma_limit_resident [OF ok(1) al(1) _ r inc rs f] q by simp
    qed
    then show ?thesis using v by (simp add: paging_view_def resident_def frames_free_def)
  qed
  then show "resident mp q w'" and "frames_free w \<le> frames_free w' + pages_for sz" by auto
qed

text \<open>A process whose address space is resident.\<close>

definition tight :: "pcb_ptr \<Rightarrow> mm_ptr \<Rightarrow> world \<Rightarrow> bool" where
  "tight k mp w \<longleftrightarrow> (\<exists>c p. space_ok k c mp p w \<and> resident mp p w)"

text \<open>What an instruction does when no access misses and there are frames for what it allocates.\<close>

definition mirrored :: "(world \<Rightarrow> 'a option) \<Rightarrow> (world \<Rightarrow> 'a) \<Rightarrow> pcb_ptr \<Rightarrow> mm_ptr \<Rightarrow> nat \<Rightarrow> world \<Rightarrow> world \<Rightarrow> bool" where
  "mirrored f r k mp n w w' \<longleftrightarrow> (\<forall>xs zs. f (pad xs zs w) = Some (r (pad xs zs w'))) \<and> tight k mp w'
     \<and> frames_free w \<le> frames_free w' + n"

lemma framed_mirrored:
  assumes "framed f r w w'" and "op_done k c mp p h w w'" and "resident mp p w"
  shows "mirrored f r k mp n w w'"
proof -
  obtain c' q where "space_ok k c' mp q w'" "q \<le> p" using assms(2) by (auto simp: op_done_def inst_done_def)
  then have "tight k mp w'" using resident_le [OF assms(3)] assms(1) by (auto simp: tight_def framed_def)
  then show ?thesis using assms(1) by (simp add: mirrored_def framed_def)
qed

lemma vm_free_view:
  "vm_free (Some c) v rg w = Some (r, w') \<Longrightarrow> p_mm c = Some mp \<Longrightarrow> paging_view mp w' = paging_view mp w"
  by (auto simp: vm_free_def host_alloc_def Let_def dest!: set_symrg_view enlist_view split: frame_splits)

lemma set_reg_keeps: "set_reg k i v w = Some w' \<Longrightarrow> w_mms w' = w_mms w \<and> w_os w' = w_os w"
  by (auto simp: set_reg_def split: bind_splits)

lemma libfree_framed:
  assumes "libfree k i w = Some (r, w')" and "w_pcbs w k = Some c" and "p_mm c = Some mp"
  shows "framed (libfree k i) (Pair r) w w'"
proof -
  obtain v w1 where f: "vm_free (Some c) 0 i w = Some (v, w1)" "w' = w1 \<or> set_reg k (unat i) 0 w1 = Some w'"
    using assms by (auto simp: libfree_def split: bind_splits if_splits)
  have "paging_view mp w1 = paging_view mp w" by (rule vm_free_view [OF f(1) assms(3)])
  then have "vpage w1 = vpage w" "mram w1 = mram w" by (simp_all add: paging_view_def)
  moreover have "vpage w' = vpage w1" "mram w' = mram w1"
    using f(2) set_reg_keeps [of k "unat i" 0 w1 w'] pages_of_mms(1) [of w' w1] by auto
  ultimately show ?thesis using assms(1) by (simp add: framed_def pad_simps frames_free_def)
qed

lemma liballoc_mirrored:
  assumes ok: "space_ok k c mp p w" "request_ok p sz w" and i: "unat i < 10" "length (p_regs c) = 10"
    and rs: "resident mp p w" "pages_for sz \<le> frames_free w" and run: "liballoc k sz i w = Some (r, w')"
  shows "mirrored (liballoc k sz i) (Pair r) k mp (pages_for sz) w w'"
proof -
  note kn = known_proc [OF ok(1)] and h = space_caller(7) [OF ok(1)]
  obtain addr w1 q where al: "vm_alloc (Some c) 0 i sz 0 w = Some (0, addr, w1)" "heap_ok k c mp q w1" "served_from c mp sz p q w w1"
    by (rule vm_alloc_serves [OF h ok(2) sint_reg [OF i(1)]])
  note rs' = vm_alloc_resident [OF ok al(3) rs] and qp = served_bound [OF al(3)]
  have st: "set_reg k (unat i) addr w1 = Some w'" using run kn(2) al(1) by (auto simp: liballoc_def split: bind_splits)
  note kp = set_reg_keeps [OF st]
  have v: "vpage w' = vpage w1" "mram w' = mram w1" using pages_of_mms(1) [of w' w1] kp by simp_all
  have b: "(p + pages_for sz) * PAGING64_PAGESZ < 2 ^ 31" using ok(2) by (simp add: request_ok_def)
  obtain c' q' where s: "space_ok k c' mp q' w'"
    by (rule liballoc_space [OF ok i]) (use run in \<open>auto simp: op_done_def inst_done_def\<close>)
  have "area_at mp q w'" using al(2) kp by (simp add: heap_ok_def area_at_def areas_def)
  then have "q' = q"
    by (rule area_unique [rotated]) (use s b qp in \<open>auto simp: space_ok_def heap_ok_def macro_defs\<close>)
  then have "tight k mp w'" using s rs'(1) v(1) by (auto simp: tight_def resident_def)
  moreover have "liballoc k sz i (pad xs zs w) = Some (r, pad xs zs w')" for xs zs
    using liballoc_pad [OF _ kn, of sz i xs zs] grow_pages_for(3) [OF b] rs(2) run by simp
  ultimately show ?thesis using rs'(2) v(2) by (simp add: mirrored_def frames_free_def)
qed

lemma exec_mirrored:
  assumes ok: "space_ok k c mp p w" and rg: "length (p_regs c) = 10" and u: "user_inst ins"
    and b: "(p + inst_pages ins) * PAGING64_PAGESZ < 2 ^ 31" "inst_host ins \<le> w_hostmem w"
    and rs: "resident mp p w" "inst_pages ins \<le> frames_free w" and run: "exec_inst ins k c w = Some (r, w')"
  shows "mirrored (exec_inst ins k c) (Pair r) k mp (inst_pages ins) w w'"
proof -
  note kn = known_proc [OF ok] and c = space_caller [OF ok]
  obtain r2 w2 where "exec_inst ins k c w = Some (r2, w2)" and "op_done k c mp (p + inst_pages ins) (inst_host ins) w w2"
    by (rule exec_user_inst [OF ok rg u b]) blast
  then have od: "op_done k c mp (p + inst_pages ins) (inst_host ins) w w'" using run by simp
  have quiet: ?thesis if "inst_pages ins = 0" and "framed (exec_inst ins k c) (Pair r) w w'"
    using framed_mirrored [OF that(2)] od rs(1) that(1) by simp
  show ?thesis
  proof (cases "opcode ins")
    case CALC
    then show ?thesis using run by (intro quiet) (simp_all add: exec_inst_def framed_def inst_pages_def)
  next
    case ALLOC
    have a: "request_ok p (arg_0 ins) w" "unat (ucast (arg_1 ins) :: u32) < 10" "inst_pages ins = pages_for (arg_0 ins)"
      using b u ALLOC by (simp_all add: request_ok_def inst_pages_def inst_host_def user_inst_def)
    have "mirrored (liballoc k (arg_0 ins) (ucast (arg_1 ins))) (Pair r) k mp (pages_for (arg_0 ins)) w w'"
      by (rule liballoc_mirrored [OF ok a(1,2) rg rs(1)]) (use rs(2) a(3) run ALLOC in \<open>simp_all add: exec_inst_def\<close>)
    then show ?thesis using a(3) ALLOC by (simp add: exec_inst_def mirrored_def)
  next
    case FREE
    then have "framed (libfree k (ucast (arg_0 ins))) (Pair r) w w'"
      using run by (intro libfree_framed [OF _ kn(2) c(5)]) (simp add: exec_inst_def)
    then show ?thesis using FREE by (intro quiet) (simp_all add: exec_inst_def framed_def inst_pages_def)
  next
    case READ
    then obtain d where d: "vm_read (Some c) 0 (ucast (arg_0 ins)) (arg_1 ins) 0 w = Some (r, d, w')"
      using run kn(2) by (auto simp: exec_inst_def libread_def split: bind_splits)
    note vm_read_resident [OF ok rs(1) d]
    then show ?thesis using READ kn(2) by (intro quiet) (simp_all add: exec_inst_def libread_def framed_def inst_pages_def)
  next
    case WRITE
    then have d: "vm_write (Some c) 0 (ucast (arg_1 ins)) (arg_2 ins) (ucast (arg_0 ins)) w = Some (r, w')"
      using run kn(2) by (auto simp: exec_inst_def libwrite_def split: bind_splits if_splits)
    note vm_write_resident [OF ok rs(1) d]
    then show ?thesis using WRITE kn(2) by (intro quiet) (auto simp: exec_inst_def libwrite_def framed_def inst_pages_def)
  next
    case SYSCALL
    then have "(ucast (arg_0 ins) :: u32) \<noteq> 17" using u by (simp add: user_inst_def)
    then have n: "unat (ucast (arg_0 ins) :: u32) \<noteq> 17" by (auto simp: word_unat_eq_iff)
    show ?thesis
      by (intro quiet; use run SYSCALL n in \<open>auto simp: exec_inst_def framed_def inst_pages_def libsyscall_def do_syscall_def
          syscall_tbl_def split: option.splits sys_entry.splits if_splits\<close>)
  qed (use u in \<open>simp_all add: user_inst_def\<close>)
qed

end
