(* ===== verification/KernelReserve.thy ===== *)
theory KernelReserve
  imports Reserve
begin

text \<open>
  The instructions on kernel memory on devices with more frames than the programs need: \<open>kmalloc\<close> and the
  creation of a cache pool take a frame for each page, the other instructions none, and all of them go
  the same way with and without the additional frames.  Together with \<open>Reserve\<close> this gives one instruction of any
  program.
\<close>

section \<open>Kernel allocation\<close>

lemma kmalloc_entry_os [os_free]: "kmalloc_entry c pgn f (with_os os w) = map_option (lift_os os) (kmalloc_entry c pgn f w)"
  by (auto simp: kmalloc_entry_def os_free split: frame_splits)

lemma set_kcpool_os [os_free]: "set_kcpool mp i p (with_os os w) = map_option (with_os os) (set_kcpool mp i p w)"
  by (auto simp: set_kcpool_def split: bind_splits)

lemma ensure_kcpooltbl_os [os_free]: "ensure_kcpooltbl mp (with_os os w) = map_option (lift_os os) (ensure_kcpooltbl mp w)"
  by (auto simp: ensure_kcpooltbl_def os_free Let_def split: frame_splits)

lemma kernel_phyaddr_os [os_free]: "kernel_phyaddr c va (with_os os w) = map_option (lift_os os) (kernel_phyaddr c va w)"
  by (auto simp: kernel_phyaddr_def os_free split: frame_splits)

lemmas kernel_pad =
  pad_free [where f = "kmalloc_entry c pgn f" for c pgn f, OF kmalloc_entry_os]
  pad_free0 [where f = "set_kcpool mp i p" for mp i p, OF set_kcpool_os]
  pad_free [where f = "ensure_kcpooltbl mp" for mp, OF ensure_kcpooltbl_os]
  pad_free [where f = "kernel_phyaddr c va" for c va, OF kernel_phyaddr_os]

lemmas kernel_os =
  os_keep(1) [where f = "kmalloc_entry c pgn f" for c pgn f, OF kmalloc_entry_os]
  os_keep(1) [where f = "ensure_kcpooltbl mp" for mp, OF ensure_kcpooltbl_os]
  os_keep(1) [where f = "kernel_phyaddr c va" for c va, OF kernel_phyaddr_os]

lemma set_kcpool_keeps: "set_kcpool mp i p w = Some w' \<Longrightarrow> w_os w' = w_os w"
  by (auto simp: set_kcpool_def split: bind_splits)

lemma as_kernel_pad [simp]: "as_kernel c (pad xs zs w) = as_kernel c w"
  by (simp add: as_kernel_def)

lemma kmalloc_loop_pad:
  assumes "n \<le> frames_free w"
  shows "kmalloc_loop c a i n (pad xs zs w) = map_option (apsnd (pad xs zs)) (kmalloc_loop c a i n w)"
    and "kmalloc_loop c a i n w = Some (r, w') \<Longrightarrow> frames_free w \<le> frames_free w' + n"
proof -
  have "kmalloc_loop c a i n (pad xs zs w) = map_option (apsnd (pad xs zs)) (kmalloc_loop c a i n w)
    \<and> (\<forall>r w'. kmalloc_loop c a i n w = Some (r, w') \<longrightarrow> frames_free w \<le> frames_free w' + n)"
    using assms
  proof (induction n arbitrary: i w)
    case (Suc n)
    obtain d f rest where d: "mram w = Some d" "free_fp_list d = f # rest"
      using Suc.prems by (auto simp: frames_free_def Suc_le_length_iff split: option.splits)
    let ?d = "d\<lparr>free_fp_list := rest, used_fp_list := f # used_fp_list d\<rparr>"
    have g: "MEMPHY_get_freefp (mram w) 0 = (0, Some ?d, f)"
      "MEMPHY_get_freefp (mram (pad xs zs w)) 0 = (0, map_option (more_frames xs) (Some ?d), f)"
      using d by (simp_all add: MEMPHY_get_freefp_def more_frames_def)
    show ?case
    proof (cases "c_int (int i * int PAGING64_PAGESZ)")
      case None
      then show ?thesis using g by (simp add: Let_def)
    next
      case (Some off)
      note unfold = kmalloc_loop_Suc [OF Some refl]
      let ?e = "kmalloc_entry c (drop_bit PAGING64_ADDR_PT_SHIFT (a + of_int off)) f"
      have ff: "n \<le> frames_free w1" "frames_free w = Suc (frames_free w1)" if "?e (set_mram w (Some ?d)) = Some (r, w1)" for r w1
        using kernel_os(1) [OF that] Suc.prems d by (simp_all add: frames_free_def)
      have ep: "?e (pad xs zs (set_mram w (Some ?d))) = map_option (apsnd (pad xs zs)) (?e (set_mram w (Some ?d)))" by (rule kernel_pad(1))
      show ?thesis
      proof (cases "?e (set_mram w (Some ?d))")
        case None
        then show ?thesis unfolding unfold g prod.case pad_upd ep by simp
      next
        case (Some x)
        obtain r w1 where x: "x = (r, w1)" by (cases x)
        note f1 = ff [OF Some [unfolded x]] and ih = Suc.IH [OF ff(1) [OF Some [unfolded x]], of "i + 1"]
        show ?thesis unfolding unfold g prod.case pad_upd ep using Some x f1 ih by (auto simp del: kmalloc_loop.simps)
      qed
    qed
  qed simp
  then show "kmalloc_loop c a i n (pad xs zs w) = map_option (apsnd (pad xs zs)) (kmalloc_loop c a i n w)"
    and "kmalloc_loop c a i n w = Some (r, w') \<Longrightarrow> frames_free w \<le> frames_free w' + n" by blast+
qed

lemma kmalloc_pad:
  assumes "unat sz + 4096 \<le> 2 ^ 31" and "pages_for sz \<le> frames_free w"
  shows "kmalloc c v rg sz a (pad xs zs w) = map_option (apsnd (apsnd (pad xs zs))) (kmalloc c v rg sz a w)"
    and "kmalloc c v rg sz a w = Some (r, b, w') \<Longrightarrow> frames_free w \<le> frames_free w' + pages_for sz"
proof -
  have n: "nat (sint (ucast ((sz + of_nat PAGING64_PAGESZ - 1) div of_nat PAGING64_PAGESZ) :: cint)) = pages_for sz" if "sz \<noteq> 0"
    using kmalloc_pages [of sz] assms(1) that by (simp add: pages_for_def unat_gt_0)
  note l = kmalloc_loop_pad [OF assms(2), of "as_kernel c w" "kmalloc_vaddr rg" 0]
  show "kmalloc c v rg sz a (pad xs zs w) = map_option (apsnd (apsnd (pad xs zs))) (kmalloc c v rg sz a w)"
    by (cases "sz = 0") (auto simp: kmalloc_def n l(1) Let_def split: frame_splits)
  show "kmalloc c v rg sz a w = Some (r, b, w') \<Longrightarrow> frames_free w \<le> frames_free w' + pages_for sz"
    by (cases "sz = 0") (auto simp: kmalloc_def n Let_def dest: l(2) split: bind_splits if_splits)
qed

text \<open>An operation that goes the same way on devices with more frames and takes \<open>n\<close> frames at most.\<close>

definition frugal :: "(world \<Rightarrow> ('a \<times> world) option) \<Rightarrow> nat \<Rightarrow> world \<Rightarrow> bool" where
  "frugal f n w \<longleftrightarrow> (\<forall>xs zs. f (pad xs zs w) = map_option (apsnd (pad xs zs)) (f w))
     \<and> (\<forall>r w'. f w = Some (r, w') \<longrightarrow> frames_free w \<le> frames_free w' + n)"

lemma libkmem_malloc_frugal:
  assumes "unat sz + 4096 \<le> 2 ^ 31" and "pages_for (ucast sz) \<le> frames_free w"
  shows "frugal (libkmem_malloc (Some c) sz rg) (pages_for (ucast sz)) w"
proof -
  have "unat (ucast sz :: addr_t) + 4096 \<le> 2 ^ 31" using assms(1) by (simp add: unat_size)
  note k = kmalloc_pad [OF this assms(2), of c "- 1" rg 0]
  show ?thesis unfolding frugal_def libkmem_malloc_def by (auto simp: k(1) dest: k(2) split: frame_splits)
qed

lemma pool_create_frugal:
  assumes "unat sz + 4096 \<le> 2 ^ 31" and "pages_for (ucast sz) \<le> frames_free w"
  shows "frugal (libkmem_cache_pool_create (Some c) sz al i) (pages_for (ucast sz)) w"
proof -
  have sz: "unat (ucast sz :: addr_t) + 4096 \<le> 2 ^ 31" using assms(1) by (simp add: unat_size)
  have e: "frames_free w1 = frames_free w" if "ensure_kcpooltbl mp w = Some (b, w1)" for mp b w1
    using kernel_os(2) [OF that] by (simp add: frames_free_def)
  have s: "frames_free w3 = frames_free w2" if "set_kcpool mp j p w2 = Some w3" for mp j p w2 w3
    using set_kcpool_keeps [OF that] by (simp add: frames_free_def)
  have k: "kmalloc c (- 1) i (ucast sz) 0 (pad xs zs w1) = map_option (apsnd (apsnd (pad xs zs))) (kmalloc c (- 1) i (ucast sz) 0 w1)"
    if "ensure_kcpooltbl mp w = Some (b, w1)" for mp b w1 xs zs
    by (rule kmalloc_pad(1) [OF sz]) (use e [OF that] assms(2) in simp)
  have f: "frames_free w \<le> frames_free w2 + pages_for (ucast sz)"
    if "kmalloc c (- 1) i (ucast sz) 0 w1 = Some (r, a, w2)" "ensure_kcpooltbl mp w = Some (b, w1)" for mp b w1 r a w2
    using kmalloc_pad(2) [OF sz _ that(1)] e [OF that(2)] assms(2) by simp
  have "frames_free w \<le> frames_free w' + pages_for (ucast sz)" if "libkmem_cache_pool_create (Some c) sz al i w = Some (r, w')" for r w'
    using that by (auto simp: libkmem_cache_pool_create_def s e elim!: f split: option.splits bind_splits if_splits)
  then show ?thesis
    unfolding frugal_def libkmem_cache_pool_create_def by (auto simp: kernel_pad k split: frame_splits)
qed

lemma cache_alloc_frugal: "frugal (libkmem_cache_alloc (Some c) i rg) 0 w"
proof -
  have s: "frames_free w3 = frames_free w2 \<and> w_os w3 = w_os w2" if "set_kcpool mp j p w2 = Some w3" for mp j p w2 w3
    using set_kcpool_keeps [OF that] by (simp add: frames_free_def)
  have m: "set_mm (pad xs zs u) mp m = pad xs zs (set_mm u mp m)" for xs zs u mp m by (simp add: pad_def with_os_def set_mm_def)
  have a: "kmem_cache_alloc (Some c) v r p x (pad xs zs w) = map_option (apsnd (apsnd (pad xs zs))) (kmem_cache_alloc (Some c) v r p x w)" for v r p x xs zs
    by (auto simp: kmem_cache_alloc_def kernel_pad m Let_def split: frame_splits)
  have f: "frames_free w' = frames_free w" if "kmem_cache_alloc (Some c) v r p x w = Some (q, y, w')" for v r p x q y w'
    using that by (auto simp: kmem_cache_alloc_def Let_def frames_free_def dest!: s split: frame_splits)
  show ?thesis unfolding frugal_def libkmem_cache_alloc_def by (auto simp: a f split: frame_splits)
qed

section \<open>Copies\<close>

text \<open>Reading a kernel byte takes no frame and keeps the page tables.\<close>

lemma read_kernel_framed:
  assumes ok: "space_ok k c mp p w" and k: "kernel_ok kmp w" "kmp \<noteq> mp" and run: "read_kernel_mem (Some c) v rg off x w = Some (r, y, w')"
  shows "framed (read_kernel_mem (Some c) v rg off x) (\<lambda>w. (r, y, w)) w w'"
proof -
  have pd: "read_kernel_mem (Some c) v rg off x (pad xs zs w) = map_option (apsnd (apsnd (pad xs zs))) (read_kernel_mem (Some c) v rg off x w)" for xs zs
    by (auto simp: read_kernel_mem_def region_addr_def kernel_pad io_pad split: frame_splits)
  have "frames_free w' = frames_free w"
    using run kernel_os(3) by (auto simp: read_kernel_mem_def frames_free_def dest!: read_free split: frame_splits)
  moreover obtain r1 y1 w1 where "read_kernel_mem (Some c) v rg off x w = Some (r1, y1, w1)" "vpage w1 = vpage w"
    by (rule read_kernel_total [OF ok k])
  ultimately show ?thesis using pd run by (simp add: framed_def)
qed

text \<open>Writing a byte of a resident page takes no frame.\<close>

lemma write_user_framed:
  assumes ok: "space_ok k c mp p w" and rs: "resident mp p w" and run: "write_user_mem (Some c) x rg off v w = Some (r, w')"
  shows "framed (write_user_mem (Some c) x rg off v) (Pair r) w w'"
proof (cases "write_target mp rg off w")
  case None
  note c = space_caller [OF ok]
  have "write_user_mem (Some c) x rg off v u = Some (- 1, u)" if u: "w_mms u mp = w_mms w mp" for u
  proof (rule write_target_cases [OF ok, of rg off])
    fix m i
    assume i: "sint rg = int i" "i < PAGING_MAX_SYMTBL_SZ" "w_mms w mp = Some m" "arr_get (mm_symrgtbl m) i = Some (symrg w mp i)"
    have "region_addr mp rg off u = Some None"
      using i u write_target_none [OF None i(1,2)] by (auto simp: region_addr_def)
    then show ?thesis using c(5) by (simp add: write_user_mem_def)
  qed (use c(5) in \<open>simp add: write_user_mem_def\<close>)
  then show ?thesis using run by (simp add: framed_def)
next
  case (Some a)
  note c = space_caller [OF ok] and ra = region_addr_target [OF ok Some] and pg = user_page [OF region_addr_target(3) [OF ok Some]]
  let ?pg = "ucast (drop_bit PAGING64_ADDR_PT_SHIFT (of_nat a :: addr_t)) :: cint"
  obtain fpn w1 where g: "pg_getpage ?pg 0 c w = Some (0, fpn, w1)"
    "\<And>xs zs. pg_getpage ?pg 0 c (pad xs zs w) = Some (0, fpn, pad xs zs w1)" "w_os w1 = w_os w" "vpage w1 = vpage w"
    by (rule getpage_resident [OF ok rs pg ra(4)]) blast
  let ?a = "scast (int_phyaddr fpn (ucast (page_off (of_nat a)))) :: addr_t"
  have ru: "region_addr mp rg off (pad xs zs w) = Some (Some (of_nat a))" for xs zs using ra(2) by (simp add: region_addr_def)
  have st: "write_user_mem (Some c) x rg off v w = do { (r, ram) \<leftarrow> MEMPHY_write (mram w1) ?a v; Some (if r \<noteq> 0 then - 1 else 0, set_mram w1 ram) }"
    "write_user_mem (Some c) x rg off v (pad xs zs w)
       = do { (r, ram) \<leftarrow> MEMPHY_write (mram (pad xs zs w1)) ?a v; Some (if r \<noteq> 0 then - 1 else 0, set_mram (pad xs zs w1) ram) }" for xs zs
    using c(4,5) ra(1,2) ru g(1,2) by (simp_all add: write_user_mem_def)
  obtain q d where d: "MEMPHY_write (mram w1) ?a v = Some (q, d)" "w' = set_mram w1 d" "r = (if q \<noteq> 0 then - 1 else 0)"
    using run st(1) by (auto split: bind_splits)
  have "write_user_mem (Some c) x rg off v (pad xs zs w) = Some (r, pad xs zs w')" for xs zs
    unfolding st(2) pad_sel io_pad using d by simp
  moreover have "frames_free w' = frames_free w" using frames_free_ram [OF write_free [OF d(1)]] d(2) g(3) by (simp add: frames_free_def)
  ultimately show ?thesis using d(2) g(4) by (simp add: framed_def)
qed

lemma copy_loop_framed:
  assumes "space_ok k c mp p w" and "kernel_ok kmp w" and "kmp \<noteq> mp" and "9 * n \<le> w_hostmem w" and "resident mp p w"
    and "copy_loop c s d off i n w = Some (r, w')"
  shows "framed (copy_loop c s d off i n) (Pair r) w w'"
  using assms
proof (induction n arbitrary: i w)
  case 0
  then show ?case by (simp add: framed_def)
next
  case (Suc n)
  obtain r1 v w1 where rd: "read_kernel_mem (Some c) (- 1) s (ucast (off + i)) 0 w = Some (r1, v, w1)" "space_ok k c mp p w1" "kernel_step kmp 0 w w1"
    by (rule read_kernel_total [OF Suc.prems(1-3)])
  have k1: "kernel_ok kmp w1" "w_hostmem w \<le> w_hostmem w1" using rd(3) by (simp_all add: kernel_step_def)
  note f1 = read_kernel_framed [OF Suc.prems(1-3) rd(1)]
  then have rs1: "resident mp p w1" using Suc.prems(5) by (simp add: framed_def resident_def)
  obtain r2 w2 where wr: "write_user_mem (Some c) (- 1) d (ucast (off + i)) v w1 = Some (r2, w2)" "space_ok k c mp p w2" "confined mp w1 w2"
    "w_hostmem w1 \<le> w_hostmem w2 + 9" "snap w2 = snap w1"
    by (rule write_user_total [OF rd(2)]) (use Suc.prems(4) k1(2) in simp)
  note f2 = write_user_framed [OF rd(2) rs1 wr(1)]
  show ?case
  proof (cases "r1 = 0 \<and> r2 = 0")
    case True
    have k2: "kernel_ok kmp w2" using own_step_snap [OF wr(3,5), of 0] k1(1) Suc.prems(3) by (simp add: own_step_def kernel_kept_def)
    have "framed (copy_loop c s d off (i + 1) n) (Pair r) w2 w'"
      by (rule Suc.IH [OF wr(2) k2 Suc.prems(3)]) (use Suc.prems(4,6) k1(2) wr(1,4) rd(1) rs1 f2 True in \<open>simp_all add: framed_def resident_def\<close>)
    then show ?thesis using f1 f2 True by (simp add: framed_def)
  next
    case False
    then show ?thesis using f1 f2 Suc.prems(6) rd(1) wr(1) by (cases "r1 = 0") (auto simp: framed_def)
  qed
qed

section \<open>One instruction\<close>

text \<open>The frames an instruction can take.\<close>

definition inst_frames :: "inst_t \<Rightarrow> nat" where
  "inst_frames ins = (case opcode ins of
     ALLOC \<Rightarrow> pages_for (arg_0 ins)
   | KMALLOC \<Rightarrow> pages_for (ucast (ucast (arg_0 ins) :: u32))
   | KMEM_CACHE_CREATE \<Rightarrow> pages_for (ucast (ucast (arg_0 ins) :: u32))
   | _ \<Rightarrow> 0)"

lemma inst_frames_user: "user_inst ins \<Longrightarrow> inst_frames ins = inst_pages ins"
  by (auto simp: inst_frames_def inst_pages_def user_inst_def split: ins_opcode_t.splits)

lemma exec_kernel_mirrored:
  assumes ok: "space_ok k c mp p w" and kn: "kernel_ok kmp w" "kmp \<noteq> mp" and u: "kernel_inst ins"
    and h: "inst_host ins \<le> w_hostmem w" and up: "opcode ins = KMEM_CACHE_ALLOC \<Longrightarrow> pools_up kmp w"
    and rs: "resident mp p w" "inst_frames ins \<le> frames_free w" and run: "exec_inst ins k c w = Some (r, w')"
  shows "mirrored (exec_inst ins k c) (Pair r) k mp (inst_frames ins) w w'"
proof -
  obtain r2 w2 where "exec_inst ins k c w = Some (r2, w2)" "inst_done k c mp p (inst_host ins) w w2"
    by (rule exec_kernel_inst [OF ok kn u h up])
  then have od: "inst_done k c mp p (inst_host ins) w w'" using run by simp
  then obtain c' q where q: "space_ok k c' mp q w'" "q \<le> p" by (auto simp: inst_done_def)
  have kernel: ?thesis if f: "frugal (exec_inst ins k c) (inst_frames ins) w" and m: "w_mms w' mp = w_mms w mp"
  proof -
    have "vpage w' mp = vpage w mp" using m by (simp add: fun_eq_iff vpage_def pte_view_def)
    then have "resident mp q w'" using q(2) rs(1) by (simp add: resident_def)
    then have "tight k mp w'" unfolding tight_def using q(1) by blast
    then show ?thesis using f run by (simp add: frugal_def mirrored_def)
  qed
  have copy: ?thesis if "framed (exec_inst ins k c) (Pair r) w w'"
    using that q rs(1) resident_le [OF rs(1)] by (auto simp: tight_def framed_def mirrored_def)
  note c = space_caller [OF ok]
  have other: "w_mms w' mp = w_mms w mp" if "kernel_step kmp n w w'" for n using that kn(2) by (simp add: kernel_step_def confined_def)
  show ?thesis
  proof (cases "opcode ins")
    case KMALLOC
    have a: "unat (ucast (arg_0 ins) :: u32) + 4096 \<le> 2 ^ 31" "unat (ucast (arg_1 ins) :: u32) < 2 ^ 31"
      "8 * pages_for (ucast (ucast (arg_0 ins) :: u32)) \<le> w_hostmem w" "pages_for (ucast (ucast (arg_0 ins) :: u32)) \<le> frames_free w"
      using u h rs(2) KMALLOC by (simp_all add: kernel_inst_def inst_host_def inst_frames_def)
    have m: "w_mms w' mp = w_mms w mp"
      by (rule libkmem_malloc_kernel [OF c(4) kn(1) c(3) a(2,1,3)]) (use run KMALLOC other in \<open>simp add: exec_inst_def\<close>)
    show ?thesis
      using libkmem_malloc_frugal [OF a(1,4)] KMALLOC m by (intro kernel) (simp_all add: frugal_def exec_inst_def inst_frames_def)
  next
    case KMEM_CACHE_CREATE
    have a: "unat (ucast (arg_0 ins) :: u32) + 4096 \<le> 2 ^ 31" "8 * pages_for (ucast (ucast (arg_0 ins) :: u32)) + 1 \<le> w_hostmem w"
      "pages_for (ucast (ucast (arg_0 ins) :: u32)) \<le> frames_free w"
      using u h rs(2) KMEM_CACHE_CREATE by (simp_all add: kernel_inst_def inst_host_def inst_frames_def)
    have m: "w_mms w' mp = w_mms w mp"
      by (rule pool_create_kernel [OF c(4) kn(1) c(3) a(1,2), of "ucast (arg_1 ins)" "ucast (arg_2 ins)"])
        (use run KMEM_CACHE_CREATE other in \<open>simp add: exec_inst_def\<close>)
    show ?thesis
      using pool_create_frugal [OF a(1,3)] KMEM_CACHE_CREATE m by (intro kernel) (simp_all add: frugal_def exec_inst_def inst_frames_def)
  next
    case KMEM_CACHE_ALLOC
    have m: "w_mms w' mp = w_mms w mp"
      by (rule cache_alloc_kernel [OF c(4) kn(1) c(3) up [OF KMEM_CACHE_ALLOC], of "ucast (arg_0 ins)" "ucast (arg_1 ins)"])
        (use run KMEM_CACHE_ALLOC other in \<open>simp add: exec_inst_def\<close>)
    show ?thesis
      using cache_alloc_frugal [of c _ _ w] KMEM_CACHE_ALLOC m by (intro kernel) (simp_all add: frugal_def exec_inst_def inst_frames_def)
  next
    case COPY_FROM_USER
    then have "9 * unat (ucast (arg_3 ins) :: u32) \<le> w_hostmem w" using h by (simp add: inst_host_def)
    note copy_loop_framed [OF ok kn this rs(1)]
    then show ?thesis using COPY_FROM_USER run by (intro copy) (auto simp: framed_def exec_inst_def libkmem_copy_from_user_def split: if_splits)
  next
    case COPY_TO_USER
    then have "9 * unat (ucast (arg_3 ins) :: u32) \<le> w_hostmem w" using h by (simp add: inst_host_def)
    note copy_loop_framed [OF ok kn this rs(1)]
    then show ?thesis using COPY_TO_USER run by (intro copy) (auto simp: framed_def exec_inst_def libkmem_copy_to_user_def split: if_splits)
  qed (use u in \<open>simp_all add: kernel_inst_def\<close>)
qed

text \<open>The frames the rest of a program can take.\<close>

definition page_need :: "world \<Rightarrow> pcb_ptr \<Rightarrow> nat" where
  "page_need w k = sum_list (map inst_frames (left_of w k))"

lemma space_unique:
  assumes "space_ok k c mp p w" and "space_ok j d mp q w"
  shows "p = q"
  using area_unique [of mp p w q] assms by (simp add: space_ok_def heap_ok_def)

lemma tight_keep:
  assumes "tight k mp w" and "runnable k mp w'" and "w_mms w' mp = w_mms w mp"
  shows "tight k mp w'"
proof -
  obtain c p where p: "space_ok k c mp p w" "resident mp p w" using assms(1) by (auto simp: tight_def)
  obtain d q where q: "space_ok k d mp q w'" using assms(2) by (auto simp: runnable_def)
  have "area_at mp q w" using q assms(3) by (simp add: space_ok_def heap_ok_def area_at_def areas_def)
  then have "p = q" using area_unique [of mp p w q] p(1) q by (simp add: space_ok_def heap_ok_def)
  moreover have "vpage w' mp = vpage w mp" using assms(3) by (simp add: fun_eq_iff vpage_def pte_view_def)
  ultimately show ?thesis using p(2) q by (auto simp: tight_def resident_def)
qed

lemma run_mirrored:
  assumes rd: "runnable k mp w" and h: "host_need w k \<le> w_hostmem w" and t: "tight k mp w" and f: "page_need w k \<le> frames_free w"
    and run: "run k w = Some (r, w')"
  shows "run k (pad xs zs w) = Some (r, pad xs zs w')" and "tight k mp w'"
    and "frames_free w + page_need w' k \<le> frames_free w' + page_need w k"
proof -
  obtain c p kmp where c: "space_ok k c mp p w" "length (p_regs c) = 10" "list_all program_inst (code_left c)"
    "(p + sum_list (map inst_pages (code_left c))) * PAGING64_PAGESZ < 2 ^ 31" "length (p_code c) < 2 ^ 32"
    and kn: "kernel_ok kmp w" "kmp \<noteq> mp" "pools_up kmp w \<or> creates_first (code_left c)"
    using rd by (auto simp: runnable_def kernel_ready_def)
  have rs: "resident mp p w" using t space_unique [OF c(1)] by (auto simp: tight_def)
  have k: "w_pcbs w k = Some c" by (rule space_known [OF c(1)])
  obtain r2 w2 where "run k w = Some (r2, w2)" and "left_of w2 k = tl (left_of w k)"
    by (rule run_user [OF rd h]) blast
  then have l': "left_of w' k = tl (left_of w k)" using run by simp
  have "(\<forall>xs zs. run k (pad xs zs w) = Some (r, pad xs zs w')) \<and> tight k mp w'
      \<and> frames_free w + page_need w' k \<le> frames_free w' + page_need w k"
  proof (cases "unat (p_pc c) < length (p_code c)")
    case False
    then show ?thesis using run k t l' by (simp add: run_def page_need_def left_of_def code_left_def)
  next
    case True
    let ?i = "p_code c ! unat (p_pc c)" and ?c = "c\<lparr>p_pc := p_pc c + 1\<rparr>"
    let ?w = "w\<lparr>w_pcbs := (w_pcbs w)(k \<mapsto> ?c)\<rparr>"
    have cl: "code_left c = ?i # code_left ?c" by (rule fetch [OF True c(5)])
    have l: "left_of w k = ?i # code_left ?c" using k cl by (simp add: left_of_def)
    have s: "space_ok k ?c mp p ?w" by (rule space_pcb [OF c(1)]) simp_all
    have u: "program_inst ?i" "(p + inst_pages ?i) * PAGING64_PAGESZ < 2 ^ 31" "inst_host ?i \<le> w_hostmem ?w"
      using c(3,4) cl h l by (simp_all add: host_need_def macro_defs)
    have ff: "frames_free ?w = frames_free w" by (simp add: frames_free_def)
    have w: "resident mp p ?w" "inst_frames ?i \<le> frames_free ?w" "exec_inst ?i k ?c ?w = Some (r, w')" "length (p_regs ?c) = 10"
      using c(2) rs f l ff run k True by (simp_all add: resident_def page_need_def run_def Let_def)
    have "mirrored (exec_inst ?i k ?c) (Pair r) k mp (inst_frames ?i) ?w w'"
    proof (cases "user_inst ?i")
      case ui: True
      show ?thesis
        using exec_mirrored [OF s w(4) ui u(2,3) w(1) _ w(3)] w(2) by (simp add: inst_frames_user [OF ui])
    next
      case False
      have kw: "kernel_ok kmp ?w" "opcode ?i = KMEM_CACHE_ALLOC \<Longrightarrow> pools_up kmp ?w"
        using kn(1,3) cl by (auto simp: kernel_ok_def pools_up_def creates_pool_def)
      show ?thesis by (rule exec_kernel_mirrored [OF s kw(1) kn(2) _ u(3) kw(2) w(1-3)]) (use u(1) False in \<open>auto simp: program_inst_def\<close>)
    qed
    then show ?thesis using k True l l' ff by (simp add: mirrored_def run_def Let_def page_need_def)
  qed
  then show "run k (pad xs zs w) = Some (r, pad xs zs w')" and "tight k mp w'"
    and "frames_free w + page_need w' k \<le> frames_free w' + page_need w k" by auto
qed

end
