(* ===== verification/LoaderText.thy ===== *)
theory LoaderText
  imports Loader
begin

text \<open>
  The text format of a program: a printer for programs, and what the scanning routines of the
  loader do on printed text.  The round trip shows that the loader reads back every program it can
  express without overflowing its opcode buffer.
\<close>

section \<open>Printing numbers\<close>

definition digit :: "nat \<Rightarrow> char" where
  "digit d = char_of (48 + d)"

fun show_nat :: "nat \<Rightarrow> string" where
  "show_nat n = (if n < 10 then [digit n] else show_nat (n div 10) @ [digit (n mod 10)])"

declare show_nat.simps [simp del]

lemma of_char_digit: "d < 10 \<Longrightarrow> of_char (digit d) = (48 + of_nat d :: int)"
proof -
  assume "d < 10"
  then have "(of_char (digit d) :: nat) = 48 + d" by (simp add: digit_def)
  then show ?thesis by (metis of_nat_add of_nat_numeral of_nat_of_char)
qed

lemma isdigit_digit [simp]: "d < 10 \<Longrightarrow> isdigit (digit d)"
  by (simp add: isdigit_def of_char_digit)

lemma isdigit_not_space: "isdigit ch \<Longrightarrow> \<not> isspace ch"
  by (auto simp: isdigit_def isspace_def)

lemma show_nat_digits: "\<forall>ch \<in> set (show_nat n). isdigit ch"
proof (induction n rule: show_nat.induct)
  case (1 n)
  then show ?case by (cases "n < 10") (subst show_nat.simps; auto)+
qed

lemma show_nat_not_Nil [simp]: "show_nat n \<noteq> []"
  by (subst show_nat.simps) simp

lemma digits_val_snoc: "digits_val (ds @ [d]) = 10 * digits_val ds + (of_char d - 48)"
  by (simp add: digits_val_def)

lemma digits_val_show: "digits_val (show_nat n) = int n"
proof (induction n rule: show_nat.induct)
  case (1 n)
  show ?case
  proof (cases "n < 10")
    case True
    then show ?thesis by (subst show_nat.simps) (simp add: digits_val_def of_char_digit)
  next
    case False
    have "int n = 10 * int (n div 10) + int (n mod 10)" by presburger
    then show ?thesis
      using False 1 by (subst show_nat.simps) (simp add: digits_val_snoc of_char_digit)
  qed
qed

lemma show_nat_length: "n < 10 ^ k \<Longrightarrow> 0 < k \<Longrightarrow> length (show_nat n) \<le> k"
proof (induction n arbitrary: k rule: show_nat.induct)
  case (1 n)
  show ?case
  proof (cases "n < 10")
    case True
    then show ?thesis using "1.prems" by (subst show_nat.simps) simp
  next
    case False
    then obtain j where k: "k = Suc j" "0 < j" using "1.prems" by (cases k; cases "k - 1") auto
    then have "n div 10 < 10 ^ j" using "1.prems" by (simp add: less_mult_imp_div_less mult.commute)
    then show ?thesis using "1.IH" [OF False] False k by (subst show_nat.simps) simp
  qed
qed

section \<open>Scanning printed text\<close>

definition NL :: char where "NL = CHR 0x0A"

lemma isspace_blank [simp]: "isspace (CHR '' '')" "isspace NL" "\<not> isdigit (CHR '' '')" "\<not> isdigit NL"
  by (simp_all add: isspace_def isdigit_def NL_def of_char_def)

definition blank :: "string \<Rightarrow> bool" where
  "blank ws \<longleftrightarrow> (\<forall>ch \<in> set ws. isspace ch)"

definition no_digit_next :: "string \<Rightarrow> bool" where
  "no_digit_next r \<longleftrightarrow> r = [] \<or> \<not> isdigit (hd r)"

definition space_next :: "string \<Rightarrow> bool" where
  "space_next r \<longleftrightarrow> r = [] \<or> isspace (hd r)"

lemma blank_simps [simp]: "blank []" "blank (ch # ws) \<longleftrightarrow> isspace ch \<and> blank ws"
  by (simp_all add: blank_def)

lemma skip_ws_blank: "blank ws \<Longrightarrow> skip_ws (ws @ f) = skip_ws f"
  by (simp add: skip_ws_def blank_def dropWhile_append)

lemma skip_ws_word: "f = [] \<or> \<not> isspace (hd f) \<Longrightarrow> skip_ws f = f"
  by (cases f) (auto simp: skip_ws_def)

lemma takeWhile_digits:
  "\<forall>ch \<in> set ds. isdigit ch \<Longrightarrow> no_digit_next r \<Longrightarrow> takeWhile isdigit (ds @ r) = ds"
  by (cases r) (auto simp: no_digit_next_def)

lemma show_nat_head: "hd (show_nat n @ r) \<in> set (show_nat n)"
  using show_nat_not_Nil [of n] by (cases "show_nat n") auto

lemma digit_not_sign: "isdigit ch \<Longrightarrow> ch \<noteq> CHR ''-'' \<and> ch \<noteq> CHR ''+''"
  by (auto simp: isdigit_def of_char_def)

lemma scan_ulong_show:
  assumes "blank ws" and "n < 2 ^ 64" and "no_digit_next r"
  shows "scan_ulong (ws @ show_nat n @ r) = (Some (of_nat n), r)"
proof -
  let ?f = "show_nat n @ r"
  have hd: "isdigit (hd ?f)" using show_nat_head show_nat_digits by blast
  have sk: "skip_ws (ws @ ?f) = ?f"
    using skip_ws_blank [OF assms(1)] skip_ws_word [of ?f] isdigit_not_space [OF hd] by simp
  have "int n < 2 ^ 64" using assms(2) by (metis of_nat_less_iff of_nat_numeral of_nat_power)
  then have "strtoul False (show_nat n) = of_nat n" by (simp add: strtoul_def digits_val_show)
  moreover have "takeWhile isdigit ?f = show_nat n" by (rule takeWhile_digits [OF show_nat_digits assms(3)])
  ultimately show ?thesis
    using digit_not_sign [OF hd] by (simp add: scan_ulong_def Let_def sk)
qed

lemma scan_word_word:
  assumes "blank ws" and "wd \<noteq> []" and "\<forall>ch \<in> set wd. \<not> isspace ch" and "space_next r"
  shows "scan_word (ws @ wd @ r) = (Some wd, r)"
proof -
  have "skip_ws (ws @ wd @ r) = wd @ r"
    using skip_ws_blank [OF assms(1)] skip_ws_word [of "wd @ r"] assms(2,3) by (cases wd) auto
  moreover have "takeWhile (\<lambda>ch. \<not> isspace ch) (wd @ r) = wd"
    using assms(3,4) by (cases r) (auto simp: space_next_def)
  ultimately show ?thesis using assms(2) by (simp add: scan_word_def)
qed

text \<open>The arguments of an instruction.\<close>

definition print_args :: "arg_t list \<Rightarrow> string" where
  "print_args vs = concat (map (\<lambda>a. CHR '' '' # show_nat (unat a)) vs)"

lemma print_args_simps [simp]:
  "print_args [] = []" "print_args (a # vs) = CHR '' '' # show_nat (unat a) @ print_args vs"
  by (simp_all add: print_args_def)

lemma no_digit_after_arg: "no_digit_next r \<Longrightarrow> no_digit_next (print_args vs @ r)"
  by (cases vs) (simp_all add: no_digit_next_def)

lemma scan_ulongs_args:
  "no_digit_next r \<Longrightarrow> scan_ulongs (length vs) (print_args vs @ r) = (vs, r)"
proof (induction vs)
  case (Cons a vs)
  have "scan_ulong ([CHR '' ''] @ show_nat (unat a) @ print_args vs @ r) = (Some (of_nat (unat a)), print_args vs @ r)"
    by (rule scan_ulong_show) (use unat_lt_2p64 [of a] no_digit_after_arg [OF Cons.prems] in auto)
  then show ?case using Cons by simp
qed simp

lemma print_args_length: "length (print_args vs) \<le> 21 * length vs"
proof (induction vs)
  case (Cons a vs)
  have "unat a < 10 ^ 20" using unat_lt_2p64 [of a] by simp
  then have "length (show_nat (unat a)) \<le> 20" by (rule show_nat_length) simp
  then show ?case using Cons.IH by simp
qed simp

lemma print_args_chars: "ch \<in> set (print_args vs) \<Longrightarrow> ch = CHR '' '' \<or> isdigit ch"
  by (induction vs) (use show_nat_digits in auto)

lemma take_line_line:
  "NL \<notin> set l \<Longrightarrow> length l < n \<Longrightarrow> take_line n (l @ NL # r) = (l @ [NL], r)"
proof (induction l arbitrary: n)
  case Nil
  then show ?case by (cases n) (auto simp: NL_def)
next
  case (Cons ch l)
  then show ?case by (cases n) (auto simp: NL_def)
qed

section \<open>Programs\<close>

fun op_name :: "ins_opcode_t \<Rightarrow> string" where
  "op_name CALC = ''calc''"
| "op_name ALLOC = ''alloc''"
| "op_name FREE = ''free''"
| "op_name READ = ''read''"
| "op_name WRITE = ''write''"
| "op_name KMALLOC = ''kmalloc''"
| "op_name KMEM_CACHE_CREATE = ''kmem_cache_create''"
| "op_name KMEM_CACHE_ALLOC = ''kmem_cache_alloc''"
| "op_name COPY_FROM_USER = ''copy_from_user''"
| "op_name COPY_TO_USER = ''copy_to_user''"
| "op_name SYSCALL = ''syscall''"

text \<open>How many arguments the loader reads for an opcode.\<close>

fun arity :: "ins_opcode_t \<Rightarrow> nat" where
  "arity CALC = 0"
| "arity FREE = 1"
| "arity ALLOC = 2"
| "arity KMALLOC = 2"
| "arity KMEM_CACHE_ALLOC = 2"
| "arity READ = 3"
| "arity WRITE = 3"
| "arity KMEM_CACHE_CREATE = 3"
| "arity COPY_FROM_USER = 4"
| "arity COPY_TO_USER = 4"
| "arity SYSCALL = 4"

definition print_inst :: "ins_opcode_t \<times> arg_t list \<Rightarrow> string" where
  "print_inst i = op_name (fst i) @ print_args (snd i) @ [NL]"

definition print_prog :: "(ins_opcode_t \<times> arg_t list) list \<Rightarrow> string" where
  "print_prog prog = concat (map print_inst prog)"

text \<open>The instruction the loader builds in the uninitialised slot \<open>t\<close>.\<close>

definition built :: "inst_t \<Rightarrow> ins_opcode_t \<times> arg_t list \<Rightarrow> inst_t" where
  "built t i = store_args (snd i) (t\<lparr>opcode := fst i\<rparr>)"

definition inst_ok :: "ins_opcode_t \<times> arg_t list \<Rightarrow> bool" where
  "inst_ok i \<longleftrightarrow> length (snd i) = arity (fst i) \<and> length (op_name (fst i)) < OPCODE_BUF"

lemma get_opcode_name [simp]: "get_opcode (op_name opc) = Some opc"
  by (cases opc) (simp_all add: get_opcode_def)

lemma op_name_word: "op_name opc \<noteq> []" "\<forall>ch \<in> set (op_name opc). \<not> isspace ch"
  by (cases opc; simp add: isspace_def of_char_def)+

lemma print_prog_head: "print_prog prog = [] \<or> \<not> isspace (hd (print_prog prog))"
proof (cases prog)
  case (Cons i prog')
  have "hd (op_name (fst i)) \<in> set (op_name (fst i))" using op_name_word(1) by (rule hd_in_set)
  then have "\<not> isspace (hd (op_name (fst i)))" using op_name_word(2) by blast
  then show ?thesis using op_name_word(1) by (simp add: Cons print_prog_def print_inst_def)
qed (simp add: print_prog_def)

lemma scan_args_nl_args:
  "scan_args_nl (length vs) (print_args vs @ NL # print_prog prog) = (vs, print_prog prog)"
proof -
  have "scan_ulongs (length vs) (print_args vs @ NL # print_prog prog) = (vs, NL # print_prog prog)"
    by (rule scan_ulongs_args) (simp add: no_digit_next_def)
  moreover have "skip_ws (NL # print_prog prog) = print_prog prog"
    using skip_ws_blank [of "[NL]" "print_prog prog"] skip_ws_word [OF print_prog_head] by simp
  ultimately show ?thesis by (simp add: scan_args_nl_def)
qed

lemma fgets_args:
  "length vs = 4 \<Longrightarrow> fgets 200 (print_args vs @ NL # r) = (Some (print_args vs @ [NL]), r)"
proof -
  assume vs: "length vs = 4"
  have "NL \<notin> set (print_args vs)" using print_args_chars [of NL vs] by (auto simp: NL_def isdigit_def of_char_def)
  moreover have "length (print_args vs) < 199" using print_args_length [of vs] vs by simp
  ultimately show ?thesis by (simp add: fgets_def take_line_line)
qed

text \<open>Reading the operands of a printed instruction leaves blanks and the rest of the program.\<close>

lemma read_operands_args:
  assumes "length vs = arity opc"
  shows "\<exists>buf' ws. read_operands (t\<lparr>opcode := opc\<rparr>) buf (print_args vs @ NL # print_prog prog)
    = Some (built t (opc, vs), buf', ws @ print_prog prog) \<and> blank ws"
proof -
  have nl: "\<exists>ws. print_prog prog = ws @ print_prog prog \<and> blank ws" by (intro exI [of _ "[]"]) simp
  consider "arity opc = 0" | "0 < arity opc" "arity opc < 4" | "arity opc = 4" by (cases opc) auto
  then show ?thesis
  proof cases
    case 1
    then show ?thesis using assms
      by (cases opc) (auto simp: read_operands_def built_def store_args_def intro: exI [of _ "[NL]"])
  next
    case 2
    then show ?thesis using assms scan_args_nl_args [of vs prog] nl
      by (cases opc) (auto simp: read_operands_def built_def)
  next
    case 3
    have "scan_ulongs 4 (print_args vs @ [NL]) = (vs, [NL])"
      using scan_ulongs_args [of "[NL]" vs] assms 3 by (simp add: no_digit_next_def)
    then show ?thesis using 3 assms fgets_args [of vs "print_prog prog"] nl
      by (cases opc) (auto simp: read_operands_def built_def)
  qed
qed

lemma read_text_print:
  "length slots = length prog \<Longrightarrow> list_all inst_ok prog \<Longrightarrow> blank ws \<Longrightarrow>
   read_text slots prev buf (ws @ print_prog prog) = Some (Some (map2 built slots prog))"
proof (induction prog arbitrary: slots prev buf ws)
  case Nil
  then show ?case by simp
next
  case (Cons i prog)
  obtain opc vs where i: "i = (opc, vs)" by (cases i)
  obtain t slots' where sl: "slots = t # slots'" "length slots' = length prog"
    using Cons.prems(1) by (cases slots) auto
  have ok: "length vs = arity opc" "length (op_name opc) < OPCODE_BUF"
    using Cons.prems(2) by (simp_all add: i inst_ok_def)
  let ?r = "print_args vs @ NL # print_prog prog"
  have "space_next ?r" by (cases vs) (simp_all add: space_next_def)
  then have w: "scan_word (ws @ op_name opc @ ?r) = (Some (op_name opc), ?r)"
    by (rule scan_word_word [OF Cons.prems(3) op_name_word])
  have pp: "print_prog (i # prog) = op_name opc @ ?r" by (simp add: print_prog_def print_inst_def i)
  obtain buf' ws' where o: "read_operands (t\<lparr>opcode := opc\<rparr>) buf ?r = Some (built t (opc, vs), buf', ws' @ print_prog prog)"
    "blank ws'" using read_operands_args [OF ok(1)] by blast
  have "read_text slots' (Some (op_name opc)) buf' (ws' @ print_prog prog) = Some (Some (map2 built slots' prog))"
    using Cons.IH [OF sl(2) _ o(2)] Cons.prems(2) by simp
  then show ?case using ok(2) w o(1) by (simp add: sl pp [unfolded i] i)
qed

section \<open>Properties\<close>

text \<open>C26: Loading undoes printing: for every program whose opcodes fit the loader's opcode buffer and
  whose instructions have the arguments of their opcode, the loader turns the printed text back into
  exactly those instructions, with the printed priority and the next process number.\<close>

theorem load_print_roundtrip:
  assumes "list_all inst_ok prog" and "length prog < 2 ^ 32" and "length (raw_text (length prog)) = length prog"
    and "prio < 2 ^ 32"
  shows "load raw raw_text (Some (show_nat prio @ CHR '' '' # show_nat (length prog) @ NL # print_prog prog)) pid
    = Some (Some (raw\<lparr>p_pid := pid, p_bp := PAGE_SIZE, p_pc := 0, p_priority := of_nat prio,
        p_code := map2 built (raw_text (length prog)) prog\<rparr>, pid + 1))"
proof -
  let ?n = "length prog"
  have s1: "scan_ulong (show_nat prio @ CHR '' '' # show_nat ?n @ NL # print_prog prog)
      = (Some (of_nat prio), CHR '' '' # show_nat ?n @ NL # print_prog prog)"
    using scan_ulong_show [of "[]" prio "CHR '' '' # show_nat ?n @ NL # print_prog prog"] assms(4)
    by (simp add: no_digit_next_def)
  have s2: "scan_ulong (CHR '' '' # show_nat ?n @ NL # print_prog prog) = (Some (of_nat ?n), NL # print_prog prog)"
    using scan_ulong_show [of "[CHR '' '']" ?n "NL # print_prog prog"] assms(2) by (simp add: no_digit_next_def)
  have sc: "scan_ulongs 2 (show_nat prio @ CHR '' '' # show_nat ?n @ NL # print_prog prog)
      = ([of_nat prio, of_nat ?n], NL # print_prog prog)"
    by (simp add: numeral_2_eq_2 s1 s2)
  have n: "unat (ucast (of_nat ?n :: arg_t) :: u32) = ?n"
    using assms(2) by (simp add: unsigned_ucast_eq unsigned_of_nat take_bit_nat_eq_self)
  have "read_text (raw_text ?n) None None ([NL] @ print_prog prog) = Some (Some (map2 built (raw_text ?n) prog))"
    by (rule read_text_print [OF assms(3,1)]) simp
  moreover have "ucast (of_nat prio :: arg_t) = (of_nat prio :: u32)"
    using assms(4) by (simp add: word_unat_eq_iff unsigned_ucast_eq unsigned_of_nat take_bit_nat_eq_self)
  ultimately show ?thesis by (simp add: load_def Let_def sc n)
qed

theorem load_print_roundtrip_witness:
  "load \<lparr>p_pid = 0, p_priority = 0, p_code = [], p_regs = [], p_pc = 9, p_prio = 0, p_krnl = False, p_bp = 0, p_mm = None\<rparr>
     (\<lambda>n. replicate n \<lparr>opcode = CALC, arg_0 = 0, arg_1 = 0, arg_2 = 0, arg_3 = 0\<rparr>)
     (Some (show_nat 3 @ CHR '' '' # show_nat (length [(ALLOC, [300 :: arg_t, 1])]) @ NL # print_prog [(ALLOC, [300, 1])])) 7
   = Some (Some (\<lparr>p_pid = 7, p_priority = 3,
       p_code = [\<lparr>opcode = ALLOC, arg_0 = 300, arg_1 = 1, arg_2 = 0, arg_3 = 0\<rparr>],
       p_regs = [], p_pc = 0, p_prio = 0, p_krnl = False, p_bp = PAGE_SIZE, p_mm = None\<rparr>, 8))"
  by (subst load_print_roundtrip) (simp_all add: inst_ok_def OPCODE_BUF_def built_def store_args_def)

text \<open>The loader cannot read its own longest opcodes: a program whose first instruction is
  \<open>kmem_cache_create\<close>, \<open>kmem_cache_alloc\<close>, \<open>copy_from_user\<close> or \<open>copy_to_user\<close>
  overflows the opcode buffer of ten characters.\<close>

theorem long_opcodes_overflow:
  assumes "opc = KMEM_CACHE_CREATE \<or> opc = KMEM_CACHE_ALLOC \<or> opc = COPY_FROM_USER \<or> opc = COPY_TO_USER"
    and "blank ws" and "space_next r"
  shows "read_text (t # slots) prev buf (ws @ op_name opc @ r) = None"
proof -
  have "OPCODE_BUF \<le> length (op_name opc)" using assms(1) by (auto simp: OPCODE_BUF_def)
  then show ?thesis using scan_word_word [OF assms(2) op_name_word assms(3)] by simp
qed

theorem long_opcodes_overflow_witness:
  "read_text [\<lparr>opcode = CALC, arg_0 = 0, arg_1 = 0, arg_2 = 0, arg_3 = 0\<rparr>] None None
     ([NL] @ op_name COPY_TO_USER @ '' 0 1 0 5'') = None"
  by (rule long_opcodes_overflow) (simp_all add: space_next_def)

end
