(* ===== verification/Config.thy ===== *)
theory Config
  imports Os LoaderText
begin

text \<open>
  The start of the simulator in \<open>src/src/os.c\<close>: \<open>read_config\<close>, which parses the
  configuration file, and \<open>main\<close>, which sets up the timer, the memory devices, the scheduler
  and the threads, and waits for the threads at the end.

  The file system is a parameter: the contents of the file at a path, \<open>None\<close> if it cannot
  be opened.  A text file has no null character.  The structures \<open>main\<close> has on its stack are
  uninitialised and are a parameter too; the host memory the configuration itself takes is granted.
\<close>

section \<open>Reading the configuration\<close>

text \<open>\<open>%d\<close>: \<open>None\<close> when no digit follows.  Whether the value fits the variable is
  checked when it is stored.\<close>

definition scan_int :: "string \<Rightarrow> int option \<times> string" where
  "scan_int f =
     (let f = skip_ws f;
          neg = (f \<noteq> [] \<and> hd f = CHR ''-'');
          f = (if f \<noteq> [] \<and> (hd f = CHR ''-'' \<or> hd f = CHR ''+'') then tl f else f);
          ds = takeWhile isdigit f
      in (if ds = [] then None else Some (if neg then - digits_val ds else digits_val ds),
          drop (length ds) f))"

fun scan_ints :: "nat \<Rightarrow> string \<Rightarrow> int list \<times> string" where
  "scan_ints 0 f = ([], f)"
| "scan_ints (Suc k) f =
     (case scan_int f of
        (None, f) \<Rightarrow> ([], f)
      | (Some v, f) \<Rightarrow> (case scan_ints k f of (vs, f) \<Rightarrow> (v # vs, f)))"

text \<open>The globals the first line sets; a conversion that fails leaves the zero they start with, and
  only when all three succeed is the white space after them skipped.\<close>

definition read_globals :: "string \<Rightarrow> ((int \<times> int \<times> int) \<times> string) option" where
  "read_globals f =
     (case scan_ints 3 f of
        (vs, f) \<Rightarrow> do {
          let f = (if length vs = 3 then skip_ws f else f);
          let vs = vs @ replicate (3 - length vs) 0;
          time_slot \<leftarrow> c_int (vs ! 0);
          num_cpus \<leftarrow> c_int (vs ! 1);
          num_processes \<leftarrow> c_int (vs ! 2);
          Some ((time_slot, num_cpus, num_processes), f)
        })"

definition PAGING_MAX_MMSWP :: nat where "PAGING_MAX_MMSWP = 4"

text \<open>The memory line: five numbers, or the start of the process list of a file without one, which
  is then read again.  At the end of the file the sizes keep the zero they start with.\<close>

definition read_memsz :: "string \<Rightarrow> (u64 \<times> u64 list) \<times> string" where
  "read_memsz f =
     (case fgets 512 f of
        (None, f) \<Rightarrow> ((0, replicate PAGING_MAX_MMSWP 0), f)
      | (Some buf, f') \<Rightarrow>
          let v = fst (scan_ulongs 5 buf)
          in if length v = 5 then ((v ! 0, map (\<lambda>sit. v ! (sit + 1)) [0..<PAGING_MAX_MMSWP]), f')
             else ((0x1000000, 0x1000000 # replicate (PAGING_MAX_MMSWP - 1) 0), f))"

text \<open>A process of the configuration: the entries of the three arrays of \<open>ld_processes\<close>.\<close>

record proc_line =
  pl_path :: string
  pl_start :: u64
  pl_prio :: u64

definition PATH_BUF :: nat where "PATH_BUF = 100"

definition PROC_DIR :: string where "PROC_DIR = ''input/proc/''"

text \<open>One line of the process list.  A conversion that fails leaves a value that is used
  uninitialised, and a name that is too long overflows one of the two buffers: both are
  \<open>None\<close>.\<close>

definition read_proc :: "string \<Rightarrow> (proc_line \<times> string) option" where
  "read_proc f = do {
     let (st, f) = scan_ulong f;
     start \<leftarrow> st;
     let (wd, f) = scan_word f;
     name \<leftarrow> wd;
     let (pr, f) = scan_ulong f;
     prio \<leftarrow> pr;
     if PATH_BUF \<le> length PROC_DIR + length name then None
     else Some (\<lparr>pl_path = PROC_DIR @ name, pl_start = start, pl_prio = prio\<rparr>, skip_ws f)
   }"

fun read_procs :: "nat \<Rightarrow> string \<Rightarrow> proc_line list option" where
  "read_procs 0 f = Some []"
| "read_procs (Suc k) f = do {
     (p, f) \<leftarrow> read_proc f;
     ps \<leftarrow> read_procs k f;
     Some (p # ps)
   }"

record config_t =
  cf_time_slot :: int
  cf_num_cpus :: int
  cf_memramsz :: u64
  cf_memswpsz :: "u64 list"
  cf_processes :: "proc_line list"

text \<open>The outer option is undefined behaviour, the inner one \<open>exit(1)\<close>.\<close>

definition read_config :: "string option \<Rightarrow> config_t option option" where
  "read_config file =
     (case file of
        None \<Rightarrow> Some None
      | Some f \<Rightarrow> do {
          ((time_slot, num_cpus, num_processes), f) \<leftarrow> read_globals f;
          let ((memramsz, memswpsz), f) = read_memsz f;
          ps \<leftarrow> read_procs (nat num_processes) f;
          Some (Some \<lparr>cf_time_slot = time_slot, cf_num_cpus = num_cpus, cf_memramsz = memramsz,
                      cf_memswpsz = memswpsz, cf_processes = ps\<rparr>)
        })"

section \<open>Starting the threads\<close>

definition CONF_DIR :: string where "CONF_DIR = ''input/''"

text \<open>What \<open>main\<close> leaves: an exit code, or the running threads.\<close>

datatype main_t = Main_Exit int | Main_Run sys_cfg timer_t sys_t

text \<open>Before the first \<open>attach_event\<close>.\<close>

definition timer_zero :: timer_t where
  "timer_zero =
     \<lparr>tm_devs = [], tm_started = False, tm_stop = False, tm_time = 0, tm_pc = Exited,
      tm_waiting = [], tm_slots = []\<rparr>"

fun attach_cpus :: "nat \<Rightarrow> timer_t \<Rightarrow> timer_t" where
  "attach_cpus 0 t = t"
| "attach_cpus (Suc k) t = attach_cpus k (snd (attach_event t))"

text \<open>The entry of the loader for a process: its program is the file at its path.\<close>

definition entry_of :: "(string \<Rightarrow> string option) \<Rightarrow> proc_line \<Rightarrow> ld_entry" where
  "entry_of fs p = \<lparr>le_file = fs (pl_path p), le_start = unat (pl_start p), le_prio = pl_prio p\<rparr>"

definition main_config :: "(string \<Rightarrow> string option) \<Rightarrow> memphy_struct \<Rightarrow> config_t \<Rightarrow> sys_cfg" where
  "main_config fs raw cf =
     (let mram = snd (init_memphy raw (cf_memramsz cf) True);
          mswp = map (\<lambda>sz. snd (init_memphy raw sz True)) (cf_memswpsz cf)
      in \<lparr>cfg_time_slot = cf_time_slot cf, cfg_entries = map (entry_of fs) (cf_processes cf),
          cfg_ram = mram, cfg_swp = mswp ! 0\<rparr>)"

text \<open>\<open>main\<close> up to the creation of the last thread; \<open>h\<close> is the host memory left then.
  The threads start at the beginning of their routines, in any order of their first steps.\<close>

definition main_start ::
  "(string \<Rightarrow> string option) \<Rightarrow> memphy_struct \<Rightarrow> nat \<Rightarrow> string list \<Rightarrow> main_t option" where
  "main_start fs raw h argv =
     (if length argv \<noteq> 2 then Some (Main_Exit 1)
      else if PATH_BUF \<le> length CONF_DIR + length (argv ! 1) then None
      else do {
        r \<leftarrow> read_config (fs (CONF_DIR @ argv ! 1));
        (case r of
           None \<Rightarrow> Some (Main_Exit 1)
         | Some cf \<Rightarrow>
             let n = nat (cf_num_cpus cf);
                 t = attach_cpus n timer_zero;
                 t = start_timer (snd (attach_event t))
             in Some (Main_Run (main_config fs raw cf) t (sys_init n h)))
      })"

text \<open>The end of \<open>main\<close>: when every processor and the loader have returned, the timer is
  stopped.\<close>

definition main_joined :: "sys_t \<Rightarrow> bool" where
  "main_joined y \<longleftrightarrow> list_all (\<lambda>c. c_pc c = C_Stop) (sys_cpus y) \<and> l_pc (sys_ld y) \<in> {L_Done, L_Failed}"

definition main_end :: "timer_t \<Rightarrow> sys_t \<Rightarrow> (int \<times> timer_t) option" where
  "main_end t y = (if main_joined y then Some (0, set_timer_stop t) else None)"

section \<open>The text of a configuration\<close>

text \<open>A process as it is written in a configuration: start time, name of its program, priority.\<close>

type_synonym proc_spec = "u64 \<times> string \<times> u64"

definition print_proc :: "proc_spec \<Rightarrow> string" where
  "print_proc p = (case p of (start, name, prio) \<Rightarrow>
     show_nat (unat start) @ CHR '' '' # name @ CHR '' '' # show_nat (unat prio) @ [NL])"

definition print_procs :: "proc_spec list \<Rightarrow> string" where
  "print_procs ps = concat (map print_proc ps)"

definition proc_of :: "proc_spec \<Rightarrow> proc_line" where
  "proc_of p = (case p of (start, name, prio) \<Rightarrow>
     \<lparr>pl_path = PROC_DIR @ name, pl_start = start, pl_prio = prio\<rparr>)"

definition name_ok :: "string \<Rightarrow> bool" where
  "name_ok name \<longleftrightarrow> name \<noteq> [] \<and> list_all (\<lambda>ch. \<not> isspace ch) name \<and> length PROC_DIR + length name < PATH_BUF"

text \<open>The memory line, which is left out in a legacy file.\<close>

definition print_mem :: "(u64 \<times> u64 list) option \<Rightarrow> string" where
  "print_mem m = (case m of None \<Rightarrow> [] | Some (ram, swps) \<Rightarrow> show_nat (unat ram) @ print_args swps @ [NL])"

definition print_config :: "nat \<Rightarrow> nat \<Rightarrow> (u64 \<times> u64 list) option \<Rightarrow> proc_spec list \<Rightarrow> string" where
  "print_config ts n m ps =
     show_nat ts @ CHR '' '' # show_nat n @ CHR '' '' # show_nat (length ps) @ [NL] @ print_mem m @ print_procs ps"

lemma print_procs_simps [simp]:
  "print_procs [] = []" "print_procs (p # ps) = print_proc p @ print_procs ps"
  by (simp_all add: print_procs_def)

lemma show_nat_no_space: "f = [] \<or> (\<exists>n r. f = show_nat n @ r) \<Longrightarrow> skip_ws f = f"
  using isdigit_not_space [of "hd f"] show_nat_head show_nat_digits by (intro skip_ws_word) blast

lemma print_procs_start: "print_procs ps = [] \<or> (\<exists>n r. print_procs ps = show_nat n @ r)"
  by (cases ps) (auto simp: print_proc_def split: prod.splits)

lemma scan_int_show:
  assumes "blank ws" and "no_digit_next r"
  shows "scan_int (ws @ show_nat n @ r) = (Some (int n), r)"
proof -
  let ?f = "show_nat n @ r"
  have hd: "isdigit (hd ?f)" using show_nat_head show_nat_digits by blast
  have sk: "skip_ws (ws @ ?f) = ?f"
    using skip_ws_blank [OF assms(1)] skip_ws_word [of ?f] isdigit_not_space [OF hd] by simp
  have "takeWhile isdigit ?f = show_nat n" by (rule takeWhile_digits [OF show_nat_digits assms(2)])
  then show ?thesis
    using digit_not_sign [OF hd] by (simp add: scan_int_def Let_def sk digits_val_show)
qed

lemma read_globals_print:
  assumes "ts < 2 ^ 31" and "n < 2 ^ 31" and "k < 2 ^ 31" and "skip_ws f = f"
  shows "read_globals (show_nat ts @ CHR '' '' # show_nat n @ CHR '' '' # show_nat k @ [NL] @ f)
    = Some ((int ts, int n, int k), f)"
proof -
  let ?f2 = "CHR '' '' # show_nat k @ [NL] @ f"
  let ?f1 = "CHR '' '' # show_nat n @ ?f2"
  have s: "scan_int (show_nat ts @ ?f1) = (Some (int ts), ?f1)" "scan_int ?f1 = (Some (int n), ?f2)"
    "scan_int (CHR '' '' # show_nat k @ NL # f) = (Some (int k), NL # f)"
    using scan_int_show [of "[]" ?f1 ts] scan_int_show [of "[CHR '' '']" ?f2 n]
      scan_int_show [of "[CHR '' '']" "NL # f" k]
    by (simp_all add: no_digit_next_def)
  have "int i < 2 ^ 31" if "i < 2 ^ 31" for i using that by (metis of_nat_less_iff of_nat_numeral of_nat_power)
  then have c: "c_int (int i) = Some (int i)" if "i < 2 ^ 31" for i using that by (simp add: c_int_def)
  have "skip_ws (NL # f) = f" using skip_ws_blank [of "[NL]" f] assms(4) by simp
  then show ?thesis using assms(1-3) s c by (simp add: read_globals_def numeral_3_eq_3)
qed

lemma read_memsz_print:
  assumes "length swps = PAGING_MAX_MMSWP"
  shows "read_memsz (print_mem (Some (ram, swps)) @ f) = ((ram, swps), f)"
proof -
  let ?l = "show_nat (unat ram) @ print_args swps"
  have len: "length ?l \<le> 20 + 21 * 4"
    using print_args_length [of swps] assms show_nat_length [of "unat ram" 20] unat_lt_2p64 [of ram]
    by (simp add: PAGING_MAX_MMSWP_def)
  have "ch = CHR '' '' \<or> isdigit ch" if "ch \<in> set ?l" for ch
    using that show_nat_digits print_args_chars by auto
  then have "NL \<notin> set ?l" using isspace_blank(4) by (auto simp: NL_def)
  then have "fgets 512 (?l @ NL # f) = (Some (?l @ [NL]), f)"
    using len take_line_line [of ?l 511 f] by (simp add: fgets_def)
  moreover have "scan_ulongs (length (ram # swps)) (print_args (ram # swps) @ [NL]) = (ram # swps, [NL])"
    by (rule scan_ulongs_args) (simp add: no_digit_next_def)
  moreover have "scan_ulongs 5 (?l @ [NL]) = scan_ulongs 5 (CHR '' '' # ?l @ [NL])"
    using skip_ws_blank [of "[CHR '' '']" "?l @ [NL]"] by (simp add: eval_nat_numeral scan_ulong_def)
  ultimately have "scan_ulongs 5 (?l @ [NL]) = (ram # swps, [NL])" "fgets 512 (?l @ NL # f) = (Some (?l @ [NL]), f)"
    using assms by (simp_all add: PAGING_MAX_MMSWP_def)
  moreover have "map (\<lambda>sit. swps ! sit) [0..<PAGING_MAX_MMSWP] = swps"
    using assms map_nth [of swps] by simp
  ultimately show ?thesis
    using assms by (simp add: read_memsz_def print_mem_def PAGING_MAX_MMSWP_def)
qed

lemma read_proc_print:
  assumes "name_ok name" and "skip_ws f = f"
  shows "read_proc (print_proc (start, name, prio) @ f) = Some (proc_of (start, name, prio), f)"
proof -
  let ?f2 = "CHR '' '' # show_nat (unat prio) @ NL # f"
  let ?f1 = "CHR '' '' # name @ ?f2"
  have s1: "scan_ulong (show_nat (unat start) @ ?f1) = (Some start, ?f1)"
    using scan_ulong_show [of "[]" "unat start" ?f1] unat_lt_2p64 [of start] by (simp add: no_digit_next_def)
  have s2: "scan_word ?f1 = (Some name, ?f2)"
    using scan_word_word [of "[CHR '' '']" name ?f2] assms(1)
    by (simp add: name_ok_def list_all_iff space_next_def)
  have s3: "scan_ulong ?f2 = (Some prio, NL # f)"
    using scan_ulong_show [of "[CHR '' '']" "unat prio" "NL # f"] unat_lt_2p64 [of prio]
    by (simp add: no_digit_next_def)
  have "skip_ws (NL # f) = f" using skip_ws_blank [of "[NL]" f] assms(2) by simp
  then show ?thesis
    using assms(1) by (simp add: read_proc_def print_proc_def proc_of_def s1 s2 s3 name_ok_def)
qed

lemma read_procs_print:
  "list_all (\<lambda>(start, name, prio). name_ok name) ps \<Longrightarrow>
   read_procs (length ps) (print_procs ps) = Some (map proc_of ps)"
proof (induction ps)
  case (Cons p ps)
  obtain start name prio where p: "p = (start, name, prio)" by (cases p)
  have "read_proc (print_proc p @ print_procs ps) = Some (proc_of p, print_procs ps)"
    using read_proc_print [of name "print_procs ps" start prio] Cons.prems
      show_nat_no_space [OF print_procs_start] by (simp add: p)
  then show ?case using Cons by simp
qed simp

text \<open>A legacy file starts with a process whose name is not a number.\<close>

definition legacy_start :: "proc_spec list \<Rightarrow> bool" where
  "legacy_start ps \<longleftrightarrow> (case ps of [] \<Rightarrow> False
     | (start, name, prio) # _ \<Rightarrow> name_ok name \<and> \<not> isdigit (hd name) \<and> hd name \<noteq> CHR ''-'' \<and> hd name \<noteq> CHR ''+'')"

lemma take_line_prefix:
  "NL \<notin> set l \<Longrightarrow> length l \<le> n \<Longrightarrow> fst (take_line n (l @ r)) = l @ fst (take_line (n - length l) r)"
proof (induction l arbitrary: n)
  case (Cons ch l)
  then obtain k where n: "n = Suc k" "ch \<noteq> NL" "length l \<le> k" by (cases n) auto
  then show ?case using Cons.IH [of k] Cons.prems(1) by (auto simp: NL_def split: prod.splits)
qed simp

lemma read_memsz_legacy:
  assumes "legacy_start ps"
  shows "read_memsz (print_procs ps)
    = ((0x1000000, 0x1000000 # replicate (PAGING_MAX_MMSWP - 1) 0), print_procs ps)"
proof -
  obtain start name prio qs where ps: "ps = (start, name, prio) # qs" and nm: "name_ok name"
    and hd: "\<not> isdigit (hd name)" "hd name \<noteq> CHR ''-''" "hd name \<noteq> CHR ''+''"
    using assms by (cases ps) (auto simp: legacy_start_def split: prod.splits)
  obtain ch nm' where name: "name = ch # nm'" and sp: "\<not> isspace ch"
    using nm by (cases name) (auto simp: name_ok_def)
  let ?l = "show_nat (unat start) @ [CHR '' '', ch]"
  obtain r where pp: "print_procs ps = ?l @ r" by (simp add: ps print_proc_def name)
  have nl: "NL \<notin> set ?l" using show_nat_digits [of "unat start"] isspace_blank sp by (auto simp: NL_def)
  have len: "length ?l \<le> 511"
    using show_nat_length [of "unat start" 20] unat_lt_2p64 [of start] by simp
  obtain buf f' where fg: "fgets 512 (print_procs ps) = (Some (?l @ buf), f')"
    using take_line_prefix [OF nl len, of r]
    by (cases "take_line 511 (?l @ r)") (auto simp: fgets_def pp)
  have s1: "scan_ulong (?l @ buf) = (Some start, CHR '' '' # ch # buf)"
    using scan_ulong_show [of "[]" "unat start" "CHR '' '' # ch # buf"] unat_lt_2p64 [of start]
    by (simp add: no_digit_next_def)
  have "skip_ws (CHR '' '' # ch # buf) = ch # buf"
    using skip_ws_blank [of "[CHR '' '']" "ch # buf"] skip_ws_word [of "ch # buf"] sp by simp
  then have s2: "scan_ulong (CHR '' '' # ch # buf) = (None, ch # buf)"
    using hd by (simp add: scan_ulong_def name)
  have "scan_ulongs 5 (?l @ buf) = ([start], ch # buf)"
    using s1 s2 by (simp add: eval_nat_numeral)
  then show ?thesis by (simp add: read_memsz_def fg)
qed

text \<open>The memory sizes a configuration gives.\<close>

definition mem_of :: "(u64 \<times> u64 list) option \<Rightarrow> u64 \<times> u64 list" where
  "mem_of m = (case m of None \<Rightarrow> (0x1000000, 0x1000000 # replicate (PAGING_MAX_MMSWP - 1) 0) | Some x \<Rightarrow> x)"

definition mem_ok :: "(u64 \<times> u64 list) option \<Rightarrow> proc_spec list \<Rightarrow> bool" where
  "mem_ok m ps \<longleftrightarrow> (case m of None \<Rightarrow> legacy_start ps | Some (ram, swps) \<Rightarrow> length swps = PAGING_MAX_MMSWP)"

definition config_of :: "nat \<Rightarrow> nat \<Rightarrow> (u64 \<times> u64 list) option \<Rightarrow> proc_spec list \<Rightarrow> config_t" where
  "config_of ts n m ps =
     \<lparr>cf_time_slot = int ts, cf_num_cpus = int n, cf_memramsz = fst (mem_of m),
      cf_memswpsz = snd (mem_of m), cf_processes = map proc_of ps\<rparr>"

definition config_ok :: "nat \<Rightarrow> nat \<Rightarrow> (u64 \<times> u64 list) option \<Rightarrow> proc_spec list \<Rightarrow> bool" where
  "config_ok ts n m ps \<longleftrightarrow> ts < 2 ^ 31 \<and> n < 2 ^ 31 \<and> length ps < 2 ^ 31 \<and> mem_ok m ps
     \<and> list_all (\<lambda>(start, name, prio). name_ok name) ps"

lemma read_config_text:
  assumes "config_ok ts n m ps"
  shows "read_config (Some (print_config ts n m ps)) = Some (Some (config_of ts n m ps))"
proof -
  let ?f = "print_mem m @ print_procs ps"
  have "?f = [] \<or> (\<exists>k r. ?f = show_nat k @ r)"
  proof (cases m)
    case None
    then show ?thesis using print_procs_start [of ps] by (simp add: print_mem_def)
  next
    case (Some x)
    then show ?thesis
      by (intro disjI2 exI [of _ "unat (fst x)"] exI [of _ "print_args (snd x) @ NL # print_procs ps"])
        (simp add: print_mem_def split: prod.splits)
  qed
  then have sk: "skip_ws ?f = ?f" by (rule show_nat_no_space)
  have mem: "read_memsz ?f = (mem_of m, print_procs ps)"
  proof (cases m)
    case None
    then show ?thesis using read_memsz_legacy assms by (simp add: config_ok_def mem_ok_def print_mem_def mem_of_def)
  next
    case (Some x)
    then show ?thesis
      using read_memsz_print [of "snd x" "fst x" "print_procs ps"] assms
      by (simp add: config_ok_def mem_ok_def mem_of_def split: prod.splits)
  qed
  have "read_globals (print_config ts n m ps) = Some ((int ts, int n, int (length ps)), ?f)"
    unfolding print_config_def by (rule read_globals_print) (use assms sk in \<open>simp_all add: config_ok_def\<close>)
  then show ?thesis
    using assms read_procs_print [of ps] by (simp add: read_config_def mem config_of_def config_ok_def split: prod.splits)
qed

section \<open>The state the threads start in\<close>

lemma attach_cpus_timer: "start_timer (snd (attach_event (attach_cpus n timer_zero))) = timer_init (n + 1)"
proof -
  have "attach_cpus n t = ((\<lambda>t. snd (attach_event t)) ^^ n) t" for t
    by (induction n arbitrary: t) (simp_all add: funpow_swap1 [of "\<lambda>t. snd (attach_event t)"])
  then show ?thesis by (simp add: timer_init_def timer_zero_def)
qed

section \<open>Properties\<close>

text \<open>A configuration with a memory line and one without, for the examples below.\<close>

definition ex_conf :: string where
  "ex_conf = ''2 1 1'' @ NL # ''1048576 16777216 0 0 0'' @ NL # ''0 s3 139'' @ [NL]"

definition ex_procs :: "proc_spec list" where
  "ex_procs = [(0, ''s3'', 139)]"

lemma ex_config_ok:
  "config_ok 2 1 (Some (1048576, [16777216, 0, 0, 0])) ex_procs" "config_ok 2 1 None ex_procs"
  by (simp_all add: config_ok_def mem_ok_def legacy_start_def name_ok_def ex_procs_def PATH_BUF_def
      PROC_DIR_def PAGING_MAX_MMSWP_def isspace_def isdigit_def of_char_def)

lemma digit_chars:
  "digit 0 = CHR ''0''" "digit 1 = CHR ''1''" "digit 2 = CHR ''2''" "digit 3 = CHR ''3''" "digit 4 = CHR ''4''"
  "digit 5 = CHR ''5''" "digit 6 = CHR ''6''" "digit 7 = CHR ''7''" "digit 8 = CHR ''8''" "digit 9 = CHR ''9''"
  by code_simp+

lemma ex_conf_text: "print_config 2 1 (Some (1048576, [16777216, 0, 0, 0])) ex_procs = ex_conf"
  by (simp add: print_config_def print_mem_def print_proc_def ex_procs_def ex_conf_def show_nat.simps
      digit_chars digit_chars(2) [unfolded One_nat_def])

text \<open>C27: Reading a configuration undoes printing it, with a memory line and in the legacy form without
  one, where the process list is read from the start again and the default sizes apply.\<close>

theorem read_config_print:
  assumes "config_ok ts n m ps"
  shows "read_config (Some (print_config ts n m ps)) = Some (Some (config_of ts n m ps))"
  using assms by (rule read_config_text)

theorem read_config_print_witness:
  "read_config (Some ex_conf) = Some (Some \<lparr>cf_time_slot = 2, cf_num_cpus = 1, cf_memramsz = 1048576,
     cf_memswpsz = [16777216, 0, 0, 0],
     cf_processes = [\<lparr>pl_path = ''input/proc/s3'', pl_start = 0, pl_prio = 139\<rparr>]\<rparr>)"
  unfolding read_config_print [OF ex_config_ok(1), unfolded ex_conf_text]
  by (simp add: config_of_def mem_of_def proc_of_def ex_procs_def PROC_DIR_def)

text \<open>C28: Started with the path of a readable configuration, \<open>main\<close> creates one timer device
  per processor and one for the loader, the devices of the configured sizes and the threads at their
  initial points: the initial states of the timer and of the thread system whose invariants are proved.
  Without exactly one argument, or when the file cannot be opened, it exits with 1 before any thread.\<close>

theorem main_boots_system:
  assumes "config_ok ts n m ps" and "length CONF_DIR + length arg < PATH_BUF"
    and "fs (CONF_DIR @ arg) = Some (print_config ts n m ps)" and "length argv \<noteq> 2"
    and "fs' (CONF_DIR @ arg) = None"
  shows "main_start fs raw h [prog, arg]
      = Some (Main_Run (main_config fs raw (config_of ts n m ps)) (timer_init (n + 1)) (sys_init n h))
    \<and> timer_reach (n + 1) (timer_init (n + 1))
    \<and> sys_reach (main_config fs raw (config_of ts n m ps)) n h (sys_init n h)
    \<and> main_start fs raw h argv = Some (Main_Exit 1)
    \<and> main_start fs' raw h [prog, arg] = Some (Main_Exit 1)"
proof -
  have "main_start fs raw h [prog, arg]
      = Some (Main_Run (main_config fs raw (config_of ts n m ps)) (timer_init (n + 1)) (sys_init n h))"
    using assms(2,3) read_config_text [OF assms(1)]
    by (simp add: main_start_def attach_cpus_timer) (simp add: config_of_def attach_cpus_timer)
  moreover have "main_start fs' raw h [prog, arg] = Some (Main_Exit 1)"
    using assms(2,5) by (simp add: main_start_def read_config_def)
  ultimately show ?thesis
    using assms(4) timer_reach.Init sys_reach.Init by (simp add: main_start_def)
qed

theorem main_boots_system_witness:
  "main_start [''input/c'' \<mapsto> ex_conf] ex_dev 20 [''os'', ''c'']
     = Some (Main_Run (main_config [''input/c'' \<mapsto> ex_conf] ex_dev
         (config_of 2 1 (Some (1048576, [16777216, 0, 0, 0])) ex_procs)) (timer_init 2) (sys_init 1 20))"
proof -
  let ?fs = "[''input/c'' \<mapsto> ex_conf]"
  have "?fs (CONF_DIR @ ''c'') = Some (print_config 2 1 (Some (1048576, [16777216, 0, 0, 0])) ex_procs)"
    unfolding ex_conf_text by (simp add: CONF_DIR_def)
  then show ?thesis
    using main_boots_system [OF ex_config_ok(1), of "''c''" ?fs "[]" Map.empty ex_dev 20 "''os''"]
    by (simp add: CONF_DIR_def PATH_BUF_def numeral_2_eq_2)
qed

text \<open>C39: Once the loader is done, a processor that has just put its process back can stop although
  processes are waiting: when every waiting level has used up its slots, \<open>get_proc\<close> refills them
  and returns \<open>NULL\<close>, which \<open>cpu_routine\<close> takes as the end of the work.  The next call
  would have dispatched one of them.\<close>

theorem processor_stops_with_work:
  assumes "sched_ok s" and "ready s k \<noteq> []" and "\<forall>i < MAX_PRIO. ready s i = [] \<or> s_slot s ! i = 0"
    and "c_pc c = C_Get"
  shows "\<exists>c1 s1 c2. cpu_step ts True c w s = Some (Some (c1, w, s1))
    \<and> cpu_step ts True c1 w s1 = Some (Some (c2, w, s1)) \<and> c_pc c2 = C_Stop
    \<and> ready s1 = ready s \<and> fst (get_proc s1) \<noteq> None"
proof -
  have g: "get_proc s = (None, s\<lparr>s_slot := slot_quota\<rparr>)"
    using assms(1)
  proof (cases rule: get_mlq_cases)
    case (dispatch j p ps)
    then show ?thesis using assms(3) by auto
  qed (use assms(2) in \<open>simp_all add: get_proc_def\<close>)
  have ok: "sched_ok (s\<lparr>s_slot := slot_quota\<rparr>)" using assms(1) by (rule sched_ok_refill)
  have r: "ready (s\<lparr>s_slot := slot_quota\<rparr>) = ready s" by (simp add: ready_def fun_eq_iff)
  have "fst (get_proc (s\<lparr>s_slot := slot_quota\<rparr>)) \<noteq> None"
    using ok
  proof (cases rule: get_mlq_cases)
    case (refill j)
    then show ?thesis by (auto simp: slot_quota_def)
  qed (use assms(2) r in \<open>auto simp: get_proc_def\<close>)
  then show ?thesis using g r assms(4) by (auto simp: cpu_step_def cpu_check_def)
qed

theorem processor_stops_with_work_witness:
  "\<exists>c1 s1 c2. cpu_step 2 True (cpu_init\<lparr>c_pc := C_Get\<rparr>) ex_world (ex_sched\<lparr>s_slot := replicate MAX_PRIO 0\<rparr>)
      = Some (Some (c1, ex_world, s1))
    \<and> cpu_step 2 True c1 ex_world s1 = Some (Some (c2, ex_world, s1)) \<and> c_pc c2 = C_Stop
    \<and> ready s1 5 = [42]"
proof -
  let ?s = "ex_sched\<lparr>s_slot := replicate MAX_PRIO 0\<rparr>"
  have r: "ready ?s = ready ex_sched" by (simp add: ready_def fun_eq_iff)
  have "sched_ok ?s" using ex_sched_ok(1) by (auto simp: sched_ok_def slots_ok_def)
  moreover have "ready ?s 5 \<noteq> []" "\<forall>i < MAX_PRIO. ready ?s i = [] \<or> s_slot ?s ! i = 0"
    using ex_sched_ok(2) r by simp_all
  ultimately show ?thesis
    using processor_stops_with_work [of ?s 5 "cpu_init\<lparr>c_pc := C_Get\<rparr>" 2 ex_world] r ex_sched_ok(2)
    by fastforce
qed

end
