(* ===== verification/Lockstep.thy ===== *)
theory Lockstep
  imports Config
begin

text \<open>
  The threads of \<open>os.c\<close> together with the barrier of \<open>timer.c\<close>.  The thread system leaves
  open how far the clock runs between two steps, the barrier leaves open what a device does in a slot;
  here a processor and the loader are devices of the timer: they call \<open>next_slot\<close> at the points
  of their loops and work only while the timer has released them, and \<open>current_time\<close> is the
  clock of the timer.  Both systems are projections of the joint one, so their invariants carry over,
  and a processor runs at most one instruction in a time slot.
\<close>

section \<open>Simulation\<close>

text \<open>A projection of a system that follows the steps of another one, or stays where it is, as long as
  an invariant of the first one holds.\<close>

locale simulation =
  fixes cstep :: "'c \<Rightarrow> 'c \<Rightarrow> bool" and cinv :: "'c \<Rightarrow> bool"
    and astep :: "'a \<Rightarrow> 'a \<Rightarrow> bool" and areach :: "'a \<Rightarrow> bool" and abs :: "'c \<Rightarrow> 'a"
  assumes keep: "cinv c \<Longrightarrow> cstep c c' \<Longrightarrow> cinv c'"
    and sim: "cinv c \<Longrightarrow> cstep c c' \<Longrightarrow> abs c' = abs c \<or> astep (abs c) (abs c')"
    and areach_step: "areach a \<Longrightarrow> astep a a' \<Longrightarrow> areach a'"
begin

lemma reaches_inv: "cstep\<^sup>*\<^sup>* c c' \<Longrightarrow> cinv c \<Longrightarrow> cinv c'"
  by (induction rule: rtranclp_induct) (auto intro: keep)

lemma reaches_abs: "cstep\<^sup>*\<^sup>* c c' \<Longrightarrow> cinv c \<Longrightarrow> areach (abs c) \<Longrightarrow> areach (abs c')"
proof (induction rule: rtranclp_induct)
  case (step c' c'')
  then have "cinv c'" using reaches_inv by blast
  then show ?case using sim [OF _ step(2)] areach_step step by metis
qed

end

section \<open>The joint system\<close>

text \<open>The threads, the timer, and for each processor the number of instructions it has run.\<close>

record joint_t =
  j_sys :: sys_t
  j_tm :: timer_t
  j_runs :: "nat list"

text \<open>The loader waits for the start time of its process, or is between two processes.\<close>

definition ld_waits :: "sys_cfg \<Rightarrow> sys_t \<Rightarrow> bool" where
  "ld_waits cfg y \<longleftrightarrow> (case l_pc (sys_ld y) of
     L_Slot \<Rightarrow> True | L_Wait p \<Rightarrow> sys_time y < le_start (cfg_entries cfg ! l_i (sys_ld y)) | _ \<Rightarrow> False)"

text \<open>The device of processor \<open>i\<close> is \<open>i\<close>, that of the loader comes last.  A step of the thread
  system that changes the loader is a step of the loader.\<close>

inductive joint_step :: "sys_cfg \<Rightarrow> joint_t \<Rightarrow> joint_t \<Rightarrow> bool" for cfg where
  Timer: "timer_step (j_tm j) = Some t' \<Longrightarrow>
    joint_step cfg j (j\<lparr>j_tm := t', j_sys := (j_sys j)\<lparr>sys_time := tm_time t'\<rparr>\<rparr>)"
| Cpu_Work: "i < length (sys_cpus (j_sys j)) \<Longrightarrow> active i (j_tm j) \<Longrightarrow> c = sys_cpus (j_sys j) ! i \<Longrightarrow>
    c_pc c \<noteq> C_Slot \<Longrightarrow>
    cpu_step (cfg_time_slot cfg) (sys_done (j_sys j)) c (sys_w (j_sys j)) (sys_s (j_sys j)) = Some (Some (c', w', s')) \<Longrightarrow>
    joint_step cfg j (j\<lparr>j_sys := with_cpu (j_sys j) i c' w' s',
      j_runs := if c_pc c = C_Run then (j_runs j)[i := j_runs j ! i + 1] else j_runs j\<rparr>)"
| Cpu_Announce: "i < length (sys_cpus (j_sys j)) \<Longrightarrow> active i (j_tm j) \<Longrightarrow> c_pc (sys_cpus (j_sys j) ! i) = C_Slot \<Longrightarrow>
    joint_step cfg j (j\<lparr>j_tm := announce i (j_tm j)\<rparr>)"
| Cpu_Resume: "i < length (sys_cpus (j_sys j)) \<Longrightarrow> c = sys_cpus (j_sys j) ! i \<Longrightarrow> c_pc c = C_Slot \<Longrightarrow>
    tm_waiting (j_tm j) ! i \<Longrightarrow> \<not> id_done (tm_devs (j_tm j) ! i) \<Longrightarrow>
    joint_step cfg j (j\<lparr>j_tm := resume i (j_tm j),
      j_sys := with_cpu (j_sys j) i (c\<lparr>c_pc := C_Head\<rparr>) (sys_w (j_sys j)) (sys_s (j_sys j))\<rparr>)"
| Cpu_Detach: "i < length (sys_cpus (j_sys j)) \<Longrightarrow> active i (j_tm j) \<Longrightarrow> c_pc (sys_cpus (j_sys j) ! i) = C_Stop \<Longrightarrow>
    joint_step cfg j (j\<lparr>j_tm := detach_event i (j_tm j)\<rparr>)"
| Ld_Work: "n = length (sys_cpus (j_sys j)) \<Longrightarrow> active n (j_tm j) \<Longrightarrow> l_pc (sys_ld (j_sys j)) \<noteq> L_Slot \<Longrightarrow>
    sys_step cfg (j_sys j) y' \<Longrightarrow> sys_ld y' \<noteq> sys_ld (j_sys j) \<Longrightarrow>
    joint_step cfg j (j\<lparr>j_sys := y'\<rparr>)"
| Ld_Announce: "n = length (sys_cpus (j_sys j)) \<Longrightarrow> active n (j_tm j) \<Longrightarrow> ld_waits cfg (j_sys j) \<Longrightarrow>
    joint_step cfg j (j\<lparr>j_tm := announce n (j_tm j)\<rparr>)"
| Ld_Resume: "n = length (sys_cpus (j_sys j)) \<Longrightarrow> tm_waiting (j_tm j) ! n \<Longrightarrow> \<not> id_done (tm_devs (j_tm j) ! n) \<Longrightarrow>
    l = sys_ld (j_sys j) \<Longrightarrow>
    joint_step cfg j (j\<lparr>j_tm := resume n (j_tm j), j_sys := (j_sys j)\<lparr>sys_ld :=
      if l_pc l = L_Slot then l\<lparr>l_pc := L_Load, l_i := l_i l + 1\<rparr> else l\<rparr>\<rparr>)"
| Ld_Detach: "n = length (sys_cpus (j_sys j)) \<Longrightarrow> active n (j_tm j) \<Longrightarrow> l_pc (sys_ld (j_sys j)) = L_Done \<Longrightarrow>
    joint_step cfg j (j\<lparr>j_tm := detach_event n (j_tm j)\<rparr>)"
| Main_End: "main_end (j_tm j) (j_sys j) = Some (r, t') \<Longrightarrow> joint_step cfg j (j\<lparr>j_tm := t'\<rparr>)"

definition joint_init :: "nat \<Rightarrow> nat \<Rightarrow> joint_t" where
  "joint_init n h = \<lparr>j_sys = sys_init n h, j_tm = timer_init (n + 1), j_runs = replicate n 0\<rparr>"

section \<open>The invariant\<close>

definition run_budget :: "joint_t \<Rightarrow> nat \<Rightarrow> bool" where
  "run_budget j i \<longleftrightarrow> j_runs j ! i \<le> tm_slots (j_tm j) ! i
     + (if c_pc (sys_cpus (j_sys j) ! i) = C_Slot \<and> \<not> tm_waiting (j_tm j) ! i then 1 else 0)"

definition joint_inv :: "nat \<Rightarrow> joint_t \<Rightarrow> bool" where
  "joint_inv n j \<longleftrightarrow> length (sys_cpus (j_sys j)) = n \<and> length (j_runs j) = n \<and> timer_inv (n + 1) (j_tm j)
     \<and> sys_time (j_sys j) = tm_time (j_tm j) \<and> (\<forall>i < n. run_budget j i)"

lemma timer_step_time: "timer_step t = Some t' \<Longrightarrow> tm_time t' = tm_time t \<or> tm_time t' = tm_time t + 1"
  by (auto simp: timer_step_def release_def split: timer_pc.splits nat.splits if_splits)

lemma timer_step_devices:
  "timer_step t = Some t' \<Longrightarrow> tm_waiting t' = tm_waiting t \<and> tm_slots t' = tm_slots t"
  by (auto simp: timer_step_def release_def split: timer_pc.splits nat.splits if_splits)

text \<open>A step that changes the loader is one of the loader.\<close>

lemma ld_step_frame:
  assumes "sys_step cfg y y'" and "sys_ld y' \<noteq> sys_ld y"
  shows "sys_cpus y' = sys_cpus y" and "sys_time y' = sys_time y"
  using assms by (auto elim!: sys_step.cases)

text \<open>Each step of the joint system is a step of the thread system, or leaves it alone.\<close>

lemma joint_sys:
  assumes "joint_inv n j" and "joint_step cfg j j'"
  shows "j_sys j' = j_sys j \<or> sys_step cfg (j_sys j) (j_sys j')"
  using assms(2)
proof cases
  case (Timer t')
  have "sys_time (j_sys j) = tm_time (j_tm j)" using assms(1) by (simp add: joint_inv_def)
  then show ?thesis using timer_step_time [OF Timer(2)] sys_step.Tick [of cfg "j_sys j"] Timer(1) by auto
next
  case (Cpu_Work i c c' w' s')
  then show ?thesis using sys_step.Cpu [of i "j_sys j" cfg c' w' s'] by (simp add: with_cpu_def)
next
  case (Cpu_Resume i c)
  then show ?thesis
    using sys_step.Cpu [of i "j_sys j" cfg "c\<lparr>c_pc := C_Head\<rparr>" "sys_w (j_sys j)" "sys_s (j_sys j)"]
    by (simp add: with_cpu_def cpu_step_def)
next
  case (Ld_Resume n l)
  then show ?thesis using sys_step.Ld_Slot [of "j_sys j" cfg] by (cases "l_pc l = L_Slot") simp_all
qed simp_all

text \<open>Likewise for the timer.\<close>

lemma joint_tm:
  assumes "joint_inv n j" and "joint_step cfg j j'"
  shows "j_tm j' = j_tm j \<or> tick_step (j_tm j) (j_tm j')"
proof -
  have len: "length (tm_devs (j_tm j)) = length (sys_cpus (j_sys j)) + 1"
    using assms(1) by (simp add: joint_inv_def timer_inv_def)
  from assms(2) show ?thesis
  proof cases
    case (Main_End r t')
    then have "t' = set_timer_stop (j_tm j)" by (simp add: main_end_def split: if_splits)
    then show ?thesis using Main_End(1) tick_step.Stop by simp
  qed (use len in \<open>auto intro: tick_step.intros\<close>)
qed

lemma joint_sizes:
  assumes "joint_inv n j" and "joint_step cfg j j'"
  shows "length (sys_cpus (j_sys j')) = n" and "length (j_runs j') = n" and "timer_inv (n + 1) (j_tm j')"
    and "sys_time (j_sys j') = tm_time (j_tm j')"
proof -
  have inv: "length (sys_cpus (j_sys j)) = n" "length (j_runs j) = n" "timer_inv (n + 1) (j_tm j)"
    "sys_time (j_sys j) = tm_time (j_tm j)"
    using assms(1) by (simp_all add: joint_inv_def)
  show "length (sys_cpus (j_sys j')) = n"
    using assms(2) inv(1) by cases (auto simp: with_cpu_def dest: ld_step_frame)
  show "length (j_runs j') = n" using assms(2) inv(2) by cases auto
  show "timer_inv (n + 1) (j_tm j')"
    using joint_tm [OF assms] inv(3) timer_inv_step [of "n + 1" "j_tm j" "j_tm j'"] by auto
  show "sys_time (j_sys j') = tm_time (j_tm j')"
    using assms(2) inv(4)
    by cases (auto simp: with_cpu_def announce_def resume_def detach_event_def main_end_def set_timer_stop_def
        dest: ld_step_frame split: if_splits)
qed

lemma run_budget_keep:
  "run_budget j i \<Longrightarrow> j_runs j' ! i = j_runs j ! i \<Longrightarrow> tm_slots (j_tm j') ! i = tm_slots (j_tm j) ! i \<Longrightarrow>
   tm_waiting (j_tm j') ! i = tm_waiting (j_tm j) ! i \<Longrightarrow>
   sys_cpus (j_sys j') ! i = sys_cpus (j_sys j) ! i \<Longrightarrow> run_budget j' i"
  by (simp add: run_budget_def)

lemmas device_defs = announce_def resume_def detach_event_def main_end_def set_timer_stop_def active_def

lemma joint_budget:
  assumes inv: "joint_inv n j" and step: "joint_step cfg j j'" and k: "k < n"
  shows "run_budget j' k"
proof -
  have b: "run_budget j k" using inv k by (simp add: joint_inv_def)
  have len: "length (sys_cpus (j_sys j)) = n" "length (j_runs j) = n" "length (tm_slots (j_tm j)) = n + 1"
    "length (tm_waiting (j_tm j)) = n + 1" "length (tm_devs (j_tm j)) = n + 1"
    using inv by (auto simp: joint_inv_def timer_inv_def)
  from step show ?thesis
  proof cases
    case (Timer t')
    then show ?thesis using timer_step_devices [OF Timer(2)] by (intro run_budget_keep [OF b]) auto
  next
    case (Cpu_Work i c c' w' s')
    show ?thesis
    proof (cases "i = k")
      case True
      then have "c_pc c = C_Run \<Longrightarrow> c_pc c' = C_Slot"
        using Cpu_Work(6) by (auto simp: cpu_step_def split: bind_splits)
      then show ?thesis
        using b True Cpu_Work k len by (auto simp: run_budget_def with_cpu_def active_def)
    next
      case False
      then show ?thesis using Cpu_Work(1) by (intro run_budget_keep [OF b]) (auto simp: with_cpu_def)
    qed
  next
    case (Cpu_Announce i)
    show ?thesis
    proof (cases "i = k")
      case True
      then show ?thesis using b Cpu_Announce k len by (auto simp: run_budget_def device_defs)
    next
      case False
      then show ?thesis using Cpu_Announce(1) by (intro run_budget_keep [OF b]) (auto simp: device_defs)
    qed
  next
    case (Cpu_Resume i c)
    show ?thesis
    proof (cases "i = k")
      case True
      then show ?thesis using b Cpu_Resume k len by (auto simp: run_budget_def device_defs with_cpu_def)
    next
      case False
      then show ?thesis using Cpu_Resume(1) by (intro run_budget_keep [OF b]) (auto simp: device_defs with_cpu_def)
    qed
  next
    case (Ld_Work m y')
    then show ?thesis using ld_step_frame [OF Ld_Work(5,6)] by (intro run_budget_keep [OF b]) auto
  qed (use b k len in \<open>auto intro!: run_budget_keep [OF b] simp: device_defs split: if_splits\<close>)
qed

lemma joint_inv_step: "joint_inv n j \<Longrightarrow> joint_step cfg j j' \<Longrightarrow> joint_inv n j'"
  using joint_sizes [of n j cfg j'] joint_budget [of n j cfg j'] by (simp add: joint_inv_def)

lemma joint_inv_init: "joint_inv n (joint_init n h)"
proof -
  have "tm_time (timer_init m) = 0" for m by (simp add: timer_init_def start_timer_def attach_n)
  then show ?thesis
    using timer_inv_init [of "n + 1"] by (simp add: joint_inv_def joint_init_def sys_init_def run_budget_def)
qed

interpretation js: simulation "joint_step cfg" "joint_inv n" "sys_step cfg" "sys_reach cfg n h" j_sys
  by unfold_locales (rule joint_inv_step joint_sys sys_reach.Step; assumption)+

interpretation jt: simulation "joint_step cfg" "joint_inv n" tick_step "timer_reach (n + 1)" j_tm
  by unfold_locales (rule joint_inv_step joint_tm timer_reach.Step; assumption)+

definition joint_reach :: "sys_cfg \<Rightarrow> nat \<Rightarrow> nat \<Rightarrow> joint_t \<Rightarrow> bool" where
  "joint_reach cfg n h j \<longleftrightarrow> (joint_step cfg)\<^sup>*\<^sup>* (joint_init n h) j"

lemma joint_reach_inv: "joint_reach cfg n h j \<Longrightarrow> joint_inv n j"
  unfolding joint_reach_def by (rule js.reaches_inv [OF _ joint_inv_init])

lemma joint_reach_sys: "joint_reach cfg n h j \<Longrightarrow> sys_reach cfg n h (j_sys j)"
  unfolding joint_reach_def
  by (erule js.reaches_abs [OF _ joint_inv_init]) (simp add: joint_init_def sys_reach.Init)

lemma joint_reach_tm: "joint_reach cfg n h j \<Longrightarrow> timer_reach (n + 1) (j_tm j)"
  unfolding joint_reach_def
  by (erule jt.reaches_abs [OF _ joint_inv_init]) (simp add: joint_init_def timer_reach.Init del: add.commute)

section \<open>Properties\<close>

text \<open>The state after the first step of the loader.\<close>

definition ex_joint :: joint_t where
  "ex_joint = (joint_init 1 20)\<lparr>j_sys := (sys_init 1 20)\<lparr>sys_w := ld_start (world_init 20),
     sys_ld := ld_init\<lparr>l_pc := L_Load\<rparr>\<rparr>\<rparr>"

lemma ex_joint_reach: "joint_reach ex_cfg 1 20 ex_joint"
proof -
  have "sys_step ex_cfg (sys_init 1 20) (j_sys ex_joint)"
    using sys_step.Ld_Start [of "sys_init 1 20" ex_cfg] by (simp add: ex_joint_def sys_init_def ld_init_def)
  moreover have "active 1 (j_tm (joint_init 1 20))"
    by (simp add: joint_init_def active_def timer_init_def attach_event_def start_timer_def)
  ultimately have "joint_step ex_cfg (joint_init 1 20) ((joint_init 1 20)\<lparr>j_sys := j_sys ex_joint\<rparr>)"
    by (intro joint_step.Ld_Work [of 1]) (simp_all add: joint_init_def sys_init_def ld_init_def ex_joint_def)
  then show ?thesis unfolding joint_reach_def by (simp add: ex_joint_def r_into_rtranclp)
qed





end
