(* ===== verification/Boot.thy ===== *)
theory Boot
  imports KernelReserve Lockstep
begin

text \<open>
  The machine on the devices that \<open>main\<close> sets up.  \<open>init_memphy\<close> puts frames on the free list that lie
  beyond the storage, behind those that lie inside it.  Such a device is a well-formed one with more
  frames, and a machine on it is simulated by the machine on the well-formed devices while the programs
  ask for no more pages, of their own and of the kernel, than there are frames inside the storage: frames are
  accounted for like host memory, and no page is ever swapped out.
\<close>

section \<open>Steps on padded devices\<close>

definition pad_sys :: "addr_t list \<Rightarrow> addr_t list \<Rightarrow> sys_t \<Rightarrow> sys_t" where
  "pad_sys xs zs y = y\<lparr>sys_w := pad xs zs (sys_w y)\<rparr>"

definition pad_cfg :: "addr_t list \<Rightarrow> addr_t list \<Rightarrow> sys_cfg \<Rightarrow> sys_cfg" where
  "pad_cfg xs zs cfg = cfg\<lparr>cfg_ram := more_frames xs (cfg_ram cfg), cfg_swp := more_frames zs (cfg_swp cfg)\<rparr>"

lemma pad_sys_sel [simp]:
  "sys_w (pad_sys xs zs y) = pad xs zs (sys_w y)" "sys_s (pad_sys xs zs y) = sys_s y" "sys_cpus (pad_sys xs zs y) = sys_cpus y"
  "sys_ld (pad_sys xs zs y) = sys_ld y" "sys_time (pad_sys xs zs y) = sys_time y" "sys_done (pad_sys xs zs y) = sys_done y"
  by (simp_all add: pad_sys_def)

lemma pad_cfg_sel [simp]:
  "cfg_entries (pad_cfg xs zs cfg) = cfg_entries cfg" "cfg_time_slot (pad_cfg xs zs cfg) = cfg_time_slot cfg"
  "cfg_ram (pad_cfg xs zs cfg) = more_frames xs (cfg_ram cfg)" "cfg_swp (pad_cfg xs zs cfg) = more_frames zs (cfg_swp cfg)"
  by (simp_all add: pad_cfg_def)

lemma put_proc_pad: "put_proc p (pad xs zs w) s = map_option (apfst (pad xs zs)) (put_proc p w s)"
  by (auto simp: put_proc_def put_mlq_proc_def publish_queues_def Let_def pad_def with_os_def split: frame_splits)

lemma add_proc_pad: "add_proc p (pad xs zs w) s = map_option (apfst (pad xs zs)) (add_proc p w s)"
  by (auto simp: add_proc_def add_mlq_proc_def publish_queues_def Let_def pad_def with_os_def split: frame_splits)

lemma ld_kernel_mm_pad: "ld_kernel_mm kmp raw c (pad xs zs w) = map_option (apsnd (pad xs zs)) (ld_kernel_mm kmp raw c w)"
proof -
  have "(pad xs zs w)\<lparr>w_os := (w_os (pad xs zs w))\<lparr>k_mm := mp\<rparr>\<rparr> = pad xs zs (w\<lparr>w_os := (w_os w)\<lparr>k_mm := mp\<rparr>\<rparr>)" for mp w
    by (simp add: pad_def with_os_def)
  then show ?thesis by (auto simp: ld_kernel_mm_def pad_simps split: frame_splits)
qed

lemma ld_register_pad:
  "ld_register kmp ump raw (more_frames xs ram) (more_frames zs swp) p (pad xs zs w) s
     = map_option (apsnd (apfst (pad xs zs))) (ld_register kmp ump raw ram swp p w s)"
proof -
  define A where "A ram swp w = set_mswp (set_mram w (Some (case mram w of None \<Rightarrow> ram | Some d \<Rightarrow> d)))
    (Some (case mswp w of None \<Rightarrow> swp | Some d \<Rightarrow> d))" for ram swp and w :: world
  define T where "T c p mp t w = (let w = w\<lparr>w_pcbs := (w_pcbs w)(p \<mapsto> c\<lparr>p_mm := mp\<rparr>)\<rparr> in w\<lparr>w_os := (w_os w)\<lparr>k_proc_table := t\<rparr>\<rparr>)"
    for c and p :: pcb_ptr and mp t and w :: world
  have reg: "ld_register kmp ump raw ram swp p w s = do {
      c \<leftarrow> w_pcbs w p;
      (ok, w) \<leftarrow> ld_kernel_mm kmp raw c w;
      if \<not> ok then Some (False, w, s)
      else do {
        (mp, ok, w) \<leftarrow> new_mm ump raw c (A ram swp w);
        if \<not> ok then Some (False, w\<lparr>w_pcbs := (w_pcbs w)(p \<mapsto> c\<lparr>p_mm := mp\<rparr>)\<rparr>, s)
        else do {
          t \<leftarrow> arr_set (k_proc_table (w_os w)) (unat (p_pid c)) (Some p);
          (w, s) \<leftarrow> add_proc p (T c p mp t w) s;
          Some (True, w, s)
        }
      }
    }" for ram swp w
    by (simp add: ld_register_def A_def T_def Let_def cong: if_cong)
  have A: "A (more_frames xs ram) (more_frames zs swp) (pad xs zs w) = pad xs zs (A ram swp w)" for w
    by (simp add: A_def pad_def with_os_def set_mram_def set_mswp_def split: option.splits)
  have T: "T c p mp t (pad xs zs w) = pad xs zs (T c p mp t w)" for c mp t w
    by (simp add: T_def pad_def with_os_def)
  show ?thesis
    unfolding reg by (auto simp: ld_kernel_mm_pad A T pad_simps add_proc_pad split: frame_splits)
qed

text \<open>A step of a processor, once it is defined and the instruction it may execute is mirrored.\<close>

lemma cpu_step_pad:
  assumes "cpu_step ts fin c w s = Some (Some (c', w', s'))"
    and "\<And>q r. c_pc c = C_Run \<Longrightarrow> c_proc c = Some q \<Longrightarrow> run q w = Some (r, w') \<Longrightarrow> run q (pad xs zs w) = Some (r, pad xs zs w')"
  shows "cpu_step ts fin c (pad xs zs w) s = Some (Some (c', pad xs zs w', s'))"
proof (cases "c_pc c")
  case C_Run
  then show ?thesis using assms by (auto simp: cpu_step_def split: bind_splits)
next
  case C_Head
  then show ?thesis
    using assms(1) by (auto simp: cpu_step_def cpu_head_def put_proc_pad split: option.splits prod.splits bind_splits if_splits)
qed (use assms(1) in \<open>auto simp: cpu_step_def split: prod.splits\<close>)

section \<open>The stock of frames\<close>

text \<open>A program whose instructions ask for at most \<open>n\<close> pages, in user and in kernel memory.\<close>

definition paged_entry :: "ld_entry \<Rightarrow> nat \<Rightarrow> bool" where
  "paged_entry e n \<longleftrightarrow> (\<forall>raw raw_text pid c pid'. length (p_regs raw) = 10 \<longrightarrow> (\<forall>n. length (raw_text n) = n) \<longrightarrow>
     load raw raw_text (le_file e) pid = Some (Some (c, pid')) \<longrightarrow> sum_list (map inst_frames (p_code c)) \<le> n)"

definition entries_pages :: "(ld_entry \<Rightarrow> nat) \<Rightarrow> ld_entry list \<Rightarrow> nat" where
  "entries_pages g es = sum_list (map g es)"

text \<open>The free frames of the RAM, attached or not.\<close>

definition frames_left :: "sys_cfg \<Rightarrow> world \<Rightarrow> nat" where
  "frames_left cfg w = length (free_fp_list (case mram w of None \<Rightarrow> cfg_ram cfg | Some d \<Rightarrow> d))"

text \<open>The processes are resident, and there are frames for what is left of their programs and for the programs
  still to be loaded.\<close>

definition stocked :: "world \<Rightarrow> pcb_ptr set \<Rightarrow> nat \<Rightarrow> nat \<Rightarrow> bool" where
  "stocked w D h n \<longleftrightarrow> (\<forall>p \<in> D. tight p (desc_of w p) w) \<and> (\<Sum>p \<in> D. page_need w p) + h \<le> n"

definition stock_inv :: "sys_cfg \<Rightarrow> (ld_entry \<Rightarrow> nat) \<Rightarrow> sys_t \<Rightarrow> bool" where
  "stock_inv cfg g y \<longleftrightarrow>
     stocked (sys_w y) (procs_of y) (entries_pages g (pending cfg (sys_ld y))) (frames_left cfg (sys_w y))
   \<and> (case l_pc (sys_ld y) of
        L_Start \<Rightarrow> mram (sys_w y) = None
      | L_Wait p \<Rightarrow> (\<exists>c. w_pcbs (sys_w y) p = Some c \<and> p_pc c = 0
          \<and> sum_list (map inst_frames (p_code c)) \<le> g (cfg_entries cfg ! l_i (sys_ld y)))
      | _ \<Rightarrow> True)"

lemma frames_left_free: "mram w = Some d \<Longrightarrow> frames_left cfg w = frames_free w"
  by (simp add: frames_left_def frames_free_def)

lemma stocked_keep:
  assumes "stocked w D h n" and fin: "finite D" and sub: "D' \<subseteq> D" "h' \<le> h" "n \<le> n'"
    and pc: "\<And>p. p \<in> D' \<Longrightarrow> w_pcbs w' p = w_pcbs w p"
    and run: "\<And>p. p \<in> D' \<Longrightarrow> runnable p (desc_of w' p) w'"
    and mm: "\<And>p. p \<in> D' \<Longrightarrow> w_mms w' (desc_of w p) = w_mms w (desc_of w p)"
  shows "stocked w' D' h' n'"
proof -
  have d: "desc_of w' p = desc_of w p" "page_need w' p = page_need w p" if "p \<in> D'" for p
    using pc [OF that] by (simp_all add: desc_of_def page_need_def left_of_def)
  have "tight p (desc_of w' p) w'" if p: "p \<in> D'" for p
  proof -
    have "tight p (desc_of w p) w" using assms(1) sub(1) p by (auto simp: stocked_def)
    then show ?thesis using tight_keep [OF _ _ mm [OF p]] run [OF p] d(1) [OF p] by simp
  qed
  moreover have "(\<Sum>p \<in> D'. page_need w' p) \<le> (\<Sum>p \<in> D. page_need w p)"
    using d(2) by (simp add: sum_mono2 [OF fin sub(1)] cong: sum.cong)
  ultimately show ?thesis using assms(1) sub(2,3) by (auto simp: stocked_def)
qed

lemma cpu_step_held:
  assumes "sched_ok s" and "cpu_step ts fin c w s = Some (Some (c', w', s'))"
  shows "held_ready s' + ptr_mset (c_proc c') \<subseteq># held_ready s + ptr_mset (c_proc c)"
proof -
  obtain p t where g: "get_proc s = (p, t)" by (cases "get_proc s")
  note hg = held_get [OF assms(1) g]
  have put: "held_ready s' \<subseteq># held_ready s + {#q#}" if "put_proc q w s = Some (w', s')" for q
    using handed_put_add(1) [OF assms(1) that] by (simp add: handed_def)
  show ?thesis
  proof (cases "c_pc c")
    case C_Head
    then show ?thesis
      using assms(2) g hg(1) by (auto simp: cpu_step_def cpu_head_def dest!: put split: option.splits prod.splits bind_splits if_splits)
  qed (use assms(2) g hg(1) in \<open>auto simp: cpu_step_def cpu_check_def split: prod.splits bind_splits\<close>)
qed

lemma machine_runnable: "machine_inv cfg b y \<Longrightarrow> p \<in> procs_of y \<Longrightarrow> runnable p (desc_of (sys_w y) p) (sys_w y)"
  by (simp add: machine_inv_def procs_ok_def proc_fit_def)

lemma machine_member_need:
  assumes "machine_inv cfg b y" and "q \<in> procs_of y"
  shows "host_need (sys_w y) q \<le> w_hostmem (sys_w y)"
proof -
  have "(\<Sum>p \<in> procs_of y. host_need (sys_w y) p) \<le> w_hostmem (sys_w y)"
    using assms(1) by (simp add: machine_inv_def procs_ok_def)
  then show ?thesis using member_le_sum [of q "procs_of y" "host_need (sys_w y)"] assms(2) by simp
qed

lemma tight_desc: "tight p mp w \<Longrightarrow> desc_of w p = mp"
  unfolding tight_def desc_of_def using space_known space_caller(5) by fastforce

text \<open>One instruction: the process takes frames for its pages only.\<close>

lemma stocked_run:
  assumes inv: "machine_inv cfg b y" and q: "q \<in> procs_of y" and st: "stocked (sys_w y) (procs_of y) h (frames_left cfg (sys_w y))"
    and run: "run q (sys_w y) = Some (r, w')" and own: "own_step q (desc_of (sys_w y) q) (sys_w y) w'"
    and rd: "\<And>p. p \<in> procs_of y \<Longrightarrow> runnable p (desc_of w' p) w'"
  shows "stocked w' (procs_of y) h (frames_left cfg w')" and "run q (pad xs zs (sys_w y)) = Some (r, pad xs zs w')"
proof -
  let ?w = "sys_w y" and ?D = "procs_of y"
  note rq = machine_runnable [OF inv q]
  obtain d where d: "mram ?w = Some d" using runnable_inv [OF rq] by (rule vm_invE)
  have t: "tight q (desc_of ?w q) ?w" and sum: "(\<Sum>p \<in> ?D. page_need ?w p) + h \<le> frames_free ?w"
    using st q by (simp_all add: stocked_def frames_left_free [OF d])
  have pn: "page_need ?w q \<le> frames_free ?w" using member_le_sum [of q ?D "page_need ?w"] q sum by simp
  note rm = run_mirrored [OF rq machine_member_need [OF inv q] t pn run]
  show "run q (pad xs zs ?w) = Some (r, pad xs zs w')" by (rule rm(1))
  have vm: "vm_inv w'" using own by (simp add: own_step_def)
  then obtain d' where d': "mram w' = Some d'" by (rule vm_invE)
  have oth: "w_pcbs w' p = w_pcbs ?w p" if "p \<noteq> q" for p using own that by (simp add: own_step_def)
  have ne: "desc_of ?w p \<noteq> desc_of ?w q" if "p \<in> ?D" "p \<noteq> q" for p
    using machine_population [OF inv] that q by (auto simp: population_def inj_on_def)
  have "tight p (desc_of w' p) w'" if p: "p \<in> ?D" for p
  proof (cases "p = q")
    case True
    then show ?thesis using rm(2) tight_desc [OF rm(2)] by simp
  next
    case False
    have e: "desc_of w' p = desc_of ?w p" using oth [OF False] by (simp add: desc_of_def)
    have m: "w_mms w' (desc_of ?w p) = w_mms ?w (desc_of ?w p)"
      using own ne [OF p False] runnable_user [OF machine_runnable [OF inv p]] by (simp add: own_step_def)
    have "tight p (desc_of ?w p) ?w" using st p by (simp add: stocked_def)
    then show ?thesis using tight_keep [OF _ _ m] rd [OF p] e by simp
  qed
  moreover have "page_need w' p = page_need ?w p" if "p \<in> ?D - {q}" for p using oth [of p] that by (simp add: page_need_def left_of_def)
  then have "(\<Sum>p \<in> ?D - {q}. page_need w' p) = (\<Sum>p \<in> ?D - {q}. page_need ?w p)" by (rule sum.cong [OF refl])
  then have "(\<Sum>p \<in> ?D. page_need w' p) + page_need ?w q = (\<Sum>p \<in> ?D. page_need ?w p) + page_need w' q"
    using q by (simp add: sum.remove [of ?D q])
  then have "(\<Sum>p \<in> ?D. page_need w' p) + h \<le> frames_free w'" using rm(3) sum by simp
  ultimately show "stocked w' ?D h (frames_left cfg w')" by (simp add: stocked_def frames_left_free [OF d'])
qed

section \<open>Every step keeps the stock\<close>

text \<open>The assumptions on a configuration: the programs and the host memory as before, and frames for all the
  pages the programs ask for.\<close>

definition stock_config :: "sys_cfg \<Rightarrow> (ld_entry \<Rightarrow> nat) \<Rightarrow> (ld_entry \<Rightarrow> nat) \<Rightarrow> bool" where
  "stock_config cfg b g \<longleftrightarrow> user_config cfg b \<and> (\<forall>e \<in> set (cfg_entries cfg). paged_entry e (g e))
     \<and> entries_pages g (cfg_entries cfg) \<le> length (free_fp_list (cfg_ram cfg)) \<and> 0 < cfg_time_slot cfg"

text \<open>The states of the machine without the additional frames that the simulation passes through.\<close>

definition lean :: "sys_cfg \<Rightarrow> (ld_entry \<Rightarrow> nat) \<Rightarrow> (ld_entry \<Rightarrow> nat) \<Rightarrow> sys_t \<Rightarrow> bool" where
  "lean cfg b g y \<longleftrightarrow> machine_inv cfg b y \<and> sys_inv y \<and> sys_wf (cfg_time_slot cfg) y \<and> stock_inv cfg g y"

lemma stock_wait_keep:
  assumes "stock_inv cfg g y" and "machine_inv cfg b y'" and "sys_ld y' = sys_ld y"
    and "stocked (sys_w y') (procs_of y') (entries_pages g (pending cfg (sys_ld y))) (frames_left cfg (sys_w y'))"
    and "\<And>p. l_pc (sys_ld y) = L_Wait p \<Longrightarrow> w_pcbs (sys_w y') p \<noteq> None \<Longrightarrow> w_pcbs (sys_w y') p = w_pcbs (sys_w y) p"
    and "l_pc (sys_ld y) = L_Start \<Longrightarrow> mram (sys_w y') = None"
  shows "stock_inv cfg g y'"
proof (cases "l_pc (sys_ld y)")
  case (L_Wait p)
  then have "w_pcbs (sys_w y') p \<noteq> None" using assms(2,3) by (auto simp: machine_inv_def ld_ok_def Let_def)
  then have "w_pcbs (sys_w y') p = w_pcbs (sys_w y) p" using assms(5) L_Wait by simp
  then show ?thesis using assms(1,3,4) L_Wait by (simp add: stock_inv_def)
qed (use assms in \<open>simp_all add: stock_inv_def\<close>)

lemma stock_cpu:
  assumes inv: "machine_inv cfg b y" "machine_inv cfg b y'" and sys: "sys_inv y" and st: "stock_inv cfg g y"
    and i: "i < length (sys_cpus y)" and y': "y' = with_cpu y i c' w' s'"
    and step: "cpu_step ts fin (sys_cpus y ! i) (sys_w y) (sys_s y) = Some (Some (c', w', s'))"
  shows "stock_inv cfg g y'" and "cpu_step ts fin (sys_cpus y ! i) (pad xs zs (sys_w y)) (sys_s y) = Some (Some (c', pad xs zs w', s'))"
proof -
  let ?w = "sys_w y" and ?h = "entries_pages g (pending cfg (sys_ld y))"
  have ok: "sched_ok (sys_s y)" using sys by (simp add: sys_inv_def)
  have sub: "procs_of y' \<subseteq> procs_of y" unfolding y' by (rule procs_with_cpu [OF i cpu_step_held [OF ok step]])
  have w: "sys_w y' = w'" "sys_ld y' = sys_ld y" by (simp_all add: y' with_cpu_def)
  have sto: "stocked ?w (procs_of y) ?h (frames_left cfg ?w)" using st by (simp add: stock_inv_def)
  have "stock_inv cfg g y' \<and> cpu_step ts fin (sys_cpus y ! i) (pad xs zs ?w) (sys_s y) = Some (Some (c', pad xs zs w', s'))"
  proof (cases "c_pc (sys_cpus y ! i) = C_Run")
    case True
    then obtain q r where q: "c_proc (sys_cpus y ! i) = Some q" "run q ?w = Some (r, w')" and c': "c_proc c' = Some q" "s' = sys_s y"
      using step by (auto simp: cpu_step_def split: bind_splits)
    have mem: "q \<in> procs_of y" by (rule cpu_proc_mem [OF i q(1)])
    obtain r2 w2 where "run q ?w = Some (r2, w2)" "own_step q (desc_of ?w q) ?w w2" by (rule machine_cpu_run [OF inv(1) sys i q(1)])
    then have own: "own_step q (desc_of ?w q) ?w w'" using q(2) by simp
    have D: "procs_of y' = procs_of y"
      using held_cpus_upd [OF i, of c'] q(1) c' by (simp add: procs_of_def y' with_cpu_def)
    have rd: "runnable p (desc_of w' p) w'" if "p \<in> procs_of y" for p
      using machine_runnable [OF inv(2), of p] that D w(1) by simp
    note sr = stocked_run [OF inv(1) mem sto q(2) own rd]
    have "stock_inv cfg g y'"
    proof (rule stock_wait_keep [OF st inv(2) w(2)])
      show "stocked (sys_w y') (procs_of y') ?h (frames_left cfg (sys_w y'))" using sr(1) D w(1) by simp
      show "w_pcbs (sys_w y') p = w_pcbs ?w p" if "l_pc (sys_ld y) = L_Wait p" for p
        using own that held_once(1) [OF sys i q(1)] w(1) by (auto simp: own_step_def held_ld_def)
      show "mram (sys_w y') = None" if "l_pc (sys_ld y) = L_Start"
        using inv(1) mem that by (simp add: machine_inv_def ld_ok_def Let_def)
    qed
    moreover have "cpu_step ts fin (sys_cpus y ! i) (pad xs zs ?w) (sys_s y) = Some (Some (c', pad xs zs w', s'))"
      by (rule cpu_step_pad [OF step]) (use sr(2) q in auto)
    ultimately show ?thesis by blast
  next
    case False
    then have m: "same_memory ?w w'" "\<And>p. w_pcbs w' p \<noteq> None \<Longrightarrow> w_pcbs w' p = w_pcbs ?w p"
      using cpu_step_memory [OF step] by auto
    have rd: "runnable p (desc_of w' p) w'" if "p \<in> procs_of y'" for p using machine_runnable [OF inv(2) that] w(1) by simp
    have pc: "w_pcbs w' p = w_pcbs ?w p" if "p \<in> procs_of y'" for p
      using machine_fit [OF inv(2) that] w(1) by (intro m(2)) (auto simp: proc_fit_def)
    have "stocked w' (procs_of y') ?h (frames_left cfg w')"
      by (rule stocked_keep [OF sto finite_procs sub order_refl _ pc rd]) (use m(1) in \<open>simp_all add: same_memory_def frames_left_def\<close>)
    then have "stock_inv cfg g y'"
      by (intro stock_wait_keep [OF st inv(2) w(2)]) (use w m st in \<open>simp_all add: stock_inv_def same_memory_def\<close>)
    then show ?thesis using cpu_step_pad [OF step] False by simp
  qed
  then show "stock_inv cfg g y'" and "cpu_step ts fin (sys_cpus y ! i) (pad xs zs ?w) (sys_s y) = Some (Some (c', pad xs zs w', s'))"
    by blast+
qed

lemma stock_load:
  assumes inv: "machine_inv cfg b y" "machine_inv cfg b y'" and st: "stock_inv cfg g y"
    and cfg: "\<forall>e \<in> set (cfg_entries cfg). paged_entry e (g e)"
    and pc: "l_pc (sys_ld y) = L_Load" and i: "l_i (sys_ld y) < length (cfg_entries cfg)" and fresh: "w_pcbs (sys_w y) p = None"
    and raw: "length (p_regs raw) = 10" "\<And>n. length (raw_text n) = n"
    and ld: "ld_load p raw raw_text (cfg_entries cfg ! l_i (sys_ld y)) (l_avail_pid (sys_ld y)) (sys_w y) = Some (Some (pid, w'))"
    and y': "y' = y\<lparr>sys_w := w', sys_ld := (sys_ld y)\<lparr>l_pc := L_Wait p, l_avail_pid := pid\<rparr>\<rparr>"
  shows "stock_inv cfg g y'"
proof -
  let ?w = "sys_w y" and ?e = "cfg_entries cfg ! l_i (sys_ld y)"
  obtain c where l: "load raw raw_text (le_file ?e) (l_avail_pid (sys_ld y)) = Some (Some (c, pid))"
    and w': "w' = ?w\<lparr>w_pcbs := (w_pcbs ?w)(p \<mapsto> c\<lparr>p_krnl := True, p_prio := ucast (le_prio ?e)\<rparr>)\<rparr>"
    using ld by (auto simp: ld_load_def split: bind_splits)
  have "paged_entry ?e (g ?e)" using cfg i by (simp add: nth_mem)
  then have n: "sum_list (map inst_frames (p_code c)) \<le> g ?e" using l raw unfolding paged_entry_def by blast
  have D: "procs_of y' = procs_of y" by (simp add: y')
  have p: "p \<notin> procs_of y" using machine_fit [OF inv(1), of p] fresh by (auto simp: proc_fit_def)
  have "stocked w' (procs_of y) (entries_pages g (pending cfg (sys_ld y))) (frames_left cfg w')"
  proof (rule stocked_keep [of ?w "procs_of y"])
    show "stocked ?w (procs_of y) (entries_pages g (pending cfg (sys_ld y))) (frames_left cfg ?w)" using st by (simp add: stock_inv_def)
    show "runnable q (desc_of w' q) w'" if "q \<in> procs_of y" for q using machine_runnable [OF inv(2), of q] that D by (simp add: y')
  qed (use p in \<open>auto simp: w' frames_left_def\<close>)
  then show ?thesis using n load_fields(2) [OF l] by (simp add: stock_inv_def D y' pending_def pc w')
qed

lemma stock_register:
  assumes inv: "machine_inv cfg b y" and sys: "sys_inv y" and cfg: "user_config cfg b" and st: "stock_inv cfg g y"
    and pc: "l_pc (sys_ld y) = L_Wait p" and fresh: "w_mms (sys_w y) kmp = None" "w_mms (sys_w y) ump = None" "kmp \<noteq> ump"
    and raw: "length (mm_symrgtbl raw) = PAGING_MAX_SYMTBL_SZ"
    and reg: "ld_register kmp ump raw (cfg_ram cfg) (cfg_swp cfg) p (sys_w y) (sys_s y) = Some (ok, w', s')"
    and y': "y' = y\<lparr>sys_w := w', sys_s := s', sys_ld := (sys_ld y)\<lparr>l_pc := if ok then L_Slot else L_Failed\<rparr>\<rparr>"
  shows "stock_inv cfg g y'"
proof -
  let ?w = "sys_w y" and ?i = "l_i (sys_ld y)"
  note r = machine_register [OF inv sys cfg pc fresh raw reg]
  obtain c mp where c: "w_pcbs ?w p = Some c" "w_pcbs w' = (w_pcbs ?w)(p \<mapsto> c\<lparr>p_mm := Some mp\<rparr>)"
    "space_ok p (c\<lparr>p_mm := Some mp\<rparr>) mp 0 w'"
    using r(4) by (auto simp: joined_def)
  have l: "?i < length (cfg_entries cfg)" using inv pc by (auto simp: machine_inv_def ld_ok_def Let_def)
  let ?e = "cfg_entries cfg ! ?i"
  have n: "p_pc c = 0" "sum_list (map inst_frames (p_code c)) \<le> g ?e" using st pc c(1) by (auto simp: stock_inv_def)
  have h: "entries_pages g (pending cfg (sys_ld y)) = g ?e + entries_pages g (drop (Suc ?i) (cfg_entries cfg))"
    using l by (simp add: pending_def pc entries_pages_def Cons_nth_drop_Suc [symmetric])
  have inv': "machine_inv cfg b y'" using r(1) by (simp add: y')
  have sub: "procs_of y' \<subseteq> insert p (procs_of y)" using r(6) by (simp add: y')
  have F: "frames_left cfg w' = frames_left cfg ?w" using r(5) by (simp add: frames_left_def split: option.splits)
  have old: "stocked w' (procs_of y' - {p}) (entries_pages g (pending cfg (sys_ld y))) (frames_left cfg w')"
  proof (rule stocked_keep [of ?w "procs_of y"])
    show "stocked ?w (procs_of y) (entries_pages g (pending cfg (sys_ld y))) (frames_left cfg ?w)" using st by (simp add: stock_inv_def)
    show "runnable q (desc_of w' q) w'" if "q \<in> procs_of y' - {p}" for q using machine_runnable [OF inv', of q] that by (simp add: y')
    show "w_mms w' (desc_of ?w q) = w_mms ?w (desc_of ?w q)" if "q \<in> procs_of y' - {p}" for q
      using r(2) [of q] that sub by (auto simp: process_view_def)
  qed (use sub F c(2) in auto)
  have "desc_of w' p = mp" using c(2) by (simp add: desc_of_def)
  then have t: "tight p (desc_of w' p) w'" unfolding tight_def using c(3) by (auto simp: resident_def)
  have need: "page_need w' p \<le> g ?e" using c(2) n by (simp add: page_need_def left_of_def code_left_def)
  have "(\<Sum>q \<in> procs_of y'. page_need w' q) \<le> (\<Sum>q \<in> procs_of y' - {p}. page_need w' q) + page_need w' p"
    by (cases "p \<in> procs_of y'") (simp_all add: sum.remove [of _ p])
  then have "stocked w' (procs_of y') (entries_pages g (drop (Suc ?i) (cfg_entries cfg))) (frames_left cfg w')"
    using old t need h by (auto simp: stocked_def)
  then show ?thesis using r(3) by (simp add: stock_inv_def y' pending_def)
qed

lemma stock_step:
  assumes L: "lean cfg b g y" and cfg: "stock_config cfg b g" and step: "sys_step cfg y y'"
  shows "lean cfg b g y'"
proof -
  have inv: "machine_inv cfg b y" and sys: "sys_inv y" and wf: "sys_wf (cfg_time_slot cfg) y" and st: "stock_inv cfg g y"
    using L by (simp_all add: lean_def)
  have uc: "user_config cfg b" and ts: "0 < cfg_time_slot cfg" and pe: "\<forall>e \<in> set (cfg_entries cfg). paged_entry e (g e)"
    using cfg by (simp_all add: stock_config_def)
  have inv': "machine_inv cfg b y'" by (rule machine_step [OF inv sys uc wf step])
  have "stock_inv cfg g y'"
    using step
  proof cases
    case (Cpu i c' w' s')
    have "y' = with_cpu y i c' w' s'" using Cpu(1) by (simp add: with_cpu_def)
    then show ?thesis by (rule stock_cpu(1) [OF inv inv' sys st Cpu(2) _ Cpu(3)])
  next
    case Ld_Start
    then show ?thesis using inv st
      by (auto simp: stock_inv_def stocked_def machine_inv_def ld_ok_def Let_def frames_left_def ld_start_def pending_def)
  next
    case (Ld_Load p raw raw_text pid w')
    show ?thesis by (rule stock_load [OF inv inv' st pe Ld_Load(2-7,1)])
  next
    case (Ld_Register p kmp ump rawm ok w' s')
    show ?thesis by (rule stock_register [OF inv sys uc st Ld_Register(2,4-8,1)])
  next
    case Ld_Slot
    then show ?thesis using st by (simp add: stock_inv_def pending_def)
  next
    case Ld_Done
    then show ?thesis using st by (simp add: stock_inv_def pending_def stocked_def entries_pages_def)
  next
    case Tick
    then show ?thesis using st by (simp add: stock_inv_def split: ld_pc.splits)
  qed
  then show ?thesis using inv' sys_inv_step [OF sys step] sys_wf_step [OF wf sys ts step] by (simp add: lean_def)
qed

section \<open>The machine with more frames\<close>

definition fewer_frames :: "nat \<Rightarrow> memphy_struct \<Rightarrow> memphy_struct" where
  "fewer_frames n d = d\<lparr>free_fp_list := take (length (free_fp_list d) - n) (free_fp_list d)\<rparr>"

definition unpad_sys :: "nat \<Rightarrow> nat \<Rightarrow> sys_t \<Rightarrow> sys_t" where
  "unpad_sys n k y = y\<lparr>sys_w := with_os ((w_os (sys_w y))\<lparr>k_mram := map_option (fewer_frames n) (mram (sys_w y)),
     k_active_mswp := map_option (fewer_frames k) (mswp (sys_w y))\<rparr>) (sys_w y)\<rparr>"

lemma fewer_more: "fewer_frames (length xs) (more_frames xs d) = d"
  by (simp add: fewer_frames_def more_frames_def)

lemma unpad_pad [simp]: "unpad_sys (length xs) (length zs) (pad_sys xs zs y) = y"
  by (simp add: unpad_sys_def pad_sys_def pad_def with_os_def option.map_comp comp_def fewer_more option.map_ident)

definition padded :: "sys_cfg \<Rightarrow> (ld_entry \<Rightarrow> nat) \<Rightarrow> (ld_entry \<Rightarrow> nat) \<Rightarrow> addr_t list \<Rightarrow> addr_t list \<Rightarrow> sys_t \<Rightarrow> bool" where
  "padded cfg b g xs zs z \<longleftrightarrow> stock_config cfg b g \<and> (\<exists>y. z = pad_sys xs zs y \<and> lean cfg b g y)"

text \<open>Every step on the padded devices is a step on the devices without the additional frames.\<close>

lemma padded_step:
  assumes L: "lean cfg b g y" and cfg: "stock_config cfg b g" and step: "sys_step (pad_cfg xs zs cfg) (pad_sys xs zs y) z"
  obtains y' where "z = pad_sys xs zs y'" and "sys_step cfg y y'"
proof -
  have inv: "machine_inv cfg b y" and sys: "sys_inv y" and wf: "sys_wf (cfg_time_slot cfg) y" and st: "stock_inv cfg g y"
    using L by (simp_all add: lean_def)
  from step show thesis
  proof cases
    case (Cpu i c' w' s')
    let ?c = "sys_cpus y ! i" and ?ts = "cfg_time_slot cfg"
    have i: "i < length (sys_cpus y)" using Cpu(2) by simp
    have cw: "c_pc ?c = C_Run \<longrightarrow> c_proc ?c \<noteq> None" using wf i by (simp add: sys_wf_def cpu_wf_def)
    have stop: "cpu_step ?ts (sys_done y) ?c (pad xs zs (sys_w y)) (sys_s y) = Some (Some (c', w', s'))" using Cpu(3) by simp
    obtain u where u: "cpu_step ?ts (sys_done y) ?c (sys_w y) (sys_s y) = Some u"
      using machine_cpu_step(1) [OF inv sys i cw] by blast
    have "u \<noteq> None"
      using u stop by (cases "c_pc ?c") (auto simp: cpu_step_def split: bind_splits prod.splits)
    then obtain c1 w1 s1 where g: "cpu_step ?ts (sys_done y) ?c (sys_w y) (sys_s y) = Some (Some (c1, w1, s1))" using u by auto
    have inv': "machine_inv cfg b (with_cpu y i c1 w1 s1)" by (rule machine_cpu_step(2) [OF inv sys i cw g])
    have "cpu_step ?ts (sys_done y) ?c (pad xs zs (sys_w y)) (sys_s y) = Some (Some (c1, pad xs zs w1, s1))"
      by (rule stock_cpu(2) [OF inv inv' sys st i refl g])
    then have "c' = c1" "w' = pad xs zs w1" "s' = s1" using stop by simp_all
    then show ?thesis
      using that [OF _ sys_step.Cpu [OF i g]] Cpu(1) by (simp add: pad_sys_def)
  next
    case Ld_Start
    then have "z = pad_sys xs zs (y\<lparr>sys_w := ld_start (sys_w y), sys_ld := (sys_ld y)\<lparr>l_pc := L_Load\<rparr>\<rparr>)"
      by (simp add: pad_sys_def ld_start_def pad_def with_os_def)
    then show ?thesis using that sys_step.Ld_Start Ld_Start(2) by simp
  next
    case (Ld_Load p raw raw_text pid w')
    obtain w1 where w1: "ld_load p raw raw_text (cfg_entries cfg ! l_i (sys_ld y)) (l_avail_pid (sys_ld y)) (sys_w y) = Some (Some (pid, w1))"
      and w': "w' = pad xs zs w1"
      using Ld_Load(7) by (auto simp: ld_load_def split: bind_splits)
    have "sys_step cfg y (y\<lparr>sys_w := w1, sys_ld := (sys_ld y)\<lparr>l_pc := L_Wait p, l_avail_pid := pid\<rparr>\<rparr>)"
      by (rule sys_step.Ld_Load [OF _ _ _ Ld_Load(5,6) w1]) (use Ld_Load(2-4) in simp_all)
    then show ?thesis by (rule that [rotated]) (cases y, simp add: pad_sys_def Ld_Load(1) w')
  next
    case (Ld_Register p kmp ump rawm ok w' s')
    obtain w1 where w1: "ld_register kmp ump rawm (cfg_ram cfg) (cfg_swp cfg) p (sys_w y) (sys_s y) = Some (ok, w1, s')"
      and w': "w' = pad xs zs w1"
      using Ld_Register(8) by (auto simp: ld_register_pad)
    have "sys_step cfg y (y\<lparr>sys_w := w1, sys_s := s', sys_ld := (sys_ld y)\<lparr>l_pc := if ok then L_Slot else L_Failed\<rparr>\<rparr>)"
      by (rule sys_step.Ld_Register [OF _ _ _ _ Ld_Register(6,7) w1]) (use Ld_Register(2-5) in simp_all)
    then show ?thesis by (rule that [rotated]) (cases y, simp add: pad_sys_def Ld_Register(1) w')
  next
    case Ld_Slot
    then show ?thesis using that [OF _ sys_step.Ld_Slot] by (simp add: pad_sys_def)
  next
    case Ld_Done
    then show ?thesis using that [OF _ sys_step.Ld_Done] by (simp add: pad_sys_def)
  next
    case Tick
    then show ?thesis using that [OF _ sys_step.Tick] by (simp add: pad_sys_def)
  qed
qed

interpretation padded_run_sim: simulation "sys_step (pad_cfg xs zs cfg)" "padded cfg b g xs zs" "sys_step cfg" "sys_reach cfg n h"
  "unpad_sys (length xs) (length zs)" for xs zs cfg b g n h
proof (unfold_locales, goal_cases)
  case (1 c c')
  then obtain y where y: "c = pad_sys xs zs y" "lean cfg b g y" "stock_config cfg b g" by (auto simp: padded_def)
  then obtain y' where "c' = pad_sys xs zs y'" "sys_step cfg y y'" using padded_step [OF y(2,3)] 1(2) by metis
  then show ?case using y(3) stock_step [OF y(2,3)] by (auto simp: padded_def)
next
  case (2 c c')
  then show ?case by (auto simp: padded_def elim!: padded_step)
next
  case (3 a a')
  then show ?case by (rule sys_reach.Step)
qed

lemma lean_init:
  assumes "stock_config cfg b g" and "entries_need b (cfg_entries cfg) \<le> h"
  shows "lean cfg b g (sys_init n h)" and "sys_init n h = pad_sys xs zs (sys_init n h)"
proof -
  have ts: "0 < cfg_time_slot cfg" using assms(1) by (simp add: stock_config_def)
  have "procs_of (sys_init n h) = {}" by (simp add: procs_of_def held_ready_def sys_init_def held_cpus_def cpu_init_def)
  then have "stock_inv cfg g (sys_init n h)"
    using assms(1) by (simp add: stock_inv_def stocked_def stock_config_def sys_init_def ld_init_def pending_def frames_left_def world_init_def)
  then show "lean cfg b g (sys_init n h)"
    using machine_init [OF assms(2)] sys_reach_inv [OF sys_reach.Init] sys_reach_wf [OF ts sys_reach.Init] by (simp add: lean_def)
  show "sys_init n h = pad_sys xs zs (sys_init n h)" by (simp add: pad_sys_def pad_def with_os_def sys_init_def world_init_def)
qed

lemma sys_reach_steps: "sys_reach cfg n h y \<Longrightarrow> (sys_step cfg)\<^sup>*\<^sup>* (sys_init n h) y"
  by (induction rule: sys_reach.induct) auto

lemma padded_reach:
  assumes "sys_reach (pad_cfg xs zs cfg) n h z" and "stock_config cfg b g" and "entries_need b (cfg_entries cfg) \<le> h"
  obtains y where "z = pad_sys xs zs y" and "sys_reach cfg n h y" and "lean cfg b g y"
proof -
  note i = lean_init [OF assms(2,3)] and st = sys_reach_steps [OF assms(1)]
  have p: "padded cfg b g xs zs (sys_init n h)" using assms(2) i [of n] by (auto simp: padded_def)
  have "padded cfg b g xs zs z" by (rule padded_run_sim.reaches_inv [OF st p])
  moreover have "unpad_sys (length xs) (length zs) (sys_init n h) = sys_init n h"
    by (metis i(2) unpad_pad)
  then have "sys_reach cfg n h (unpad_sys (length xs) (length zs) z)"
    using padded_run_sim.reaches_abs [OF st p] sys_reach.Init by simp
  ultimately show thesis using that by (auto simp: padded_def)
qed

section \<open>What holds on the padded devices\<close>

lemma desc_of_pad [simp]: "desc_of (pad xs zs w) = desc_of w"
  by (simp add: desc_of_def fun_eq_iff)

lemma page_bytes_pad [simp]: "page_bytes (pad xs zs w) = page_bytes w"
proof -
  have v: "vpage (pad xs zs w) = vpage w" by (rule pages_of_mms) simp
  have f: "frame_bytes (the (map_option (more_frames ys) d)) f = frame_bytes (the d) f" for ys d f
    by (cases d) (auto intro!: frame_bytes_storage)
  show ?thesis by (simp add: page_bytes_def contents_def fun_eq_iff v f)
qed

lemma process_view_pad [simp]: "process_view desc p (pad xs zs w) = process_view desc p w"
  by (simp add: process_view_def)

lemma padded_never_stuck:
  assumes L: "lean cfg b g y" and i: "i < length (sys_cpus y)"
  shows "cpu_step (cfg_time_slot cfg) (sys_done y) (sys_cpus y ! i) (pad xs zs (sys_w y)) (sys_s y) \<noteq> None"
proof -
  let ?c = "sys_cpus y ! i" and ?ts = "cfg_time_slot cfg"
  have inv: "machine_inv cfg b y" and sys: "sys_inv y" and wf: "sys_wf ?ts y" and st: "stock_inv cfg g y"
    using L by (simp_all add: lean_def)
  have cw: "c_pc ?c = C_Run \<longrightarrow> c_proc ?c \<noteq> None" using wf i by (simp add: sys_wf_def cpu_wf_def)
  obtain u where u: "cpu_step ?ts (sys_done y) ?c (sys_w y) (sys_s y) = Some u"
    using machine_cpu_step(1) [OF inv sys i cw] by blast
  show ?thesis
  proof (cases u)
    case None
    then have "c_pc ?c = C_Stop" using u by (cases "c_pc ?c") (auto simp: cpu_step_def split: bind_splits prod.splits)
    then show ?thesis by (simp add: cpu_step_def)
  next
    case (Some v)
    obtain c1 w1 s1 where v: "v = (c1, w1, s1)" by (cases v)
    note g = u [unfolded Some v]
    show ?thesis using stock_cpu(2) [OF inv machine_cpu_step(2) [OF inv sys i cw g] sys st i refl g] by simp
  qed
qed

lemma padded_run:
  assumes L: "lean cfg b g y" and i: "i < length (sys_cpus y)" and c: "c_pc (sys_cpus y ! i) = C_Run" "c_proc (sys_cpus y ! i) = Some p"
    and run: "run p (sys_w y) = Some (r, w')"
  shows "\<exists>r. run p (pad xs zs (sys_w y)) = Some (r, pad xs zs w')"
proof -
  let ?c = "sys_cpus y ! i" and ?ts = "cfg_time_slot cfg"
  have inv: "machine_inv cfg b y" and sys: "sys_inv y" and st: "stock_inv cfg g y" using L by (simp_all add: lean_def)
  obtain c1 where g: "cpu_step ?ts (sys_done y) ?c (sys_w y) (sys_s y) = Some (Some (c1, w', sys_s y))"
    using c run by (simp add: cpu_step_def)
  have cw: "c_pc ?c = C_Run \<longrightarrow> c_proc ?c \<noteq> None" using c by simp
  show ?thesis
    using stock_cpu(2) [OF inv machine_cpu_step(2) [OF inv sys i cw g] sys st i refl g, of xs zs] c
    by (auto simp: cpu_step_def split: bind_splits)
qed

lemma used_frames_inside:
  assumes "lean cfg b g y" and "mram (pad xs zs (sys_w y)) = Some d"
  shows "list_all (frame_fits d) (used_fp_list d)"
proof -
  obtain e where e: "mram (sys_w y) = Some e" "d = more_frames xs e" using assms(2) by auto
  have "memory_ok (sys_w y)" using assms(1) by (simp add: lean_def machine_inv_def procs_ok_def)
  then have "vm_inv (sys_w y)" using e(1) by (auto simp: memory_ok_def no_memory_def)
  then have "dev_ok 13 e" by (rule vm_invE) (use e(1) in \<open>auto simp: paging_ok_def\<close>)
  then show ?thesis using e(2) by (auto simp: list_all_iff frame_fits_def dest: dev_ok_used)
qed

section \<open>The devices of \<open>main\<close>\<close>

text \<open>The frames of a device that lie inside its storage and whose number fits into an entry: they come first in
  its free list.\<close>

definition good_frames :: "u64 \<Rightarrow> nat" where
  "good_frames sz = min (unat sz div PAGING64_PAGESZ) (2 ^ 13)"

definition trimmed :: "nat \<Rightarrow> memphy_struct \<Rightarrow> memphy_struct" where
  "trimmed k d = d\<lparr>free_fp_list := take k (free_fp_list d)\<rparr>"

lemma more_trimmed: "more_frames (drop k (free_fp_list d)) (trimmed k d) = d"
  by (simp add: more_frames_def trimmed_def)

lemma init_memphy_trimmed:
  assumes "256 \<le> unat sz" and "unat sz < 2 ^ 31" and "k \<le> unat sz div PAGING64_PAGESZ" and "k \<le> 2 ^ b"
  shows "dev_ok b (trimmed k (snd (init_memphy raw sz True)))"
    and "used_fp_list (trimmed k (snd (init_memphy raw sz True))) = []"
    and "length (free_fp_list (trimmed k (snd (init_memphy raw sz True)))) = k"
proof -
  note f = init_memphy_fields [OF assms(1,2), of raw]
  let ?d = "trimmed k (snd (init_memphy raw sz True))"
  have k: "k * 4096 \<le> unat sz" using assms(3) by (simp add: macro_defs less_eq_div_iff_mult_less_eq)
  then have "k \<le> unat sz div 256" by (simp add: less_eq_div_iff_mult_less_eq)
  then have fr: "free_fp_list ?d = map of_nat [0..<k]" by (simp add: trimmed_def f take_map)
  then show "length (free_fp_list ?d) = k" by simp
  show "used_fp_list ?d = []" by (simp add: trimmed_def f)
  have small: "i < 2 ^ 31" if "i < k" for i using that k assms(2) by simp
  have u: "unat (of_nat i :: addr_t) = i" if "i < k" for i using small [OF that] by (simp add: unat_of_nat)
  have "frame_fits ?d (of_nat i) \<and> unat (of_nat i :: addr_t) < 2 ^ b" if i: "i < k" for i
    using u [OF i] small [OF i] i k assms(4) by (simp add: frame_fits_def frame_valid_def trimmed_def f macro_defs)
  moreover have "distinct (map of_nat [0..<k] :: addr_t list)"
  proof -
    have "inj_on (of_nat :: nat \<Rightarrow> addr_t) {0..<k}" using u by (intro inj_on_inverseI [of _ unat]) simp
    then show ?thesis by (simp add: distinct_map)
  qed
  moreover have "rdmflg ?d" "used_fp_list ?d = []" by (simp_all add: trimmed_def f)
  ultimately show "dev_ok b ?d" by (auto simp: dev_ok_def fr)
qed

text \<open>The assumptions on what \<open>main\<close> reads: sizes for which the devices are set up at all, programs on
  user and kernel memory (\<open>user_entry\<close>), and no more pages asked for than there are frames inside the RAM.\<close>

definition boot_config :: "(string \<Rightarrow> string option) \<Rightarrow> config_t \<Rightarrow> (ld_entry \<Rightarrow> nat) \<Rightarrow> (ld_entry \<Rightarrow> nat) \<Rightarrow> bool" where
  "boot_config fs cf b g \<longleftrightarrow> 256 \<le> unat (cf_memramsz cf) \<and> unat (cf_memramsz cf) < 2 ^ 31
     \<and> cf_memswpsz cf \<noteq> [] \<and> 256 \<le> unat (cf_memswpsz cf ! 0) \<and> unat (cf_memswpsz cf ! 0) < 2 ^ 31 \<and> 0 < cf_time_slot cf
     \<and> (\<forall>e \<in> entry_of fs ` set (cf_processes cf). user_entry e (b e) \<and> paged_entry e (g e))
     \<and> entries_pages g (map (entry_of fs) (cf_processes cf)) \<le> good_frames (cf_memramsz cf)"

lemma boot_padded:
  assumes "boot_config fs cf b g"
  obtains xs zs cfg where "main_config fs raw cf = pad_cfg xs zs cfg" and "stock_config cfg b g"
    and "cfg_entries cfg = map (entry_of fs) (cf_processes cf)" and "cfg_time_slot cfg = cf_time_slot cf"
proof -
  let ?m = "main_config fs raw cf" and ?k = "good_frames (cf_memramsz cf)"
  have d: "cfg_ram ?m = snd (init_memphy raw (cf_memramsz cf) True)" "cfg_swp ?m = snd (init_memphy raw (cf_memswpsz cf ! 0) True)"
    "cfg_entries ?m = map (entry_of fs) (cf_processes cf)" "cfg_time_slot ?m = cf_time_slot cf"
    using assms by (simp_all add: main_config_def boot_config_def Let_def)
  define cfg where "cfg = ?m\<lparr>cfg_ram := trimmed ?k (cfg_ram ?m), cfg_swp := trimmed 0 (cfg_swp ?m)\<rparr>"
  have "dev_ok 13 (trimmed ?k (cfg_ram ?m))" "used_fp_list (trimmed ?k (cfg_ram ?m)) = []" "length (free_fp_list (trimmed ?k (cfg_ram ?m))) = ?k"
    unfolding d using assms init_memphy_trimmed [of "cf_memramsz cf" ?k 13 raw] by (simp_all add: boot_config_def good_frames_def)
  moreover have "dev_ok 21 (trimmed 0 (cfg_swp ?m))" "used_fp_list (trimmed 0 (cfg_swp ?m)) = []"
    unfolding d using assms init_memphy_trimmed [of "cf_memswpsz cf ! 0" 0 21 raw] by (simp_all add: boot_config_def)
  ultimately have "stock_config cfg b g"
    using assms by (auto simp: stock_config_def user_config_def boot_config_def cfg_def d)
  moreover have "?m = pad_cfg (drop ?k (free_fp_list (cfg_ram ?m))) (drop 0 (free_fp_list (cfg_swp ?m))) cfg"
    by (simp only: pad_cfg_def cfg_def) (simp add: more_trimmed more_trimmed [of 0, simplified])
  ultimately show thesis using that d by (simp add: cfg_def)
qed

lemma booted_reach:
  assumes "boot_config fs cf b g" and "entries_need b (map (entry_of fs) (cf_processes cf)) \<le> h"
    and "sys_reach (main_config fs raw cf) n h z"
  obtains xs zs cfg y where "main_config fs raw cf = pad_cfg xs zs cfg" and "stock_config cfg b g" and "cfg_time_slot cfg = cf_time_slot cf"
    and "cfg_entries cfg = map (entry_of fs) (cf_processes cf)" and "z = pad_sys xs zs y" and "sys_reach cfg n h y" and "lean cfg b g y"
proof -
  obtain xs zs cfg where c: "main_config fs raw cf = pad_cfg xs zs cfg" "stock_config cfg b g"
    "cfg_entries cfg = map (entry_of fs) (cf_processes cf)" "cfg_time_slot cfg = cf_time_slot cf"
    by (rule boot_padded [OF assms(1)])
  have h: "entries_need b (cfg_entries cfg) \<le> h" using assms(2) c(3) by simp
  obtain y where "z = pad_sys xs zs y" "sys_reach cfg n h y" "lean cfg b g y"
    by (rule padded_reach [OF assms(3) [unfolded c(1)] c(2) h])
  then show thesis using that c by blast
qed

section \<open>A configuration with a program that allocates\<close>

definition ex_text :: string where "ex_text = ''1 3 alloc 300 0 kmalloc 500 2 calc''"

definition ex_spec :: "proc_spec list" where "ex_spec = [(0, ''s0'', 3)]"

definition ex_files :: "string \<Rightarrow> string option" where
  "ex_files = [''input/c'' \<mapsto> print_config 2 1 (Some (1048576, [16777216, 0, 0, 0])) ex_spec, ''input/proc/s0'' \<mapsto> ex_text]"

definition ex_cf :: config_t where "ex_cf = config_of 2 1 (Some (1048576, [16777216, 0, 0, 0])) ex_spec"

lemma ex_cf_read: "read_config (ex_files (CONF_DIR @ ''c'')) = Some (Some ex_cf)" "length CONF_DIR + length ''c'' < PATH_BUF"
proof -
  have "config_ok 2 1 (Some (1048576, [16777216, 0, 0, 0])) ex_spec"
    by (simp add: config_ok_def mem_ok_def legacy_start_def name_ok_def ex_spec_def PATH_BUF_def
        PROC_DIR_def PAGING_MAX_MMSWP_def isspace_def isdigit_def of_char_def)
  then show "read_config (ex_files (CONF_DIR @ ''c'')) = Some (Some ex_cf)"
    using read_config_text by (simp add: ex_files_def ex_cf_def CONF_DIR_def)
  show "length CONF_DIR + length ''c'' < PATH_BUF" by (simp add: CONF_DIR_def PATH_BUF_def)
qed

lemma ex_cf_fields:
  "map (entry_of ex_files) (cf_processes ex_cf) = [\<lparr>le_file = Some ex_text, le_start = 0, le_prio = 3\<rparr>]"
  "cf_time_slot ex_cf = 2" "cf_num_cpus ex_cf = 1" "cf_memramsz ex_cf = 1048576" "cf_memswpsz ex_cf = [16777216, 0, 0, 0]"
  by (simp_all add: ex_cf_def config_of_def mem_of_def ex_spec_def proc_of_def entry_of_def ex_files_def PROC_DIR_def)

lemma ex_text_load:
  assumes "\<And>n. length (raw_text n) = n" and "load raw raw_text (Some ex_text) pid = Some (Some (c, pid'))"
  shows "map opcode (p_code c) = [ALLOC, KMALLOC, CALC]" and "map arg_0 (take 2 (p_code c)) = [300, 500]" and "map arg_1 (take 2 (p_code c)) = [0, 2]"
proof -
  have "length (raw_text 3) = 3" by (rule assms(1))
  then obtain t u v where tu: "raw_text 3 = [t, u, v]" by (auto simp: numeral_3_eq_3 length_Suc_conv)
  have sc: "scan_ulongs 2 ex_text = ([1, 3], '' alloc 300 0 kmalloc 500 2 calc'')" by code_simp
  have "read_text [t, u, v] None None '' alloc 300 0 kmalloc 500 2 calc''
      = Some (Some [t\<lparr>opcode := ALLOC, arg_0 := 300, arg_1 := 0\<rparr>, u\<lparr>opcode := KMALLOC, arg_0 := 500, arg_1 := 2\<rparr>, v\<lparr>opcode := CALC\<rparr>])"
    by (cases t, cases u, cases v, simp only:, code_simp)
  then have "p_code c = [t\<lparr>opcode := ALLOC, arg_0 := 300, arg_1 := 0\<rparr>, u\<lparr>opcode := KMALLOC, arg_0 := 500, arg_1 := 2\<rparr>, v\<lparr>opcode := CALC\<rparr>]"
    using assms(2) tu by (auto simp: load_def Let_def sc)
  then show "map opcode (p_code c) = [ALLOC, KMALLOC, CALC]" and "map arg_0 (take 2 (p_code c)) = [300, 500]" and "map arg_1 (take 2 (p_code c)) = [0, 2]"
    by simp_all
qed

lemma ex_boot_config: "boot_config ex_files ex_cf (\<lambda>_. 16) (\<lambda>_. 2)" "entries_need (\<lambda>_. 16) (map (entry_of ex_files) (cf_processes ex_cf)) \<le> 30"
proof -
  have n: "pages_for 300 = 1" "pages_for 500 = 1" by (simp_all add: pages_for_def)
  have "user_program xs 16 \<and> sum_list (map inst_frames xs) \<le> 2"
    if xs: "map opcode xs = [ALLOC, KMALLOC, CALC]" "map arg_0 (take 2 xs) = [300, 500]" "map arg_1 (take 2 xs) = [0, 2]" for xs
  proof -
    obtain t u v where "xs = [t, u, v]" "opcode t = ALLOC" "opcode u = KMALLOC" "opcode v = CALC" "arg_0 t = 300" "arg_1 t = 0"
      "arg_0 u = 500" "arg_1 u = 2"
      using xs by (auto simp: map_eq_Cons_conv)
    then show ?thesis by (simp add: user_program_def program_inst_def user_inst_def kernel_inst_def inst_pages_def inst_frames_def inst_host_def n macro_defs)
  qed
  note u = this
  have "user_program (p_code c) 16 \<and> sum_list (map inst_frames (p_code c)) \<le> 2"
    if "\<forall>n. length (raw_text n) = n" and "load raw raw_text (Some ex_text) pid = Some (Some (c, pid'))" for raw raw_text pid c pid'
    by (rule u; rule ex_text_load [OF _ that(2)]; use that(1) in blast)
  then have "user_entry e 16 \<and> paged_entry e 2" if "le_file e = Some ex_text" for e
    unfolding user_entry_def paged_entry_def that by blast
  moreover have "entry_of ex_files ` set (cf_processes ex_cf) = {\<lparr>le_file = Some ex_text, le_start = 0, le_prio = 3\<rparr>}"
    using arg_cong [OF ex_cf_fields(1), of set] by simp
  ultimately show "boot_config ex_files ex_cf (\<lambda>_. 16) (\<lambda>_. 2)"
    by (simp add: boot_config_def ex_cf_fields entries_pages_def good_frames_def macro_defs)
  show "entries_need (\<lambda>_. 16) (map (entry_of ex_files) (cf_processes ex_cf)) \<le> 30" by (simp add: ex_cf_fields entries_need_def)
qed

lemma ex_boot_reach:
  "\<exists>y. sys_reach (main_config ex_files ex_dev ex_cf) 1 30 y \<and> ready (sys_s y) = (\<lambda>_. [])(3 := [7]) \<and> s_slot (sys_s y) = slot_quota
     \<and> sys_cpus y = [cpu_init]"
proof -
  let ?c = "ex_pcb\<lparr>p_pid := 1, p_priority := 1, p_bp := 0x400,
    p_code := [ex_inst\<lparr>opcode := ALLOC, arg_0 := 300\<rparr>, ex_inst\<lparr>opcode := KMALLOC, arg_0 := 500, arg_1 := 2\<rparr>, ex_inst]\<rparr>"
  have "load ex_pcb (\<lambda>n. replicate n ex_inst) (Some ex_text) 1 = Some (Some (?c, 2))" by code_simp
  then show ?thesis by (intro ex_reach_any [of _ ex_text ?c]) (simp_all add: main_config_def Let_def ex_cf_fields)
qed

section \<open>Properties\<close>

text \<open>C1: What \<open>main\<close> boots never executes an undefined operation.  When the configuration can be read, its programs
  use user and kernel memory (no \<open>syscall 17\<close>, and a cache pool is created before the first slot is taken) within the
  host's memory and together ask for no more pages than there are frames inside the RAM, then in every
  reachable state of the threads \<open>main\<close> has started every processor can take its next step, and every frame in
  use lies inside the storage, although \<open>init_memphy\<close> has put frames beyond it on the free list.\<close>

theorem booted_machine_never_stuck:
  assumes "length CONF_DIR + length arg < PATH_BUF" and "read_config (fs (CONF_DIR @ arg)) = Some (Some cf)"
    and "boot_config fs cf b g" and "entries_need b (map (entry_of fs) (cf_processes cf)) \<le> h"
    and "sys_reach (main_config fs raw cf) (nat (cf_num_cpus cf)) h z"
  shows "main_start fs raw h [prog, arg] = Some (Main_Run (main_config fs raw cf)
        (timer_init (nat (cf_num_cpus cf) + 1)) (sys_init (nat (cf_num_cpus cf)) h))
    \<and> (\<forall>i < length (sys_cpus z). cpu_step (cf_time_slot cf) (sys_done z) (sys_cpus z ! i) (sys_w z) (sys_s z) \<noteq> None)
    \<and> (\<forall>d. mram (sys_w z) = Some d \<longrightarrow> list_all (frame_fits d) (used_fp_list d))"
proof -
  obtain xs zs cfg y where r: "cfg_time_slot cfg = cf_time_slot cf" "z = pad_sys xs zs y" "lean cfg b g y"
    by (rule booted_reach [OF assms(3-5)])
  have "main_start fs raw h [prog, arg] = Some (Main_Run (main_config fs raw cf)
        (timer_init (nat (cf_num_cpus cf) + 1)) (sys_init (nat (cf_num_cpus cf)) h))"
    using assms(1,2) by (simp add: main_start_def attach_cpus_timer Let_def)
  moreover have "cpu_step (cf_time_slot cf) (sys_done z) (sys_cpus z ! i) (sys_w z) (sys_s z) \<noteq> None" if "i < length (sys_cpus z)" for i
    using padded_never_stuck [OF r(3), of i xs zs] that r(1) by (simp add: r(2))
  ultimately show ?thesis using used_frames_inside [OF r(3), of xs zs] by (simp add: r(2))
qed

theorem booted_machine_never_stuck_witness:
  "\<exists>z. sys_reach (main_config ex_files ex_dev ex_cf) 1 30 z \<and> ready (sys_s z) 3 = [7]
     \<and> main_start ex_files ex_dev 30 [''os'', ''c''] = Some (Main_Run (main_config ex_files ex_dev ex_cf) (timer_init 2) (sys_init 1 30))
     \<and> cpu_step 2 (sys_done z) (sys_cpus z ! 0) (sys_w z) (sys_s z) \<noteq> None"
proof -
  obtain z where z: "sys_reach (main_config ex_files ex_dev ex_cf) 1 30 z" "ready (sys_s z) = (\<lambda>_. [])(3 := [7])" "sys_cpus z = [cpu_init]"
    using ex_boot_reach by blast
  then have "sys_reach (main_config ex_files ex_dev ex_cf) (nat (cf_num_cpus ex_cf)) 30 z" by (simp add: ex_cf_fields)
  note booted_machine_never_stuck [OF ex_cf_read(2,1) ex_boot_config this, of "''os''"]
  then show ?thesis using z by (intro exI [of _ z]) (simp add: ex_cf_fields numeral_2_eq_2)
qed



end
