(* ===== verification/Copy.thy ===== *)
theory Copy
  imports Programs
begin

text \<open>
  Copies from kernel to user memory (\<open>libkmem_copy_to_user\<close> and \<open>libkmem_copy_from_user\<close> of
  \<open>src/src/libmem.c\<close>, which run the same loop) as a whole: they return, every byte of the range
  arrives, and no other byte changes, although each step can fault and swap pages of the process out.
\<close>

section \<open>The loop\<close>

text \<open>The offset of byte \<open>j\<close> of a copy, and what the loop needs of its \<open>n\<close> bytes: byte
  \<open>j\<close> is read at the kernel address \<open>f j\<close> and written to the user address \<open>g j\<close>.\<close>

definition copy_off :: "u32 \<Rightarrow> nat \<Rightarrow> addr_t" where
  "copy_off offset j = ucast (offset + of_nat j)"

definition copyable :: "world \<Rightarrow> mm_ptr \<Rightarrow> mm_ptr \<Rightarrow> u32 \<Rightarrow> u32 \<Rightarrow> u32 \<Rightarrow> nat set \<Rightarrow> (nat \<Rightarrow> nat) \<Rightarrow> (nat \<Rightarrow> nat) \<Rightarrow> bool" where
  "copyable w kmp mp source destination offset J f g \<longleftrightarrow> (\<forall>j \<in> J.
     kernel_source w kmp source (copy_off offset j) (f j) \<and> write_target mp destination (copy_off offset j) w = Some (g j))"

lemma target_inj:
  assumes "write_target mp d (copy_off offset i) w = Some a" and "write_target mp d (copy_off offset j) w = Some a"
    and "i < 2 ^ 32" and "j < 2 ^ 32"
  shows "i = j"
proof -
  have "unat (rg_start (symrg w mp (nat (sint d))) + copy_off offset i) = unat (rg_start (symrg w mp (nat (sint d))) + copy_off offset j)"
    using assms(1,2) by (auto simp: write_target_def Let_def split: if_splits)
  then have "copy_off offset i = copy_off offset j" by (simp flip: word_unat_eq_iff)
  moreover have "unat (ucast x :: addr_t) = unat x" for x :: u32
    using unsigned_less [of x, where ?'a = nat] by (simp add: unsigned_ucast_eq take_bit_nat_eq_self)
  ultimately have "unat (offset + of_nat i) = unat (offset + of_nat j)" unfolding copy_off_def by metis
  then have "(of_nat i :: u32) = of_nat j" by (simp flip: word_unat_eq_iff)
  then show ?thesis using assms(3,4) by (simp add: word_unat_eq_iff unat_of_nat)
qed

text \<open>The regions and the kernel pages do not change on the way.\<close>

lemma copyable_step:
  assumes "copyable w kmp mp s d offset J f g" and "areas w' kmp = areas w kmp" and "areas w' mp = areas w mp"
    and "vpage w' kmp = vpage w kmp"
  shows "copyable w' kmp mp s d offset J f g"
proof -
  have "region_addr kmp s x w' = region_addr kmp s x w" for x
    using assms(2) by (cases "w_mms w kmp"; cases "w_mms w' kmp") (simp_all add: areas_def region_addr_def)
  moreover have "symrg w' mp = symrg w mp"
    using assms(3) by (auto simp: symrg_def areas_def fun_eq_iff map_option_case split: option.splits)
  then have "write_target mp d x w' = write_target mp d x w" for x by (simp add: write_target_def)
  ultimately show ?thesis using assms(1,4) by (simp add: copyable_def kernel_source_def)
qed

lemma copy_byte:
  assumes ok: "space_ok k c mp p w" and h: "9 \<le> w_hostmem w" and km: "k_mm (w_os w) = Some kmp" "kmp \<noteq> mp"
    and src: "kernel_source w kmp s off a" and dst: "write_target mp d off w = Some b"
  obtains r v w1 w' where "read_kernel_mem (Some c) (- 1) s off 0 w = Some (0, v, w1)"
    and "write_user_mem (Some c) (- 1) d off v w1 = Some (r, w')" and "r = 0 \<or> r = - 1" and "space_ok k c mp p w'"
    and "w_hostmem w \<le> w_hostmem w' + 9" and "snap w' = snap w" and "areas w' kmp = areas w kmp" and "areas w' mp = areas w mp"
    and "vpage w' kmp = vpage w kmp" and "\<forall>mq. mq \<noteq> mp \<longrightarrow> page_bytes w' mq = page_bytes w mq"
    and "r = 0 \<longrightarrow> byte_at w' mp b = byte_at w kmp a"
    and "\<forall>x. x \<noteq> b \<and> byte_at w mp x \<noteq> None \<longrightarrow> byte_at w' mp x = byte_at w mp x"
    and "epresent (vpage w mp (b div PAGING64_PAGESZ)) \<longrightarrow> r = 0 \<and> vpage w' mp = vpage w mp"
proof -
  obtain v w1 where rd: "read_kernel_mem (Some c) (- 1) s off 0 w = Some (0, v, w1)" "byte_at w kmp a = Some v"
    "space_ok k c mp p w1" "vpage w1 = vpage w" "page_bytes w1 = page_bytes w" "snap w1 = snap w"
    "outside kmp w1 = outside kmp w" "w_hostmem w1 = w_hostmem w"
    by (rule read_kernel_space [OF ok km src])
  have a1: "areas w1 kmp = areas w kmp" "w_mms w1 mp = w_mms w mp"
    using outside_areas [OF rd(7)] outside_mms [OF rd(7)] km(2) by auto
  have "symrg w1 mp = symrg w mp" using a1(2) by (simp add: symrg_def fun_eq_iff)
  then have t1: "write_target mp d off w1 = Some b" using dst by (simp only: write_target_def)
  have h1: "9 \<le> w_hostmem w1" using h rd(8) by simp
  obtain r w' where wr: "write_user_mem (Some c) (- 1) d off v w1 = Some (r, w')" "r = 0 \<or> r = - 1" "space_ok k c mp p w'"
    "confined mp w1 w'" "w_hostmem w1 \<le> w_hostmem w' + 9" "snap w' = snap w1" "outside mp w' = outside mp w1"
    "r = 0 \<longrightarrow> byte_at w' mp b = Some v"
    "\<forall>x. x \<noteq> b \<and> byte_at w1 mp x \<noteq> None \<longrightarrow> byte_at w' mp x = byte_at w1 mp x"
    "epresent (vpage w1 mp (b div PAGING64_PAGESZ)) \<longrightarrow> r = 0 \<and> vpage w' = vpage w1"
    by (rule write_user_space [OF rd(3) h1 t1])
  have km': "w_mms w' kmp = w_mms w1 kmp" by (rule outside_mms [OF wr(7) km(2)])
  then have "vpage w' kmp = vpage w1 kmp" by (simp add: vpage_def pte_view_def fun_eq_iff)
  then have "areas w' kmp = areas w kmp" "vpage w' kmp = vpage w kmp" using a1(1) km' rd(4) by (simp_all add: areas_def)
  moreover have "areas w' mp = areas w mp" using outside_areas [OF wr(7)] a1(2) by (simp add: areas_def)
  moreover have "byte_at w1 = byte_at w" using rd(5) by (simp add: byte_at_def fun_eq_iff)
  moreover have "page_bytes w' mq = page_bytes w mq" if "mq \<noteq> mp" for mq
    using wr(4) that rd(5) by (simp add: confined_def)
  ultimately show thesis using that [OF rd(1) wr(1-3)] wr(5,6,8-10) rd(2,4,6,8) by simp
qed

text \<open>The state a copy of the bytes \<open>J\<close> leaves.\<close>

definition copied :: "mm_ptr \<Rightarrow> mm_ptr \<Rightarrow> nat set \<Rightarrow> (nat \<Rightarrow> nat) \<Rightarrow> (nat \<Rightarrow> nat) \<Rightarrow> int \<Rightarrow> world \<Rightarrow> world \<Rightarrow> bool" where
  "copied kmp mp J f g r w w' \<longleftrightarrow> (r = 0 \<longrightarrow> (\<forall>j \<in> J. byte_at w' mp (g j) = byte_at w kmp (f j)))
     \<and> (\<forall>x. x \<notin> g ` J \<and> byte_at w mp x \<noteq> None \<longrightarrow> byte_at w' mp x = byte_at w mp x)
     \<and> (\<forall>mq. mq \<noteq> mp \<longrightarrow> page_bytes w' mq = page_bytes w mq)"

lemma copy_loop_space:
  assumes "space_ok k c mp p w" and "9 * n \<le> w_hostmem w" and "k_mm (w_os w) = Some kmp" and "kmp \<noteq> mp"
    and "i + n < 2 ^ 32" and "copyable w kmp mp s d offset {i..<i + n} f g"
  shows "\<exists>r w'. copy_loop c s d offset (of_nat i) n w = Some (r, w') \<and> (r = 0 \<or> r = - 1) \<and> space_ok k c mp p w'
    \<and> copied kmp mp {i..<i + n} f g r w w'
    \<and> ((\<forall>j \<in> {i..<i + n}. epresent (vpage w mp (g j div PAGING64_PAGESZ))) \<longrightarrow> r = 0)"
  using assms
proof (induction n arbitrary: i w)
  case 0
  then show ?case by (auto simp: copied_def)
next
  case (Suc n)
  have J: "{i..<i + Suc n} = insert i {Suc i..<Suc i + n}" by auto
  have h: "9 \<le> w_hostmem w" using Suc.prems(2) by simp
  have cp: "kernel_source w kmp s (copy_off offset i) (f i)" "write_target mp d (copy_off offset i) w = Some (g i)"
    using Suc.prems(6) by (simp_all add: copyable_def)
  obtain r v w1 w2 where st: "read_kernel_mem (Some c) (- 1) s (copy_off offset i) 0 w = Some (0, v, w1)"
    "write_user_mem (Some c) (- 1) d (copy_off offset i) v w1 = Some (r, w2)" "r = 0 \<or> r = - 1" "space_ok k c mp p w2"
    "w_hostmem w \<le> w_hostmem w2 + 9" "snap w2 = snap w" "areas w2 kmp = areas w kmp" "areas w2 mp = areas w mp"
    "vpage w2 kmp = vpage w kmp" "\<forall>mq. mq \<noteq> mp \<longrightarrow> page_bytes w2 mq = page_bytes w mq"
    "r = 0 \<longrightarrow> byte_at w2 mp (g i) = byte_at w kmp (f i)"
    "\<forall>x. x \<noteq> g i \<and> byte_at w mp x \<noteq> None \<longrightarrow> byte_at w2 mp x = byte_at w mp x"
    "epresent (vpage w mp (g i div PAGING64_PAGESZ)) \<longrightarrow> r = 0 \<and> vpage w2 mp = vpage w mp"
    by (rule copy_byte [OF Suc.prems(1) h Suc.prems(3,4) cp])
  show ?case
  proof (cases "r = 0")
    case False
    then have "copy_loop c s d offset (of_nat i) (Suc n) w = Some (- 1, w2)" using st(1,2) by (simp add: copy_off_def)
    moreover have "copied kmp mp {i..<i + Suc n} f g (- 1) w w2" unfolding copied_def J using st(10,12) by auto
    ultimately show ?thesis using st(4,13) False by (auto simp: J)
  next
    case True
    have "copyable w kmp mp s d offset {Suc i..<Suc i + n} f g" using Suc.prems(6) by (auto simp: copyable_def)
    note c2 = copyable_step [OF this st(7-9)]
    have "k_mm (w_os w2) = Some kmp" using snapD [OF st(6)] Suc.prems(3) by simp
    then obtain r' w' where ih: "copy_loop c s d offset (of_nat (Suc i)) n w2 = Some (r', w')" "r' = 0 \<or> r' = - 1"
      "space_ok k c mp p w'" "copied kmp mp {Suc i..<Suc i + n} f g r' w2 w'"
      "(\<forall>j \<in> {Suc i..<Suc i + n}. epresent (vpage w2 mp (g j div PAGING64_PAGESZ))) \<longrightarrow> r' = 0"
      using Suc.IH [OF st(4) _ _ Suc.prems(4) _ c2] Suc.prems(2,5) st(5) by auto
    have run: "copy_loop c s d offset (of_nat i) (Suc n) w = Some (r', w')"
      using st(1,2) True ih(1) by (simp add: copy_off_def add.commute)
    have ne: "g i \<notin> g ` {Suc i..<Suc i + n}"
    proof
      assume "g i \<in> g ` {Suc i..<Suc i + n}"
      then obtain j where j: "j \<in> {Suc i..<Suc i + n}" "g j = g i" by auto
      then have "write_target mp d (copy_off offset j) w = Some (g i)" using Suc.prems(6) by (auto simp: copyable_def)
      then show False using target_inj [OF cp(2), of j] Suc.prems(5) j(1) by auto
    qed
    have "copied kmp mp {i..<i + Suc n} f g r' w w'" unfolding copied_def J
    proof (intro conjI impI allI ballI)
      fix j
      assume r': "r' = 0" and "j \<in> insert i {Suc i..<Suc i + n}"
      then consider "j = i" | "j \<in> {Suc i..<Suc i + n}" by auto
      then show "byte_at w' mp (g j) = byte_at w kmp (f j)"
      proof cases
        case 1
        have "byte_at w kmp (f i) \<noteq> None"
          using cp(1) by (auto simp: kernel_source_def byte_at_def page_bytes_def contents_def)
        then show ?thesis using ih(4) ne st(11) True 1 by (auto simp: copied_def)
      next
        case 2
        have "byte_at w2 kmp = byte_at w kmp" using st(10) Suc.prems(4) by (simp add: byte_at_def fun_eq_iff)
        then show ?thesis using ih(4) r' 2 by (simp add: copied_def)
      qed
    next
      fix x
      assume "x \<notin> g ` insert i {Suc i..<Suc i + n} \<and> byte_at w mp x \<noteq> None"
      then show "byte_at w' mp x = byte_at w mp x" using ih(4) st(12) by (auto simp: copied_def)
    next
      fix mq
      assume "mq \<noteq> mp"
      then show "page_bytes w' mq = page_bytes w mq" using ih(4) st(10) by (simp add: copied_def)
    qed
    moreover have "r' = 0" if "\<forall>j \<in> {i..<i + Suc n}. epresent (vpage w mp (g j div PAGING64_PAGESZ))"
      using that ih(5) st(13) by (simp add: J)
    ultimately show ?thesis using run ih(2,3) by blast
  qed
qed

section \<open>Properties\<close>


text \<open>The descriptor of the second process serves as the kernel's; its page has been brought in.\<close>

lemma ex_copy_world:
  obtains w where "space_ok 7 ex_proc_a 0 1 w" and "72 \<le> w_hostmem w" and "k_mm (w_os w) = Some 1"
    and "copyable w 1 0 0 0 0 {0..<unat (8 :: u32)} id id"
proof -
  note b = space_caller [OF ex_duo_space(2)]
  have h: "9 \<le> w_hostmem ex_duo" and p: "sint (0 :: cint) = int 0" "0 < (1 :: nat)" using ex_duo_need by simp_all
  obtain r f w where w: "pg_getpage 0 0 ex_proc_b ex_duo = Some (r, f, w)" "space_ok 8 ex_proc_b 1 1 w"
    "confined 1 ex_duo w" "w_hostmem ex_duo \<le> w_hostmem w + 9" "outside 1 w = outside 1 ex_duo" "snap w = snap ex_duo"
    "r = 0 \<and> epresent (vpage w 1 0) \<and> f = PAGING_FPN (ucast (vpage w 1 0)) \<or> r = - 1"
    by (rule getpage_space [OF ex_duo_space(2) h p, of 0])
  have "r = 0"
    using b(1-3) h p(1)
  proof (cases rule: pg_getpage_cases [of ex_proc_b 1 ex_duo 0 0 0])
    case (mapped w')
    then show ?thesis using w(1) by simp
  next
    case (refused w')
    then show ?thesis by (simp add: ex_duo_def ex_page_dev_def)
  qed
  then have e: "epresent (vpage w 1 0)" using w(7) by auto
  have sp: "space_ok 7 ex_proc_a 0 1 w"
    by (rule space_other [OF ex_duo_space(1) own_step_snap [OF w(3,6), of 8]]) (simp_all add: ex_duo_def)
  have a: "areas w 1 = areas ex_duo 1" "w_mms w 0 = w_mms ex_duo 0"
    using outside_areas [OF w(5)] outside_mms [OF w(5), of 0] by simp_all
  have m: "areas ex_duo 1 = Some (mm_mmap ex_mm1, mm_symrgtbl ex_mm1)" "w_mms ex_duo 0 = Some ex_mm1"
    by (simp_all add: areas_def ex_duo_def)
  have off: "copy_off 0 j = of_nat j" "unat (of_nat j :: addr_t) = j" if "j < 8" for j
    using that by (simp_all add: copy_off_def unsigned_of_nat take_bit_nat_eq_self unat_of_nat)
  have lt: "(of_nat j :: addr_t) < 300" if "j < 8" for j using off(2) [OF that] that by (simp add: word_less_nat_alt)
  have "region_addr 1 0 (of_nat j) w = Some (Some (of_nat j))" if "j < 8" for j
    using a(1) m(1) lt [OF that] by (auto simp: areas_def region_addr_def ex_mm1_def not_le)
  moreover have "write_target 0 0 (of_nat j) w = Some j" if "j < 8" for j
    using a(2) m(2) lt [OF that] off(2) [OF that] by (simp add: write_target_def symrg_def ex_mm1_def macro_defs not_le)
  ultimately have cp: "copyable w 1 0 0 0 0 {0..<unat (8 :: u32)} id id"
    using e off by (auto simp: copyable_def kernel_source_def rgid_ok_def macro_defs)
  let ?w = "w\<lparr>w_os := (w_os w)\<lparr>k_mm := Some 1\<rparr>\<rparr>"
  have v: "vpage (w\<lparr>w_os := (w_os w)\<lparr>k_mm := x\<rparr>\<rparr>) = vpage w" "fifo (w\<lparr>w_os := (w_os w)\<lparr>k_mm := x\<rparr>\<rparr>) = fifo w" for x by (simp_all add: fun_eq_iff vpage_def pte_view_def fifo_def)
  have "vm_inv ?w" "page_bytes ?w = page_bytes w" using space_caller(3) [OF sp] by (simp_all add: vm_inv_def page_bytes_def v split: option.splits)
  then have "space_ok 7 ex_proc_a 0 1 ?w" by (intro space_keep [OF sp]) simp_all
  moreover have "copyable ?w 1 0 0 0 0 {0..<unat (8 :: u32)} id id"
    by (rule copyable_step [OF cp]) (simp_all add: areas_def v)
  ultimately show thesis using that [of ?w] w(4) ex_duo_need(3) by simp
qed


end
