(* ===== verification/Mm32.thy ===== *)
theory Mm32
  imports Dump
begin

text \<open>
  The deprecated 32-bit memory manager of \<open>src/src/mm.c\<close>, which is compiled when \<open>MM64\<close> is
  not defined.  There \<open>addr_t\<close> is a 32-bit type and the page directory of the kernel's
  descriptor is one flat array of entries.  Most routines only print that the mode is deprecated
  and return 0; the others change one entry.  The descriptor is \<open>None\<close> when \<open>krnl\<close> or
  \<open>krnl->mm\<close> is null, and its directory \<open>None\<close> while the pointer is not set.
\<close>

type_synonym addr32 = "32 word"
type_synonym mm32 = "addr32 list option"

section \<open>Entries\<close>

definition SETBIT32 :: "addr32 \<Rightarrow> u32 \<Rightarrow> addr32" where
  "SETBIT32 v m = v OR m"

definition CLRBIT32 :: "addr32 \<Rightarrow> u32 \<Rightarrow> addr32" where
  "CLRBIT32 v m = v AND NOT m"

definition SETVAL32 :: "addr32 \<Rightarrow> u32 \<Rightarrow> u32 \<Rightarrow> nat \<Rightarrow> addr32" where
  "SETVAL32 v val m offst = (v AND NOT m) OR (push_bit offst val AND m)"

definition init_pte32 :: "addr32 \<Rightarrow> cint \<Rightarrow> addr32 \<Rightarrow> cint \<Rightarrow> cint \<Rightarrow> cint \<Rightarrow> addr32 \<Rightarrow> int \<times> addr32" where
  "init_pte32 pte pre fpn drt swp swptyp swpoff =
     (if pre \<noteq> 0 then
        (if swp = 0 then
           (if fpn = 0 then (- 1, pte)
            else (0, let pte = SETBIT32 pte PAGING_PTE_PRESENT_MASK;
                         pte = CLRBIT32 pte PAGING_PTE_SWAPPED_MASK;
                         pte = CLRBIT32 pte PAGING_PTE_DIRTY_MASK
                     in SETVAL32 pte fpn PAGING_PTE_FPN_MASK 0))
         else (0, let pte = SETBIT32 pte PAGING_PTE_PRESENT_MASK;
                      pte = SETBIT32 pte PAGING_PTE_SWAPPED_MASK;
                      pte = CLRBIT32 pte PAGING_PTE_DIRTY_MASK;
                      pte = SETVAL32 pte swptyp PAGING_PTE_SWPTYP_MASK 0
                  in SETVAL32 pte swpoff PAGING_PTE_SWPOFF_MASK 5))
      else (0, pte))"

definition pte_swap32 :: "addr32 \<Rightarrow> cint \<Rightarrow> addr32 \<Rightarrow> addr32" where
  "pte_swap32 pte swptyp swpoff =
     (let pte = SETBIT32 pte PAGING_PTE_PRESENT_MASK;
          pte = SETBIT32 pte PAGING_PTE_SWAPPED_MASK;
          pte = SETVAL32 pte swptyp PAGING_PTE_SWPTYP_MASK 0
      in SETVAL32 pte swpoff PAGING_PTE_SWPOFF_MASK 5)"

definition pte_fpn32 :: "addr32 \<Rightarrow> addr32 \<Rightarrow> addr32" where
  "pte_fpn32 pte fpn =
     (let pte = SETBIT32 pte PAGING_PTE_PRESENT_MASK;
          pte = CLRBIT32 pte PAGING_PTE_SWAPPED_MASK
      in SETVAL32 pte fpn PAGING_PTE_FPN_MASK 0)"

section \<open>Operations on the directory\<close>

text \<open>An access through \<open>krnl->mm->pgd[pgn]\<close>.\<close>

definition pgd_update32 :: "(addr32 \<Rightarrow> addr32) \<Rightarrow> mm32 option \<Rightarrow> addr32 \<Rightarrow> (int \<times> mm32 option) option" where
  "pgd_update32 f mm pgn = do {
     m \<leftarrow> mm;
     pgd \<leftarrow> m;
     v \<leftarrow> arr_get pgd (unat pgn);
     pgd \<leftarrow> arr_set pgd (unat pgn) (f v);
     Some (0, Some (Some pgd))
   }"

definition pte_set_swap32 :: "mm32 option \<Rightarrow> addr32 \<Rightarrow> cint \<Rightarrow> addr32 \<Rightarrow> (int \<times> mm32 option) option" where
  "pte_set_swap32 mm pgn swptyp swpoff = pgd_update32 (\<lambda>pte. pte_swap32 pte swptyp swpoff) mm pgn"

definition pte_set_fpn32 :: "mm32 option \<Rightarrow> addr32 \<Rightarrow> addr32 \<Rightarrow> (int \<times> mm32 option) option" where
  "pte_set_fpn32 mm pgn fpn = pgd_update32 (\<lambda>pte. pte_fpn32 pte fpn) mm pgn"

definition pte_set_entry32 :: "mm32 option \<Rightarrow> addr32 \<Rightarrow> u32 \<Rightarrow> (int \<times> mm32 option) option" where
  "pte_set_entry32 mm pgn pte_val = pgd_update32 (\<lambda>_. pte_val) mm pgn"

section \<open>Deprecated routines\<close>

text \<open>The message every other routine prints; they return 0 and change nothing.\<close>

definition deprecated32 :: "string \<Rightarrow> out list \<times> int" where
  "deprecated32 func =
     ([Txt ''[ERROR] '', Txt func, Txt '': This feature 32 bit mode is deprecated'', Nl], 0)"

definition get_pd_from_address32 :: "addr32 \<Rightarrow> out list \<times> int" where
  "get_pd_from_address32 addr = deprecated32 ''get_pd_from_address''"

definition get_pd_from_pagenum32 :: "addr32 \<Rightarrow> out list \<times> int" where
  "get_pd_from_pagenum32 pgn = deprecated32 ''get_pd_from_pagenum''"

definition pte_get_entry32 :: "mm32 option \<Rightarrow> addr32 \<Rightarrow> out list \<times> int" where
  "pte_get_entry32 mm pgn = deprecated32 ''pte_get_entry''"

definition vmap_pgd_memset32 :: "mm32 option \<Rightarrow> addr32 \<Rightarrow> cint \<Rightarrow> out list \<times> int" where
  "vmap_pgd_memset32 mm addr pgnum = deprecated32 ''vmap_pgd_memset''"

definition vmap_page_range32 :: "mm32 option \<Rightarrow> addr32 \<Rightarrow> cint \<Rightarrow> addr32 list \<Rightarrow> out list \<times> int" where
  "vmap_page_range32 mm addr pgnum frames = deprecated32 ''vmap_page_range''"

definition alloc_pages_range32 :: "mm32 option \<Rightarrow> cint \<Rightarrow> addr32 list \<Rightarrow> out list \<times> int" where
  "alloc_pages_range32 mm req_pgnum frm_lst = deprecated32 ''alloc_pages_range''"

definition vm_map_ram32 :: "mm32 option \<Rightarrow> addr32 \<Rightarrow> addr32 \<Rightarrow> addr32 \<Rightarrow> cint \<Rightarrow> out list \<times> int" where
  "vm_map_ram32 mm astart aend mapstart incpgnum = deprecated32 ''vm_map_ram''"

definition swap_cp_page32 :: "addr32 \<Rightarrow> addr32 \<Rightarrow> out list \<times> int" where
  "swap_cp_page32 srcfpn dstfpn = deprecated32 ''__swap_cp_page''"

definition init_mm32 :: "mm32 option \<Rightarrow> (out list \<times> int) \<times> mm32 option" where
  "init_mm32 mm = (deprecated32 ''init_mm'', mm)"

definition init_vm_rg32 :: "addr32 \<Rightarrow> addr32 \<Rightarrow> out list \<times> int" where
  "init_vm_rg32 rs re = deprecated32 ''init_vm_rg''"

definition enlist_vm_rg_node32 :: "out list \<times> int" where
  "enlist_vm_rg_node32 = deprecated32 ''enlist_vm_rg_node''"

definition enlist_pgn_node32 :: "addr32 \<Rightarrow> out list \<times> int" where
  "enlist_pgn_node32 pgn = deprecated32 ''enlist_pgn_node''"

definition print_list_fp32 :: "out list \<times> int" where
  "print_list_fp32 = deprecated32 ''print_list_fp''"

definition print_list_rg32 :: "out list \<times> int" where
  "print_list_rg32 = deprecated32 ''print_list_rg''"

definition print_list_vma32 :: "out list \<times> int" where
  "print_list_vma32 = deprecated32 ''print_list_vma''"

definition print_list_pgn32 :: "out list \<times> int" where
  "print_list_pgn32 = deprecated32 ''print_list_pgn''"

definition print_pgtbl32 :: "u32 \<Rightarrow> u32 \<Rightarrow> out list \<times> int" where
  "print_pgtbl32 s e = deprecated32 ''print_pgtbl''"

section \<open>Lemmas\<close>

lemma pgd_update32_spec:
  "pgd_update32 f mm pgn = Some (r, mm') \<longleftrightarrow>
     (\<exists>pgd. mm = Some (Some pgd) \<and> unat pgn < length pgd \<and> r = 0
        \<and> mm' = Some (Some (pgd[unat pgn := f (pgd ! unat pgn)])))"
  by (auto simp: pgd_update32_def split: bind_splits)

lemma bit_ops32:
  "bit (SETBIT32 v m) k \<longleftrightarrow> bit v k \<or> bit m k" "bit (CLRBIT32 v m) k \<longleftrightarrow> bit v k \<and> \<not> bit m k"
  "bit (SETVAL32 v x m s) k \<longleftrightarrow> (if bit m k then s \<le> k \<and> bit x (k - s) else bit v k)"
  by (auto simp: SETBIT32_def CLRBIT32_def SETVAL32_def bit_simps dest: bit_imp_le_length)

text \<open>An entry marked swapped counts as present too, so the page would be looked for in a frame; in
  the 64-bit manager it does not.\<close>

lemma pte_swap32_bits:
  "PAGING_PAGE_PRESENT (pte_swap32 pte t off)" "PAGING_PAGE_SWAPPED (pte_swap32 pte t off)"
  "PAGING_SWP (pte_swap32 pte t off) = take_bit 21 off"
  by (simp_all add: pte_swap32_def Let_def bit_ops32 pte_simps macro_defs)
    (rule bit_eqI, auto simp: pte_swap32_def Let_def bit_ops32 pte_simps macro_defs bit_simps)

lemma pte_fpn32_bits:
  "PAGING_PAGE_PRESENT (pte_fpn32 pte f)" "\<not> PAGING_PAGE_SWAPPED (pte_fpn32 pte f)"
  "PAGING_FPN (pte_fpn32 pte f) = take_bit 13 f"
  by (simp_all add: pte_fpn32_def Let_def bit_ops32 pte_simps macro_defs)
    (rule bit_eqI, auto simp: pte_fpn32_def Let_def bit_ops32 pte_simps macro_defs bit_simps)

text \<open>Setting an entry changes that entry only; the directory a descriptor starts with is never
  set, so every access before that is undefined.\<close>

lemma pte_set_fpn32_entry:
  assumes "pte_set_fpn32 (Some (Some pgd)) pgn fpn = Some (r, mm')"
  shows "r = 0" and "\<exists>pgd'. mm' = Some (Some pgd') \<and> length pgd' = length pgd
    \<and> PAGING_FPN (pgd' ! unat pgn) = take_bit 13 fpn \<and> (\<forall>i. i \<noteq> unat pgn \<longrightarrow> pgd' ! i = pgd ! i)"
  using assms by (auto simp: pte_set_fpn32_def pgd_update32_spec pte_fpn32_bits)

lemma directory32_never_set: "snd (init_mm32 (Some None)) = Some None" "pte_set_fpn32 (Some None) pgn fpn = None"
  by (simp_all add: init_mm32_def pte_set_fpn32_def pgd_update32_def)

end
