(* ===== verification/Macros.thy ===== *)
theory Macros
  imports Pte
begin

text \<open>
  The remaining macros of \<open>include/bitops.h\<close>, \<open>include/mm.h\<close> and \<open>include/mm64.h\<close>: the
  computation of a bit number by halving, and the fields of the 22-bit addresses of the original
  machine, whose boundaries are computed with it.
\<close>

section \<open>Bit numbers\<close>

definition NBITS2 :: "u32 \<Rightarrow> nat" where
  "NBITS2 n = (if n AND 2 \<noteq> 0 then 1 else 0)"

definition NBITS4 :: "u32 \<Rightarrow> nat" where
  "NBITS4 n = (if n AND 0xC \<noteq> 0 then 2 + NBITS2 (drop_bit 2 n) else NBITS2 n)"

definition NBITS8 :: "u32 \<Rightarrow> nat" where
  "NBITS8 n = (if n AND 0xF0 \<noteq> 0 then 4 + NBITS4 (drop_bit 4 n) else NBITS4 n)"

definition NBITS16 :: "u32 \<Rightarrow> nat" where
  "NBITS16 n = (if n AND 0xFF00 \<noteq> 0 then 8 + NBITS8 (drop_bit 8 n) else NBITS8 n)"

definition NBITS32 :: "u32 \<Rightarrow> nat" where
  "NBITS32 n = (if n AND 0xFFFF0000 \<noteq> 0 then 16 + NBITS16 (drop_bit 16 n) else NBITS16 n)"

definition NBITS :: "u32 \<Rightarrow> nat" where
  "NBITS n = (if n = 0 then 0 else NBITS32 n)"

definition EXTRACT_NBITS :: "u32 \<Rightarrow> nat \<Rightarrow> nat \<Rightarrow> u32" where
  "EXTRACT_NBITS nr h l = drop_bit l (nr AND GENMASK h l)"

section \<open>The fields of an address\<close>

definition PAGING_CPU_BUS_WIDTH :: nat where [macro_defs]: "PAGING_CPU_BUS_WIDTH = 22"
definition PAGING_MEMRAMSZ :: u32 where "PAGING_MEMRAMSZ = BIT 21"
definition PAGING_MEMSWPSZ :: u32 where "PAGING_MEMSWPSZ = BIT 29"

definition PAGING_PAGE_ALIGNSZ :: "u64 \<Rightarrow> u64" where
  "PAGING_PAGE_ALIGNSZ sz = DIV_ROUND_UP sz (of_nat PAGING_PAGESZ) * of_nat PAGING_PAGESZ"

definition PAGING_ADDR_OFFST_LOBIT :: nat where "PAGING_ADDR_OFFST_LOBIT = 0"
definition PAGING_ADDR_OFFST_HIBIT :: nat where "PAGING_ADDR_OFFST_HIBIT = NBITS (of_nat PAGING_PAGESZ) - 1"
definition PAGING_ADDR_PGN_LOBIT :: nat where "PAGING_ADDR_PGN_LOBIT = NBITS (of_nat PAGING_PAGESZ)"
definition PAGING_ADDR_PGN_HIBIT :: nat where "PAGING_ADDR_PGN_HIBIT = PAGING_CPU_BUS_WIDTH - 1"
definition PAGING_ADDR_FPN_LOBIT :: nat where "PAGING_ADDR_FPN_LOBIT = NBITS (of_nat PAGING_PAGESZ)"
definition PAGING_ADDR_FPN_HIBIT :: nat where "PAGING_ADDR_FPN_HIBIT = NBITS PAGING_MEMRAMSZ - 1"
definition PAGING_SWP_LOBIT :: nat where "PAGING_SWP_LOBIT = NBITS (of_nat PAGING_PAGESZ)"
definition PAGING_SWP_HIBIT :: nat where "PAGING_SWP_HIBIT = NBITS PAGING_MEMSWPSZ - 1"

definition PAGING_OFFST_MASK :: u32 where
  "PAGING_OFFST_MASK = GENMASK PAGING_ADDR_OFFST_HIBIT PAGING_ADDR_OFFST_LOBIT"
definition PAGING_PGN_MASK :: u32 where
  "PAGING_PGN_MASK = GENMASK PAGING_ADDR_PGN_HIBIT PAGING_ADDR_PGN_LOBIT"
definition PAGING_FPN_MASK :: u32 where
  "PAGING_FPN_MASK = GENMASK PAGING_ADDR_FPN_HIBIT PAGING_ADDR_FPN_LOBIT"
definition PAGING_SWP_MASK :: u32 where
  "PAGING_SWP_MASK = GENMASK PAGING_SWP_HIBIT PAGING_SWP_LOBIT"

definition PAGING_OFFST :: "u32 \<Rightarrow> u32" where
  "PAGING_OFFST x = GETVAL x PAGING_OFFST_MASK PAGING_ADDR_OFFST_LOBIT"
definition PAGING_PGN :: "u32 \<Rightarrow> u32" where
  "PAGING_PGN x = GETVAL x PAGING_PGN_MASK PAGING_ADDR_PGN_LOBIT"

text \<open>The remaining fields of an entry.\<close>

definition PAGING_PTE_RESERVE_MASK :: u32 where "PAGING_PTE_RESERVE_MASK = BIT 29"
definition PAGING_PTE_EMPTY01_MASK :: u32 where "PAGING_PTE_EMPTY01_MASK = BIT 14"
definition PAGING_PTE_EMPTY02_MASK :: u32 where "PAGING_PTE_EMPTY02_MASK = BIT 13"
definition PAGING_PTE_USRNUM_MASK :: u32 where "PAGING_PTE_USRNUM_MASK = GENMASK 27 15"

text \<open>The mask of the offset of a 64-bit address is built from the bit numbers of the 22-bit
  address.\<close>

definition PAGING64_ADDR_OFFST_MASK :: u64 where
  "PAGING64_ADDR_OFFST_MASK = GENMASK64 PAGING_ADDR_OFFST_HIBIT PAGING_ADDR_OFFST_LOBIT"

text \<open>The range operators are placeholders.\<close>

definition INCLUDE :: "addr_t \<Rightarrow> addr_t \<Rightarrow> addr_t \<Rightarrow> addr_t \<Rightarrow> bool" where
  "INCLUDE x1 x2 y1 y2 = False"
definition OVERLAP :: "addr_t \<Rightarrow> addr_t \<Rightarrow> addr_t \<Rightarrow> addr_t \<Rightarrow> bool" where
  "OVERLAP x1 x2 y1 y2 = False"

section \<open>Halving\<close>

text \<open>The number of the highest bit that is set.\<close>

definition top_bit :: "u32 \<Rightarrow> nat \<Rightarrow> bool" where
  "top_bit n k \<longleftrightarrow> 2 ^ k \<le> unat n \<and> unat n < 2 ^ (k + 1)"

lemma unat_shift: "unat (drop_bit w (n :: u32)) = unat n div 2 ^ w"
  by (simp only: unsigned_drop_bit_eq) (simp add: drop_bit_eq_div take_bit_nat_eq_self unsigned_less [of n, simplified])

lemma unat_low: "unat (take_bit k (n :: u32)) = unat n mod 2 ^ k"
  by (subst unsigned_take_bit_eq) (rule take_bit_eq_mod)

lemma top_bit_shift:
  assumes "top_bit (drop_bit w n) k"
  shows "top_bit n (w + k)"
proof -
  have "2 ^ k \<le> unat n div 2 ^ w" "unat n div 2 ^ w < 2 ^ (k + 1)" using assms by (auto simp: top_bit_def unat_shift)
  then have "2 ^ k * 2 ^ w \<le> unat n" "unat n < 2 ^ (k + 1) * 2 ^ w"
    by (simp_all only: less_eq_div_iff_mult_less_eq div_less_iff_less_mult zero_less_power zero_less_numeral)
  then show ?thesis by (simp add: top_bit_def power_add algebra_simps)
qed

lemma upper_half:
  assumes "unat (n :: u32) < 2 ^ (2 * w)"
  shows "n AND push_bit w (mask w) = 0 \<longleftrightarrow> drop_bit w n = 0"
proof -
  have "take_bit (2 * w) n = n" using assms by (simp add: word_unat_eq_iff unsigned_take_bit_eq take_bit_nat_eq_self)
  then have "bit n i \<Longrightarrow> i < 2 * w" for i by (metis bit_take_bit_iff)
  then have top: "bit n (w + i) \<Longrightarrow> i < w" for i by fastforce
  show ?thesis
  proof
    assume z: "n AND push_bit w (mask w) = 0"
    have "\<not> bit n (w + i)" for i
    proof
      assume b: "bit n (w + i)"
      then have "w + i < 32" using bit_imp_le_length [OF b] by simp
      then have "bit (n AND push_bit w (mask w)) (w + i)" using b top by (simp add: bit_simps)
      then show False using z by simp
    qed
    then show "drop_bit w n = 0" by (intro bit_eqI) (simp add: bit_drop_bit_eq)
  next
    assume z: "drop_bit w n = 0"
    have "\<not> bit n i" if "w \<le> i" for i
      using that bit_drop_bit_eq [of w n] fun_cong [of _ _ "i - w"] by (auto simp: z fun_eq_iff dest: spec [of _ "i - w"])
    then show "n AND push_bit w (mask w) = 0" by (intro bit_eqI) (auto simp: bit_simps)
  qed
qed

text \<open>One halving step.\<close>

lemma halve:
  assumes "n \<noteq> 0" and "unat n < 2 ^ (2 * w)" and "M = push_bit w (mask w)"
    and "\<And>m. m \<noteq> 0 \<Longrightarrow> unat m < 2 ^ w \<Longrightarrow> top_bit m (f m)"
  shows "top_bit n (if n AND M \<noteq> 0 then w + f (drop_bit w n) else f n)"
proof -
  note d = unat_shift [of w n]
  have "unat n div 2 ^ w < 2 ^ w" using assms(2) by (simp add: less_mult_imp_div_less mult_2 power_add)
  moreover have "unat n < 2 ^ w" if "drop_bit w n = 0"
    using d that by (simp add: div_eq_0_iff)
  ultimately show ?thesis
    using assms upper_half [OF assms(2)] top_bit_shift d by auto
qed

lemmas half_mask = push_bit_eq_mult mask_eq_exp_minus_1

lemma NBITS2_top: "n \<noteq> 0 \<Longrightarrow> unat n < 2 ^ 2 \<Longrightarrow> top_bit n (NBITS2 n)"
proof -
  assume n: "n \<noteq> 0" "unat n < 2 ^ 2"
  then have "0 < unat n" by (simp add: unat_gt_0)
  then consider "unat n = unat (1 :: u32)" | "unat n = unat (2 :: u32)" | "unat n = unat (3 :: u32)" using n(2) by force
  then show ?thesis by cases (simp_all only: word_unat_eq_iff [symmetric], simp_all add: top_bit_def NBITS2_def)
qed

lemma NBITS4_top: "n \<noteq> 0 \<Longrightarrow> unat n < 2 ^ 4 \<Longrightarrow> top_bit n (NBITS4 n)"
  unfolding NBITS4_def by (rule halve [of n 2 "0xC"]) (simp_all add: NBITS2_top half_mask)

lemma NBITS8_top: "n \<noteq> 0 \<Longrightarrow> unat n < 2 ^ 8 \<Longrightarrow> top_bit n (NBITS8 n)"
  unfolding NBITS8_def by (rule halve [of n 4 "0xF0"]) (simp_all add: NBITS4_top half_mask)

lemma NBITS16_top: "n \<noteq> 0 \<Longrightarrow> unat n < 2 ^ 16 \<Longrightarrow> top_bit n (NBITS16 n)"
  unfolding NBITS16_def by (rule halve [of n 8 "0xFF00"]) (simp_all add: NBITS8_top half_mask)

lemma NBITS32_top: "n \<noteq> 0 \<Longrightarrow> top_bit n (NBITS32 n)"
  unfolding NBITS32_def using unsigned_less [of n, where ?'a = nat]
  by (intro halve [of n 16 "0xFFFF0000"]) (simp_all add: NBITS16_top half_mask)

lemma nbits_values: "NBITS 256 = 8" "NBITS (BIT 21) = 21" "NBITS (BIT 29) = 29"
  by code_simp+

lemma field_bits [simp]:
  "PAGING_ADDR_OFFST_HIBIT = 7" "PAGING_ADDR_OFFST_LOBIT = 0" "PAGING_ADDR_PGN_LOBIT = 8"
  "PAGING_ADDR_PGN_HIBIT = 21" "PAGING_ADDR_FPN_LOBIT = 8" "PAGING_ADDR_FPN_HIBIT = 20"
  "PAGING_SWP_LOBIT = 8" "PAGING_SWP_HIBIT = 28"
  by (simp_all add: PAGING_ADDR_OFFST_HIBIT_def PAGING_ADDR_OFFST_LOBIT_def PAGING_ADDR_PGN_LOBIT_def
      PAGING_ADDR_PGN_HIBIT_def PAGING_ADDR_FPN_LOBIT_def PAGING_ADDR_FPN_HIBIT_def PAGING_SWP_LOBIT_def
      PAGING_SWP_HIBIT_def PAGING_MEMRAMSZ_def PAGING_MEMSWPSZ_def macro_defs nbits_values)

lemma field_masks:
  "PAGING_OFFST_MASK = mask 8" "PAGING_PGN_MASK = push_bit 8 (mask 14)" "PAGING64_ADDR_OFFST_MASK = mask 8"
  unfolding PAGING_OFFST_MASK_def PAGING_PGN_MASK_def PAGING64_ADDR_OFFST_MASK_def field_bits GENMASK_def GENMASK64_def
    BITS_PER_LONG_def
  by (code_simp)+

section \<open>Properties\<close>

text \<open>\<open>NBITS\<close> computes the number of the highest bit that is set.\<close>

theorem NBITS_highest_bit:
  assumes "n \<noteq> 0"
  shows "2 ^ NBITS n \<le> unat n \<and> unat n < 2 ^ (NBITS n + 1)"
  using NBITS32_top [OF assms] assms by (simp add: NBITS_def top_bit_def)

text \<open>On the 22-bit bus the page number and the offset of an address are its quotient and
  remainder by the page size of 256, so they determine the address; the boundaries of the fields come
  from \<open>NBITS\<close>, which computes the number of the highest bit set.\<close>

theorem address_fields:
  assumes "unat x < 2 ^ PAGING_CPU_BUS_WIDTH"
  shows "unat (PAGING_PGN x) = unat x div PAGING_PAGESZ \<and> unat (PAGING_OFFST x) = unat x mod PAGING_PAGESZ
    \<and> 2 ^ PAGING_ADDR_PGN_LOBIT = PAGING_PAGESZ"
proof -
  have "PAGING_OFFST x = take_bit 8 x"
    by (simp add: PAGING_OFFST_def GETVAL_def field_masks take_bit_eq_mask)
  then have o: "unat (PAGING_OFFST x) = unat x mod 2 ^ 8" by (simp only: unat_low)
  have "PAGING_PGN x = take_bit 14 (drop_bit 8 x)"
    by (intro bit_eqI) (auto simp: PAGING_PGN_def GETVAL_def field_masks bit_simps)
  then have "unat (PAGING_PGN x) = (unat x div 2 ^ 8) mod 2 ^ 14"
    by (simp only: unat_low unat_shift)
  then show ?thesis using o assms by (simp add: macro_defs)
qed

theorem address_fields_witness:
  "unat (PAGING_PGN 0x12345) = unat (0x12345 :: u32) div 256 \<and> unat (PAGING_OFFST 0x12345) = unat (0x12345 :: u32) mod 256"
  using address_fields [of "0x12345"] by (simp add: macro_defs)

text \<open>The offset mask of a 64-bit address covers 8 bits only, not the 12 of a 4096 byte page.\<close>

lemma offset_mask64_short: "PAGING64_ADDR_OFFST_MASK = 0xFF" "PAGING64_ADDR_OFFST_MASK \<noteq> of_nat PAGING64_PAGESZ - 1"
  by (simp_all add: field_masks mask_eq_exp_minus_1 macro_defs)

end
