(* ===== verification/Spec2Isabelle.thy ===== *)
theory Spec2Isabelle
  imports Paging FirstFit Boot Copy Mm32 Macros
begin

text \<open>
  Verification of an operating system simulator written in C: a loader and a number of processors, each
  a thread, run small programs under a multi-level queue scheduler; the programs allocate and access
  memory through regions, five-level page tables, demand paging with a swap device, system calls and a
  kernel allocator; a timer thread keeps the other threads in step.  The model is the configuration
  that \<open>include/os-cfg.h\<close> selects: \<open>MLQ_SCHED\<close>, \<open>MM_PAGING\<close> and \<open>MM64\<close>.

  \<^bold>\<open>Conventions.\<close>  State is passed explicitly.  \<open>None\<close> is undefined behaviour of C (a null or
  dangling dereference, an index out of bounds, the use of an uninitialised value, signed overflow);
  error codes are ordinary results inside \<open>Some\<close>.  Machine integers are words of their width.
  The number \<open>w_hostmem\<close> of the world says how many more calls of the host's allocator
  succeed, so every path on which \<open>malloc\<close> fails is part of the model; a theorem that needs
  allocations to succeed states how many (six for each page that is mapped and two for a region, nine for a
  page fault).  Loops are structural recursions on the number of rounds left or functions with a
  termination proof; no fuel is used.

  \<^bold>\<open>Parts, and the theories that model them.\<close>

  \<^item> \<open>Prelude\<close>: C types, array access with bounds, shared lemmas and the collections of facts.
  \<^item> \<open>Pte\<close> (\<open>bitops.h\<close>, \<open>mm.h\<close>, \<open>mm64.h\<close>, the bit operations of \<open>mm64.c\<close>): page table
    entries and the five directory indices of a page.  Entries read back what was set, and the
    indices determine the page.  \<open>Macros\<close> has the remaining macros, those of the 22-bit bus.
  \<^item> \<open>Queue\<close> (\<open>queue.c\<close>): the array queues, as an interpretation of the locale
    \<open>bounded_fifo\<close>.
  \<^item> \<open>Sched\<close> (\<open>sched.c\<close>): \<open>get_proc\<close>, \<open>put_proc\<close>, \<open>add_proc\<close> on the queues of the 140
    levels.  Dispatch by priority, refill, and freedom from starvation in any sequence of calls.
  \<^item> \<open>Memphy\<close> (\<open>mm-memphy.c\<close>): RAM and swap devices; the frame lists interpret the locale
    \<open>frame_pool\<close>.
  \<^item> \<open>Kernel\<close> (\<open>common.h\<close>, \<open>os-mm.h\<close>): control blocks, memory descriptors, the kernel
    structure and the record \<open>world\<close> that holds them.
  \<^item> \<open>PageTable\<close> (\<open>mm64.c\<close>): the walk of the page tables with its statistics, and the entry
    accessors.  Seen through \<open>vpage\<close> the tables are a map from page numbers to entries; the
    tables interpret the locale \<open>entry_store\<close>.
  \<^item> \<open>Mm64\<close> (\<open>mm64.c\<close>): frame allocation, mapping of page ranges, page copies and \<open>init_mm\<close>.
  \<^item> \<open>MmVm\<close> (\<open>mm-vm.c\<close>): memory areas and their growth.
  \<^item> \<open>Syscall\<close> (\<open>syscall.c\<close>, \<open>syscall.tbl\<close>, \<open>sys_mem.c\<close>, \<open>sys_listsyscall.c\<close>,
    \<open>libstd.c\<close>): the dispatcher and both system calls.
  \<^item> \<open>Libmem\<close> (first half of \<open>libmem.c\<close>): regions, demand paging and byte access of user
    programs.  \<open>Regions\<close> shows that allocated and free regions never overlap, \<open>Returns\<close>
    that every sequence of allocations and releases is served to its end whether or not frames are
    left, \<open>Start\<close> that this holds from the moment the loader has registered a process,
    \<open>FirstFit\<close> that the search of the free list is first fit on intervals, \<open>Isolation\<close> that page faults and stores keep the
    contents of every page of every process except the byte stored, and \<open>Access\<close> that all operations a program can ask
    for return on a well-formed address space, keep it well formed and touch no other process.
  \<^item> \<open>Kmem\<close> (second half of \<open>libmem.c\<close>): kernel allocation, cache pools, kernel and user byte
    access, copies; \<open>KmemProps\<close> has what they guarantee, \<open>KernelCalls\<close> that,
    called among other processes, they return, keep the kernel's descriptor and the paging invariant and touch no process
    but the caller, and \<open>Copy\<close> that a copy to user memory transfers
    every byte although pages may be swapped out on the way.
  \<^item> \<open>Cpu\<close> (\<open>cpu.c\<close>): \<open>run\<close>, one instruction.  \<open>Frames\<close> collects what the memory
    operations leave alone.  \<open>Programs\<close> has the effect of each instruction on user memory, an abstract store of
    one byte or none, and the locales \<open>separated\<close> and \<open>counted\<close> of domains that take turns on a shared state, interpreted
    on \<open>run\<close>: every interleaving of programs runs to its end and keeps them apart.
  \<^item> \<open>Loader\<close> (\<open>loader.c\<close>): the text format and \<open>load\<close>; \<open>LoaderText\<close> has a printer of
    programs and shows that loading undoes it.
  \<^item> \<open>Timer\<close> (\<open>timer.c\<close>): the barrier between the timer thread and the devices, a step relation
    at the granularity of the shared flags.
  \<^item> \<open>Os\<close> (\<open>os.c\<close>): \<open>cpu_routine\<close> and \<open>ld_routine\<close> as a step relation over all
    interleavings, with the invariant of who holds a process.  \<open>Progress\<close> shows that control blocks
    and processors stay well formed and that programs end.  \<open>Machine\<close> joins threads, loader and memory: for programs
    on user and kernel memory no processor ever gets stuck, and the memory of a process changes in its own instructions only.
  \<^item> \<open>Reserve\<close> (no source of its own): every operation a program can call on user memory does the same when the free
    lists of the devices have further frames at their end, as long as enough frames precede them; \<open>KernelReserve\<close> has
    the same for the operations on kernel memory and for \<open>run\<close>.  \<open>Boot\<close> puts
    \<open>Machine\<close>, \<open>Config\<close> and \<open>Memphy\<close> together: the machine \<open>main\<close> starts on the devices of
    \<open>init_memphy\<close> simulates the machine on the frames inside the storage, step by step, so what \<open>Machine\<close>
    shows holds for it.
  \<^item> \<open>Config\<close> (\<open>os.c\<close>): \<open>read_config\<close> and \<open>main\<close>; reading undoes printing, and \<open>main\<close>
    starts the timer and the threads in the initial states of \<open>Timer\<close> and \<open>Os\<close>.
  \<^item> \<open>Lockstep\<close> (\<open>os.c\<close> with \<open>timer.c\<close>): the threads as devices of the timer, in one step
    relation.  Through the locale \<open>simulation\<close> the thread system and the barrier are both
    projections of it; a processor runs at most one instruction in a time slot.
  \<^item> \<open>SegMem\<close> (\<open>mem.c\<close> and the legacy routines of \<open>cpu.c\<close>), \<open>Dump\<close> (the printing routines),
    \<open>Mm32\<close> (\<open>mm.c\<close>, compiled without \<open>MM64\<close>) and \<open>Paging\<close> (\<open>paging.c\<close>): the parts beside
    the main program.

  \<^bold>\<open>How the parts meet.\<close>  \<open>Config.main_start\<close> yields \<open>sys_init\<close> and \<open>timer_init\<close>, so
  the invariants of \<open>sys_reach\<close> and \<open>timer_reach\<close> hold for whatever \<open>main\<close> starts.  A
  processor step calls \<open>run\<close>, which calls the memory library, which reaches the memory manager
  through \<open>do_syscall\<close> as the code does.  An instruction and a call of the scheduler are single
  steps of the thread system.  \<open>Os\<close> lets the clock run freely between them and \<open>Timer\<close>
  leaves open what a device does; \<open>Lockstep\<close> ties the two at the calls of \<open>next_slot\<close> and
  \<open>detach_event\<close>, and the invariants of both carry over.  \<open>Machine\<close> carries the address spaces through every
  step of \<open>Os\<close>: registration by the loader creates a well-formed one, an instruction keeps it by
  \<open>Programs\<close>, and the scheduler and the end of other processes do not touch it.

  \<^bold>\<open>Hypotheses.\<close>  The theorems on paging and on the machine ask for devices all of whose frames lie
  inside their storage.  \<open>init_memphy\<close> does not set up such devices: it divides a device into frames of 256 bytes
  while the memory manager addresses frames of 4096 bytes (\<open>Memphy.init_memphy_frames_too_many\<close>); once a frame past
  the end is handed out, an access is out of range.  For the devices the program really has, \<open>Boot\<close> therefore
  bounds the pages that all programs together ask for by the frames inside the RAM (\<open>good_frames\<close>: the size of
  the device over 4096, and no more than the 8192 frames whose number fits into an entry); then the frames beyond are never
  reached and nothing is ever swapped out.  Programs are bounded by the pages they ask for (below
  2 GB for each process, the range of an \<open>int\<close>) and by the calls of the host's allocator: per
  instruction \<open>inst_host\<close> in \<open>Programs\<close>, and 8 for the registration of a process.  The memory call
  \<open>syscall 17\<close> is excluded from user programs, since it gives access to the memory of all
  processes (\<open>Programs.memory_call_breaks_separation\<close>).  The instructions on kernel memory are included, with any
  operands that keep the arithmetic of \<open>int\<close> in range (\<open>Programs.kernel_inst\<close>); a program has to create a cache
  pool before it takes a slot, since \<open>kmem_cache_alloc\<close> reads a null pool table without a test.  A program that
  comes from a file has \<open>kmalloc\<close> at most, because the names of the other four do not fit into the loader's
  buffer for an opcode; \<open>Programs\<close> covers them for whatever else fills a code segment.

  \<^bold>\<open>What is not modelled.\<close>  Mutexes and condition variables, other than through the choice of
  the atomic steps; the output of the routines that print while they work; \<open>free\<close> of list nodes
  whose contents are not used again; the five arrays \<open>krnl_pgd\<close> to \<open>krnl_pt\<close>, which are
  filled and never read; the variant of the scheduler without \<open>MLQ_SCHED\<close>, which does not compile;
  the build files and the input files.
\<close>

end
